(* ===== verification/Prelude.thy ===== *)
theory Prelude
  imports Main "HOL-Library.Monad_Syntax" "HOL-Library.Multiset"
begin

text \<open>
  Shared vocabulary of the development.

  \<^item> Rust's checked machine arithmetic on \<open>nat\<close>: an operation that leaves the range
    of its type is \<open>None\<close>, which stands for the panic of a build with overflow checks.
  \<^item> Indexing that panics out of range, iteration with early exit, and casts.
  \<^item> \<open>ok m P\<close>: the computation \<open>m\<close> returns (it neither panics nor diverges) and its
    result satisfies \<open>P\<close>.  The rules collected in \<open>wp\<close> push \<open>ok\<close> through the option monad, so
    that a proof about a whole operation reduces to arithmetic side conditions.
  \<^item> Generic facts on list sums, list updates and searches that several components share.
\<close>

named_theorems wp \<open>rules that move a postcondition through the option monad\<close>
named_theorems chips \<open>sums over seats\<close>

section \<open>Computations that may not return\<close>

definition ok :: "'a option \<Rightarrow> ('a \<Rightarrow> bool) \<Rightarrow> bool" where
  "ok m P \<longleftrightarrow> (\<exists>x. m = Some x \<and> P x)"

lemma ok_Some [simp, wp]: "ok (Some x) P \<longleftrightarrow> P x"
  by (simp add: ok_def)

lemma ok_None [simp, wp]: "\<not> ok None P"
  by (simp add: ok_def)

lemma ok_bind [simp, wp]: "ok (m \<bind> f) P \<longleftrightarrow> ok m (\<lambda>x. ok (f x) P)"
  by (cases m) (auto simp: ok_def)

lemma ok_if [wp]: "ok (if b then m else m') P \<longleftrightarrow> (if b then ok m P else ok m' P)"
  by simp

lemma ok_mono: "ok m P \<Longrightarrow> (\<And>x. P x \<Longrightarrow> Q x) \<Longrightarrow> ok m Q"
  by (auto simp: ok_def)

lemma ok_conj: "ok m P \<Longrightarrow> ok m Q \<Longrightarrow> ok m (\<lambda>x. P x \<and> Q x)"
  by (auto simp: ok_def)

lemma okE: "ok m P \<Longrightarrow> (\<And>x. m = Some x \<Longrightarrow> P x \<Longrightarrow> R) \<Longrightarrow> R"
  by (auto simp: ok_def)

lemma okI: "m = Some x \<Longrightarrow> P x \<Longrightarrow> ok m P"
  by (simp add: ok_def)

section \<open>Machine arithmetic\<close>

text \<open>
  \<open>u32\<close> values are naturals below \<open>2 ^ 32\<close>.  The checked operations below are Rust's \<open>+\<close>,
  \<open>-\<close> and \<open>*\<close> with overflow checks; \<open>saturating_sub\<close> is subtraction on \<open>nat\<close>.
\<close>

abbreviation (input) u32_lim :: nat where
  "u32_lim \<equiv> 4294967296"

definition add_u32 :: "nat \<Rightarrow> nat \<Rightarrow> nat option" where
  "add_u32 a b = (if a + b < u32_lim then Some (a + b) else None)"

definition sub_u32 :: "nat \<Rightarrow> nat \<Rightarrow> nat option" where
  "sub_u32 a b = (if b \<le> a then Some (a - b) else None)"

definition mul_u32 :: "nat \<Rightarrow> nat \<Rightarrow> nat option" where
  "mul_u32 a b = (if a * b < u32_lim then Some (a * b) else None)"

definition saturating_add_u32 :: "nat \<Rightarrow> nat \<Rightarrow> nat" where
  "saturating_add_u32 a b = min (a + b) 4294967295"

definition saturating_sub :: "nat \<Rightarrow> nat \<Rightarrow> nat" where
  "saturating_sub a b = a - b"

text \<open>\<open>iter().sum::<u32>()\<close>: checked additions from the left.\<close>

fun sum_u32_from :: "nat \<Rightarrow> nat list \<Rightarrow> nat option" where
  "sum_u32_from acc [] = Some acc"
| "sum_u32_from acc (x # xs) = do { a \<leftarrow> add_u32 acc x; sum_u32_from a xs }"

definition sum_u32 :: "nat list \<Rightarrow> nat option" where
  "sum_u32 xs = sum_u32_from 0 xs"

text \<open>The casts \<open>as i32\<close> and \<open>as u32\<close> from a wider signed integer keep the low 32 bits.\<close>

definition as_i32 :: "int \<Rightarrow> int" where
  "as_i32 x = (x + 2147483648) mod 4294967296 - 2147483648"

definition as_u32 :: "int \<Rightarrow> nat" where
  "as_u32 x = nat (x mod 4294967296)"

definition sub_i32 :: "int \<Rightarrow> int \<Rightarrow> int option" where
  "sub_i32 a b =
     (if - 2147483648 \<le> a - b \<and> a - b < 2147483648 then Some (a - b) else None)"

lemma ok_add_u32 [simp, wp]: "ok (add_u32 a b) P \<longleftrightarrow> a + b < u32_lim \<and> P (a + b)"
  by (simp add: add_u32_def)

lemma ok_sub_u32 [simp, wp]: "ok (sub_u32 a b) P \<longleftrightarrow> b \<le> a \<and> P (a - b)"
  by (simp add: sub_u32_def)

lemma ok_mul_u32 [simp, wp]: "ok (mul_u32 a b) P \<longleftrightarrow> a * b < u32_lim \<and> P (a * b)"
  by (simp add: mul_u32_def)

lemma ok_sub_i32 [simp, wp]:
  "ok (sub_i32 a b) P \<longleftrightarrow> - 2147483648 \<le> a - b \<and> a - b < 2147483648 \<and> P (a - b)"
  by (auto simp: sub_i32_def)

lemma sum_u32_from_eq:
  "acc < u32_lim \<Longrightarrow>
     sum_u32_from acc xs = (if acc + sum_list xs < u32_lim then Some (acc + sum_list xs) else None)"
  by (induction xs arbitrary: acc) (auto simp: add_u32_def)

lemma sum_u32_eq: "sum_u32 xs = (if sum_list xs < u32_lim then Some (sum_list xs) else None)"
  by (simp add: sum_u32_def sum_u32_from_eq)

lemma ok_sum_u32 [simp, wp]: "ok (sum_u32 xs) P \<longleftrightarrow> sum_list xs < u32_lim \<and> P (sum_list xs)"
  by (simp add: sum_u32_eq)

lemma as_i32_id: "- 2147483648 \<le> x \<Longrightarrow> x < 2147483648 \<Longrightarrow> as_i32 x = x"
  by (simp add: as_i32_def)

lemma as_u32_id: "0 \<le> x \<Longrightarrow> x < 4294967296 \<Longrightarrow> as_u32 x = nat x"
  by (simp add: as_u32_def)

section \<open>Indexing and iteration\<close>

text \<open>\<open>xs[i]\<close> as a read: out of range panics.\<close>

definition idx :: "'a list \<Rightarrow> nat \<Rightarrow> 'a option" where
  "idx xs i = (if i < length xs then Some (xs ! i) else None)"

lemma ok_idx [simp, wp]: "ok (idx xs i) P \<longleftrightarrow> i < length xs \<and> P (xs ! i)"
  by (simp add: idx_def)

lemma idx_in [simp]: "i < length xs \<Longrightarrow> idx xs i = Some (xs ! i)"
  by (simp add: idx_def)

text \<open>\<open>for x in xs\<close> over a body that may panic.\<close>

fun for_each :: "'a list \<Rightarrow> ('a \<Rightarrow> 's \<Rightarrow> 's option) \<Rightarrow> 's \<Rightarrow> 's option" where
  "for_each [] f s = Some s"
| "for_each (x # xs) f s = do { s' \<leftarrow> f x s; for_each xs f s' }"

text \<open>\<open>iter().map(f).collect()\<close> over a function that may panic.\<close>

fun map_opt :: "('a \<Rightarrow> 'b option) \<Rightarrow> 'a list \<Rightarrow> 'b list option" where
  "map_opt f [] = Some []"
| "map_opt f (x # xs) = do { y \<leftarrow> f x; ys \<leftarrow> map_opt f xs; Some (y # ys) }"

text \<open>\<open>iter().position(p)\<close>: the first index whose element satisfies \<open>p\<close>.\<close>

fun position :: "('a \<Rightarrow> bool) \<Rightarrow> 'a list \<Rightarrow> nat option" where
  "position p [] = None"
| "position p (x # xs) = (if p x then Some 0 else map_option Suc (position p xs))"

lemma ok_for_each:
  assumes "I [] s"
    and "\<And>done x todo s. xs = done @ x # todo \<Longrightarrow> I done s \<Longrightarrow> ok (f x s) (I (done @ [x]))"
  shows "ok (for_each xs f s) (I xs)"
proof -
  have "ok (for_each ys f s) (I xs)" if "xs = done @ ys" "I done s" for ys s "done"
    using that
  proof (induction ys arbitrary: s "done")
    case Nil
    then show ?case by simp
  next
    case (Cons y ys)
    have "ok (f y s) (I (done @ [y]))"
      using assms(2) Cons.prems by blast
    then show ?case
      by (rule okE) (use Cons.IH [of "done @ [y]"] Cons.prems(1) in auto)
  qed
  from this [of "[]" xs s] assms(1) show ?thesis by simp
qed

lemma ok_for_each_inv:
  assumes "I s" and "\<And>x s. x \<in> set xs \<Longrightarrow> I s \<Longrightarrow> ok (f x s) I"
  shows "ok (for_each xs f s) I"
  using ok_for_each [where I = "\<lambda>_. I" and xs = xs and s = s and f = f] assms by auto

lemma map_opt_eq_map:
  "(\<And>x. x \<in> set xs \<Longrightarrow> f x = Some (g x)) \<Longrightarrow> map_opt f xs = Some (map g xs)"
  by (induction xs) auto

lemma position_SomeD: "position p xs = Some i \<Longrightarrow> i < length xs \<and> p (xs ! i)"
  by (induction xs arbitrary: i) (auto split: if_splits)

lemma position_first: "position p xs = Some i \<Longrightarrow> j < i \<Longrightarrow> \<not> p (xs ! j)"
proof (induction xs arbitrary: i j)
  case (Cons x xs)
  then show ?case by (cases j) (auto split: if_splits)
qed simp

lemma position_None: "position p xs = None \<longleftrightarrow> (\<forall>x \<in> set xs. \<not> p x)"
  by (induction xs) auto

lemma position_ex: "x \<in> set xs \<Longrightarrow> p x \<Longrightarrow> \<exists>i. position p xs = Some i"
  by (metis not_Some_eq position_None)

lemma find_member: "find P xs = Some x \<Longrightarrow> x \<in> set xs \<and> P x"
  by (induction xs) (auto split: if_splits)

lemma map_fst_filter_enumerate:
  "map fst (filter (\<lambda>(_, x). P x) (enumerate 0 xs)) = filter (\<lambda>i. P (xs ! i)) [0..<length xs]"
proof (induction xs rule: rev_induct)
  case (snoc x xs)
  have "filter (\<lambda>i. P ((xs @ [x]) ! i)) [0..<length xs] = filter (\<lambda>i. P (xs ! i)) [0..<length xs]"
    by (rule filter_cong) (auto simp: nth_append)
  with snoc show ?case
    by (simp add: enumerate_append_eq)
qed simp

lemma map_snd_filter_enumerate:
  "map snd (filter (\<lambda>(_, x). P x) (enumerate k xs)) = filter P xs"
  by (induction xs arbitrary: k) auto

lemma map_snd_filter_index:
  "map snd (filter (\<lambda>(k, _). P k) (enumerate 0 xs)) = map ((!) xs) (filter P [0..<length xs])"
proof (induction xs rule: rev_induct)
  case (snoc x xs)
  have "map ((!) (xs @ [x])) (filter P [0..<length xs]) = map ((!) xs) (filter P [0..<length xs])"
    by (auto simp: nth_append)
  with snoc show ?case
    by (simp add: enumerate_append_eq)
qed simp

lemma distinct_concat_filter:
  "distinct (concat (map f xs)) \<Longrightarrow> distinct (concat (map f (filter P xs)))"
  by (induction xs) auto

section \<open>Sums over seats\<close>

lemma sum_list_update [chips]:
  fixes f :: "'a \<Rightarrow> nat"
  assumes "i < length xs"
  shows "sum_list (map f (xs[i := y])) + f (xs ! i) = sum_list (map f xs) + f y"
  using assms
proof (induction xs arbitrary: i)
  case (Cons x xs)
  then show ?case by (cases i) (auto simp: add.commute add.left_commute)
qed simp

lemma sum_list_update_same:
  fixes f :: "'a \<Rightarrow> nat"
  assumes "i < length xs" "f y = f (xs ! i)"
  shows "sum_list (map f (xs[i := y])) = sum_list (map f xs)"
  using sum_list_update [OF assms(1), of f y] assms(2) by simp

lemma sum_list_member_le [chips]:
  fixes f :: "'a \<Rightarrow> nat"
  assumes "i < length xs"
  shows "f (xs ! i) \<le> sum_list (map f xs)"
  using assms
proof (induction xs arbitrary: i)
  case (Cons x xs)
  show ?case
  proof (cases i)
    case (Suc j)
    with Cons show ?thesis by (simp add: trans_le_add2)
  qed simp
qed simp

lemma sum_list_mono_map:
  fixes f g :: "'a \<Rightarrow> nat"
  assumes "\<And>x. x \<in> set xs \<Longrightarrow> f x \<le> g x"
  shows "sum_list (map f xs) \<le> sum_list (map g xs)"
  using assms by (induction xs) (auto intro: add_mono)

lemma length_filter_update:
  assumes "i < length xs"
  shows "length (filter P (xs[i := y])) + (if P (xs ! i) then 1 else 0)
       = length (filter P xs) + (if P y then 1 else 0)"
  using assms
proof (induction xs arbitrary: i)
  case (Cons x xs)
  then show ?case by (cases i) auto
qed simp

lemma set_update_subset: "x \<in> set (xs[i := y]) \<Longrightarrow> x = y \<or> x \<in> set xs"
  using set_update_subset_insert [of xs i y] by auto

lemma ball_set_update:
  "(\<And>x. x \<in> set xs \<Longrightarrow> P x) \<Longrightarrow> P y \<Longrightarrow> x \<in> set (xs[i := y]) \<Longrightarrow> P x"
  by (drule set_update_subset) auto

end
