(* ===== verification/Cards.thy ===== *)
theory Cards
  imports Prelude "HOL-Library.Word"
begin

unbundle bit_operations_syntax

text \<open>
  Cards, hand ranks and the deck: \<open>core/card.rs\<close>, \<open>core/hand_rank.rs\<close>, \<open>core/deck.rs\<close>.

  A card is one byte, rank in bits 2 to 5 and suit in bits 0 and 1.  \<open>Card::rank\<close> and
  \<open>Card::suit\<close> transmute those bits into an enum; a bit pattern that is no variant is undefined
  behaviour in Rust and \<open>None\<close> here.  The deck is shuffled by Fisher-Yates over the generator of
  the \<open>rand\<close> crate, which is a parameter: \<open>seed_from_u64\<close> makes its state from a seed and
  \<open>gen_range r i\<close> is \<open>rng.gen_range(0..=i)\<close>, the drawn number with the next state.  What the
  shuffle relies on is the named hypothesis \<open>draws_in_range\<close>.
\<close>

section \<open>Ranks, suits, cards\<close>

datatype rank =
  Two | Three | Four | Five | Six | Seven | Eight | Nine | Ten | Jack | Queen | King | Ace

datatype suit = Clubs | Diamonds | Hearts | Spades

text \<open>The discriminants of the \<open>repr(u8)\<close> enums, as \<open>rank as u8\<close> and \<open>suit as u8\<close>.\<close>

fun rank_u8 :: "rank \<Rightarrow> 8 word" where
  "rank_u8 Two = 0" | "rank_u8 Three = 1" | "rank_u8 Four = 2" | "rank_u8 Five = 3"
| "rank_u8 Six = 4" | "rank_u8 Seven = 5" | "rank_u8 Eight = 6" | "rank_u8 Nine = 7"
| "rank_u8 Ten = 8" | "rank_u8 Jack = 9" | "rank_u8 Queen = 10" | "rank_u8 King = 11"
| "rank_u8 Ace = 12"

fun suit_u8 :: "suit \<Rightarrow> 8 word" where
  "suit_u8 Clubs = 0" | "suit_u8 Diamonds = 1" | "suit_u8 Hearts = 2" | "suit_u8 Spades = 3"

text \<open>\<open>transmute\<close> of a byte into \<open>Rank\<close> or \<open>Suit\<close>.\<close>

definition all_ranks :: "rank list" where
  "all_ranks = [Two, Three, Four, Five, Six, Seven, Eight, Nine, Ten, Jack, Queen, King, Ace]"

definition all_suits :: "suit list" where
  "all_suits = [Clubs, Diamonds, Hearts, Spades]"

definition transmute_rank :: "8 word \<Rightarrow> rank option" where
  "transmute_rank b = idx all_ranks (unat b)"

definition transmute_suit :: "8 word \<Rightarrow> suit option" where
  "transmute_suit b = idx all_suits (unat b)"

datatype card = Card (card_byte: "8 word")

definition card_new :: "rank \<Rightarrow> suit \<Rightarrow> card" where
  "card_new r s = Card (push_bit 2 (rank_u8 r) OR suit_u8 s)"

definition card_rank :: "card \<Rightarrow> rank option" where
  "card_rank c = transmute_rank (drop_bit 2 (card_byte c))"

definition card_suit :: "card \<Rightarrow> suit option" where
  "card_suit c = transmute_suit (card_byte c AND 3)"

definition card_index :: "card \<Rightarrow> nat" where
  "card_index c = unat (card_byte c)"

definition card_mask :: "card \<Rightarrow> 64 word" where
  "card_mask c = push_bit (unat (card_byte c)) 1"

fun rank_char :: "rank \<Rightarrow> char" where
  "rank_char Two = CHR ''2''" | "rank_char Three = CHR ''3''" | "rank_char Four = CHR ''4''"
| "rank_char Five = CHR ''5''" | "rank_char Six = CHR ''6''" | "rank_char Seven = CHR ''7''"
| "rank_char Eight = CHR ''8''" | "rank_char Nine = CHR ''9''" | "rank_char Ten = CHR ''T''"
| "rank_char Jack = CHR ''J''" | "rank_char Queen = CHR ''Q''" | "rank_char King = CHR ''K''"
| "rank_char Ace = CHR ''A''"

fun suit_char :: "suit \<Rightarrow> char" where
  "suit_char Clubs = CHR ''c''" | "suit_char Diamonds = CHR ''d''"
| "suit_char Hearts = CHR ''h''" | "suit_char Spades = CHR ''s''"

text \<open>The \<open>Debug\<close> and \<open>Display\<close> implementations.\<close>

definition card_fmt :: "card \<Rightarrow> string option" where
  "card_fmt c = do { r \<leftarrow> card_rank c; s \<leftarrow> card_suit c; Some [rank_char r, suit_char s] }"

text \<open>\<open>Rank\<close> derives \<open>Ord\<close>: variants compare by discriminant.\<close>

instantiation rank :: linorder
begin

definition less_eq_rank :: "rank \<Rightarrow> rank \<Rightarrow> bool" where
  "less_eq_rank a b \<longleftrightarrow> rank_u8 a \<le> rank_u8 b"

definition less_rank :: "rank \<Rightarrow> rank \<Rightarrow> bool" where
  "less_rank a b \<longleftrightarrow> rank_u8 a < rank_u8 b"

lemma rank_u8_inject: "rank_u8 a = rank_u8 b \<longleftrightarrow> a = b"
  by (cases a; cases b) simp_all

instance
proof
  fix a b :: rank
  show "a = b" if "a \<le> b" "b \<le> a"
    using that by (simp add: less_eq_rank_def rank_u8_inject [symmetric])
qed (auto simp: less_eq_rank_def less_rank_def)

end

section \<open>Hand ranks\<close>

datatype hand_rank = HandRank (hand_rank_u32: "32 word")

datatype hand_category =
  HighCard | OnePair | TwoPair | ThreeOfAKind | Straight | Flush | FullHouse | FourOfAKind
| StraightFlush

definition all_categories :: "hand_category list" where
  "all_categories = [HighCard, OnePair, TwoPair, ThreeOfAKind, Straight, Flush, FullHouse,
     FourOfAKind, StraightFlush]"

definition hand_rank_category :: "hand_rank \<Rightarrow> hand_category" where
  "hand_rank_category h = all_categories ! min (unat (drop_bit 28 (hand_rank_u32 h))) 8"

text \<open>\<open>HandRank\<close> derives \<open>Ord\<close>: the unsigned order of the 32-bit value.\<close>

instantiation hand_rank :: linorder
begin

definition less_eq_hand_rank :: "hand_rank \<Rightarrow> hand_rank \<Rightarrow> bool" where
  "less_eq_hand_rank a b \<longleftrightarrow> hand_rank_u32 a \<le> hand_rank_u32 b"

definition less_hand_rank :: "hand_rank \<Rightarrow> hand_rank \<Rightarrow> bool" where
  "less_hand_rank a b \<longleftrightarrow> hand_rank_u32 a < hand_rank_u32 b"

instance
  by standard (auto simp: less_eq_hand_rank_def less_hand_rank_def intro: hand_rank.expand)

end

section \<open>The deck\<close>

record deck =
  d_cards :: "card list"
  d_cursor :: nat
  d_seed :: "64 word"

text \<open>\<open>cards.swap(i, j)\<close>.\<close>

definition swap :: "'a list \<Rightarrow> nat \<Rightarrow> nat \<Rightarrow> 'a list option" where
  "swap xs i j = do { a \<leftarrow> idx xs i; b \<leftarrow> idx xs j; Some (xs[i := b, j := a]) }"

text \<open>The loop \<open>for i in (1..n).rev()\<close> of \<open>Deck::shuffle\<close>, from index \<open>i\<close> downwards.\<close>

fun shuffle_from ::
  "('r \<Rightarrow> nat \<Rightarrow> nat \<times> 'r) \<Rightarrow> nat \<Rightarrow> 'r \<Rightarrow> 'a list \<Rightarrow> 'a list option" where
  "shuffle_from gen_range 0 r xs = Some xs"
| "shuffle_from gen_range (Suc i) r xs =
     (let (j, r') = gen_range r (Suc i)
      in do { xs' \<leftarrow> swap xs (Suc i) j; shuffle_from gen_range i r' xs' })"

definition shuffle ::
  "('r \<Rightarrow> nat \<Rightarrow> nat \<times> 'r) \<Rightarrow> (64 word \<Rightarrow> 'r) \<Rightarrow> deck \<Rightarrow> deck option" where
  "shuffle gen_range seed_from_u64 d =
     do { cs \<leftarrow> shuffle_from gen_range (length (d_cards d) - 1) (seed_from_u64 (d_seed d))
                 (d_cards d);
          Some (d\<lparr>d_cards := cs\<rparr>) }"

definition fresh_cards :: "card list" where
  "fresh_cards = map (\<lambda>i. Card (of_nat i)) [0..<52]"

definition deck_new ::
  "('r \<Rightarrow> nat \<Rightarrow> nat \<times> 'r) \<Rightarrow> (64 word \<Rightarrow> 'r) \<Rightarrow> 64 word \<Rightarrow> deck option" where
  "deck_new gen_range seed_from_u64 seed =
     shuffle gen_range seed_from_u64 \<lparr>d_cards = fresh_cards, d_cursor = 0, d_seed = seed\<rparr>"

definition deck_deal :: "deck \<Rightarrow> (card \<times> deck) option" where
  "deck_deal d = do { c \<leftarrow> idx (d_cards d) (d_cursor d); Some (c, d\<lparr>d_cursor := d_cursor d + 1\<rparr>) }"

definition deck_remaining :: "deck \<Rightarrow> nat option" where
  "deck_remaining d = sub_u32 52 (d_cursor d)"

text \<open>\<open>(0..n).map(|_| deck.deal()).collect()\<close>.\<close>

fun deal_n :: "nat \<Rightarrow> deck \<Rightarrow> (card list \<times> deck) option" where
  "deal_n 0 d = Some ([], d)"
| "deal_n (Suc n) d =
     do { (c, d') \<leftarrow> deck_deal d; (cs, d'') \<leftarrow> deal_n n d'; Some (c # cs, d'') }"

text \<open>What the shuffle relies on: \<open>gen_range(0..=i)\<close> draws a number of at most \<open>i\<close>.\<close>

definition draws_in_range :: "('r \<Rightarrow> nat \<Rightarrow> nat \<times> 'r) \<Rightarrow> bool" where
  "draws_in_range gen_range \<longleftrightarrow> (\<forall>r i. fst (gen_range r i) \<le> i)"

text \<open>A deck that can still deal \<open>k\<close> cards: 52 distinct cards, the cursor not past \<open>52 - k\<close>.\<close>

definition deck_wf :: "nat \<Rightarrow> deck \<Rightarrow> bool" where
  "deck_wf k d \<longleftrightarrow> mset (d_cards d) = mset fresh_cards \<and> d_cursor d + k \<le> 52"

section \<open>Facts about cards\<close>

lemma card_rank_new: "card_rank (card_new r s) = Some r"
  by (cases r; cases s; simp add: card_rank_def card_new_def transmute_rank_def all_ranks_def)

lemma card_suit_new: "card_suit (card_new r s) = Some s"
  by (cases r; cases s; simp add: card_suit_def card_new_def transmute_suit_def all_suits_def)

lemma card_index_new: "card_index (card_new r s) = 4 * unat (rank_u8 r) + unat (suit_u8 s)"
  by (cases r; cases s; simp add: card_index_def card_new_def)

lemma unat_rank_u8: "unat (rank_u8 r) < 13"
  by (cases r) simp_all

lemma unat_suit_u8: "unat (suit_u8 s) < 4"
  by (cases s) simp_all

lemma rank_u8_le_12: "rank_u8 r \<le> 12"
  by (cases r) simp_all

lemma unat_rank_inject: "unat (rank_u8 a) = unat (rank_u8 b) \<longleftrightarrow> a = b"
  by (metis rank_u8_inject word_unat_eq_iff)

lemma less_eq_rank_unat: "a \<le> b \<longleftrightarrow> unat (rank_u8 a) \<le> unat (rank_u8 b)" for a b :: rank
  by (simp add: less_eq_rank_def word_le_nat_alt)

lemma less_rank_unat: "a < b \<longleftrightarrow> unat (rank_u8 a) < unat (rank_u8 b)" for a b :: rank
  by (simp add: less_rank_def word_less_nat_alt)

lemma card_of_index: "card_index c < 52 \<Longrightarrow> \<exists>r s. c = card_new r s"
proof -
  have "\<forall>i < 52. \<exists>r \<in> set all_ranks. \<exists>s \<in> set all_suits. Card (of_nat i) = card_new r s"
    by code_simp
  moreover assume "card_index c < 52"
  moreover have "c = Card (of_nat (card_index c))"
    by (simp add: card_index_def)
  ultimately show ?thesis by metis
qed

lemma card_new_inject: "card_new r s = card_new r' s' \<longleftrightarrow> r = r' \<and> s = s'"
  by (metis card_rank_new card_suit_new option.inject)

lemma card_pack_index: "card_index c < 52 \<longleftrightarrow> (\<exists>r s. c = card_new r s)"
proof
  assume "\<exists>r s. c = card_new r s"
  then obtain r s where "c = card_new r s" by blast
  then show "card_index c < 52"
    using unat_rank_u8 [of r] unat_suit_u8 [of s] by (simp add: card_index_new)
qed (rule card_of_index)

text \<open>
  The packed representation loses nothing: a card built from a rank and a suit gives both
  back, every byte below 52 is the byte of exactly one such card, and no other byte is.
\<close>

theorem card_pack_roundtrip:
  "card_rank (card_new r s) = Some r \<and> card_suit (card_new r s) = Some s
   \<and> (card_index c < 52 \<longleftrightarrow> (\<exists>!p. c = card_new (fst p) (snd p)))"
proof -
  have "\<exists>!p. c = card_new (fst p) (snd p)" if less: "card_index c < 52"
  proof -
    obtain r s where c: "c = card_new r s"
      using card_of_index [OF less] by blast
    show ?thesis
      by (rule ex1I [of _ "(r, s)"]) (auto simp: c card_new_inject)
  qed
  moreover have "card_index c < 52" if "c = card_new (fst p) (snd p)" for p
    using unat_rank_u8 [of "fst p"] unat_suit_u8 [of "snd p"] by (simp add: that card_index_new)
  ultimately show ?thesis
    by (auto simp: card_rank_new card_suit_new)
qed

section \<open>Facts about the deck\<close>

lemma mset_swap: "swap xs i j = Some ys \<Longrightarrow> mset ys = mset xs"
  by (auto simp: swap_def idx_def bind_eq_Some_conv mset_swap split: if_splits)

lemma length_swap: "swap xs i j = Some ys \<Longrightarrow> length ys = length xs"
  by (auto simp: swap_def bind_eq_Some_conv)

lemma shuffle_from_mset:
  assumes "draws_in_range gen_range" and "i < length xs"
  shows "ok (shuffle_from gen_range i r xs) (\<lambda>ys. mset ys = mset xs)"
  using assms(2)
proof (induction i arbitrary: r xs)
  case 0
  then show ?case by simp
next
  case (Suc i)
  obtain j r' where g: "gen_range r (Suc i) = (j, r')"
    by force
  then have "j \<le> Suc i"
    using assms(1) unfolding draws_in_range_def by (metis fst_conv)
  then obtain ys where ys: "swap xs (Suc i) j = Some ys"
    using Suc.prems by (auto simp: swap_def)
  have "ok (shuffle_from gen_range i r' ys) (\<lambda>zs. mset zs = mset ys)"
    using Suc.IH Suc.prems length_swap [OF ys] by simp
  then show ?case
    using mset_swap [OF ys] by (simp add: g ys)
qed

lemma length_fresh_cards [simp]: "length fresh_cards = 52"
  by (simp add: fresh_cards_def)

lemma distinct_fresh_cards: "distinct fresh_cards"
  by code_simp

lemma deck_wf_length: "deck_wf k d \<Longrightarrow> length (d_cards d) = 52"
  unfolding deck_wf_def by (metis length_fresh_cards size_mset)

lemma deck_wf_distinct: "deck_wf k d \<Longrightarrow> distinct (d_cards d)"
  unfolding deck_wf_def by (metis distinct_fresh_cards mset_eq_imp_distinct_iff)

lemma deck_new_wf:
  assumes "draws_in_range gen_range"
  shows "ok (deck_new gen_range seed_from_u64 seed)
     (\<lambda>d. deck_wf 52 d \<and> d_cursor d = 0 \<and> d_seed d = seed)"
  using shuffle_from_mset [OF assms, of 51 fresh_cards "seed_from_u64 seed"]
  by (auto simp: deck_new_def shuffle_def deck_wf_def elim: ok_mono)

lemma deck_deal_wf:
  assumes "deck_wf (Suc k) d"
  shows "ok (deck_deal d) (\<lambda>(c, d'). deck_wf k d' \<and> c = d_cards d ! d_cursor d
     \<and> d' = d\<lparr>d_cursor := d_cursor d + 1\<rparr>)"
  using assms deck_wf_length [OF assms] by (simp add: deck_deal_def deck_wf_def)

lemma deal_n_wf:
  assumes "deck_wf (n + k) d"
  shows "ok (deal_n n d) (\<lambda>(cs, d'). deck_wf k d' \<and> cs = take n (drop (d_cursor d) (d_cards d))
     \<and> d' = d\<lparr>d_cursor := d_cursor d + n\<rparr>)"
  using assms
proof (induction n arbitrary: d)
  case 0
  then show ?case by simp
next
  case (Suc n)
  from deck_deal_wf [of "n + k" d] Suc.prems
  obtain c d' where d: "deck_deal d = Some (c, d')" and wf: "deck_wf (n + k) d'"
    and c: "c = d_cards d ! d_cursor d" and d': "d' = d\<lparr>d_cursor := d_cursor d + 1\<rparr>"
    by (auto simp: ok_def)
  have len: "d_cursor d < length (d_cards d)"
    using deck_wf_length [OF Suc.prems] Suc.prems by (simp add: deck_wf_def)
  then have "take (Suc n) (drop (d_cursor d) (d_cards d))
      = c # take n (drop (d_cursor d') (d_cards d'))"
    by (simp add: Cons_nth_drop_Suc [symmetric] c d')
  with Suc.IH [OF wf] show ?case
    by (auto simp: d d' ok_def)
qed

text \<open>
  Whatever the seed, \<open>Deck::new\<close> returns a permutation of the 52 cards, and dealing all of
  them one after the other returns every card once and leaves none.
\<close>

theorem deck_deals_each_card_once:
  assumes "draws_in_range gen_range"
  shows "ok (do { d \<leftarrow> deck_new gen_range seed_from_u64 seed; deal_n 52 d })
     (\<lambda>(cs, d'). distinct cs \<and> set cs = {card_new r s | r s. True} \<and> deck_remaining d' = Some 0)"
proof -
  from deck_new_wf [OF assms]
  obtain d where d: "deck_new gen_range seed_from_u64 seed = Some d" and wf: "deck_wf (52 + 0) d"
    and cur: "d_cursor d = 0"
    by (auto simp: ok_def)
  have len: "length (d_cards d) = 52" and dist: "distinct (d_cards d)"
    using wf deck_wf_length deck_wf_distinct by blast+
  have "set (d_cards d) = set fresh_cards"
    using wf unfolding deck_wf_def by (metis set_mset_mset)
  also have "\<dots> = {c. card_index c < 52}"
  proof -
    have "c \<in> set fresh_cards" if "card_index c < 52" for c
    proof -
      have "c = Card (of_nat (card_index c))" by (simp add: card_index_def)
      with that show ?thesis unfolding fresh_cards_def by force
    qed
    moreover have "card_index c < 52" if "c \<in> set fresh_cards" for c
      using that by (auto simp: fresh_cards_def card_index_def unsigned_of_nat take_bit_nat_eq_self)
    ultimately show ?thesis by blast
  qed
  also have "\<dots> = {card_new r s | r s. True}"
    using card_pack_index by blast
  finally have all: "set (d_cards d) = {card_new r s | r s. True}" .
  from deal_n_wf [OF wf] show ?thesis
    by (auto simp: d cur len all dist deck_remaining_def sub_u32_def ok_def)
qed

theorem deck_deals_each_card_once_witness:
  "ok (do { d \<leftarrow> deck_new (\<lambda>r i. (r mod Suc i, r * 5 + 3)) unat 42; deal_n 52 d })
     (\<lambda>(cs, d'). distinct cs \<and> set cs = {card_new r s | r s. True} \<and> deck_remaining d' = Some 0)"
  by (rule deck_deals_each_card_once) (simp add: draws_in_range_def less_Suc_eq_le [symmetric])

end
