(* ===== verification/Game.thy ===== *)
theory Game
  imports Cards
begin

text \<open>
  The data model of one hand: \<open>game/action.rs\<close>, \<open>game/state.rs\<close>, \<open>game/rules.rs\<close>, the event and
  result types of \<open>game/event.rs\<close> and the observation types of \<open>agent/mod.rs\<close>.

  Field names carry a short prefix for their struct (\<open>p_\<close> player, \<open>g_\<close> game state, \<open>la_\<close> legal
  actions, \<open>so_\<close> seat outcome, \<open>hr_\<close> hand result, \<open>o_\<close> observation).  The variant \<open>PlayerStatus::AllIn\<close>
  is \<open>PAllIn\<close>, since \<open>AllIn\<close> is the action.  Chip amounts are naturals that stand for \<open>u32\<close>.
\<close>

section \<open>Actions\<close>

datatype action = Fold | Check | Call | Raise nat | AllIn

record legal_actions =
  la_can_check :: bool
  la_can_call :: bool
  la_call_amount :: nat
  la_can_raise :: bool
  la_min_raise :: nat
  la_max_raise :: nat
  la_all_in_amount :: nat

fun is_legal :: "legal_actions \<Rightarrow> action \<Rightarrow> bool" where
  "is_legal la Fold = True"
| "is_legal la Check = la_can_check la"
| "is_legal la Call = la_can_call la"
| "is_legal la (Raise amount) =
     (la_can_raise la \<and> la_min_raise la \<le> amount \<and> amount \<le> la_max_raise la)"
| "is_legal la AllIn = (0 < la_all_in_amount la)"

section \<open>State of a hand\<close>

datatype street = Preflop | Flop | Turn | River | Showdown

datatype player_status = Active | Folded | PAllIn | Out

datatype seat_kind = Live | DeadHand

record player_state =
  p_stack :: nat
  p_hole_cards :: "(card \<times> card) option"
  p_bet_this_street :: nat
  p_total_committed :: nat
  p_status :: player_status

record side_pot =
  sp_amount :: nat
  sp_eligible_seats :: "nat list"

record pot =
  pot_main :: nat
  pot_side :: "side_pot list"

definition pot_default :: pot where
  "pot_default = \<lparr>pot_main = 0, pot_side = []\<rparr>"

definition pot_total :: "pot \<Rightarrow> nat option" where
  "pot_total p = do { s \<leftarrow> sum_u32 (map sp_amount (pot_side p)); add_u32 (pot_main p) s }"

record game_state =
  g_hand_id :: nat
  g_street :: street
  g_board :: "card list"
  g_players :: "player_state list"
  g_pot :: pot
  g_action_on :: "nat option"
  g_dealer :: nat
  g_last_aggressor :: "nat option"
  g_current_bet :: nat
  g_min_raise_increment :: nat
  g_cumulative_short_increment :: nat
  g_sat_out :: "bool list"

text \<open>The filter shared by \<open>active_players\<close>, \<open>players_still_in\<close> and every search for a winner.\<close>

definition still_in :: "player_state \<Rightarrow> bool" where
  "still_in p \<longleftrightarrow> p_status p = Active \<or> p_status p = PAllIn"

definition is_active :: "player_state \<Rightarrow> bool" where
  "is_active p \<longleftrightarrow> p_status p = Active"

definition active_players :: "game_state \<Rightarrow> (nat \<times> player_state) list" where
  "active_players st = filter (\<lambda>(_, p). still_in p) (enumerate 0 (g_players st))"

definition players_still_in :: "game_state \<Rightarrow> nat" where
  "players_still_in st = length (filter still_in (g_players st))"

section \<open>Rules\<close>

datatype bet_variant = NoLimit | PotLimit | FixedLimit

record betting_rules =
  r_variant :: bet_variant
  r_small_blind :: nat
  r_big_blind :: nat
  r_ante :: nat
  r_max_players :: nat

definition no_limit_holdem :: "nat \<Rightarrow> nat \<Rightarrow> nat \<Rightarrow> betting_rules" where
  "no_limit_holdem sb bb mx =
     \<lparr>r_variant = NoLimit, r_small_blind = sb, r_big_blind = bb, r_ante = 0, r_max_players = mx\<rparr>"

section \<open>Events and results\<close>

record seat_outcome =
  so_seat :: nat
  so_hole_cards :: "(card \<times> card) option"
  so_chip_delta :: int
  so_sat_out :: bool

record hand_result =
  hr_hand_id :: nat
  hr_board :: "card list"
  hr_seats :: "seat_outcome list"

datatype engine_event =
  HandStarted (hs_hand_id: nat) (hs_dealer: nat) (hs_deck_seed: "64 word")
| HoleCardsDealt nat "card \<times> card"
| BoardDealt street "card list"
| ActionTaken nat action nat
| PlayerAllIn nat nat
| HandEnded nat hand_result

section \<open>What agents see\<close>

record public_player_state =
  pp_seat :: nat
  pp_stack :: nat
  pp_bet_this_street :: nat
  pp_is_folded :: bool
  pp_is_all_in :: bool

record observation =
  o_hole_cards :: "card \<times> card"
  o_board :: "card list"
  o_pot :: pot
  o_legal_actions :: legal_actions
  o_players :: "public_player_state list"
  o_street :: street
  o_position :: nat
  o_dealer :: nat

text \<open>
  The trait objects a hand runs against.  \<open>'w\<close> is everything the agents and the sink own, shared
  or not; each field is one method call on it.  \<open>e_act seat obs\<close> is \<open>agents[seat].act(&obs)\<close>, which
  may panic or block for ever (\<open>None\<close>); \<open>e_sink\<close> is \<open>sink.on_event\<close>; the other three are the
  lifecycle hooks of the agent at a seat.
\<close>

record 'w env =
  e_act :: "nat \<Rightarrow> observation \<Rightarrow> 'w \<Rightarrow> (action \<times> 'w) option"
  e_sink :: "engine_event \<Rightarrow> 'w \<Rightarrow> 'w"
  e_on_event :: "nat \<Rightarrow> engine_event \<Rightarrow> 'w \<Rightarrow> 'w"
  e_on_hand_start :: "nat \<Rightarrow> nat \<Rightarrow> 'w \<Rightarrow> 'w"
  e_on_hand_end :: "nat \<Rightarrow> hand_result \<Rightarrow> 'w \<Rightarrow> 'w"

section \<open>Facts\<close>

lemma ok_pot_total [simp, wp]:
  "pot_side p = [] \<Longrightarrow> ok (pot_total p) P \<longleftrightarrow> pot_main p < u32_lim \<and> P (pot_main p)"
  by (simp add: pot_total_def)

lemma still_in_simps [simp]:
  "still_in (p\<lparr>p_stack := a\<rparr>) = still_in p"
  "still_in (p\<lparr>p_bet_this_street := a\<rparr>) = still_in p"
  "still_in (p\<lparr>p_total_committed := a\<rparr>) = still_in p"
  "still_in (p\<lparr>p_hole_cards := h\<rparr>) = still_in p"
  "still_in (p\<lparr>p_status := s\<rparr>) = (s = Active \<or> s = PAllIn)"
  by (simp_all add: still_in_def)

lemma is_active_simps [simp]:
  "is_active (p\<lparr>p_stack := a\<rparr>) = is_active p"
  "is_active (p\<lparr>p_bet_this_street := a\<rparr>) = is_active p"
  "is_active (p\<lparr>p_total_committed := a\<rparr>) = is_active p"
  "is_active (p\<lparr>p_hole_cards := h\<rparr>) = is_active p"
  "is_active (p\<lparr>p_status := s\<rparr>) = (s = Active)"
  by (simp_all add: is_active_def)

lemma active_still_in: "is_active p \<Longrightarrow> still_in p"
  by (simp add: is_active_def still_in_def)

end
