(* ===== verification/PotCalc.thy ===== *)
theory PotCalc
  imports Game
begin

text \<open>
  Pot accounting: \<open>game/pot_calc.rs\<close>.  \<open>collect_street_bets\<close> moves the bets of a street into the
  pot; \<open>build_showdown_pots\<close> cuts the committed chips of a hand into side pots, one per
  commitment level.
\<close>

section \<open>Definitions\<close>

definition collect_street_bets ::
  "player_state list \<Rightarrow> pot \<Rightarrow> (player_state list \<times> pot) option" where
  "collect_street_bets players p =
     do { street_total \<leftarrow> sum_u32 (map p_bet_this_street players);
          m \<leftarrow> add_u32 (pot_main p) street_total;
          Some (map (\<lambda>q. q\<lparr>p_bet_this_street := 0\<rparr>) players, p\<lparr>pot_main := m\<rparr>) }"

text \<open>Unique positive commitment levels, ascending (\<open>sort_unstable\<close> and \<open>dedup\<close>).\<close>

definition commitment_levels :: "player_state list \<Rightarrow> nat list" where
  "commitment_levels players =
     remdups_adj (sort (filter (\<lambda>c. 0 < c) (map p_total_committed players)))"

definition n_contributors :: "player_state list \<Rightarrow> nat \<Rightarrow> nat" where
  "n_contributors players level = length (filter (\<lambda>p. level \<le> p_total_committed p) players)"

definition eligible_seats :: "player_state list \<Rightarrow> nat \<Rightarrow> nat list" where
  "eligible_seats players level =
     map fst (filter (\<lambda>(_, p). level \<le> p_total_committed p \<and> p_status p \<noteq> Folded)
       (enumerate 0 players))"

text \<open>\<open>if let Some(last) = result.last_mut() { last.0 += pot_slice; }\<close>\<close>

definition merge_into_last :: "(nat \<times> nat list) list \<Rightarrow> nat \<Rightarrow> (nat \<times> nat list) list option" where
  "merge_into_last result pot_slice =
     (if result = [] then Some []
      else do { a \<leftarrow> add_u32 (fst (last result)) pot_slice;
                Some (butlast result @ [(a, snd (last result))]) })"

text \<open>The loop over the levels, with the running \<open>prev\<close> and \<open>result\<close>.\<close>

fun showdown_pots_loop ::
  "player_state list \<Rightarrow> nat \<Rightarrow> nat list \<Rightarrow> (nat \<times> nat list) list \<Rightarrow> (nat \<times> nat list) list option"
where
  "showdown_pots_loop players prev [] result = Some result"
| "showdown_pots_loop players prev (level # levels) result =
     do { d \<leftarrow> sub_u32 level prev;
          pot_slice \<leftarrow> mul_u32 d (n_contributors players level);
          if pot_slice = 0 then showdown_pots_loop players level levels result
          else if eligible_seats players level = [] then
            do { result' \<leftarrow> merge_into_last result pot_slice;
                 showdown_pots_loop players level levels result' }
          else showdown_pots_loop players level levels
                 (result @ [(pot_slice, eligible_seats players level)]) }"

definition build_showdown_pots :: "player_state list \<Rightarrow> (nat \<times> nat list) list option" where
  "build_showdown_pots players = showdown_pots_loop players 0 (commitment_levels players) []"

text \<open>Sums the properties speak about.\<close>

definition total_committed :: "player_state list \<Rightarrow> nat" where
  "total_committed players = sum_list (map p_total_committed players)"

definition committed_above :: "nat \<Rightarrow> player_state list \<Rightarrow> nat" where
  "committed_above prev players = sum_list (map (\<lambda>p. p_total_committed p - prev) players)"

definition pots_total :: "(nat \<times> nat list) list \<Rightarrow> nat" where
  "pots_total pots = sum_list (map fst pots)"

text \<open>What seat \<open>i\<close> can win at most: the pots it is eligible for.\<close>

definition contested_by :: "nat \<Rightarrow> (nat \<times> nat list) list \<Rightarrow> nat" where
  "contested_by i pots = sum_list (map fst (filter (\<lambda>(_, seats). i \<in> set seats) pots))"

section \<open>Street bets\<close>

lemma ok_collect_street_bets [wp]:
  "ok (collect_street_bets players p) P \<longleftrightarrow>
     sum_list (map p_bet_this_street players) < u32_lim
     \<and> pot_main p + sum_list (map p_bet_this_street players) < u32_lim
     \<and> P (map (\<lambda>q. q\<lparr>p_bet_this_street := 0\<rparr>) players,
          p\<lparr>pot_main := pot_main p + sum_list (map p_bet_this_street players)\<rparr>)"
  by (simp add: collect_street_bets_def)

section \<open>Side pots\<close>

lemma eligible_seats_iff:
  "i \<in> set (eligible_seats players level) \<longleftrightarrow>
     i < length players \<and> level \<le> p_total_committed (players ! i) \<and> p_status (players ! i) \<noteq> Folded"
  by (force simp: eligible_seats_def in_set_enumerate_eq image_iff)

lemma distinct_eligible_seats: "distinct (eligible_seats players level)"
  unfolding eligible_seats_def
  by (rule distinct_map_filter) (simp add: distinct_enumerate)

lemma committed_above_step:
  assumes "\<And>p. p \<in> set players \<Longrightarrow> prev < p_total_committed p \<Longrightarrow> level \<le> p_total_committed p"
    and "prev \<le> level"
  shows "committed_above prev players
       = (level - prev) * n_contributors players level + committed_above level players"
  using assms
proof (induction players)
  case Nil
  then show ?case by (simp add: committed_above_def n_contributors_def)
next
  case (Cons p players)
  then have IH: "committed_above prev players
      = (level - prev) * n_contributors players level + committed_above level players"
    by simp
  have "p_total_committed p \<le> prev \<or> level \<le> p_total_committed p"
    using Cons.prems(1) [of p] by (cases "prev < p_total_committed p") auto
  moreover obtain d where "level = prev + d"
    using Cons.prems(2) le_Suc_ex by blast
  ultimately show ?case
    using IH by (auto simp: committed_above_def n_contributors_def)
qed

lemma sorted_distinct_remdups_adj: "sorted xs \<Longrightarrow> distinct (remdups_adj xs)"
  by (induction xs rule: remdups_adj.induct) (auto simp: antisym)

lemma commitment_levels_sorted: "sorted_wrt (<) (commitment_levels players)"
  by (simp add: commitment_levels_def strict_sorted_iff sorted_distinct_remdups_adj)

lemma commitment_levels_set:
  "set (commitment_levels players) = {c \<in> p_total_committed ` set players. 0 < c}"
  by (auto simp: commitment_levels_def)

lemma pots_total_simps [simp]:
  "pots_total [] = 0"
  "pots_total (xs @ ys) = pots_total xs + pots_total ys"
  "pots_total (x # xs) = fst x + pots_total xs"
  by (simp_all add: pots_total_def)

lemma ok_merge_into_last:
  assumes "result \<noteq> []" and "pots_total result + c < u32_lim"
  shows "ok (merge_into_last result c) (\<lambda>r. r \<noteq> [] \<and> pots_total r = pots_total result + c
           \<and> map snd r = map snd result)"
proof -
  obtain r x where r: "result = r @ [x]"
    using assms(1) by (metis rev_exhaust)
  show ?thesis
    using assms(2) by (simp add: merge_into_last_def r)
qed

text \<open>
  Preconditions of the loop at \<open>prev\<close> with the remaining \<open>levels\<close>: the levels ascend from \<open>prev\<close> and
  are exactly the commitments above it, and the next slice has somewhere to go.
\<close>

definition levels_inv ::
  "player_state list \<Rightarrow> nat \<Rightarrow> nat list \<Rightarrow> (nat \<times> nat list) list \<Rightarrow> bool" where
  "levels_inv players prev levels result \<longleftrightarrow>
     sorted_wrt (<) (prev # levels)
     \<and> (\<forall>p \<in> set players. prev < p_total_committed p \<longrightarrow> p_total_committed p \<in> set levels)
     \<and> (result \<noteq> [] \<or> (\<exists>p \<in> set players. p_status p \<noteq> Folded \<and> prev < p_total_committed p)
        \<or> levels = [])"

lemma levels_inv_next:
  assumes "levels_inv players prev (level # levels) result"
  shows "\<And>p. p \<in> set players \<Longrightarrow> prev < p_total_committed p \<Longrightarrow> level \<le> p_total_committed p"
    and "prev < level"
  using assms by (fastforce simp: levels_inv_def)+

lemma levels_inv_step:
  assumes "levels_inv players prev (level # levels) result" and "result' \<noteq> []"
  shows "levels_inv players level levels result'"
  using assms by (auto simp: levels_inv_def)

lemma levels_inv_eligible:
  assumes inv: "levels_inv players prev (level # levels) result"
    and "eligible_seats players level = []"
  shows "result \<noteq> []"
proof (rule ccontr)
  assume "\<not> result \<noteq> []"
  then obtain p where p: "p \<in> set players" "p_status p \<noteq> Folded" "prev < p_total_committed p"
    using inv by (auto simp: levels_inv_def)
  then have "level \<le> p_total_committed p"
    using levels_inv_next(1) [OF inv] by blast
  moreover obtain i where "i < length players" "players ! i = p"
    using p(1) by (auto simp: in_set_conv_nth)
  ultimately have "i \<in> set (eligible_seats players level)"
    using p(2) by (simp add: eligible_seats_iff)
  with assms(2) show False by simp
qed

lemma showdown_pots_loop_total:
  assumes "levels_inv players prev levels result"
    and "pots_total result + committed_above prev players < u32_lim"
    and "\<forall>p \<in> set players. prev < p_total_committed p \<longrightarrow> levels \<noteq> []"
  shows "ok (showdown_pots_loop players prev levels result)
     (\<lambda>pots. pots_total pots = pots_total result + committed_above prev players)"
  using assms
proof (induction levels arbitrary: prev result)
  case Nil
  then have "\<forall>p \<in> set players. p_total_committed p \<le> prev"
    by (simp add: not_less)
  then have "committed_above prev players = 0"
    by (auto simp: committed_above_def)
  then show ?case by simp
next
  case (Cons level levels)
  note inv = Cons.prems(1)
  let ?s = "(level - prev) * n_contributors players level"
  have le: "prev < level"
    using levels_inv_next(2) [OF inv] .
  have step: "committed_above prev players = ?s + committed_above level players"
    by (rule committed_above_step) (use levels_inv_next [OF inv] in auto)
  have rec: "ok (showdown_pots_loop players level levels result')
      (\<lambda>pots. pots_total pots = pots_total result + committed_above prev players)"
    if "levels_inv players level levels result'" "pots_total result' = pots_total result + ?s"
    for result'
  proof -
    have "\<forall>p \<in> set players. level < p_total_committed p \<longrightarrow> levels \<noteq> []"
      using that(1) by (auto simp: levels_inv_def)
    with Cons.IH [OF that(1)] show ?thesis
      using Cons.prems(2) that(2) step by (simp add: add.assoc)
  qed
  show ?case
  proof (cases "?s = 0")
    case True
    moreover have "levels_inv players level levels result"
    proof -
      have "\<forall>p \<in> set players. \<not> level \<le> p_total_committed p"
        using True le by (simp add: n_contributors_def filter_empty_conv)
      then have "\<not> (\<exists>p \<in> set players. prev < p_total_committed p)"
        using levels_inv_next(1) [OF inv] by blast
      then show ?thesis
        using inv levels_inv_step [OF inv, of result] by (auto simp: levels_inv_def)
    qed
    ultimately show ?thesis
      using rec [of result] le by simp
  next
    case False
    show ?thesis
    proof (cases "eligible_seats players level = []")
      case True
      have "ok (merge_into_last result ?s) (\<lambda>r. r \<noteq> [] \<and> pots_total r = pots_total result + ?s
           \<and> map snd r = map snd result)"
        using ok_merge_into_last levels_inv_eligible [OF inv True] Cons.prems(2) step by simp
      then have "ok (merge_into_last result ?s) (\<lambda>r. ok (showdown_pots_loop players level levels r)
           (\<lambda>pots. pots_total pots = pots_total result + committed_above prev players))"
        by (rule ok_mono) (use rec levels_inv_step [OF inv] in blast)
      then show ?thesis
        using le True False Cons.prems(2) step by simp
    next
      case elig: False
      have "levels_inv players level levels (result @ [(?s, eligible_seats players level)])"
        using levels_inv_step [OF inv] by simp
      from rec [OF this] show ?thesis
        using le False elig Cons.prems(2) step by simp
    qed
  qed
qed

lemma build_showdown_pots_ok:
  assumes "p \<in> set players" and "p_status p \<noteq> Folded" and "0 < p_total_committed p"
    and "total_committed players < u32_lim"
  shows "ok (build_showdown_pots players) (\<lambda>pots. pots_total pots = total_committed players)"
proof -
  have "levels_inv players 0 (commitment_levels players) []"
    using assms(1-3) commitment_levels_sorted
    by (auto simp: levels_inv_def commitment_levels_set)
  moreover have "committed_above 0 players = total_committed players"
    by (simp add: committed_above_def total_committed_def)
  moreover have "commitment_levels players \<noteq> []"
    using assms(1,3) commitment_levels_set [of players] by force
  ultimately show ?thesis
    using showdown_pots_loop_total [of players 0 "commitment_levels players" "[]"] assms(4)
    by (simp add: build_showdown_pots_def)
qed

section \<open>Who contests what\<close>

lemma contested_by_simps [simp]:
  "contested_by i [] = 0"
  "contested_by i (xs @ ys) = contested_by i xs + contested_by i ys"
  "contested_by i ((a, seats) # ps) = (if i \<in> set seats then a else 0) + contested_by i ps"
  by (simp_all add: contested_by_def)

lemma contested_by_all:
  "\<forall>x \<in> set pots. i \<in> set (snd x) \<Longrightarrow> contested_by i pots = pots_total pots"
  by (induction pots) auto

lemma merge_into_last_SomeD:
  assumes "merge_into_last result c = Some r"
  shows "map snd r = map snd result"
    and "result \<noteq> [] \<Longrightarrow> i \<notin> set (snd (last result)) \<Longrightarrow> contested_by i r = contested_by i result"
proof -
  have "map snd r = map snd result
     \<and> (result \<noteq> [] \<longrightarrow> i \<notin> set (snd (last result)) \<longrightarrow> contested_by i r = contested_by i result)"
    using assms
    by (cases result rule: rev_cases)
       (auto simp: merge_into_last_def add_u32_def split: if_splits)
  then show "map snd r = map snd result"
    and "result \<noteq> [] \<Longrightarrow> i \<notin> set (snd (last result)) \<Longrightarrow> contested_by i r = contested_by i result"
    by auto
qed

lemma sub_u32_SomeD: "sub_u32 a b = Some d \<Longrightarrow> b \<le> a \<and> d = a - b"
  by (simp add: sub_u32_def split: if_splits)

lemma mul_u32_SomeD: "mul_u32 a b = Some d \<Longrightarrow> d = a * b"
  by (simp add: mul_u32_def split: if_splits)

text \<open>One turn of the loop: the slice is empty, joins the last pot, or becomes a pot of its own.\<close>

lemma showdown_pots_loop_ConsE:
  assumes "showdown_pots_loop players prev (level # levels) result = Some pots"
  obtains (empty) "(level - prev) * n_contributors players level = 0"
      "showdown_pots_loop players level levels result = Some pots"
  | (merged) result' where "eligible_seats players level = []"
      "merge_into_last result ((level - prev) * n_contributors players level) = Some result'"
      "showdown_pots_loop players level levels result' = Some pots"
  | (fresh) "eligible_seats players level \<noteq> []"
      "showdown_pots_loop players level levels
         (result @ [((level - prev) * n_contributors players level, eligible_seats players level)])
       = Some pots"
  using assms by (auto simp: bind_eq_Some_conv dest!: sub_u32_SomeD mul_u32_SomeD split: if_splits)

text \<open>The pots only ever name live seats, and each names a given seat at most once.\<close>

definition live_seats :: "player_state list \<Rightarrow> nat list \<Rightarrow> bool" where
  "live_seats players s \<longleftrightarrow> s \<noteq> [] \<and> distinct s
     \<and> (\<forall>i \<in> set s. i < length players \<and> p_status (players ! i) \<noteq> Folded
          \<and> 0 < p_total_committed (players ! i))"

lemma live_eligible_seats:
  "eligible_seats players level \<noteq> [] \<Longrightarrow> 0 < level \<Longrightarrow> live_seats players (eligible_seats players level)"
  by (simp add: live_seats_def eligible_seats_iff distinct_eligible_seats)

lemma showdown_pots_loop_seats:
  assumes "showdown_pots_loop players prev levels result = Some pots"
    and "\<forall>s \<in> set (map snd result). live_seats players s" and "\<forall>l \<in> set levels. 0 < l"
  shows "\<forall>s \<in> set (map snd pots). live_seats players s"
  using assms
proof (induction levels arbitrary: prev result)
  case (Cons level levels)
  from Cons.prems(1) show ?case
  proof (cases rule: showdown_pots_loop_ConsE)
    case (merged result')
    then show ?thesis
      using Cons.IH [OF merged(3)] Cons.prems(2,3) merge_into_last_SomeD(1) [OF merged(2)] 
      by (metis list.set_intros(2))
  next
    case fresh
    then show ?thesis
      using Cons.IH [OF fresh(2)] Cons.prems(2,3) live_eligible_seats by simp
  qed (use Cons in auto)
qed simp

text \<open>A seat with the highest live commitment is in every pot.\<close>

lemma showdown_pots_loop_max:
  assumes "showdown_pots_loop players prev levels result = Some pots"
    and i: "i < length players" "p_status (players ! i) \<noteq> Folded"
    and top: "\<And>j. j < length players \<Longrightarrow> p_status (players ! j) \<noteq> Folded
       \<Longrightarrow> p_total_committed (players ! j) \<le> p_total_committed (players ! i)"
    and "\<forall>s \<in> set (map snd result). i \<in> set s"
  shows "\<forall>s \<in> set (map snd pots). i \<in> set s"
  using assms(1,5)
proof (induction levels arbitrary: prev result)
  case (Cons level levels)
  from Cons.prems(1) show ?case
  proof (cases rule: showdown_pots_loop_ConsE)
    case (merged result')
    then show ?thesis
      using Cons.IH [OF merged(3)] Cons.prems(2) merge_into_last_SomeD(1) [OF merged(2)] by metis
  next
    case fresh
    then obtain j where "j \<in> set (eligible_seats players level)"
      by (meson last_in_set)
    then have "i \<in> set (eligible_seats players level)"
      using i top [of j] by (auto simp: eligible_seats_iff)
    with Cons.prems(2) show ?thesis
      by (intro Cons.IH [OF fresh(2)]) simp
  qed (use Cons in blast)
qed simp

text \<open>Chips of the layer between \<open>prev\<close> and a cap.\<close>

definition committed_between :: "nat \<Rightarrow> nat \<Rightarrow> player_state list \<Rightarrow> nat" where
  "committed_between prev cap players
     = sum_list (map (\<lambda>p. min (p_total_committed p) cap - prev) players)"

lemma committed_between_step:
  assumes "\<And>p. p \<in> set players \<Longrightarrow> prev < p_total_committed p \<Longrightarrow> level \<le> p_total_committed p"
    and "prev \<le> level" "level \<le> cap"
  shows "committed_between prev cap players
       = (level - prev) * n_contributors players level + committed_between level cap players"
  using assms
proof (induction players)
  case Nil
  then show ?case by (simp add: committed_between_def n_contributors_def)
next
  case (Cons p players)
  then have IH: "committed_between prev cap players
      = (level - prev) * n_contributors players level + committed_between level cap players"
    by simp
  have head: "min (p_total_committed p) cap - prev
      = (if level \<le> p_total_committed p then level - prev else 0)
        + (min (p_total_committed p) cap - level)"
    using Cons.prems(1) [of p] Cons.prems(2,3)
    by (cases "prev < p_total_committed p") auto
  show ?case
    using IH head by (simp add: committed_between_def n_contributors_def)
qed

text \<open>
  A live seat that a higher live commitment overtakes contests exactly the chips up to its own
  commitment: once its layer is passed, the last pot is one it has no part in.
\<close>

lemma showdown_pots_loop_capped:
  assumes "showdown_pots_loop players prev levels result = Some pots"
    and i: "i < length players" "p_status (players ! i) \<noteq> Folded"
    and k: "k < length players" "p_status (players ! k) \<noteq> Folded"
      "p_total_committed (players ! i) < p_total_committed (players ! k)"
    and "sorted_wrt (<) (prev # levels)"
    and "\<forall>p \<in> set players. prev < p_total_committed p \<longrightarrow> p_total_committed p \<in> set levels"
    and "p_total_committed (players ! i) < prev \<longrightarrow> result \<noteq> [] \<and> i \<notin> set (snd (last result))"
  shows "contested_by i pots
       = contested_by i result + committed_between prev (p_total_committed (players ! i)) players"
  using assms(1,7-9)
proof (induction levels arbitrary: prev result)
  case Nil
  then have "committed_between prev (p_total_committed (players ! i)) players = 0"
    by (fastforce simp: committed_between_def)
  with Nil show ?case by simp
next
  case (Cons level levels)
  let ?c = "p_total_committed (players ! i)"
  let ?s = "(level - prev) * n_contributors players level"
  have ord: "prev < level" "sorted_wrt (<) (level # levels)"
    using Cons.prems(2) by auto
  have next_level: "level \<le> p_total_committed p"
    if "p \<in> set players" "prev < p_total_committed p" for p
    using Cons.prems(2,3) that by fastforce
  have rest: "\<forall>p \<in> set players. level < p_total_committed p \<longrightarrow> p_total_committed p \<in> set levels"
    using Cons.prems(3) ord(1) by auto
  note IH = Cons.IH [OF _ ord(2) rest]
  have in_level: "i \<in> set (eligible_seats players level) \<longleftrightarrow> level \<le> ?c"
    using i by (simp add: eligible_seats_iff)
  have split: "committed_between prev ?c players
     = (if level \<le> ?c then ?s else 0) + committed_between level ?c players"
  proof (cases "level \<le> ?c")
    case True
    then show ?thesis
      using committed_between_step [of players prev level ?c] next_level ord(1) by simp
  next
    case False
    then have "?c \<le> prev"
      using next_level [of "players ! i"] i(1) by force
    then show ?thesis
      using False by (simp add: committed_between_def)
  qed
  from Cons.prems(1) show ?case
  proof (cases rule: showdown_pots_loop_ConsE)
    case empty
    then have "\<forall>p \<in> set players. \<not> level \<le> p_total_committed p"
      using ord(1) by (simp add: n_contributors_def filter_empty_conv)
    then have "?c < prev \<or> ?c = prev" "p_total_committed (players ! k) \<le> prev"
      using next_level i(1) k(1) nth_mem by (metis linorder_neqE_nat, metis linorder_not_le)
    then have "?c < prev"
      using k(3) by simp
    then show ?thesis
      using IH [OF empty(2)] Cons.prems(4) split empty(1) by simp
  next
    case (merged result')
    then have "\<not> level \<le> p_total_committed (players ! k)"
      using k by (metis eligible_seats_iff empty_iff list.set(1))
    then have "\<not> prev < p_total_committed (players ! k)"
      using next_level k(1) nth_mem by blast
    then have "?c < prev"
      using k(3) by simp
    then have out: "result \<noteq> []" "i \<notin> set (snd (last result))"
      using Cons.prems(4) by auto
    have seats: "map snd result' = map snd result"
      using merge_into_last_SomeD(1) [OF merged(2)] .
    then have "result' \<noteq> []" "snd (last result') = snd (last result)"
      using out(1) by (metis map_is_Nil_conv, metis last_map map_is_Nil_conv)
    then show ?thesis
      using IH [OF merged(3)] out merge_into_last_SomeD(2) [OF merged(2) out]
        split \<open>?c < prev\<close> ord(1) by simp
  next
    case fresh
    then show ?thesis
      using IH [OF fresh(2)] in_level split by simp
  qed
qed

lemma committed_between_0:
  "committed_between 0 cap players = sum_list (map (\<lambda>p. min (p_total_committed p) cap) players)"
  by (simp add: committed_between_def)

lemma build_showdown_pots_seats:
  "build_showdown_pots players = Some pots \<Longrightarrow> \<forall>s \<in> set (map snd pots). live_seats players s"
  unfolding build_showdown_pots_def
  by (rule showdown_pots_loop_seats) (auto simp: commitment_levels_set)

section \<open>Properties of the pots\<close>

text \<open>
  (C5) No chip is lost or made when side pots are cut: as long as one seat that put chips in has
  not folded, \<open>build_showdown_pots\<close> returns (no arithmetic overflows) and its slices add up
  to everything committed, folded money included; every slice has somebody to win it, and only
  seats that have not folded are eligible.
\<close>

theorem build_showdown_pots_conserves:
  assumes "p \<in> set players" and "p_status p \<noteq> Folded" and "0 < p_total_committed p"
    and "total_committed players < u32_lim"
  shows "ok (build_showdown_pots players) (\<lambda>pots. pots_total pots = total_committed players
           \<and> (\<forall>s \<in> set (map snd pots). live_seats players s))"
  using build_showdown_pots_ok [OF assms] build_showdown_pots_seats
  by (force simp: ok_def)

definition sample_player :: "nat \<Rightarrow> player_status \<Rightarrow> player_state" where
  "sample_player committed status = \<lparr>p_stack = 0, p_hole_cards = None, p_bet_this_street = 0,
     p_total_committed = committed, p_status = status\<rparr>"

definition sample_table :: "player_state list" where
  "sample_table = [sample_player 50 PAllIn, sample_player 120 Folded, sample_player 100 PAllIn]"

theorem build_showdown_pots_conserves_witness:
  "ok (build_showdown_pots sample_table) (\<lambda>pots. pots_total pots = total_committed sample_table
     \<and> (\<forall>s \<in> set (map snd pots). live_seats sample_table s))"
  by (rule build_showdown_pots_conserves [of "sample_player 50 PAllIn"])
     (simp_all add: sample_table_def sample_player_def total_committed_def)

text \<open>
  (C6) What a seat can win at showdown.  A seat that has not folded contests, over all pots, exactly
  the part of every opponent's commitment that it has matched, unless nobody still in the hand
  committed more: then it contests everything, including what folded seats put in above it.
\<close>

theorem build_showdown_pots_contested:
  assumes "i < length players" and "p_status (players ! i) \<noteq> Folded"
    and "0 < p_total_committed (players ! i)" and "total_committed players < u32_lim"
  shows "ok (build_showdown_pots players) (\<lambda>pots. contested_by i pots =
     (if \<exists>p \<in> set players. p_status p \<noteq> Folded \<and> p_total_committed (players ! i) < p_total_committed p
      then sum_list (map (\<lambda>p. min (p_total_committed p) (p_total_committed (players ! i))) players)
      else total_committed players))"
proof -
  obtain pots where pots: "build_showdown_pots players = Some pots"
      "pots_total pots = total_committed players"
    using build_showdown_pots_ok [OF nth_mem [OF assms(1)] assms(2-4)] by (rule okE) auto
  note loop = pots(1) [unfolded build_showdown_pots_def]
  show ?thesis
  proof (cases "\<exists>p \<in> set players. p_status p \<noteq> Folded
      \<and> p_total_committed (players ! i) < p_total_committed p")
    case True
    then obtain k where k: "k < length players" "p_status (players ! k) \<noteq> Folded"
        "p_total_committed (players ! i) < p_total_committed (players ! k)"
      by (auto simp: in_set_conv_nth)
    have "sorted_wrt (<) (0 # commitment_levels players)"
      using commitment_levels_sorted by (auto simp: commitment_levels_set)
    then have "contested_by i pots = committed_between 0 (p_total_committed (players ! i)) players"
      using showdown_pots_loop_capped [OF loop assms(1,2) k] by (simp add: commitment_levels_set)
    then show ?thesis
      using True pots(1) by (simp add: committed_between_0)
  next
    case False
    then have "\<forall>s \<in> set (map snd pots). i \<in> set s"
      by (intro showdown_pots_loop_max [OF loop assms(1,2)]) (auto simp: not_less)
    then have "contested_by i pots = total_committed players"
      using contested_by_all [of pots i] pots(2) by simp
    then show ?thesis
      by (simp only: False pots(1) ok_Some if_False)
  qed
qed

theorem build_showdown_pots_contested_witness:
  "ok (build_showdown_pots sample_table) (\<lambda>pots. contested_by 0 pots = 150)"
proof -
  have "ok (build_showdown_pots sample_table) (\<lambda>pots. contested_by 0 pots =
     (if \<exists>p \<in> set sample_table. p_status p \<noteq> Folded
          \<and> p_total_committed (sample_table ! 0) < p_total_committed p
      then sum_list (map (\<lambda>p. min (p_total_committed p) (p_total_committed (sample_table ! 0)))
             sample_table)
      else total_committed sample_table))"
    by (rule build_showdown_pots_contested)
       (simp_all add: sample_table_def sample_player_def total_committed_def)
  then show ?thesis
    by (rule ok_mono) (simp add: sample_table_def sample_player_def)
qed

end
