(* ===== verification/Engine.thy ===== *)
theory Engine
  imports PotCalc
begin

text \<open>
  The hand engine: \<open>game/engine.rs\<close>, every method of \<open>Engine\<close> and its free helpers, in the order
  of a hand.  A method that takes \<open>&mut GameState\<close> and \<open>&mut dyn EventSink\<close> takes and returns the
  state and the world \<open>'w\<close> of the environment.  \<open>None\<close> is a panic (an index out of range, an
  overflow, an \<open>unwrap\<close> of nothing) or, for the betting loop only, a loop that never ends.
  \<open>agents\<close> has one agent per seat, as the first \<open>debug_assert\<close> of \<open>run_hand\<close> demands.
\<close>

section \<open>Seat helpers\<close>

definition seats_after :: "nat \<Rightarrow> nat \<Rightarrow> nat \<Rightarrow> nat list" where
  "seats_after from n limit = map (\<lambda>i. (from + i) mod n) [1..<Suc limit]"

definition next_active_after :: "nat \<Rightarrow> player_state list \<Rightarrow> nat option" where
  "next_active_after from players =
     find (\<lambda>seat. is_active (players ! seat)) (seats_after from (length players) (length players))"

definition next_active_after_in_list :: "nat \<Rightarrow> player_state list \<Rightarrow> nat \<Rightarrow> nat option" where
  "next_active_after_in_list from players limit =
     find (\<lambda>seat. still_in (players ! seat)) (seats_after from (length players) limit)"

definition active_count :: "player_state list \<Rightarrow> nat" where
  "active_count players = length (filter is_active players)"

definition unwrap_or :: "'a option \<Rightarrow> 'a \<Rightarrow> 'a" where
  "unwrap_or m d = (case m of None \<Rightarrow> d | Some x \<Rightarrow> x)"

definition sb_seat :: "game_state \<Rightarrow> nat" where
  "sb_seat st = unwrap_or
     (next_active_after_in_list (g_dealer st) (g_players st) (length (g_players st))) (g_dealer st)"

definition bb_seat :: "game_state \<Rightarrow> nat" where
  "bb_seat st = unwrap_or
     (next_active_after_in_list (sb_seat st) (g_players st) (length (g_players st))) (sb_seat st)"

definition set_player :: "nat \<Rightarrow> player_state \<Rightarrow> game_state \<Rightarrow> game_state" where
  "set_player seat p st = st\<lparr>g_players := (g_players st)[seat := p]\<rparr>"

section \<open>Initialisation\<close>

definition init_player :: "nat \<Rightarrow> player_state" where
  "init_player stack = \<lparr>p_stack = stack, p_hole_cards = None, p_bet_this_street = 0,
     p_total_committed = 0, p_status = (if 0 < stack then Active else Out)\<rparr>"

definition init_state :: "betting_rules \<Rightarrow> nat \<Rightarrow> nat list \<Rightarrow> nat \<Rightarrow> game_state" where
  "init_state rules hand_id stacks dealer =
     \<lparr>g_hand_id = hand_id, g_street = Preflop, g_board = [], g_players = map init_player stacks,
      g_pot = pot_default, g_action_on = None, g_dealer = dealer, g_last_aggressor = None,
      g_current_bet = 0, g_min_raise_increment = r_big_blind rules,
      g_cumulative_short_increment = 0, g_sat_out = replicate (length stacks) False\<rparr>"

text \<open>
  The lines \<open>p.stack -= k; p.bet_this_street += k; p.total_committed += k;\<close> and the all-in check
  that follows them in \<open>post_antes\<close>, \<open>post_blinds\<close> and \<open>apply_action\<close>.
\<close>

definition pay :: "nat \<Rightarrow> player_state \<Rightarrow> player_state option" where
  "pay k p =
     do { s \<leftarrow> sub_u32 (p_stack p) k;
          b \<leftarrow> add_u32 (p_bet_this_street p) k;
          c \<leftarrow> add_u32 (p_total_committed p) k;
          Some (p\<lparr>p_stack := s, p_bet_this_street := b, p_total_committed := c\<rparr>) }"

definition mark_all_in :: "'w env \<Rightarrow> nat \<Rightarrow> player_state \<Rightarrow> 'w \<Rightarrow> player_state \<times> 'w" where
  "mark_all_in env seat p w =
     (if p_stack p = 0
      then (p\<lparr>p_status := PAllIn\<rparr>, e_sink env (PlayerAllIn seat (p_total_committed p)) w)
      else (p, w))"

definition post ::
  "'w env \<Rightarrow> nat \<Rightarrow> nat \<Rightarrow> game_state \<times> 'w \<Rightarrow> (game_state \<times> 'w) option" where
  "post env seat amount = (\<lambda>(st, w).
     do { p \<leftarrow> idx (g_players st) seat;
          p' \<leftarrow> pay (min amount (p_stack p)) p;
          let (p'', w') = mark_all_in env seat p' w in Some (set_player seat p'' st, w') })"

definition post_antes ::
  "betting_rules \<Rightarrow> 'w env \<Rightarrow> game_state \<times> 'w \<Rightarrow> (game_state \<times> 'w) option" where
  "post_antes rules env sw =
     for_each [0..<length (g_players (fst sw))]
       (\<lambda>seat (st, w). do { p \<leftarrow> idx (g_players st) seat;
          if is_active p then post env seat (r_ante rules) (st, w) else Some (st, w) }) sw"

definition post_blinds ::
  "betting_rules \<Rightarrow> 'w env \<Rightarrow> game_state \<times> 'w \<Rightarrow> (game_state \<times> 'w) option" where
  "post_blinds rules env = (\<lambda>(st, w).
     do { sw \<leftarrow> post env (sb_seat st) (r_small_blind rules) (st, w);
          (st', w') \<leftarrow> post env (bb_seat st) (r_big_blind rules) sw;
          Some (st'\<lparr>g_current_bet := r_big_blind rules,
                    g_min_raise_increment := r_big_blind rules\<rparr>, w') })"

definition deal_hole_cards ::
  "'w env \<Rightarrow> game_state \<times> deck \<times> 'w \<Rightarrow> (game_state \<times> deck \<times> 'w) option" where
  "deal_hole_cards env sdw =
     for_each [0..<length (g_players (fst sdw))]
       (\<lambda>seat (st, d, w). do { p \<leftarrow> idx (g_players st) seat;
          if still_in p then
            do { (c1, d1) \<leftarrow> deck_deal d;
                 (c2, d2) \<leftarrow> deck_deal d1;
                 Some (set_player seat (p\<lparr>p_hole_cards := Some (c1, c2)\<rparr>) st, d2,
                       e_sink env (HoleCardsDealt seat (c1, c2)) w) }
          else Some (st, d, w) }) sdw"

text \<open>The loop over \<open>seat_kinds\<close> in \<open>run_hand\<close>.\<close>

definition fold_dead_hands :: "seat_kind list option \<Rightarrow> game_state \<Rightarrow> game_state option" where
  "fold_dead_hands seat_kinds st =
     (case seat_kinds of None \<Rightarrow> Some st
      | Some kinds \<Rightarrow> for_each (enumerate 0 kinds)
          (\<lambda>(seat, kind) st.
             if kind = DeadHand then
               do { p \<leftarrow> idx (g_players st) seat;
                    if p_status p \<noteq> Out then
                      do { _ \<leftarrow> idx (g_sat_out st) seat;
                           Some ((set_player seat (p\<lparr>p_status := Folded\<rparr>) st)
                                   \<lparr>g_sat_out := (g_sat_out st)[seat := True]\<rparr>) }
                    else Some st }
             else Some st) st)"

section \<open>Legal actions\<close>

definition compute_legal_actions ::
  "betting_rules \<Rightarrow> game_state \<Rightarrow> nat \<Rightarrow> bool \<Rightarrow> legal_actions option" where
  "compute_legal_actions rules st seat can_reopen =
     do { p \<leftarrow> idx (g_players st) seat;
          let owed = saturating_sub (g_current_bet st) (p_bet_this_street p);
          min_raise_total \<leftarrow> add_u32 (g_current_bet st) (g_min_raise_increment st);
          can_raise \<leftarrow>
            (if can_reopen then
               do { t \<leftarrow> add_u32 (p_stack p) (p_bet_this_street p);
                    Some (case r_variant rules of
                        FixedLimit \<Rightarrow> min_raise_total \<le> t
                      | _ \<Rightarrow> min_raise_total < t) }
             else Some False);
          max_raise \<leftarrow>
            (case r_variant rules of
               NoLimit \<Rightarrow> add_u32 (p_stack p) (p_bet_this_street p)
             | PotLimit \<Rightarrow>
                 do { pt \<leftarrow> pot_total (g_pot st);
                      pot_after_call \<leftarrow> add_u32 pt owed;
                      a \<leftarrow> add_u32 owed pot_after_call;
                      pot_raise \<leftarrow> add_u32 a pot_after_call;
                      t \<leftarrow> add_u32 (p_stack p) (p_bet_this_street p);
                      Some (min t pot_raise) }
             | FixedLimit \<Rightarrow> Some min_raise_total);
          Some \<lparr>la_can_check = (owed = 0),
                la_can_call = (0 < owed \<and> owed < p_stack p),
                la_call_amount = min owed (p_stack p),
                la_can_raise = can_raise,
                la_min_raise = min_raise_total,
                la_max_raise = max_raise,
                la_all_in_amount = p_stack p\<rparr> }"

definition normalize_action :: "game_state \<Rightarrow> nat \<Rightarrow> action \<Rightarrow> action option" where
  "normalize_action st seat a =
     (case a of
        Raise amount \<Rightarrow>
          do { p \<leftarrow> idx (g_players st) seat;
               if p_stack p \<le> saturating_sub amount (p_bet_this_street p) then Some AllIn
               else do {
                 min_raise_total \<leftarrow> add_u32 (g_current_bet st) (g_min_raise_increment st);
                 if amount < min_raise_total then
                   Some (if saturating_sub (g_current_bet st) (p_bet_this_street p) = 0
                         then Check else Call)
                 else Some (Raise amount) } }
      | _ \<Rightarrow> Some a)"

section \<open>Applying an action\<close>

text \<open>\<open>state.pot.total() + players.map(bet_this_street).sum()\<close>.\<close>

definition table_total :: "game_state \<Rightarrow> nat option" where
  "table_total st =
     do { t \<leftarrow> pot_total (g_pot st);
          b \<leftarrow> sum_u32 (map p_bet_this_street (g_players st));
          add_u32 t b }"

definition apply_fold :: "nat \<Rightarrow> game_state \<Rightarrow> game_state option" where
  "apply_fold seat st =
     do { p \<leftarrow> idx (g_players st) seat; Some (set_player seat (p\<lparr>p_status := Folded\<rparr>) st) }"

definition apply_call :: "'w env \<Rightarrow> nat \<Rightarrow> game_state \<Rightarrow> 'w \<Rightarrow> (game_state \<times> 'w) option" where
  "apply_call env seat st w =
     do { p \<leftarrow> idx (g_players st) seat;
          let owed = saturating_sub (g_current_bet st) (p_bet_this_street p);
          p' \<leftarrow> pay (min owed (p_stack p)) p;
          let (p'', w') = mark_all_in env seat p' w in Some (set_player seat p'' st, w') }"

definition apply_raise :: "nat \<Rightarrow> nat \<Rightarrow> game_state \<Rightarrow> game_state option" where
  "apply_raise seat amount st =
     do { p \<leftarrow> idx (g_players st) seat;
          let prev_bet = p_bet_this_street p;
          let paid = min (saturating_sub amount prev_bet) (p_stack p);
          p' \<leftarrow> pay paid p;
          new_total \<leftarrow> add_u32 prev_bet paid;
          incr \<leftarrow> sub_u32 new_total (g_current_bet st);
          Some ((set_player seat p' st)\<lparr>g_min_raise_increment := incr,
            g_cumulative_short_increment := 0, g_current_bet := new_total,
            g_last_aggressor := Some seat\<rparr>) }"

text \<open>The \<open>if all_in_total > state.current_bet\<close> block of the \<open>AllIn\<close> arm.\<close>

definition raise_all_in :: "nat \<Rightarrow> nat \<Rightarrow> game_state \<Rightarrow> bool \<times> game_state" where
  "raise_all_in seat all_in_total st =
     (if g_current_bet st < all_in_total then
        let increment = all_in_total - g_current_bet st;
            st' = st\<lparr>g_current_bet := all_in_total, g_last_aggressor := Some seat\<rparr>
        in if g_min_raise_increment st' \<le> increment
           then (True, st'\<lparr>g_min_raise_increment := increment, g_cumulative_short_increment := 0\<rparr>)
           else let c = saturating_add_u32 (g_cumulative_short_increment st') increment
                in (g_min_raise_increment st' \<le> c, st'\<lparr>g_cumulative_short_increment := c\<rparr>)
      else (False, st))"

definition apply_all_in ::
  "'w env \<Rightarrow> nat \<Rightarrow> game_state \<Rightarrow> 'w \<Rightarrow> (bool \<times> game_state \<times> 'w) option" where
  "apply_all_in env seat st w =
     do { p \<leftarrow> idx (g_players st) seat;
          all_in_total \<leftarrow> add_u32 (p_bet_this_street p) (p_stack p);
          c \<leftarrow> add_u32 (p_total_committed p) (p_stack p);
          let (agg, st') = raise_all_in seat all_in_total
            (set_player seat (p\<lparr>p_total_committed := c, p_bet_this_street := all_in_total,
               p_stack := 0, p_status := PAllIn\<rparr>) st)
          in Some (agg, st', e_sink env (PlayerAllIn seat c) w) }"

definition apply_action ::
  "'w env \<Rightarrow> nat \<Rightarrow> action \<Rightarrow> game_state \<Rightarrow> 'w \<Rightarrow> (bool \<times> game_state \<times> 'w) option" where
  "apply_action env seat a st w =
     do { (was_aggression, st', w') \<leftarrow>
            (case a of
               Fold \<Rightarrow> do { st' \<leftarrow> apply_fold seat st; Some (False, st', w) }
             | Check \<Rightarrow> Some (False, st, w)
             | Call \<Rightarrow> do { (st', w') \<leftarrow> apply_call env seat st w; Some (False, st', w') }
             | Raise amount \<Rightarrow> do { st' \<leftarrow> apply_raise seat amount st; Some (True, st', w) }
             | AllIn \<Rightarrow> apply_all_in env seat st w);
          t \<leftarrow> table_total st';
          Some (was_aggression, st', e_sink env (ActionTaken seat a t) w') }"

section \<open>Betting round\<close>

text \<open>Is seat \<open>i\<close> settled: not to act any more unless somebody raises?\<close>

definition settled :: "game_state \<Rightarrow> bool list \<Rightarrow> nat \<Rightarrow> bool" where
  "settled st has_responded i \<longleftrightarrow>
     (let p = g_players st ! i in
      \<not> is_active p \<or> (p_bet_this_street p = g_current_bet st \<and> has_responded ! i))"

definition public_players :: "player_state list \<Rightarrow> public_player_state list" where
  "public_players players =
     map (\<lambda>(i, p). \<lparr>pp_seat = i, pp_stack = p_stack p, pp_bet_this_street = p_bet_this_street p,
        pp_is_folded = (p_status p = Folded), pp_is_all_in = (p_status p = PAllIn)\<rparr>)
       (enumerate 0 players)"

definition observe :: "game_state \<Rightarrow> nat \<Rightarrow> legal_actions \<Rightarrow> observation option" where
  "observe st current legal =
     do { p \<leftarrow> idx (g_players st) current;
          hole \<leftarrow> p_hole_cards p;
          Some \<lparr>o_hole_cards = hole, o_board = g_board st, o_pot = g_pot st,
                o_legal_actions = legal, o_players = public_players (g_players st),
                o_street = g_street st, o_position = current, o_dealer = g_dealer st\<rparr> }"

definition broadcast :: "'w env \<Rightarrow> nat \<Rightarrow> engine_event \<Rightarrow> 'w \<Rightarrow> 'w" where
  "broadcast env n ev w = fold (\<lambda>seat. e_on_event env seat ev) [0..<n] w"

text \<open>One turn of the loop body: observe, ask the agent, normalise, apply, broadcast.\<close>

definition take_turn ::
  "betting_rules \<Rightarrow> 'w env \<Rightarrow> game_state \<Rightarrow> bool list \<Rightarrow> nat \<Rightarrow> 'w \<Rightarrow>
     (bool \<times> game_state \<times> 'w) option" where
  "take_turn rules env st0 has_responded current w =
     do { let st = st0\<lparr>g_action_on := Some current\<rparr>;
          legal \<leftarrow> compute_legal_actions rules st current (\<not> has_responded ! current);
          obs \<leftarrow> observe st current legal;
          (raw_action, w1) \<leftarrow> e_act env current obs w;
          a \<leftarrow> normalize_action st current raw_action;
          (was_aggression, st', w2) \<leftarrow> apply_action env current a st w1;
          t \<leftarrow> table_total st';
          Some (was_aggression, st',
                broadcast env (length (g_players st)) (ActionTaken current a t) w2) }"

definition respond :: "nat \<Rightarrow> bool \<Rightarrow> bool list \<Rightarrow> bool list" where
  "respond current was_aggression has_responded =
     (if was_aggression then map (\<lambda>i. i = current) [0..<length has_responded]
      else has_responded[current := True])"

partial_function (option) betting_loop ::
  "betting_rules \<Rightarrow> 'w env \<Rightarrow> game_state \<Rightarrow> bool list \<Rightarrow> nat \<Rightarrow> 'w \<Rightarrow>
     (nat option \<times> game_state \<times> 'w) option" where
  "betting_loop rules env st has_responded current w =
     (if list_all (settled st has_responded) [0..<length (g_players st)]
      then Some (None, st\<lparr>g_action_on := None\<rparr>, w)
      else do { _ \<leftarrow> idx (g_players st) current;
        if settled st has_responded current
        then betting_loop rules env st has_responded
               ((current + 1) mod length (g_players st)) w
        else do { (was_aggression, st', w') \<leftarrow> take_turn rules env st has_responded current w;
          if players_still_in st' = 1
          then do { winner \<leftarrow> position still_in (g_players st'); Some (Some winner, st', w') }
          else betting_loop rules env st' (respond current was_aggression has_responded)
                 ((current + 1) mod length (g_players st')) w' } })"

definition run_betting_round ::
  "betting_rules \<Rightarrow> 'w env \<Rightarrow> game_state \<Rightarrow> nat \<Rightarrow> 'w \<Rightarrow> (nat option \<times> game_state \<times> 'w) option" where
  "run_betting_round rules env st first_to_act w =
     betting_loop rules env st (replicate (length (g_players st)) False) first_to_act w"

section \<open>Streets\<close>

definition begin_street :: "betting_rules \<Rightarrow> street \<Rightarrow> game_state \<Rightarrow> game_state" where
  "begin_street rules s st =
     st\<lparr>g_street := s, g_current_bet := 0, g_min_raise_increment := r_big_blind rules,
        g_cumulative_short_increment := 0, g_last_aggressor := None,
        g_players := map (\<lambda>p. p\<lparr>p_bet_this_street := 0\<rparr>) (g_players st)\<rparr>"

definition deal_board_cards ::
  "'w env \<Rightarrow> nat \<Rightarrow> street \<Rightarrow> game_state \<times> deck \<times> 'w \<Rightarrow> (game_state \<times> deck \<times> 'w) option" where
  "deal_board_cards env n s = (\<lambda>(st, d, w).
     do { (cards, d') \<leftarrow> deal_n n d;
          Some (st\<lparr>g_board := g_board st @ cards\<rparr>, d', e_sink env (BoardDealt s cards) w) })"

text \<open>
  The two loops of \<open>deal_remaining_board\<close>.  \<open>runout_need k\<close> is the bound \<open>n + (5 - ...)\<close> of the
  guard for the \<open>k\<close>-th street, read off \<open>n_per\<close> as the code does.
\<close>

definition n_per :: "nat list" where
  "n_per = [3, 1, 1]"

definition runout_need :: "nat \<Rightarrow> nat" where
  "runout_need k = n_per ! k + (5 - sum_list (take (3 - k) (rev n_per)))"

fun runout_loop ::
  "'w env \<Rightarrow> (nat \<times> street) list \<Rightarrow> nat \<Rightarrow> game_state \<times> deck \<times> 'w \<Rightarrow>
     (game_state \<times> deck \<times> 'w) option" where
  "runout_loop env [] dealt sdw = Some sdw"
| "runout_loop env ((k, s) # ks) dealt sdw =
     (if 5 \<le> dealt then Some sdw
      else if dealt < runout_need k then
        do { let to_deal = min (n_per ! k) (5 - dealt);
             sdw' \<leftarrow> deal_board_cards env to_deal s sdw;
             runout_loop env ks (dealt + to_deal) sdw' }
      else runout_loop env ks dealt sdw)"

function fill_board :: "game_state \<Rightarrow> deck \<Rightarrow> (game_state \<times> deck) option" where
  "fill_board st d =
     (if length (g_board st) < 5 then
        (case deck_deal d of None \<Rightarrow> None
         | Some (c, d') \<Rightarrow> fill_board (st\<lparr>g_board := g_board st @ [c]\<rparr>) d')
      else Some (st, d))"
  by pat_completeness auto
termination
  by (relation "measure (\<lambda>(st, _). 5 - length (g_board st))") auto

definition deal_remaining_board ::
  "'w env \<Rightarrow> game_state \<times> deck \<times> 'w \<Rightarrow> (game_state \<times> deck \<times> 'w) option" where
  "deal_remaining_board env = (\<lambda>(st, d, w).
     if 5 - length (g_board st) = 0 then Some (st, d, w)
     else do { (st', d', w') \<leftarrow>
                 runout_loop env [(0, Flop), (1, Turn), (2, River)] (length (g_board st)) (st, d, w);
               (st'', d'') \<leftarrow> fill_board st' d';
               Some (st'', d'', w') })"

declare fill_board.simps [simp del]

section \<open>Showdown and awards\<close>

text \<open>
  Chip deltas are \<open>i64\<close>: the sum of all awards is at most the chips on the table, below \<open>2 ^ 32\<close>,
  so they are plain integers here.
\<close>

definition add_delta :: "nat \<Rightarrow> nat \<Rightarrow> int list \<Rightarrow> int list option" where
  "add_delta seat amount deltas =
     do { d \<leftarrow> idx deltas seat; Some (deltas[seat := d + int amount]) }"

text \<open>The best hands among the eligible seats: \<open>ranks\<close>, \<open>best\<close> and \<open>winners\<close>.\<close>

definition rank_seat ::
  "(card list \<Rightarrow> hand_rank option) \<Rightarrow> player_state list \<Rightarrow> card list \<Rightarrow> nat \<Rightarrow>
     (nat \<times> hand_rank) option" where
  "rank_seat rank_7 players board seat =
     do { p \<leftarrow> idx players seat;
          (h1, h2) \<leftarrow> p_hole_cards p;
          r \<leftarrow> rank_7 ([h1, h2] @ board);
          Some (seat, r) }"

definition winners_of :: "(nat \<times> hand_rank) list \<Rightarrow> nat list option" where
  "winners_of ranks =
     (if ranks = [] then None
      else let best = Max (set (map snd ranks))
           in Some (map fst (filter (\<lambda>(_, r). r = best) ranks)))"

definition split_pot ::
  "nat \<Rightarrow> nat \<Rightarrow> nat \<Rightarrow> nat list \<Rightarrow> int list \<Rightarrow> int list option" where
  "split_pot n dealer amount winners deltas =
     do { ds \<leftarrow> for_each winners (\<lambda>w. add_delta w (amount div length winners)) deltas;
          let remainder = amount mod length winners;
          if 0 < remainder then
            (case find (\<lambda>seat. seat \<in> set winners) (map (\<lambda>i. (dealer + 1 + i) mod n) [0..<n]) of
               None \<Rightarrow> Some ds
             | Some seat \<Rightarrow> add_delta seat remainder ds)
          else Some ds }"

definition award_pot ::
  "(card list \<Rightarrow> hand_rank option) \<Rightarrow> game_state \<Rightarrow> nat \<times> nat list \<Rightarrow> int list \<Rightarrow>
     int list option" where
  "award_pot rank_7 st = (\<lambda>(amount, eligible) deltas.
     if eligible = [] \<or> amount = 0 then Some deltas
     else if length eligible = 1 then add_delta (eligible ! 0) amount deltas
     else do { ranks \<leftarrow> map_opt (rank_seat rank_7 (g_players st) (g_board st)) eligible;
               winners \<leftarrow> winners_of ranks;
               split_pot (length (g_players st)) (g_dealer st) amount winners deltas })"

definition resolve_showdown ::
  "(card list \<Rightarrow> hand_rank option) \<Rightarrow> game_state \<Rightarrow> (int list \<times> game_state) option" where
  "resolve_showdown rank_7 st =
     (if length (g_board st) = 5 then
        do { pots \<leftarrow> build_showdown_pots (g_players st);
             deltas \<leftarrow> for_each pots (award_pot rank_7 st)
                        (replicate (length (g_players st)) 0);
             Some (deltas, st\<lparr>g_players := map (\<lambda>(p, d). p\<lparr>p_stack := as_u32 (int (p_stack p) + d)\<rparr>)
                                             (zip (g_players st) deltas)\<rparr>) }
      else None)"

definition award_uncontested :: "nat \<Rightarrow> game_state \<Rightarrow> (int list \<times> game_state) option" where
  "award_uncontested winner st =
     do { (players, p) \<leftarrow> collect_street_bets (g_players st) (g_pot st);
          total \<leftarrow> pot_total p;
          w \<leftarrow> idx players winner;
          s \<leftarrow> add_u32 (p_stack w) total;
          Some ((replicate (length players) 0)[winner := int total],
                st\<lparr>g_players := players[winner := w\<lparr>p_stack := s\<rparr>], g_pot := p\<lparr>pot_main := 0\<rparr>\<rparr>) }"

definition award_uncontested_and_finish :: "game_state \<Rightarrow> (int list \<times> game_state) option" where
  "award_uncontested_and_finish st =
     do { winner \<leftarrow> position still_in (g_players st); award_uncontested winner st }"

definition seat_outcomes :: "game_state \<Rightarrow> int list \<Rightarrow> seat_outcome list option" where
  "seat_outcomes st deltas =
     map_opt (\<lambda>(i, p).
         do { d \<leftarrow> idx deltas i;
              delta \<leftarrow> sub_i32 (as_i32 d) (as_i32 (int (p_total_committed p)));
              Some \<lparr>so_seat = i, so_hole_cards = p_hole_cards p, so_chip_delta = delta,
                    so_sat_out = unwrap_or (idx (g_sat_out st) i) False\<rparr> })
       (filter (\<lambda>(_, p). p_status p \<noteq> Out) (enumerate 0 (g_players st)))"

definition build_result :: "nat \<Rightarrow> game_state \<Rightarrow> int list \<Rightarrow> hand_result option" where
  "build_result hand_id st deltas =
     do { seats \<leftarrow> seat_outcomes st deltas;
          Some \<lparr>hr_hand_id = hand_id, hr_board = g_board st, hr_seats = seats\<rparr> }"

section \<open>A whole hand\<close>

definition collect_bets :: "game_state \<Rightarrow> game_state option" where
  "collect_bets st =
     do { (players, p) \<leftarrow> collect_street_bets (g_players st) (g_pot st);
          Some (st\<lparr>g_players := players, g_pot := p\<rparr>) }"

text \<open>
  The loop over flop, turn and river in \<open>run_streets\<close>: \<open>Some deltas\<close> is the early return of an
  uncontested winner.
\<close>

definition street_betting ::
  "betting_rules \<Rightarrow> 'w env \<Rightarrow> game_state \<Rightarrow> 'w \<Rightarrow> (nat option \<times> game_state \<times> 'w) option" where
  "street_betting rules env st w =
     (if 2 \<le> active_count (g_players st) then
        (case next_active_after (g_dealer st) (g_players st) of
           None \<Rightarrow> Some (None, st, w)
         | Some first \<Rightarrow> run_betting_round rules env st first w)
      else Some (None, st, w))"

fun postflop_loop ::
  "betting_rules \<Rightarrow> 'w env \<Rightarrow> (street \<times> nat) list \<Rightarrow> game_state \<times> deck \<times> 'w \<Rightarrow>
     (int list option \<times> game_state \<times> deck \<times> 'w) option" where
  "postflop_loop rules env [] sdw = Some (None, sdw)"
| "postflop_loop rules env ((s, n_cards) # rest) sdw =
     (if players_still_in (fst sdw) \<le> 1 then Some (None, sdw)
      else do {
        (st, d, w) \<leftarrow> deal_board_cards env n_cards s
                        (begin_street rules s (fst sdw), fst (snd sdw), snd (snd sdw));
        let w1 = broadcast env (length (g_players st))
                   (BoardDealt s (drop (length (g_board st) - n_cards) (g_board st))) w;
        (winner, st1, w2) \<leftarrow> street_betting rules env st w1;
        (case winner of
           Some seat \<Rightarrow>
             do { (deltas, st2) \<leftarrow> award_uncontested seat st1; Some (Some deltas, st2, d, w2) }
         | None \<Rightarrow>
             do { st2 \<leftarrow> collect_bets st1; postflop_loop rules env rest (st2, d, w2) }) })"

definition run_streets ::
  "(card list \<Rightarrow> hand_rank option) \<Rightarrow> betting_rules \<Rightarrow> 'w env \<Rightarrow> nat \<Rightarrow> game_state \<times> deck \<times> 'w \<Rightarrow>
     (int list \<times> game_state \<times> 'w) option" where
  "run_streets rank_7 rules env first_preflop = (\<lambda>(st, d, w).
     do { (winner, st1, w1) \<leftarrow> run_betting_round rules env st first_preflop w;
          case winner of
            Some seat \<Rightarrow> do { (deltas, st2) \<leftarrow> award_uncontested seat st1; Some (deltas, st2, w1) }
          | None \<Rightarrow>
              do { st2 \<leftarrow> collect_bets st1;
                   (early, st3, d3, w3) \<leftarrow>
                     postflop_loop rules env [(Flop, 3), (Turn, 1), (River, 1)] (st2, d, w1);
                   case early of
                     Some deltas \<Rightarrow> Some (deltas, st3, w3)
                   | None \<Rightarrow>
                       do { (st4, d4, w4) \<leftarrow> deal_remaining_board env (st3, d3, w3);
                            (deltas, st5) \<leftarrow> resolve_showdown rank_7 st4;
                            Some (deltas, st5, w4) } } })"

text \<open>
  Everything \<open>run_hand\<close> does before the first betting round: blinds, \<open>canonical_bb\<close>, hole cards
  and dead hands.
\<close>

definition setup_hand ::
  "betting_rules \<Rightarrow> 'w env \<Rightarrow> seat_kind list option \<Rightarrow> game_state \<times> deck \<times> 'w \<Rightarrow>
     (nat \<times> game_state \<times> deck \<times> 'w) option" where
  "setup_hand rules env seat_kinds = (\<lambda>(st, d, w).
     do { sw1 \<leftarrow> (if 0 < r_ante rules then post_antes rules env (st, w) else Some (st, w));
          (st2, w2) \<leftarrow> post_blinds rules env sw1;
          let canonical_bb = bb_seat st2;
          (st3, d3, w3) \<leftarrow> deal_hole_cards env (st2, d, w2);
          st4 \<leftarrow> fold_dead_hands seat_kinds st3;
          Some (canonical_bb, st4, d3, w3) })"

definition run_hand ::
  "('r \<Rightarrow> nat \<Rightarrow> nat \<times> 'r) \<Rightarrow> (64 word \<Rightarrow> 'r) \<Rightarrow> (card list \<Rightarrow> hand_rank option) \<Rightarrow>
     betting_rules \<Rightarrow> 'w env \<Rightarrow> nat \<Rightarrow> 64 word \<Rightarrow> nat list \<Rightarrow> nat \<Rightarrow> seat_kind list option \<Rightarrow>
     'w \<Rightarrow> (hand_result \<times> 'w) option" where
  "run_hand gen_range seed_from_u64 rank_7 rules env hand_id deck_seed stacks dealer seat_kinds w =
     do { let n = length stacks;
          d \<leftarrow> deck_new gen_range seed_from_u64 deck_seed;
          let st = init_state rules hand_id stacks dealer;
          let w1 = e_sink env (HandStarted hand_id dealer deck_seed) w;
          let w2 = fold (\<lambda>seat. e_on_hand_start env seat hand_id) [0..<n] w1;
          (canonical_bb, st1, d1, w3) \<leftarrow> setup_hand rules env seat_kinds (st, d, w2);
          (deltas, st2, w4) \<leftarrow>
            (case next_active_after canonical_bb (g_players st1) of
               None \<Rightarrow> do { (deltas, st2) \<leftarrow> award_uncontested_and_finish st1;
                            Some (deltas, st2, w3) }
             | Some first \<Rightarrow> run_streets rank_7 rules env first (st1, d1, w3));
          result \<leftarrow> build_result hand_id st2 deltas;
          let w5 = e_sink env (HandEnded hand_id result) w4;
          Some (result, fold (\<lambda>seat. e_on_hand_end env seat result) [0..<n] w5) }"

end
