(* ===== verification/EngineInv.thy ===== *)
theory EngineInv
  imports Engine
begin

text \<open>
  The invariant of a hand in progress and its preservation by every operation of the engine that
  moves chips.  \<open>table_inv T lim st\<close> says that the \<open>T\<close> chips of the hand are all accounted for, that
  every seat is in a state its status allows, that nobody has bet more than the current bet, and
  that all amounts stay far enough below \<open>2 ^ 32\<close> for the arithmetic of the engine not to overflow.
  \<open>evolves\<close> is what no operation changes about a seat.
\<close>

section \<open>Searching seats\<close>

lemma mod_add_wrap:
  "a < n \<Longrightarrow> b \<le> n \<Longrightarrow> (a + b) mod n = (if a + b < n then a + b else a + b - n)" for a b n :: nat
  by (simp add: le_mod_geq)

lemma seats_after_set:
  assumes "orig < n"
  shows "set (seats_after orig n n) = {0..<n}"
proof
  show "set (seats_after orig n n) \<subseteq> {0..<n}"
    using assms by (auto simp: seats_after_def)
  show "{0..<n} \<subseteq> set (seats_after orig n n)"
  proof
    fix j assume j: "j \<in> {0..<n}"
    define i where "i = (if orig < j then j - orig else n + j - orig)"
    have "1 \<le> i" "i < Suc n" "(orig + i) mod n = j"
      using j assms by (auto simp: i_def)
    then show "j \<in> set (seats_after orig n n)"
      unfolding seats_after_def set_map set_upt by (intro image_eqI [of _ _ i]) auto
  qed
qed

lemma find_seat_Some:
  assumes "find P (seats_after orig n n) = Some j" and "orig < n"
  shows "j < n \<and> P j"
proof -
  from assms(1) have "j \<in> set (seats_after orig n n)" "P j"
    by (auto simp: find_Some_iff)
  with seats_after_set [OF assms(2)] show ?thesis by simp
qed

lemma next_active_after_Some:
  "next_active_after orig players = Some j \<Longrightarrow> orig < length players
     \<Longrightarrow> j < length players \<and> is_active (players ! j)"
  unfolding next_active_after_def by (rule find_seat_Some)

lemma next_active_after_None:
  "orig < length players \<Longrightarrow>
     next_active_after orig players = None \<longleftrightarrow> (\<forall>p \<in> set players. \<not> is_active p)"
  by (auto simp: next_active_after_def find_None_iff seats_after_set all_set_conv_all_nth)

lemma next_in_list_bounds:
  assumes "orig < length players"
  shows "unwrap_or (next_active_after_in_list orig players (length players)) orig < length players"
  using assms find_seat_Some [of _ orig "length players"]
  by (auto simp: next_active_after_in_list_def unwrap_or_def split: option.splits)

lemma next_in_list_still_in:
  assumes "orig < length players" and "\<exists>p \<in> set players. still_in p"
  shows "still_in (players ! unwrap_or
           (next_active_after_in_list orig players (length players)) orig)"
proof -
  have "next_active_after_in_list orig players (length players) \<noteq> None"
    using assms by (auto simp: next_active_after_in_list_def find_None_iff seats_after_set
        in_set_conv_nth)
  then show ?thesis
    using assms(1) find_seat_Some [of "\<lambda>seat. still_in (players ! seat)" orig "length players"]
    by (auto simp: next_active_after_in_list_def unwrap_or_def)
qed

text \<open>With a second seat still in, the search leaves the seat it starts from.\<close>

lemma find_first:
  "find P (map f [a..<b]) = Some y \<Longrightarrow> \<exists>i. a \<le> i \<and> i < b \<and> y = f i \<and> P y \<and> (\<forall>j. a \<le> j \<longrightarrow> j < i \<longrightarrow> \<not> P (f j))"
  by (auto simp: find_Some_iff nth_append) (metis add.commute le_iff_add less_diff_conv nat_add_left_cancel_less)

lemma next_in_list_other:
  assumes "orig < length players" and "j < length players" "j \<noteq> orig" "still_in (players ! j)"
  shows "unwrap_or (next_active_after_in_list orig players (length players)) orig \<noteq> orig"
proof -
  let ?n = "length players"
  have "next_active_after_in_list orig players ?n \<noteq> None"
    using assms by (auto simp: next_active_after_in_list_def find_None_iff seats_after_set)
  then obtain s where s: "next_active_after_in_list orig players ?n = Some s" by auto
  then obtain i where i: "1 \<le> i" "i < Suc ?n" "s = (orig + i) mod ?n"
      "\<forall>k. 1 \<le> k \<longrightarrow> k < i \<longrightarrow> \<not> still_in (players ! ((orig + k) mod ?n))"
    using find_first [OF s [unfolded next_active_after_in_list_def seats_after_def]] by blast
  define k where "k = (if orig < j then j - orig else ?n + j - orig)"
  have k: "1 \<le> k" "k < ?n" "(orig + k) mod ?n = j"
    using assms(1-3) by (auto simp: k_def)
  then have "i \<le> k"
    using i(4) assms(4) by (metis not_less)
  then have "s \<noteq> orig"
    using i(1,3) k(2) assms(1) mod_add_wrap [of orig ?n i] by (auto split: if_splits)
  with s show ?thesis by (simp add: unwrap_or_def)
qed

section \<open>The invariant\<close>

definition player_ok :: "nat \<Rightarrow> player_state \<Rightarrow> bool" where
  "player_ok cb p \<longleftrightarrow>
     (p_status p = Active \<longrightarrow> 0 < p_stack p)
     \<and> (p_status p = PAllIn \<longrightarrow> p_stack p = 0 \<and> 0 < p_total_committed p)
     \<and> (p_status p = Out \<longrightarrow> p_stack p = 0 \<and> p_total_committed p = 0)
     \<and> p_bet_this_street p \<le> p_total_committed p
     \<and> p_bet_this_street p \<le> cb"

definition chips_of :: "player_state \<Rightarrow> nat" where
  "chips_of p = p_stack p + p_total_committed p"

definition total_stack :: "player_state list \<Rightarrow> nat" where
  "total_stack players = sum_list (map p_stack players)"

definition total_bets :: "player_state list \<Rightarrow> nat" where
  "total_bets players = sum_list (map p_bet_this_street players)"

definition total_chips :: "player_state list \<Rightarrow> nat" where
  "total_chips players = sum_list (map chips_of players)"

definition table_inv :: "nat \<Rightarrow> nat \<Rightarrow> game_state \<Rightarrow> bool" where
  "table_inv T lim st \<longleftrightarrow>
     (\<forall>p \<in> set (g_players st). player_ok (g_current_bet st) p)
     \<and> total_chips (g_players st) = T
     \<and> pot_main (g_pot st) + total_bets (g_players st) = total_committed (g_players st)
     \<and> pot_side (g_pot st) = []
     \<and> g_current_bet st \<le> lim
     \<and> 0 < g_min_raise_increment st \<and> g_min_raise_increment st \<le> lim
     \<and> T \<le> lim \<and> 8 * lim < u32_lim"

definition evolves :: "player_state \<Rightarrow> player_state \<Rightarrow> bool" where
  "evolves p p' \<longleftrightarrow>
     p_hole_cards p' = p_hole_cards p
     \<and> chips_of p' = chips_of p
     \<and> p_total_committed p \<le> p_total_committed p'
     \<and> (p_status p' = Out \<longleftrightarrow> p_status p = Out)
     \<and> (still_in p' \<longrightarrow> still_in p)"

definition hand_frame :: "game_state \<Rightarrow> game_state \<Rightarrow> bool" where
  "hand_frame st st' \<longleftrightarrow>
     list_all2 evolves (g_players st) (g_players st')
     \<and> g_board st' = g_board st \<and> g_dealer st' = g_dealer st \<and> g_hand_id st' = g_hand_id st
     \<and> g_street st' = g_street st \<and> g_sat_out st' = g_sat_out st
     \<and> g_current_bet st \<le> g_current_bet st'"

lemma evolves_refl [simp]: "evolves p p"
  by (simp add: evolves_def)

lemma evolves_trans: "evolves p q \<Longrightarrow> evolves q r \<Longrightarrow> evolves p r"
  by (auto simp: evolves_def)

lemma list_all2_evolves_trans:
  "list_all2 evolves a b \<Longrightarrow> list_all2 evolves b c \<Longrightarrow> list_all2 evolves a c"
  by (rule list_all2_trans [OF evolves_trans])

lemma hand_frame_refl [simp]: "hand_frame st st"
  by (simp add: hand_frame_def list.rel_refl)

lemma hand_frame_trans: "hand_frame st st' \<Longrightarrow> hand_frame st' st'' \<Longrightarrow> hand_frame st st''"
  unfolding hand_frame_def using list_all2_evolves_trans by force

lemma hand_frame_length: "hand_frame st st' \<Longrightarrow> length (g_players st') = length (g_players st)"
  by (auto simp: hand_frame_def dest: list_all2_lengthD)

lemma list_all2_update:
  "i < length xs \<Longrightarrow> R (xs ! i) y \<Longrightarrow> (\<And>x. R x x) \<Longrightarrow> list_all2 R xs (xs[i := y])"
  by (metis list_all2_refl list_all2_update_cong list_update_id)

section \<open>Consequences of the invariant\<close>

lemma total_chips_split: "total_chips players = total_stack players + total_committed players"
  by (induction players) (auto simp: total_chips_def total_stack_def total_committed_def chips_of_def)

lemma table_inv_player:
  assumes "table_inv T lim st" and "i < length (g_players st)"
  shows "player_ok (g_current_bet st) (g_players st ! i)"
    and "p_stack (g_players st ! i) + p_total_committed (g_players st ! i) \<le> T"
  using assms sum_list_member_le [OF assms(2), of chips_of]
  by (auto simp: table_inv_def total_chips_def chips_of_def)

lemma table_inv_total:
  assumes "table_inv T lim st"
  shows "pot_main (g_pot st) + total_bets (g_players st) \<le> T"
    and "pot_side (g_pot st) = []" and "T \<le> lim" and "8 * lim < u32_lim"
    and "g_current_bet st \<le> lim" and "g_min_raise_increment st \<le> lim"
    and "0 < g_min_raise_increment st"
  using assms by (auto simp: table_inv_def total_chips_split)

lemma table_total_inv:
  assumes "table_inv T lim st"
  shows "table_total st = Some (total_committed (g_players st))"
proof -
  have "ok (table_total st) (\<lambda>t. t = total_committed (g_players st))"
    using table_inv_total [OF assms] assms
    by (simp add: table_total_def total_bets_def [symmetric] table_inv_def)
  then show ?thesis by (auto simp: ok_def)
qed

section \<open>One seat acts\<close>

text \<open>
  What a turn of seat \<open>i\<close> does: it changes that seat only, leaves it settled or out of the betting,
  and either moves chips from its stack or leaves the betting level as it was.
\<close>

definition turn_rel :: "nat \<Rightarrow> nat \<Rightarrow> nat \<Rightarrow> bool \<Rightarrow> game_state \<Rightarrow> game_state \<Rightarrow> bool" where
  "turn_rel T lim i agg st st' \<longleftrightarrow>
     table_inv T lim st' \<and> hand_frame st st'
     \<and> g_players st' = (g_players st)[i := g_players st' ! i]
     \<and> (is_active (g_players st' ! i) \<longrightarrow> p_bet_this_street (g_players st' ! i) = g_current_bet st')
     \<and> (total_stack (g_players st') < total_stack (g_players st)
        \<or> total_stack (g_players st') = total_stack (g_players st)
          \<and> g_current_bet st' = g_current_bet st \<and> \<not> agg)"

lemma turn_rel_total:
  "turn_rel T lim i agg st st' \<Longrightarrow> table_total st' = Some (total_committed (g_players st'))"
  by (auto simp: turn_rel_def table_total_inv)

lemma player_ok_mono: "player_ok cb p \<Longrightarrow> cb \<le> cb' \<Longrightarrow> player_ok cb' p"
  by (auto simp: player_ok_def)

text \<open>Replacing one seat, the core of every preservation proof.\<close>

lemma table_inv_update:
  assumes inv: "table_inv T lim st" and i: "i < length (g_players st)"
    and st': "g_players st' = (g_players st)[i := p']" "g_pot st' = g_pot st"
    and p': "player_ok (g_current_bet st') p'" "chips_of p' = chips_of (g_players st ! i)"
      "p_bet_this_street p' + p_total_committed (g_players st ! i)
       = p_bet_this_street (g_players st ! i) + p_total_committed p'"
    and lims: "g_current_bet st \<le> g_current_bet st'" "g_current_bet st' \<le> lim"
      "0 < g_min_raise_increment st'" "g_min_raise_increment st' \<le> lim"
  shows "table_inv T lim st'"
proof -
  have "\<forall>p \<in> set (g_players st'). player_ok (g_current_bet st') p"
    using inv p'(1) lims(1) player_ok_mono st'(1)
    by (auto simp: table_inv_def dest!: set_update_subset)
  moreover have "total_chips (g_players st') = T"
    using inv sum_list_update_same [OF i, of chips_of p'] p'(2)
    by (simp add: st' total_chips_def table_inv_def)
  moreover have "pot_main (g_pot st') + total_bets (g_players st') = total_committed (g_players st')"
    using inv sum_list_update [OF i, of p_bet_this_street p']
      sum_list_update [OF i, of p_total_committed p'] p'(3)
    by (simp add: st' total_bets_def total_committed_def table_inv_def)
  ultimately show ?thesis
    using inv lims by (simp add: table_inv_def st')
qed

lemma turn_relI:
  assumes inv: "table_inv T lim st" and i: "i < length (g_players st)"
    and st': "g_players st' = (g_players st)[i := p']" "g_pot st' = g_pot st"
    and p': "player_ok (g_current_bet st') p'" "chips_of p' = chips_of (g_players st ! i)"
      "p_bet_this_street p' + p_total_committed (g_players st ! i)
       = p_bet_this_street (g_players st ! i) + p_total_committed p'"
    and lims: "g_current_bet st \<le> g_current_bet st'" "g_current_bet st' \<le> lim"
      "0 < g_min_raise_increment st'" "g_min_raise_increment st' \<le> lim"
    and frame: "evolves (g_players st ! i) p'" "g_board st' = g_board st" "g_dealer st' = g_dealer st"
      "g_hand_id st' = g_hand_id st" "g_street st' = g_street st" "g_sat_out st' = g_sat_out st"
    and settled: "is_active p' \<Longrightarrow> p_bet_this_street p' = g_current_bet st'"
    and progress: "p_stack p' < p_stack (g_players st ! i)
       \<or> p_stack p' = p_stack (g_players st ! i) \<and> g_current_bet st' = g_current_bet st \<and> \<not> agg"
  shows "turn_rel T lim i agg st st'"
proof -
  have "table_inv T lim st'"
    by (rule table_inv_update [OF inv i st' p' lims])
  moreover have "hand_frame st st'"
    using frame st'(1) i lims(1) by (simp add: hand_frame_def list_all2_update)
  moreover have "total_stack (g_players st') + p_stack (g_players st ! i)
      = total_stack (g_players st) + p_stack p'"
    using sum_list_update [OF i, of p_stack p'] by (simp add: st' total_stack_def)
  ultimately show ?thesis
    using settled progress i by (auto simp: turn_rel_def st')
qed

lemma ok_pay [simp, wp]:
  "ok (pay k p) P \<longleftrightarrow> k \<le> p_stack p \<and> p_bet_this_street p + k < u32_lim
     \<and> p_total_committed p + k < u32_lim
     \<and> P (p\<lparr>p_stack := p_stack p - k, p_bet_this_street := p_bet_this_street p + k,
            p_total_committed := p_total_committed p + k\<rparr>)"
  by (simp add: pay_def)

lemma set_player_simps [simp]:
  "g_players (set_player i p st) = (g_players st)[i := p]"
  "g_pot (set_player i p st) = g_pot st"
  "g_board (set_player i p st) = g_board st"
  "g_dealer (set_player i p st) = g_dealer st"
  "g_hand_id (set_player i p st) = g_hand_id st"
  "g_street (set_player i p st) = g_street st"
  "g_sat_out (set_player i p st) = g_sat_out st"
  "g_current_bet (set_player i p st) = g_current_bet st"
  "g_min_raise_increment (set_player i p st) = g_min_raise_increment st"
  "g_cumulative_short_increment (set_player i p st) = g_cumulative_short_increment st"
  by (simp_all add: set_player_def)

lemma pay_bounds:
  assumes "table_inv T lim st" and "i < length (g_players st)" and "k \<le> p_stack (g_players st ! i)"
  shows "p_bet_this_street (g_players st ! i) + k < u32_lim"
    and "p_total_committed (g_players st ! i) + k < u32_lim"
  using table_inv_player [OF assms(1,2)] table_inv_total(3,4) [OF assms(1)] assms(3)
  by (auto simp: player_ok_def)

lemmas turn_defs = player_ok_def chips_of_def evolves_def is_active_def still_in_def

lemma apply_fold_turn:
  assumes inv: "table_inv T lim st" and i: "i < length (g_players st)"
    and act: "is_active (g_players st ! i)"
  shows "ok (apply_fold i st) (turn_rel T lim i False st)"
proof -
  note p = table_inv_player [OF inv i] and b = table_inv_total [OF inv]
  have "turn_rel T lim i False st (set_player i ((g_players st ! i)\<lparr>p_status := Folded\<rparr>) st)"
    by (rule turn_relI [OF inv i, where p' = "(g_players st ! i)\<lparr>p_status := Folded\<rparr>"])
       (use p b act in \<open>auto simp: turn_defs\<close>)
  with i show ?thesis by (simp add: apply_fold_def)
qed

lemma apply_call_turn:
  assumes inv: "table_inv T lim st" and i: "i < length (g_players st)"
    and act: "is_active (g_players st ! i)"
  shows "ok (apply_call env i st w) (\<lambda>(st', _). turn_rel T lim i False st st')"
proof -
  note p = table_inv_player [OF inv i] and b = table_inv_total [OF inv]
  let ?p = "g_players st ! i"
  let ?k = "min (g_current_bet st - p_bet_this_street ?p) (p_stack ?p)"
  let ?p' = "?p\<lparr>p_stack := p_stack ?p - ?k, p_bet_this_street := p_bet_this_street ?p + ?k,
            p_total_committed := p_total_committed ?p + ?k\<rparr>"
  have "turn_rel T lim i False st (set_player i (fst (mark_all_in env i ?p' w)) st)"
    by (rule turn_relI [OF inv i, where p' = "fst (mark_all_in env i ?p' w)"])
       (use p b act in \<open>auto simp: turn_defs mark_all_in_def min_def\<close>)
  with i pay_bounds [OF inv i, of ?k] show ?thesis
    by (simp add: apply_call_def saturating_sub_def Let_def split_beta)
qed

lemma apply_raise_turn:
  assumes inv: "table_inv T lim st" and i: "i < length (g_players st)"
    and act: "is_active (g_players st ! i)"
    and low: "g_current_bet st + g_min_raise_increment st \<le> amount"
    and high: "amount - p_bet_this_street (g_players st ! i) < p_stack (g_players st ! i)"
  shows "ok (apply_raise i amount st) (turn_rel T lim i True st)"
proof -
  note p = table_inv_player [OF inv i] and b = table_inv_total [OF inv]
  let ?p = "g_players st ! i"
  define k where "k = amount - p_bet_this_street ?p"
  have k: "amount = p_bet_this_street ?p + k" "k < p_stack ?p" "0 < k"
    using p low high b(7) by (auto simp: k_def player_ok_def)
  let ?p' = "?p\<lparr>p_stack := p_stack ?p - k, p_bet_this_street := p_bet_this_street ?p + k,
            p_total_committed := p_total_committed ?p + k\<rparr>"
  have "turn_rel T lim i True st ((set_player i ?p' st)
     \<lparr>g_min_raise_increment := amount - g_current_bet st, g_cumulative_short_increment := 0,
      g_current_bet := amount, g_last_aggressor := Some i\<rparr>)"
    by (rule turn_relI [OF inv i, where p' = ?p'])
       (use p b act low k in \<open>auto simp: turn_defs\<close>)
  with i pay_bounds [OF inv i, of k] low k show ?thesis
    by (simp add: apply_raise_def saturating_sub_def Let_def)
qed

lemma raise_all_in_simps [simp]:
  "g_players (snd (raise_all_in i t st)) = g_players st"
  "g_pot (snd (raise_all_in i t st)) = g_pot st"
  "g_board (snd (raise_all_in i t st)) = g_board st"
  "g_dealer (snd (raise_all_in i t st)) = g_dealer st"
  "g_hand_id (snd (raise_all_in i t st)) = g_hand_id st"
  "g_street (snd (raise_all_in i t st)) = g_street st"
  "g_sat_out (snd (raise_all_in i t st)) = g_sat_out st"
  "g_current_bet (snd (raise_all_in i t st)) = max (g_current_bet st) t"
  "g_min_raise_increment (snd (raise_all_in i t st))
     = max (g_min_raise_increment st) (t - g_current_bet st)"
  by (auto simp: raise_all_in_def Let_def max_def)

lemma apply_all_in_turn:
  assumes inv: "table_inv T lim st" and i: "i < length (g_players st)"
    and act: "is_active (g_players st ! i)"
  shows "ok (apply_all_in env i st w) (\<lambda>(agg, st', _). turn_rel T lim i agg st st')"
proof -
  note p = table_inv_player [OF inv i] and b = table_inv_total [OF inv]
  let ?p = "g_players st ! i"
  let ?t = "p_bet_this_street ?p + p_stack ?p"
  let ?p' = "?p\<lparr>p_total_committed := p_total_committed ?p + p_stack ?p, p_bet_this_street := ?t,
      p_stack := 0, p_status := PAllIn\<rparr>"
  have "turn_rel T lim i (fst (raise_all_in i ?t (set_player i ?p' st))) st
          (snd (raise_all_in i ?t (set_player i ?p' st)))"
    by (rule turn_relI [OF inv i, where p' = ?p'])
       (use p b act in \<open>auto simp: turn_defs\<close>)
  with i pay_bounds [OF inv i, of "p_stack ?p"] show ?thesis
    by (simp add: apply_all_in_def Let_def split_beta)
qed

text \<open>Checking with nothing owed changes nothing.\<close>

lemma check_turn:
  assumes inv: "table_inv T lim st" and i: "i < length (g_players st)"
    and "g_current_bet st \<le> p_bet_this_street (g_players st ! i)"
  shows "turn_rel T lim i False st st"
  using table_inv_player(1) [OF inv i] assms by (simp add: turn_rel_def player_ok_def)

text \<open>
  What an agent may answer: anything but a check that owes chips.  (A raise of any size is
  allowed: \<open>normalize_action\<close> turns it into a legal action.)
\<close>

definition answer_ok :: "legal_actions \<Rightarrow> action \<Rightarrow> bool" where
  "answer_ok la a \<longleftrightarrow> a = Check \<longrightarrow> la_can_check la"

text \<open>What \<open>normalize_action\<close> promises \<open>apply_action\<close>.\<close>

definition normal_action :: "game_state \<Rightarrow> nat \<Rightarrow> action \<Rightarrow> bool" where
  "normal_action st i a =
     (case a of
        Check \<Rightarrow> g_current_bet st \<le> p_bet_this_street (g_players st ! i)
      | Raise amount \<Rightarrow> g_current_bet st + g_min_raise_increment st \<le> amount
          \<and> amount - p_bet_this_street (g_players st ! i) < p_stack (g_players st ! i)
      | _ \<Rightarrow> True)"

lemma normalize_action_normal:
  assumes inv: "table_inv T lim st" and i: "i < length (g_players st)"
    and "a = Check \<Longrightarrow> g_current_bet st \<le> p_bet_this_street (g_players st ! i)"
  shows "ok (normalize_action st i a) (normal_action st i)"
  using table_inv_total [OF inv] assms(2,3)
  by (auto simp: normalize_action_def normal_action_def saturating_sub_def split: action.splits)

lemma apply_action_turn:
  assumes inv: "table_inv T lim st" and i: "i < length (g_players st)"
    and act: "is_active (g_players st ! i)" and "normal_action st i a"
  shows "ok (apply_action env i a st w) (\<lambda>(agg, st', _). turn_rel T lim i agg st st')"
proof -
  let ?m = "case a of
       Fold \<Rightarrow> do { st' \<leftarrow> apply_fold i st; Some (False, st', w) }
     | Check \<Rightarrow> Some (False, st, w)
     | Call \<Rightarrow> do { (st', w') \<leftarrow> apply_call env i st w; Some (False, st', w') }
     | Raise amount \<Rightarrow> do { st' \<leftarrow> apply_raise i amount st; Some (True, st', w) }
     | AllIn \<Rightarrow> apply_all_in env i st w"
  have "ok ?m (\<lambda>(agg, st', _). turn_rel T lim i agg st st')"
    using apply_fold_turn [OF inv i act] apply_call_turn [OF inv i act, of env w]
      apply_raise_turn [OF inv i act] apply_all_in_turn [OF inv i act, of env w]
      check_turn [OF inv i] assms(4)
    by (cases a) (simp_all add: normal_action_def case_prod_unfold)
  then show ?thesis
    unfolding apply_action_def ok_bind
    by (rule ok_mono) (clarsimp, frule turn_rel_total, simp)
qed

section \<open>Legal actions and observations\<close>

text \<open>
  The legal actions offered to an active seat, read off the table: it may check exactly when it
  owes nothing, and a raise between the bounds offered is neither short nor beyond its stack.
\<close>

definition legal_for :: "game_state \<Rightarrow> nat \<Rightarrow> legal_actions \<Rightarrow> bool" where
  "legal_for st i la \<longleftrightarrow>
     (la_can_check la \<longleftrightarrow> g_current_bet st \<le> p_bet_this_street (g_players st ! i))
     \<and> (la_can_call la \<longleftrightarrow> p_bet_this_street (g_players st ! i) < g_current_bet st
          \<and> g_current_bet st < p_bet_this_street (g_players st ! i) + p_stack (g_players st ! i))
     \<and> la_min_raise la = g_current_bet st + g_min_raise_increment st
     \<and> (la_can_raise la \<longrightarrow>
          la_max_raise la \<le> p_bet_this_street (g_players st ! i) + p_stack (g_players st ! i))
     \<and> la_all_in_amount la = p_stack (g_players st ! i)"

lemma compute_legal_actions_ok:
  assumes inv: "table_inv T lim st" and i: "i < length (g_players st)"
  shows "ok (compute_legal_actions rules st i can_reopen) (legal_for st i)"
proof -
  note p = table_inv_player [OF inv i] and b = table_inv_total [OF inv]
  have "pot_main (g_pot st) \<le> lim" "p_stack (g_players st ! i) + p_bet_this_street (g_players st ! i) \<le> lim"
    using p b by (auto simp: player_ok_def)
  with p b i show ?thesis
    by (cases "r_variant rules"; cases can_reopen)
       (auto simp: compute_legal_actions_def legal_for_def saturating_sub_def player_ok_def Let_def)
qed

definition hole_list :: "player_state \<Rightarrow> card list" where
  "hole_list p = (case p_hole_cards p of None \<Rightarrow> [] | Some (a, b) \<Rightarrow> [a, b])"

text \<open>All cards that have left the deck.\<close>

definition in_play :: "game_state \<Rightarrow> card list" where
  "in_play st = g_board st @ concat (map hole_list (g_players st))"

definition cards_ok :: "game_state \<Rightarrow> bool" where
  "cards_ok st \<longleftrightarrow> distinct (in_play st) \<and> (\<forall>c \<in> set (in_play st). card_index c < 52)
     \<and> (\<forall>p \<in> set (g_players st). still_in p \<longrightarrow> p_hole_cards p \<noteq> None)
     \<and> g_dealer st < length (g_players st)"

text \<open>What an agent can rely on: distinct real cards, chips to play with, seats of the table, and a pot that fits.\<close>

definition obs_ok :: "observation \<Rightarrow> bool" where
  "obs_ok obs \<longleftrightarrow>
     distinct (fst (o_hole_cards obs) # snd (o_hole_cards obs) # o_board obs)
     \<and> (\<forall>c \<in> set (fst (o_hole_cards obs) # snd (o_hole_cards obs) # o_board obs). card_index c < 52)
     \<and> 0 < la_all_in_amount (o_legal_actions obs)
     \<and> o_position obs < length (o_players obs) \<and> o_dealer obs < length (o_players obs)
     \<and> (\<exists>pt. pot_total (o_pot obs) = Some pt \<and> pt + sum_list (map pp_bet_this_street (o_players obs)) < u32_lim)"

lemma evolves_cards:
  assumes ev: "list_all2 evolves (g_players st) (g_players st')" and "g_board st' = g_board st"
  shows "in_play st' = in_play st" and "g_dealer st' = g_dealer st \<Longrightarrow> cards_ok st \<Longrightarrow> cards_ok st'"
proof -
  have "map hole_list (g_players st') = map hole_list (g_players st)"
    using ev by (induction rule: list_all2_induct) (auto simp: evolves_def hole_list_def)
  then show play: "in_play st' = in_play st"
    using assms(2) by (simp add: in_play_def)
  show "cards_ok st'" if "g_dealer st' = g_dealer st" "cards_ok st"
    using that ev
    by (auto simp: cards_ok_def play list_all2_conv_all_nth all_set_conv_all_nth evolves_def)
qed

lemma hand_frame_cards:
  assumes "hand_frame st st'"
  shows "in_play st' = in_play st" and "cards_ok st \<Longrightarrow> cards_ok st'"
  using assms evolves_cards [of st st'] by (simp_all add: hand_frame_def)

lemma in_play_seat:
  assumes "i < length (g_players st)" and "p_hole_cards (g_players st ! i) = Some (a, b)"
  shows "distinct (in_play st) \<Longrightarrow> distinct (a # b # g_board st)"
    and "set (a # b # g_board st) \<subseteq> set (in_play st)"
proof -
  have *: "concat (map hole_list (g_players st))
      = concat (map hole_list (take i (g_players st))) @ [a, b]
        @ concat (map hole_list (drop (Suc i) (g_players st)))"
    by (subst id_take_nth_drop [OF assms(1)]) (simp add: hole_list_def assms(2))
  show "distinct (in_play st) \<Longrightarrow> distinct (a # b # g_board st)"
    "set (a # b # g_board st) \<subseteq> set (in_play st)"
    unfolding in_play_def * by auto
qed

lemma public_players_bets:
  "length (public_players ps) = length ps" "sum_list (map pp_bet_this_street (public_players ps)) = total_bets ps"
proof -
  have "map pp_bet_this_street (public_players ps) = map (p_bet_this_street \<circ> snd) (enumerate 0 ps)"
    by (simp add: public_players_def case_prod_unfold comp_def)
  then show "sum_list (map pp_bet_this_street (public_players ps)) = total_bets ps"
    by (simp only: map_map [symmetric] map_snd_enumerate total_bets_def)
qed (simp add: public_players_def)

lemma pot_and_bets:
  assumes "table_inv T lim st"
  shows "\<exists>pt. pot_total (g_pot st) = Some pt \<and> pt + total_bets (g_players st) < u32_lim"
proof -
  have "total_committed (g_players st) \<le> total_chips (g_players st)"
    by (simp add: total_committed_def total_chips_def chips_of_def sum_list_mono)
  then have "pot_main (g_pot st) + total_bets (g_players st) < u32_lim"
    using assms by (simp add: table_inv_def)
  moreover have "pot_total (g_pot st) = Some (pot_main (g_pot st))"
    using assms calculation by (simp add: table_inv_def pot_total_def sum_u32_def add_u32_def)
  ultimately show ?thesis by blast
qed

lemma observe_ok:
  assumes inv: "table_inv T lim st" and i: "i < length (g_players st)"
    and act: "is_active (g_players st ! i)" and cards: "cards_ok st" and la: "legal_for st i la"
  shows "ok (observe st i la) (\<lambda>obs. obs_ok obs \<and> o_legal_actions obs = la)"
proof -
  have "still_in (g_players st ! i)"
    using act by (rule active_still_in)
  then have "p_hole_cards (g_players st ! i) \<noteq> None"
    using cards i by (auto simp: cards_ok_def)
  then obtain h1 h2 where h: "p_hole_cards (g_players st ! i) = Some (h1, h2)"
    by auto
  have "0 < la_all_in_amount la"
    using la act table_inv_player(1) [OF inv i] by (simp add: legal_for_def player_ok_def is_active_def)
  moreover have "distinct (h1 # h2 # g_board st)" "\<forall>c \<in> set (h1 # h2 # g_board st). card_index c < 52"
    using in_play_seat [OF i h] cards by (auto simp: cards_ok_def)
  ultimately show ?thesis
    using i h cards pot_and_bets [OF inv] by (simp add: observe_def obs_ok_def cards_ok_def public_players_bets)
qed

end
