(* ===== verification/Betting.thy ===== *)
theory Betting
  imports EngineInv
begin

text \<open>
  The betting round ends.  \<open>responsive\<close> is the interface between the engine and its agents: an
  agent that is asked returns, and it does not check while it owes chips.  Under it every turn
  keeps the table invariant, and the loop of \<open>run_betting_round\<close> terminates: each turn either takes
  chips out of a stack or settles one more seat, and between turns the loop only skips seats until
  it finds one that is not settled.
\<close>

locale responsive =
  fixes env :: "'w env"
  assumes act_ok: "obs_ok obs \<Longrightarrow> ok (e_act env seat obs w) (\<lambda>(a, _). answer_ok (o_legal_actions obs) a)"

lemma action_on_irrelevant [simp]:
  "table_inv T lim (st\<lparr>g_action_on := a\<rparr>) = table_inv T lim st"
  "hand_frame (st\<lparr>g_action_on := a\<rparr>) st' = hand_frame st st'"
  "hand_frame st (st'\<lparr>g_action_on := a\<rparr>) = hand_frame st st'"
  "turn_rel T lim i agg (st\<lparr>g_action_on := a\<rparr>) st' = turn_rel T lim i agg st st'"
  "cards_ok (st\<lparr>g_action_on := a\<rparr>) = cards_ok st"
  by (simp_all add: table_inv_def hand_frame_def turn_rel_def cards_ok_def in_play_def)

section \<open>Unsettled seats\<close>

definition unsettled :: "game_state \<Rightarrow> bool list \<Rightarrow> nat" where
  "unsettled st resp = length (filter (\<lambda>i. \<not> settled st resp i) [0..<length (g_players st)])"

lemma unsettled_le: "unsettled st resp \<le> length (g_players st)"
  unfolding unsettled_def by (metis diff_zero length_filter_le length_upt)

lemma length_respond [simp]: "length (respond i agg resp) = length resp"
  by (simp add: respond_def)

lemma turn_settles:
  assumes turn: "turn_rel T lim i agg st st'" and i: "i < length (g_players st)"
    and resp: "length resp = length (g_players st)" and un: "\<not> settled st resp i"
    and same: "total_stack (g_players st') = total_stack (g_players st)"
  shows "unsettled st' (respond i agg resp) < unsettled st resp"
proof -
  from turn same have frame: "g_players st' = (g_players st)[i := g_players st' ! i]"
      "g_current_bet st' = g_current_bet st" "\<not> agg"
    and bet: "is_active (g_players st' ! i) \<longrightarrow> p_bet_this_street (g_players st' ! i) = g_current_bet st"
    by (auto simp: turn_rel_def)
  have len: "length (g_players st') = length (g_players st)"
    by (metis frame(1) length_list_update)
  have other: "settled st' (respond i agg resp) j = settled st resp j"
    if "j < length (g_players st)" "j \<noteq> i" for j
  proof -
    have "g_players st' ! j = g_players st ! j"
      by (metis frame(1) nth_list_update_neq that(2))
    then show ?thesis
      using that frame(2,3) by (simp add: settled_def respond_def)
  qed
  have self: "settled st' (respond i agg resp) i"
    using bet frame(2,3) i resp by (auto simp: settled_def respond_def Let_def)
  have "{j. j < length (g_players st) \<and> \<not> settled st' (respond i agg resp) j}
      \<subset> {j. j < length (g_players st) \<and> \<not> settled st resp j}"
    using other self un i by blast
  then have "card {j. j < length (g_players st) \<and> \<not> settled st' (respond i agg resp) j}
      < card {j. j < length (g_players st) \<and> \<not> settled st resp j}"
    by (intro psubset_card_mono) auto
  moreover have "unsettled s r = card {j. j < length (g_players s) \<and> \<not> settled s r j}" for s r
    unfolding unsettled_def
    by (subst distinct_card [symmetric]) (auto intro: arg_cong [where f = card])
  ultimately show ?thesis by (simp add: len)
qed

definition round_measure :: "game_state \<Rightarrow> bool list \<Rightarrow> nat" where
  "round_measure st resp = total_stack (g_players st) * Suc (length (g_players st)) + unsettled st resp"

lemma turn_decreases:
  assumes turn: "turn_rel T lim i agg st st'" and i: "i < length (g_players st)"
    and resp: "length resp = length (g_players st)" and un: "\<not> settled st resp i"
  shows "round_measure st' (respond i agg resp) < round_measure st resp"
proof -
  have len: "length (g_players st') = length (g_players st)"
    using turn hand_frame_length by (auto simp: turn_rel_def)
  have le: "unsettled st' (respond i agg resp) \<le> length (g_players st)"
    using unsettled_le len by metis
  consider "total_stack (g_players st') = total_stack (g_players st)"
    | "Suc (total_stack (g_players st')) \<le> total_stack (g_players st)"
    using turn by (auto simp: turn_rel_def)
  then show ?thesis
  proof cases
    case 1
    with turn_settles [OF turn i resp un] show ?thesis by (simp add: round_measure_def len)
  next
    case 2
    from mult_le_mono1 [OF 2, of "Suc (length (g_players st))"] le show ?thesis
      by (simp add: round_measure_def len)
  qed
qed

text \<open>Skipping settled seats leads to the next seat to act.\<close>

lemma betting_loop_skip:
  assumes "\<not> list_all (settled st resp) [0..<length (g_players st)]" and "c < length (g_players st)"
  shows "\<exists>c' < length (g_players st). \<not> settled st resp c'
    \<and> betting_loop rules env st resp c w = betting_loop rules env st resp c' w"
proof -
  let ?n = "length (g_players st)"
  obtain j where j: "j < ?n" "\<not> settled st resp j"
    using assms(1) by (auto simp: list_all_iff)
  have "\<exists>c' < ?n. \<not> settled st resp c'
    \<and> betting_loop rules env st resp c w = betting_loop rules env st resp c' w"
    if "c < ?n" "(c + k) mod ?n = j" for k
    using that
  proof (induction k arbitrary: c)
    case 0
    with j show ?case by auto
  next
    case (Suc k)
    show ?case
    proof (cases "settled st resp c")
      case True
      have "((c + 1) mod ?n + k) mod ?n = j"
        using Suc.prems by (simp add: mod_simps)
      moreover have "(c + 1) mod ?n < ?n"
        using Suc.prems(1) by (intro mod_less_divisor) linarith
      ultimately have "\<exists>c' < ?n. \<not> settled st resp c'
          \<and> betting_loop rules env st resp ((c + 1) mod ?n) w = betting_loop rules env st resp c' w"
        by (intro Suc.IH)
      then show ?thesis
        using True Suc.prems(1) assms(1)
        by (subst betting_loop.simps) simp
    qed (use Suc.prems in auto)
  qed
  from this [OF assms(2), of "?n + j - c"] assms(2) j(1) show ?thesis
    by simp
qed

section \<open>The round\<close>

definition round_post :: "nat \<Rightarrow> nat \<Rightarrow> game_state \<Rightarrow> nat option \<Rightarrow> game_state \<Rightarrow> bool" where
  "round_post T lim st winner st' \<longleftrightarrow>
     table_inv T lim st' \<and> hand_frame st st'
     \<and> (case winner of
          None \<Rightarrow> 2 \<le> players_still_in st'
            \<and> (\<forall>p \<in> set (g_players st'). is_active p \<longrightarrow> p_bet_this_street p = g_current_bet st')
        | Some i \<Rightarrow> i < length (g_players st') \<and> still_in (g_players st' ! i)
            \<and> players_still_in st' = 1)"

lemma turn_still_in:
  assumes "turn_rel T lim i agg st st'" and "i < length (g_players st)"
  shows "players_still_in st \<le> Suc (players_still_in st')"
proof -
  have "g_players st' = (g_players st)[i := g_players st' ! i]"
    using assms(1) by (simp add: turn_rel_def)
  with length_filter_update [OF assms(2), of still_in "g_players st' ! i"] show ?thesis
    by (simp add: players_still_in_def split: if_splits)
qed

lemma sole_winner:
  assumes "players_still_in st = 1"
  shows "ok (position still_in (g_players st))
           (\<lambda>i. i < length (g_players st) \<and> still_in (g_players st ! i))"
proof -
  have "filter still_in (g_players st) \<noteq> []"
    using assms by (auto simp: players_still_in_def)
  then obtain p where "p \<in> set (g_players st)" "still_in p"
    by (auto simp: filter_empty_conv)
  then obtain i where "position still_in (g_players st) = Some i"
    using position_ex by metis
  then show ?thesis
    using position_SomeD by (auto simp: ok_def)
qed

context responsive
begin

lemma take_turn_ok:
  assumes inv: "table_inv T lim st" and i: "i < length (g_players st)"
    and act: "is_active (g_players st ! i)" and cards: "cards_ok st"
  shows "ok (take_turn rules env st resp i w) (\<lambda>(agg, st', _). turn_rel T lim i agg st st')"
proof -
  let ?st = "st\<lparr>g_action_on := Some i\<rparr>"
  have a: "table_inv T lim ?st" "i < length (g_players ?st)" "is_active (g_players ?st ! i)"
      "cards_ok ?st"
    using assms by simp_all
  obtain la where la: "compute_legal_actions rules ?st i (\<not> resp ! i) = Some la" "legal_for ?st i la"
    using compute_legal_actions_ok [OF a(1,2)] by (rule okE)
  obtain obs where obs: "observe ?st i la = Some obs" "obs_ok obs" "o_legal_actions obs = la"
    using observe_ok [OF a la(2)] by (auto simp: ok_def)
  obtain raw w1 where raw: "e_act env i obs w = Some (raw, w1)" "answer_ok la raw"
    using act_ok [OF obs(2), of i w] obs(3) by (auto simp: ok_def)
  have "raw = Check \<Longrightarrow> g_current_bet ?st \<le> p_bet_this_street (g_players ?st ! i)"
    using raw(2) la(2) by (simp add: answer_ok_def legal_for_def)
  then obtain act where act: "normalize_action ?st i raw = Some act" "normal_action ?st i act"
    using normalize_action_normal [OF a(1,2)] by (auto simp: ok_def)
  obtain agg st' w2 where turn: "apply_action env i act ?st w1 = Some (agg, st', w2)"
      "turn_rel T lim i agg ?st st'"
    using apply_action_turn [OF a(1-3) act(2), of env w1] by (auto simp: ok_def)
  then show ?thesis
    using turn_rel_total [OF turn(2)] la(1) obs(1) raw(1) act(1) by (simp add: take_turn_def Let_def)
qed

lemma betting_loop_ok:
  assumes "table_inv T lim st" and "cards_ok st" and "2 \<le> players_still_in st"
    and "c < length (g_players st)" and "length resp = length (g_players st)"
  shows "ok (betting_loop rules env st resp c w) (\<lambda>(winner, st', _). round_post T lim st winner st')"
  using assms
proof (induction "round_measure st resp" arbitrary: st resp c w rule: less_induct)
  case less
  show ?case
  proof (cases "list_all (settled st resp) [0..<length (g_players st)]")
    case True
    then have "\<forall>p \<in> set (g_players st). is_active p \<longrightarrow> p_bet_this_street p = g_current_bet st"
      by (auto simp: list_all_iff settled_def Let_def all_set_conv_all_nth)
    with True less.prems show ?thesis
      by (subst betting_loop.simps) (simp add: round_post_def players_still_in_def)
  next
    case False
    obtain c' where c': "c' < length (g_players st)" "\<not> settled st resp c'"
        "betting_loop rules env st resp c w = betting_loop rules env st resp c' w"
      using betting_loop_skip [OF False less.prems(4), of rules env w] by blast
    have act: "is_active (g_players st ! c')"
      using c'(2) by (auto simp: settled_def Let_def)
    obtain agg st' w' where turn: "take_turn rules env st resp c' w = Some (agg, st', w')"
        "turn_rel T lim c' agg st st'"
      using take_turn_ok [OF less.prems(1) c'(1) act less.prems(2), of rules resp w]
      by (auto simp: ok_def)
    have step: "betting_loop rules env st resp c' w =
        (if players_still_in st' = 1
         then do { winner \<leftarrow> position still_in (g_players st'); Some (Some winner, st', w') }
         else betting_loop rules env st' (respond c' agg resp)
                ((c' + 1) mod length (g_players st')) w')"
      using c' turn(1) False by (subst betting_loop.simps) simp
    have st': "table_inv T lim st'" "hand_frame st st'" "length (g_players st') = length (g_players st)"
      using turn(2) hand_frame_length by (auto simp: turn_rel_def)
    show ?thesis
    proof (cases "players_still_in st' = 1")
      case True
      with sole_winner [OF True] st' show ?thesis
        by (auto simp: c'(3) step ok_def round_post_def)
    next
      case more: False
      have "2 \<le> players_still_in st'"
        using more turn_still_in [OF turn(2) c'(1)] less.prems(3) by simp
      moreover have "(c' + 1) mod length (g_players st') < length (g_players st')"
        using c'(1) st'(3) by (intro mod_less_divisor) linarith
      ultimately have "ok (betting_loop rules env st' (respond c' agg resp)
            ((c' + 1) mod length (g_players st')) w')
          (\<lambda>(winner, st'', _). round_post T lim st' winner st'')"
        using less.hyps [OF turn_decreases [OF turn(2) c'(1) less.prems(5) c'(2)]]
          st' less.prems(5) hand_frame_cards(2) [OF st'(2) less.prems(2)] by simp
      then show ?thesis
        unfolding c'(3) step using more st'(2) hand_frame_trans
        by (auto simp: round_post_def elim!: ok_mono)
    qed
  qed
qed

end

end
