(* ===== verification/Dealing.thy ===== *)
theory Dealing
  imports Betting
begin

text \<open>
  Dealing: before the first bet (blinds, hole cards, dead hands) and on the board.  \<open>dealt_from st d\<close>
  says that the cards on the table are exactly the cards that have left the deck, so that no card
  is ever in two places.
\<close>

definition dealt_from :: "game_state \<Rightarrow> deck \<Rightarrow> bool" where
  "dealt_from st d \<longleftrightarrow> mset (d_cards d) = mset fresh_cards \<and> d_cursor d \<le> 52
     \<and> mset (in_play st) = mset (take (d_cursor d) (d_cards d))"

lemma dealt_from_cards:
  assumes "dealt_from st d"
  shows "distinct (in_play st)" and "c \<in> set (in_play st) \<Longrightarrow> card_index c < 52"
proof -
  have deck: "mset (d_cards d) = mset fresh_cards"
    using assms by (simp add: dealt_from_def)
  then have "distinct (d_cards d)"
    using distinct_fresh_cards by (metis mset_eq_imp_distinct_iff)
  then show "distinct (in_play st)"
    using assms by (metis dealt_from_def distinct_take mset_eq_imp_distinct_iff)
  assume "c \<in> set (in_play st)"
  then have "c \<in> set (d_cards d)"
    using assms by (metis dealt_from_def in_set_takeD mset_eq_setD)
  then have "c \<in> set fresh_cards"
    using deck by (metis mset_eq_setD)
  then show "card_index c < 52"
    by (auto simp: fresh_cards_def card_index_def unat_of_nat)
qed

lemma dealt_from_same: "dealt_from st d \<Longrightarrow> in_play st' = in_play st \<Longrightarrow> dealt_from st' d"
  by (simp add: dealt_from_def)

lemma dealt_from_deal:
  assumes "dealt_from st d" and "d_cursor d < 52"
  shows "ok (deck_deal d) (\<lambda>(c, d'). d_cursor d' = Suc (d_cursor d)
     \<and> (\<forall>st'. mset (in_play st') = add_mset c (mset (in_play st)) \<longrightarrow> dealt_from st' d'))"
proof -
  have len: "length (d_cards d) = 52"
    using assms(1) by (metis dealt_from_def length_fresh_cards size_mset)
  then have "mset (take (Suc (d_cursor d)) (d_cards d))
      = add_mset (d_cards d ! d_cursor d) (mset (take (d_cursor d) (d_cards d)))"
    using assms(2) by (simp add: take_Suc_conv_app_nth)
  with assms len show ?thesis
    by (simp add: deck_deal_def dealt_from_def)
qed

lemma dealt_from_deal_n:
  assumes "dealt_from st d" and "d_cursor d + k \<le> 52"
  shows "ok (deal_n k d) (\<lambda>(cs, d'). length cs = k \<and> d_cursor d' = d_cursor d + k
     \<and> dealt_from (st\<lparr>g_board := g_board st @ cs\<rparr>) d')"
  using assms
proof (induction k arbitrary: st d)
  case (Suc k)
  obtain c d' where deal: "deck_deal d = Some (c, d')" "d_cursor d' = Suc (d_cursor d)"
    and from_c: "\<forall>st'. mset (in_play st') = add_mset c (mset (in_play st)) \<longrightarrow> dealt_from st' d'"
    using dealt_from_deal [OF Suc.prems(1)] Suc.prems(2) by (auto simp: ok_def)
  let ?st = "st\<lparr>g_board := g_board st @ [c]\<rparr>"
  have "dealt_from ?st d'"
    using from_c by (simp add: in_play_def)
  from Suc.IH [OF this] obtain cs d'' where rest: "deal_n k d' = Some (cs, d'')" "length cs = k"
      "d_cursor d'' = d_cursor d' + k" "dealt_from (?st\<lparr>g_board := g_board ?st @ cs\<rparr>) d''"
    using Suc.prems(2) deal(2) by (auto simp: ok_def)
  then show ?case
    using deal by simp
qed simp

section \<open>Board\<close>

lemma deal_board_cards_ok:
  assumes "dealt_from st d" and "d_cursor d + k \<le> 52"
  shows "ok (deal_board_cards env k s (st, d, w)) (\<lambda>(st', d', _). \<exists>cs. length cs = k
     \<and> st' = st\<lparr>g_board := g_board st @ cs\<rparr> \<and> dealt_from st' d' \<and> d_cursor d' = d_cursor d + k)"
  using dealt_from_deal_n [OF assms] by (auto simp: deal_board_cards_def ok_def)

lemma board_irrelevant [simp]:
  "table_inv T lim (st\<lparr>g_board := b\<rparr>) = table_inv T lim st"
  "players_still_in (st\<lparr>g_board := b\<rparr>) = players_still_in st"
  by (simp_all add: table_inv_def players_still_in_def)

section \<open>Blinds\<close>

text \<open>A seat after it has posted \<open>amount\<close>.\<close>

definition posted :: "nat \<Rightarrow> player_state \<Rightarrow> player_state" where
  "posted amount p =
     (let k = min amount (p_stack p) in
      p\<lparr>p_stack := p_stack p - k, p_bet_this_street := p_bet_this_street p + k,
        p_total_committed := p_total_committed p + k,
        p_status := (if p_stack p - k = 0 then PAllIn else p_status p)\<rparr>)"

lemma ok_post:
  assumes "i < length (g_players st)" and "g_players st ! i = p"
    and "p_stack p + p_bet_this_street p < u32_lim" "p_stack p + p_total_committed p < u32_lim"
  shows "ok (post env i amount (st, w)) (\<lambda>(st', _). st' = set_player i (posted amount p) st)"
  using assms by (auto simp: post_def posted_def mark_all_in_def Let_def)

text \<open>What setting up a hand keeps: nobody leaves or joins, nobody gains or loses chips.\<close>

definition setup_frame :: "game_state \<Rightarrow> game_state \<Rightarrow> bool" where
  "setup_frame st st' \<longleftrightarrow>
     list_all2 (\<lambda>p p'. chips_of p' = chips_of p \<and> (p_status p' = Out \<longleftrightarrow> p_status p = Out)
                  \<and> still_in p' = still_in p) (g_players st) (g_players st')
     \<and> g_board st' = g_board st \<and> g_dealer st' = g_dealer st \<and> g_hand_id st' = g_hand_id st
     \<and> length (g_sat_out st') = length (g_sat_out st)"

lemma setup_frame_trans: "setup_frame st st' \<Longrightarrow> setup_frame st' st'' \<Longrightarrow> setup_frame st st''"
  unfolding setup_frame_def list_all2_conv_all_nth by auto

lemma setup_frame_length: "setup_frame st st' \<Longrightarrow> length (g_players st') = length (g_players st)"
  by (auto simp: setup_frame_def dest: list_all2_lengthD)

lemma post_inv:
  assumes inv: "table_inv T lim st" and i: "i < length (g_players st)"
    and p: "is_active (g_players st ! i)" "p_bet_this_street (g_players st ! i) = 0"
    and amount: "amount \<le> g_current_bet st"
  shows "table_inv T lim (set_player i (posted amount (g_players st ! i)) st)"
    and "setup_frame st (set_player i (posted amount (g_players st ! i)) st)"
proof -
  note q = table_inv_player [OF inv i] and b = table_inv_total [OF inv]
  show "table_inv T lim (set_player i (posted amount (g_players st ! i)) st)"
    by (rule table_inv_update [OF inv i, where p' = "posted amount (g_players st ! i)"])
       (use p q b amount in \<open>auto simp: posted_def player_ok_def chips_of_def is_active_def Let_def\<close>)
  show "setup_frame st (set_player i (posted amount (g_players st ! i)) st)"
    unfolding setup_frame_def
    using i p q by (auto intro!: list_all2_update simp: posted_def chips_of_def Let_def is_active_def
        still_in_def)
qed

lemma other_live_seat:
  assumes "2 \<le> players_still_in st"
  shows "\<exists>j < length (g_players st). j \<noteq> i \<and> still_in (g_players st ! j)"
proof (rule ccontr)
  assume "\<not> ?thesis"
  then have "{j. j < length (g_players st) \<and> still_in (g_players st ! j)} \<subseteq> {i}"
    by auto
  then have "card {j. j < length (g_players st) \<and> still_in (g_players st ! j)} \<le> card {i}"
    by (intro card_mono) auto
  with assms show False
    by (simp add: players_still_in_def length_filter_conv_card)
qed

lemma blind_seats:
  assumes "2 \<le> players_still_in st" and "g_dealer st < length (g_players st)"
  shows "sb_seat st < length (g_players st)" and "bb_seat st < length (g_players st)"
    and "still_in (g_players st ! sb_seat st)" and "still_in (g_players st ! bb_seat st)"
    and "bb_seat st \<noteq> sb_seat st"
proof -
  have live: "\<exists>p \<in> set (g_players st). still_in p"
    using other_live_seat [OF assms(1), of 0] by auto
  show sb: "sb_seat st < length (g_players st)" "still_in (g_players st ! sb_seat st)"
    unfolding sb_seat_def
    by (rule next_in_list_bounds [OF assms(2)], rule next_in_list_still_in [OF assms(2) live])
  show "bb_seat st < length (g_players st)" "still_in (g_players st ! bb_seat st)"
    unfolding bb_seat_def
    by (rule next_in_list_bounds [OF sb(1)], rule next_in_list_still_in [OF sb(1) live])
  obtain j where "j < length (g_players st)" "j \<noteq> sb_seat st" "still_in (g_players st ! j)"
    using other_live_seat [OF assms(1)] by blast
  then show "bb_seat st \<noteq> sb_seat st"
    unfolding bb_seat_def by (intro next_in_list_other [OF sb(1)])
qed

text \<open>The blinds, from a table where nobody has bet yet.\<close>

lemma post_blinds_ok:
  assumes inv: "table_inv T lim (st\<lparr>g_current_bet := r_big_blind rules,
                                    g_min_raise_increment := r_big_blind rules\<rparr>)"
    and inv0: "table_inv T lim st"
    and fresh: "\<forall>p \<in> set (g_players st). p_bet_this_street p = 0 \<and> p_status p \<noteq> PAllIn"
    and two: "2 \<le> players_still_in st" and dealer: "g_dealer st < length (g_players st)"
    and blinds: "r_small_blind rules \<le> r_big_blind rules"
  shows "ok (post_blinds rules env (st, w)) (\<lambda>(st', _). table_inv T lim st' \<and> setup_frame st st'
     \<and> map p_hole_cards (g_players st') = map p_hole_cards (g_players st)
     \<and> g_current_bet st' = r_big_blind rules)"
proof -
  let ?up = "\<lambda>s. s\<lparr>g_current_bet := r_big_blind rules, g_min_raise_increment := r_big_blind rules\<rparr>"
  let ?sb = "sb_seat st" and ?bb = "bb_seat st"
  note seats = blind_seats [OF two dealer]
  have act: "is_active (g_players st ! ?sb)" "is_active (g_players st ! ?bb)"
    and bet: "p_bet_this_street (g_players st ! ?sb) = 0" "p_bet_this_street (g_players st ! ?bb) = 0"
    using seats fresh by (auto simp: still_in_def is_active_def)
  define st1 where "st1 = set_player ?sb (posted (r_small_blind rules) (g_players st ! ?sb)) st"
  define st2 where "st2 = set_player ?bb (posted (r_big_blind rules) (g_players st1 ! ?bb)) st1"
  have len1: "length (g_players st1) = length (g_players st)"
    by (simp add: st1_def)
  have same: "g_players st1 ! ?bb = g_players st ! ?bb"
    using seats(5) by (simp add: st1_def)
  have up1: "?up st1 = set_player ?sb (posted (r_small_blind rules) (g_players (?up st) ! ?sb)) (?up st)"
    and up2: "?up st2 = set_player ?bb (posted (r_big_blind rules) (g_players (?up st1) ! ?bb)) (?up st1)"
    by (simp_all add: st1_def st2_def set_player_def)
  have i1: "table_inv T lim (?up st1)" "setup_frame (?up st) (?up st1)"
    unfolding up1 using post_inv [OF inv, of ?sb "r_small_blind rules"] seats act bet blinds by simp_all
  have i2: "table_inv T lim (?up st2)" "setup_frame (?up st1) (?up st2)"
    unfolding up2 using post_inv [OF i1(1), of ?bb "r_big_blind rules"] seats act bet same
    by (simp_all add: st1_def)
  have frame: "setup_frame st (?up st2)"
    using setup_frame_trans [OF i1(2) i2(2)] by (simp add: setup_frame_def)
  have holes: "map p_hole_cards (g_players st2) = map p_hole_cards (g_players st)"
    using seats by (auto simp: st1_def st2_def posted_def Let_def map_update list_update_id
        list_update_overwrite nth_list_update intro!: nth_equalityI)
  have room: "p_stack (g_players st ! j) + p_bet_this_street (g_players st ! j) < u32_lim"
      "p_stack (g_players st ! j) + p_total_committed (g_players st ! j) < u32_lim"
    if "j < length (g_players st)" for j
    using table_inv_player [OF inv0 that] table_inv_total(3,4) [OF inv0]
    by (auto simp: player_ok_def)
  obtain w1 where p1: "post env ?sb (r_small_blind rules) (st, w) = Some (st1, w1)"
    using ok_post [OF seats(1) refl room [OF seats(1)], of env "r_small_blind rules" w]
    by (auto simp: ok_def st1_def)
  obtain w2 where p2: "post env ?bb (r_big_blind rules) (st1, w1) = Some (st2, w2)"
    using ok_post [OF _ same room [OF seats(2)], of env "r_big_blind rules" w1] seats(2) len1
    by (auto simp: ok_def st2_def same)
  show ?thesis
    using p1 p2 i2(1) frame holes by (simp add: post_blinds_def)
qed

section \<open>Hole cards\<close>

lemma mset_holes_update:
  "j < length xs \<Longrightarrow> mset (concat (map hole_list (xs[j := q]))) + mset (hole_list (xs ! j))
     = mset (concat (map hole_list xs)) + mset (hole_list q)"
proof (induction xs arbitrary: j)
  case (Cons x xs)
  then show ?case
    by (cases j) (auto simp: union_ac)
qed simp

lemma in_play_hole:
  assumes "j < length (g_players st)" and "p_hole_cards (g_players st ! j) = None"
  shows "mset (in_play (set_player j ((g_players st ! j)\<lparr>p_hole_cards := Some (a, b)\<rparr>) st))
       = add_mset b (add_mset a (mset (in_play st)))"
  using mset_holes_update [OF assms(1), of "(g_players st ! j)\<lparr>p_hole_cards := Some (a, b)\<rparr>"] assms(2)
  by (simp add: in_play_def hole_list_def)

lemma player_ok_hole [simp]: "player_ok cb (p\<lparr>p_hole_cards := h\<rparr>) = player_ok cb p"
  by (simp add: player_ok_def)

lemma hole_card_inv:
  assumes "table_inv T lim st" and "j < length (g_players st)"
  shows "table_inv T lim (set_player j ((g_players st ! j)\<lparr>p_hole_cards := h\<rparr>) st)"
    and "setup_frame st (set_player j ((g_players st ! j)\<lparr>p_hole_cards := h\<rparr>) st)"
proof -
  note q = table_inv_player [OF assms] and b = table_inv_total [OF assms(1)]
  show "table_inv T lim (set_player j ((g_players st ! j)\<lparr>p_hole_cards := h\<rparr>) st)"
    by (rule table_inv_update [OF assms, where p' = "(g_players st ! j)\<lparr>p_hole_cards := h\<rparr>"])
       (use q b in \<open>auto simp: chips_of_def\<close>)
  show "setup_frame st (set_player j ((g_players st ! j)\<lparr>p_hole_cards := h\<rparr>) st)"
    unfolding setup_frame_def using assms(2)
    by (auto intro!: list_all2_update simp: chips_of_def)
qed

text \<open>The state after the seats below \<open>k\<close> have been dealt to.\<close>

definition dealing_inv ::
  "nat \<Rightarrow> nat \<Rightarrow> game_state \<Rightarrow> nat \<Rightarrow> nat \<Rightarrow> game_state \<Rightarrow> deck \<Rightarrow> bool" where
  "dealing_inv T lim st0 c k st d \<longleftrightarrow>
     table_inv T lim st \<and> setup_frame st0 st \<and> g_current_bet st = g_current_bet st0
     \<and> dealt_from st d \<and> d_cursor d \<le> c + 2 * k
     \<and> (\<forall>j < length (g_players st). j < k \<longrightarrow> still_in (g_players st ! j)
          \<longrightarrow> p_hole_cards (g_players st ! j) \<noteq> None)
     \<and> (\<forall>j < length (g_players st). k \<le> j \<longrightarrow> p_hole_cards (g_players st ! j) = None)"

lemma deal_two:
  assumes "dealt_from st d" and "d_cursor d + 2 \<le> 52"
  obtains c1 d1 c2 d2 where "deck_deal d = Some (c1, d1)" "deck_deal d1 = Some (c2, d2)"
    "d_cursor d2 = d_cursor d + 2"
    "\<And>st'. mset (in_play st') = add_mset c2 (add_mset c1 (mset (in_play st))) \<Longrightarrow> dealt_from st' d2"
proof -
  obtain c1 d1 where 1: "deck_deal d = Some (c1, d1)" "d_cursor d1 = Suc (d_cursor d)"
      "\<forall>st'. mset (in_play st') = add_mset c1 (mset (in_play st)) \<longrightarrow> dealt_from st' d1"
    using dealt_from_deal [OF assms(1)] assms(2) by (auto simp: ok_def)
  then have from1: "dealt_from (st\<lparr>g_board := g_board st @ [c1]\<rparr>) d1"
    by (simp add: in_play_def)
  obtain c2 d2 where 2: "deck_deal d1 = Some (c2, d2)" "d_cursor d2 = Suc (d_cursor d1)"
      "\<forall>st'. mset (in_play st') = add_mset c2 (mset (in_play (st\<lparr>g_board := g_board st @ [c1]\<rparr>)))
         \<longrightarrow> dealt_from st' d2"
    using dealt_from_deal [OF from1] assms(2) 1(2) by (auto simp: ok_def)
  show ?thesis
    using 1 2 by (intro that [OF 1(1) 2(1)]) (auto simp: in_play_def)
qed

lemma deal_hole_cards_ok:
  assumes start: "dealing_inv T lim st0 c 0 st d" and n: "c + 2 * length (g_players st) \<le> 52"
  shows "ok (deal_hole_cards env (st, d, w))
     (\<lambda>(st', d', _). dealing_inv T lim st0 c (length (g_players st)) st' d')"
proof -
  let ?n = "length (g_players st)"
  let ?body = "\<lambda>seat (st, d, w). do { p \<leftarrow> idx (g_players st) seat;
          if still_in p then
            do { (c1, d1) \<leftarrow> deck_deal d;
                 (c2, d2) \<leftarrow> deck_deal d1;
                 Some (set_player seat (p\<lparr>p_hole_cards := Some (c1, c2)\<rparr>) st, d2,
                       e_sink env (HoleCardsDealt seat (c1, c2)) w) }
          else Some (st, d, w) }"
  have body: "ok (?body k (s, e, v)) (\<lambda>(s', e', _). dealing_inv T lim st0 c (Suc k) s' e'
      \<and> length (g_players s') = ?n)"
    if k: "k < ?n" and inv: "dealing_inv T lim st0 c k s e" and len: "length (g_players s) = ?n"
    for k s e v
  proof (cases "still_in (g_players s ! k)")
    case True
    have none: "p_hole_cards (g_players s ! k) = None" and "d_cursor e + 2 \<le> 52" "dealt_from s e"
      using inv k n len by (auto simp: dealing_inv_def)
    with deal_two obtain c1 d1 c2 d2 where deal: "deck_deal e = Some (c1, d1)"
        "deck_deal d1 = Some (c2, d2)" "d_cursor d2 = d_cursor e + 2"
        "\<And>st'. mset (in_play st') = add_mset c2 (add_mset c1 (mset (in_play s))) \<Longrightarrow> dealt_from st' d2"
      by metis
    let ?s = "set_player k ((g_players s ! k)\<lparr>p_hole_cards := Some (c1, c2)\<rparr>) s"
    have "dealt_from ?s d2"
      using deal(4) in_play_hole [of k s] k len none by simp
    moreover have "table_inv T lim ?s" "setup_frame st0 ?s"
      using hole_card_inv [of T lim s k] inv k len setup_frame_trans by (auto simp: dealing_inv_def)
    ultimately have "dealing_inv T lim st0 c (Suc k) ?s d2"
      using inv deal(3) k len by (auto simp: dealing_inv_def nth_list_update less_Suc_eq simp del: not_None_eq)
    with True deal(1,2) k len show ?thesis by simp
  next
    case False
    then have "dealing_inv T lim st0 c (Suc k) s e"
      using inv by (auto simp: dealing_inv_def less_Suc_eq split: if_splits)
    with False k len show ?thesis by simp
  qed
  have "ok (for_each [0..<?n] ?body (st, d, w)) (\<lambda>(st', d', _).
      dealing_inv T lim st0 c (length [0..<?n]) st' d' \<and> length (g_players st') = ?n)"
  proof (rule ok_for_each, goal_cases)
    case 1
    show ?case using start by simp
  next
    case (2 dn x todo sdw)
    have "length dn < ?n"
      using arg_cong [OF 2(1), of length] by simp
    moreover have "x = [0..<?n] ! length dn"
      unfolding 2(1) by simp
    ultimately have "x = length dn" "x < ?n" by simp_all
    with body [of x "fst sdw" "fst (snd sdw)" "snd (snd sdw)"] 2(2)
    show ?case by (simp add: case_prod_unfold)
  qed
  then show ?thesis
    by (auto simp: deal_hole_cards_def elim!: ok_mono)
qed

section \<open>Dead hands\<close>

text \<open>Seat \<open>j\<close> plays: it is not marked dead.\<close>

definition plays :: "seat_kind list option \<Rightarrow> nat \<Rightarrow> bool" where
  "plays seat_kinds j = (case seat_kinds of None \<Rightarrow> True | Some kinds \<Rightarrow> kinds ! j \<noteq> DeadHand)"

definition dead_inv ::
  "nat \<Rightarrow> nat \<Rightarrow> seat_kind list option \<Rightarrow> game_state \<Rightarrow> game_state \<Rightarrow> bool" where
  "dead_inv T lim seat_kinds st st' \<longleftrightarrow>
     table_inv T lim st' \<and> list_all2 evolves (g_players st) (g_players st')
     \<and> g_board st' = g_board st \<and> g_dealer st' = g_dealer st \<and> g_hand_id st' = g_hand_id st
     \<and> g_current_bet st' = g_current_bet st \<and> length (g_sat_out st') = length (g_sat_out st)
     \<and> (\<forall>j < length (g_players st). plays seat_kinds j \<longrightarrow> g_players st' ! j = g_players st ! j)"

lemma dead_inv_fold:
  assumes inv: "dead_inv T lim seat_kinds st s" and i: "i < length (g_players s)"
    and "\<not> plays seat_kinds i" and "p_status (g_players s ! i) \<noteq> Out"
  shows "dead_inv T lim seat_kinds st
    ((set_player i ((g_players s ! i)\<lparr>p_status := Folded\<rparr>) s)\<lparr>g_sat_out := (g_sat_out s)[i := True]\<rparr>)"
    (is "dead_inv _ _ _ _ ?s")
proof -
  let ?p = "(g_players s ! i)\<lparr>p_status := Folded\<rparr>"
  have inv0: "table_inv T lim s"
    using inv by (simp add: dead_inv_def)
  have "table_inv T lim ?s"
    by (rule table_inv_update [OF inv0 i, where p' = ?p])
       (use table_inv_player [OF inv0 i] table_inv_total [OF inv0] in
          \<open>auto simp: player_ok_def chips_of_def\<close>)
  moreover have "list_all2 evolves (g_players st) (g_players ?s)"
  proof (rule list_all2_evolves_trans)
    show "list_all2 evolves (g_players st) (g_players s)"
      using inv by (simp add: dead_inv_def)
    show "list_all2 evolves (g_players s) (g_players ?s)"
      using i assms(4) by (auto intro!: list_all2_update simp: evolves_def chips_of_def)
  qed
  ultimately show ?thesis
    using inv assms(3) by (auto simp: dead_inv_def) (metis nth_list_update_neq)
qed

lemma fold_dead_hands_ok:
  assumes inv: "table_inv T lim st" and len: "length (g_sat_out st) = length (g_players st)"
    and kinds: "\<And>kinds. seat_kinds = Some kinds \<Longrightarrow> length kinds = length (g_players st)"
  shows "ok (fold_dead_hands seat_kinds st) (dead_inv T lim seat_kinds st)"
proof (cases seat_kinds)
  case None
  with inv show ?thesis
    by (simp add: fold_dead_hands_def dead_inv_def list.rel_refl)
next
  case (Some kinds)
  have start: "dead_inv T lim seat_kinds st st"
    using inv by (simp add: dead_inv_def list.rel_refl)
  have "ok (if kind = DeadHand then
               do { p \<leftarrow> idx (g_players s) i;
                    if p_status p \<noteq> Out then
                      do { _ \<leftarrow> idx (g_sat_out s) i;
                           Some ((set_player i (p\<lparr>p_status := Folded\<rparr>) s)
                                   \<lparr>g_sat_out := (g_sat_out s)[i := True]\<rparr>) }
                    else Some s }
             else Some s) (dead_inv T lim seat_kinds st)"
    if "(i, kind) \<in> set (enumerate 0 kinds)" "dead_inv T lim seat_kinds st s" for i kind s
  proof -
    have "i < length kinds" "kind = kinds ! i"
      using that(1) by (auto simp: in_set_enumerate_eq)
    moreover have "length (g_players s) = length kinds" "length (g_sat_out s) = length kinds"
      using that(2) kinds [OF Some] len by (auto simp: dead_inv_def dest: list_all2_lengthD)
    ultimately show ?thesis
      using that(2) dead_inv_fold [OF that(2), of i] by (auto simp: plays_def Some)
  qed
  then show ?thesis
    unfolding fold_dead_hands_def Some option.case
    by (intro ok_for_each_inv) (use start Some in auto)
qed

section \<open>The start of a hand\<close>

text \<open>
  What a caller of \<open>run_hand\<close> has to provide: no ante, a big blind at least as big as the small one,
  at most 23 seats (46 hole cards and 5 on the board), a dealer among them, two seats that play, and
  chip counts that leave room below \<open>2 ^ 32\<close>.
\<close>

definition playable :: "betting_rules \<Rightarrow> nat list \<Rightarrow> nat \<Rightarrow> seat_kind list option \<Rightarrow> bool" where
  "playable rules stacks dealer seat_kinds \<longleftrightarrow>
     r_ante rules = 0 \<and> 0 < r_big_blind rules \<and> r_small_blind rules \<le> r_big_blind rules
     \<and> length stacks \<le> 23 \<and> dealer < length stacks
     \<and> 8 * (sum_list stacks + r_big_blind rules) < u32_lim
     \<and> (case seat_kinds of None \<Rightarrow> True | Some kinds \<Rightarrow> length kinds = length stacks)
     \<and> 2 \<le> length (filter (\<lambda>j. 0 < stacks ! j \<and> plays seat_kinds j) [0..<length stacks])"

definition hand_ready ::
  "betting_rules \<Rightarrow> nat list \<Rightarrow> nat \<Rightarrow> nat \<Rightarrow> game_state \<Rightarrow> deck \<Rightarrow> bool" where
  "hand_ready rules stacks dealer hand_id st d \<longleftrightarrow>
     table_inv (sum_list stacks) (sum_list stacks + r_big_blind rules) st
     \<and> cards_ok st \<and> dealt_from st d \<and> d_cursor d \<le> 2 * length stacks
     \<and> g_board st = [] \<and> g_dealer st = dealer \<and> g_hand_id st = hand_id
     \<and> g_current_bet st = r_big_blind rules
     \<and> length (g_sat_out st) = length stacks
     \<and> map chips_of (g_players st) = stacks
     \<and> (\<forall>i < length stacks. p_status (g_players st ! i) = Out \<longleftrightarrow> stacks ! i = 0)
     \<and> 2 \<le> players_still_in st"

lemma init_state_inv:
  assumes "8 * (sum_list stacks + bb) < u32_lim" and "0 < bb" and "cb \<le> bb"
    and "r_big_blind rules = bb"
  shows "table_inv (sum_list stacks) (sum_list stacks + bb)
    ((init_state rules hand_id stacks dealer)\<lparr>g_current_bet := cb, g_min_raise_increment := bb\<rparr>)"
proof -
  have "map chips_of (map init_player stacks) = stacks"
    by (induction stacks) (auto simp: chips_of_def init_player_def)
  then have "total_chips (map init_player stacks) = sum_list stacks"
    by (simp only: total_chips_def)
  moreover have "total_bets (map init_player stacks) = 0" "total_committed (map init_player stacks) = 0"
    by (simp_all add: total_bets_def total_committed_def init_player_def)
  ultimately show ?thesis
    using assms
    by (auto simp: table_inv_def init_state_def pot_default_def player_ok_def init_player_def)
qed

lemma filter_nth_ge:
  assumes "2 \<le> length (filter Q [0..<n])" and "length xs = n" and "\<And>j. j < n \<Longrightarrow> Q j \<Longrightarrow> P (xs ! j)"
  shows "2 \<le> length (filter P xs)"
proof -
  have "{j. j < n \<and> Q j} \<subseteq> {j. j < length xs \<and> P (xs ! j)}"
    using assms(2,3) by auto
  then have "card {j. j < n \<and> Q j} \<le> card {j. j < length xs \<and> P (xs ! j)}"
    by (intro card_mono) auto
  moreover have "{i. i < n \<and> Q ([0..<n] ! i)} = {j. j < n \<and> Q j}"
    by auto
  ultimately show ?thesis
    using assms(1) by (simp add: length_filter_conv_card)
qed

lemma hand_ready_after_dead:
  assumes fr: "setup_frame (init_state rules hand_id stacks dealer) st3"
    and dealt: "dealing_inv (sum_list stacks) (sum_list stacks + r_big_blind rules) st2 0
        (length stacks) st3 d"
    and dead: "dead_inv (sum_list stacks) (sum_list stacks + r_big_blind rules) seat_kinds st3 st4"
    and len3: "length (g_players st3) = length stacks" "length (g_sat_out st3) = length stacks"
    and cb: "g_current_bet st2 = r_big_blind rules"
    and two: "2 \<le> length (filter (\<lambda>j. 0 < stacks ! j \<and> plays seat_kinds j) [0..<length stacks])"
    and button: "dealer < length stacks"
  shows "hand_ready rules stacks dealer hand_id st4 d"
proof -
  let ?n = "length stacks"
  have ev: "list_all2 evolves (g_players st3) (g_players st4)" "g_board st4 = g_board st3"
    using dead by (auto simp: dead_inv_def)
  note cards = evolves_cards [OF ev]
  have len4: "length (g_players st4) = ?n"
    using ev(1) len3(1) by (simp add: list_all2_lengthD)
  have init: "chips_of (g_players st3 ! j) = stacks ! j"
      "still_in (g_players st3 ! j) = (0 < stacks ! j)"
      "p_status (g_players st3 ! j) = Out \<longleftrightarrow> stacks ! j = 0" if "j < ?n" for j
    using fr that
    by (auto simp: setup_frame_def list_all2_conv_all_nth init_state_def init_player_def chips_of_def
        still_in_def)
  have "dealt_from st3 d"
    using dealt by (simp add: dealing_inv_def)
  moreover have "cards_ok st3"
    using dealt_from_cards [OF \<open>dealt_from st3 d\<close>] dealt len3(1) fr button
    by (auto simp: cards_ok_def dealing_inv_def setup_frame_def init_state_def in_set_conv_nth)
  moreover have "map chips_of (g_players st4) = stacks"
    using ev(1) init(1) len4 len3(1)
    by (intro nth_equalityI) (auto simp: list_all2_conv_all_nth evolves_def)
  moreover have "\<forall>i < ?n. p_status (g_players st4 ! i) = Out \<longleftrightarrow> stacks ! i = 0"
    using ev(1) init(3) len3(1) by (simp add: list_all2_conv_all_nth evolves_def)
  moreover have "2 \<le> players_still_in st4"
    unfolding players_still_in_def
    by (rule filter_nth_ge [OF two]) (use len4 len3 init(2) dead in \<open>auto simp: dead_inv_def\<close>)
  ultimately show ?thesis
    using dead fr dealt cb cards len3(2) dealt_from_same [of st3 d st4]
    by (simp add: hand_ready_def dead_inv_def dealing_inv_def setup_frame_def init_state_def)
qed

lemma setup_hand_ok:
  assumes play: "playable rules stacks dealer seat_kinds"
    and deck: "mset (d_cards d) = mset fresh_cards" "d_cursor d = 0"
  shows "ok (setup_hand rules env seat_kinds (init_state rules hand_id stacks dealer, d, w))
     (\<lambda>(bb, st, d', _). bb < length stacks \<and> hand_ready rules stacks dealer hand_id st d')"
proof -
  let ?T = "sum_list stacks" and ?bb = "r_big_blind rules" and ?n = "length stacks"
  let ?lim = "?T + ?bb" and ?st = "init_state rules hand_id stacks dealer"
  note p = play [unfolded playable_def]
  have up: "table_inv ?T ?lim (?st\<lparr>g_current_bet := ?bb, g_min_raise_increment := ?bb\<rparr>)"
    using p by (intro init_state_inv) auto
  have inv0: "table_inv ?T ?lim ?st"
    using init_state_inv [of stacks ?bb 0 rules hand_id dealer] p by (simp add: init_state_def)
  have fresh: "\<forall>q \<in> set (g_players ?st). p_bet_this_street q = 0 \<and> p_status q \<noteq> PAllIn"
    by (auto simp: init_state_def init_player_def)
  have two: "2 \<le> players_still_in ?st"
    unfolding players_still_in_def
    by (rule filter_nth_ge [where Q = "\<lambda>j. 0 < stacks ! j \<and> plays seat_kinds j" and n = ?n])
       (use p in \<open>auto simp: init_state_def init_player_def still_in_def\<close>)
  obtain st2 w2 where blinds: "post_blinds rules env (?st, w) = Some (st2, w2)"
      "table_inv ?T ?lim st2" "setup_frame ?st st2" "g_current_bet st2 = ?bb"
      "map p_hole_cards (g_players st2) = map p_hole_cards (g_players ?st)"
    using post_blinds_ok [OF up inv0 fresh two, of env w] p by (auto simp: ok_def init_state_def)
  have len2: "length (g_players st2) = ?n"
    using setup_frame_length [OF blinds(3)] by (simp add: init_state_def)
  have holes: "p_hole_cards (g_players st2 ! j) = None" if "j < ?n" for j
    using arg_cong [OF blinds(5), of "\<lambda>xs. xs ! j"] that len2
    by (simp add: init_state_def init_player_def)
  have none: "in_play st2 = []"
    using blinds(3) holes len2
    by (auto simp: in_play_def setup_frame_def init_state_def hole_list_def in_set_conv_nth)
  have start: "dealing_inv ?T ?lim st2 0 0 st2 d"
    using blinds(2) deck none holes len2
    by (auto simp: dealing_inv_def setup_frame_def list_all2_refl dealt_from_def)
  obtain st3 d3 w3 where dealt: "deal_hole_cards env (st2, d, w2) = Some (st3, d3, w3)"
      "dealing_inv ?T ?lim st2 0 ?n st3 d3"
    using deal_hole_cards_ok [OF start, of env w2] len2 p by (auto simp: ok_def)
  have fr: "setup_frame ?st st3"
    using blinds(3) dealt(2) setup_frame_trans by (auto simp: dealing_inv_def)
  have len3: "length (g_players st3) = ?n"
    using setup_frame_length [OF fr] by (simp add: init_state_def)
  have sat: "length (g_sat_out st3) = ?n"
    using fr by (simp add: setup_frame_def init_state_def)
  obtain st4 where dead: "fold_dead_hands seat_kinds st3 = Some st4"
      "dead_inv ?T ?lim seat_kinds st3 st4"
    using fold_dead_hands_ok [of ?T ?lim st3 seat_kinds] dealt(2) sat len3 p
    by (auto simp: ok_def dealing_inv_def split: option.splits)
  have "g_dealer st2 < length (g_players st2)"
    using blinds(3) len2 p by (simp add: setup_frame_def init_state_def)
  from next_in_list_bounds [OF next_in_list_bounds [OF this]] have bb: "bb_seat st2 < ?n"
    by (simp add: bb_seat_def sb_seat_def len2)
  have "hand_ready rules stacks dealer hand_id st4 d3"
    using hand_ready_after_dead [OF fr dealt(2) dead(2) len3 sat blinds(4)] p by simp
  then show ?thesis
    using blinds(1) dealt(1) dead(1) bb p by (simp add: setup_hand_def Let_def)
qed

end
