(* ===== verification/Showdown.thy ===== *)
theory Showdown
  imports Dealing
begin

text \<open>
  The end of a hand: splitting pots among the best hands, the award of an uncontested pot and the
  result record.  \<open>hand_evaluator\<close> is the interface to the evaluator: it ranks seven distinct cards.
\<close>

locale hand_evaluator =
  fixes rank_7 :: "card list \<Rightarrow> hand_rank option"
  assumes rank_7_ok: "length cs = 7 \<Longrightarrow> distinct cs \<Longrightarrow> (\<And>c. c \<in> set cs \<Longrightarrow> card_index c < 52)
    \<Longrightarrow> \<exists>r. rank_7 cs = Some r"

section \<open>Chip deltas\<close>

text \<open>Going from \<open>ds\<close> to \<open>ds'\<close> hands out \<open>amount\<close> chips, to seats of \<open>S\<close> only, and takes none back.\<close>

definition gains :: "nat set \<Rightarrow> nat \<Rightarrow> int list \<Rightarrow> int list \<Rightarrow> bool" where
  "gains S amount ds ds' \<longleftrightarrow>
     length ds' = length ds \<and> sum_list ds' = sum_list ds + int amount
     \<and> (\<forall>i < length ds. ds ! i \<le> ds' ! i \<and> (i \<notin> S \<longrightarrow> ds' ! i = ds ! i))"

lemma gains_refl [simp]: "gains S 0 ds ds"
  by (simp add: gains_def)

lemma gains_trans: "gains S a ds ds' \<Longrightarrow> gains S b ds' ds'' \<Longrightarrow> gains S (a + b) ds ds''"
  by (auto simp: gains_def intro: order_trans)

lemma gains_mono: "gains S a ds ds' \<Longrightarrow> S \<subseteq> S' \<Longrightarrow> gains S' a ds ds'"
  by (auto simp: gains_def)

lemma sum_list_add_at:
  "i < length ds \<Longrightarrow> sum_list (ds[i := ds ! i + a]) = sum_list ds + a" for a :: int
proof (induction ds arbitrary: i)
  case (Cons d ds)
  then show ?case by (cases i) auto
qed simp

lemma add_delta_gains:
  "seat < length ds \<Longrightarrow> seat \<in> S \<Longrightarrow> ok (add_delta seat a ds) (gains S a ds)"
  by (auto simp: add_delta_def gains_def sum_list_add_at nth_list_update)

lemma add_each_gains:
  assumes "\<And>w. w \<in> set ws \<Longrightarrow> w < length ds" and "set ws \<subseteq> S"
  shows "ok (for_each ws (\<lambda>w. add_delta w a) ds) (gains S (length ws * a) ds)"
  using assms
proof (induction ws arbitrary: ds)
  case (Cons w ws)
  obtain ds' where ds': "add_delta w a ds = Some ds'" "gains S a ds ds'"
    using add_delta_gains [of w ds S a] Cons.prems by (auto simp: ok_def)
  then have "length ds' = length ds"
    by (simp add: gains_def)
  then have "ok (for_each ws (\<lambda>w. add_delta w a) ds') (gains S (length ws * a) ds')"
    using Cons.IH [of ds'] Cons.prems by simp
  then show ?case
    using ds' gains_trans [OF ds'(2)] by (auto elim!: ok_mono)
qed simp

lemma dealer_order:
  "map (\<lambda>i. (dealer + 1 + i) mod n) [0..<n] = seats_after dealer n n"
proof -
  have "[1..<Suc n] = map Suc [0..<n]"
    by (simp add: map_Suc_upt)
  then show ?thesis by (simp add: seats_after_def comp_def)
qed

lemma split_pot_gains:
  assumes "winners \<noteq> []" and "\<And>w. w \<in> set winners \<Longrightarrow> w < n" and "set winners \<subseteq> S"
    and "length ds = n" and "dealer < n"
  shows "ok (split_pot n dealer amount winners ds) (gains S amount ds)"
proof -
  let ?q = "amount div length winners" and ?r = "amount mod length winners"
  obtain ds' where ds': "for_each winners (\<lambda>w. add_delta w ?q) ds = Some ds'"
      "gains S (length winners * ?q) ds ds'"
    using add_each_gains [of winners ds S ?q] assms(2-4) by (auto simp: ok_def)
  obtain seat where seat: "find (\<lambda>seat. seat \<in> set winners) (seats_after dealer n n) = Some seat"
    using hd_in_set [OF assms(1)] assms(2) [of "hd winners"] assms(5)
    by (cases "find (\<lambda>seat. seat \<in> set winners) (seats_after dealer n n)")
       (auto simp: find_None_iff seats_after_set)
  then have win: "seat \<in> set winners"
    using find_seat_Some [OF seat assms(5)] by simp
  have "length ds' = n"
    using ds'(2) assms(4) by (simp add: gains_def)
  then have rest: "ok (add_delta seat ?r ds') (gains S ?r ds')"
    using add_delta_gains win assms(2,3) by blast
  have sum: "length winners * ?q + ?r = amount"
    by simp
  show ?thesis
  proof (cases "0 < ?r")
    case True
    from rest have "ok (add_delta seat ?r ds') (gains S amount ds)"
      by (rule ok_mono) (use gains_trans [OF ds'(2)] sum in force)
    with True show ?thesis
      using ds'(1) seat dealer_order [of dealer n] by (simp add: split_pot_def Let_def)
  next
    case False
    with sum have "length winners * ?q = amount" by linarith
    with False ds' show ?thesis by (simp add: split_pot_def Let_def)
  qed
qed

lemma winners_of_ok:
  assumes "ranks \<noteq> []"
  shows "ok (winners_of ranks) (\<lambda>ws. ws \<noteq> [] \<and> set ws \<subseteq> set (map fst ranks))"
proof -
  have "Max (set (map snd ranks)) \<in> set (map snd ranks)"
    using assms by (intro Max_in) auto
  then obtain x where "x \<in> set ranks" "snd x = Max (set (map snd ranks))"
    by auto
  then have "filter (\<lambda>(_, r). r = Max (set (map snd ranks))) ranks \<noteq> []"
    by (auto simp: filter_empty_conv case_prod_unfold)
  then show ?thesis
    using assms by (auto simp: winners_of_def Let_def)
qed

section \<open>Results\<close>

text \<open>
  The hand is settled: everything committed has been handed out again, and each stack is what the
  seat brought, less what it committed, plus what it won.
\<close>

definition hand_settled :: "nat list \<Rightarrow> game_state \<Rightarrow> int list \<Rightarrow> bool" where
  "hand_settled stacks st deltas \<longleftrightarrow>
     length (g_players st) = length stacks \<and> length deltas = length stacks
     \<and> sum_list deltas = int (total_committed (g_players st))
     \<and> (\<forall>i < length stacks. 0 \<le> deltas ! i
          \<and> p_total_committed (g_players st ! i) \<le> stacks ! i
          \<and> (p_status (g_players st ! i) = Out \<longleftrightarrow> stacks ! i = 0)
          \<and> (stacks ! i = 0 \<longrightarrow> deltas ! i = 0)
          \<and> int (p_stack (g_players st ! i))
              = int (stacks ! i) - int (p_total_committed (g_players st ! i)) + deltas ! i)"

text \<open>The table of a hand that started with \<open>stacks\<close>.\<close>

definition seated :: "nat list \<Rightarrow> game_state \<Rightarrow> bool" where
  "seated stacks st \<longleftrightarrow> map chips_of (g_players st) = stacks
     \<and> (\<forall>i < length stacks. p_status (g_players st ! i) = Out \<longleftrightarrow> stacks ! i = 0)"

lemma seated_evolves:
  assumes "seated stacks st" and "list_all2 evolves (g_players st) (g_players st')"
  shows "seated stacks st'"
proof -
  have "map chips_of (g_players st') = map chips_of (g_players st)"
    using assms(2) by (induction rule: list_all2_induct) (auto simp: evolves_def)
  with assms show ?thesis
    by (auto simp: seated_def list_all2_conv_all_nth evolves_def)
qed

lemma seated_nth:
  assumes "seated stacks st" and "i < length stacks"
  shows "i < length (g_players st)" and "p_stack (g_players st ! i) + p_total_committed (g_players st ! i) = stacks ! i"
  using assms by (auto simp: seated_def chips_of_def)

lemma seated_out:
  "seated stacks st \<Longrightarrow> i < length stacks \<Longrightarrow> p_status (g_players st ! i) = Out \<longleftrightarrow> stacks ! i = 0"
  by (simp add: seated_def)

lemma seated_length: "seated stacks st \<Longrightarrow> length (g_players st) = length stacks"
  by (auto simp: seated_def)

lemma nonneg_member_le:
  "(\<forall>i < length ds. 0 \<le> ds ! i) \<Longrightarrow> j < length ds \<Longrightarrow> ds ! j \<le> sum_list ds" for ds :: "int list"
proof (induction ds arbitrary: j)
  case (Cons d ds)
  have "0 \<le> d" "\<forall>i < length ds. 0 \<le> ds ! i"
    using Cons.prems(1) by force+
  moreover have "0 \<le> sum_list ds"
    using \<open>\<forall>i < length ds. 0 \<le> ds ! i\<close> by (intro sum_list_nonneg) (auto simp: in_set_conv_nth)
  ultimately show ?case
    using Cons.IH Cons.prems(2) by (cases j) force+
qed simp

section \<open>Awards\<close>

lemma award_uncontested_ok:
  assumes inv: "table_inv T lim st" and seats: "seated stacks st"
    and w: "winner < length (g_players st)" "still_in (g_players st ! winner)"
  shows "ok (award_uncontested winner st) (\<lambda>(deltas, st'). hand_settled stacks st' deltas
     \<and> g_board st' = g_board st \<and> map p_hole_cards (g_players st') = map p_hole_cards (g_players st)
     \<and> map p_status (g_players st') = map p_status (g_players st))"
proof -
  note b = table_inv_total [OF inv] and p = table_inv_player [OF inv w(1)]
  let ?n = "length (g_players st)" and ?tot = "total_committed (g_players st)"
  have tot: "pot_main (g_pot st) + sum_list (map p_bet_this_street (g_players st)) = ?tot" "?tot \<le> T"
      "p_stack (g_players st ! winner) + ?tot \<le> T"
    using inv sum_list_member_le [OF w(1), of p_stack]
    by (auto simp: table_inv_def total_bets_def total_chips_split total_stack_def)
  have n: "?n = length stacks"
    using seated_length [OF seats] .
  let ?ps = "map (\<lambda>q. q\<lparr>p_bet_this_street := 0\<rparr>) (g_players st)"
  let ?ds = "(replicate ?n 0)[winner := int ?tot]"
  let ?st = "st\<lparr>g_players := ?ps[winner := (?ps ! winner)\<lparr>p_stack := p_stack (g_players st ! winner) + ?tot\<rparr>],
      g_pot := (g_pot st)\<lparr>pot_main := 0\<rparr>\<rparr>"
  have "sum_list ?ds = int ?tot"
    using sum_list_add_at [of winner "replicate ?n 0" "int ?tot"] w(1) by (simp add: sum_list_replicate)
  moreover have "map p_total_committed (g_players ?st) = map p_total_committed (g_players st)"
    using w(1) by (intro nth_equalityI) (auto simp: nth_list_update)
  then have "total_committed (g_players ?st) = ?tot"
    by (simp only: total_committed_def)
  moreover have live: "stacks ! winner \<noteq> 0"
    using seated_out [OF seats, of winner] w n by (auto simp: still_in_def)
  ultimately have "hand_settled stacks ?st ?ds"
    unfolding hand_settled_def
    using w(1) n seated_nth [OF seats] seated_out [OF seats]
    by (force simp: nth_list_update)
  moreover have "map p_hole_cards (g_players ?st) = map p_hole_cards (g_players st)"
      "map p_status (g_players ?st) = map p_status (g_players st)"
    using w(1) by (auto intro!: nth_equalityI simp: nth_list_update)
  ultimately show ?thesis
    using tot b w(1) by (simp add: award_uncontested_def ok_collect_street_bets)
qed

lemma sum_seats:
  "length ds = length ps \<Longrightarrow>
     sum_list (map (\<lambda>(i, p). ds ! i - int (c p)) (enumerate 0 ps)) = sum_list ds - int (sum_list (map c ps))"
proof (induction ps arbitrary: ds rule: rev_induct)
  case (snoc p ps)
  then obtain ds' d where ds: "ds = ds' @ [d]" "length ds' = length ps"
    by (cases ds rule: rev_cases) auto
  have "map (\<lambda>(i, p). ds ! i - int (c p)) (enumerate 0 ps) = map (\<lambda>(i, p). ds' ! i - int (c p)) (enumerate 0 ps)"
    by (auto simp: ds in_set_enumerate_eq nth_append)
  then have "sum_list (map (\<lambda>(i, p). ds ! i - int (c p)) (enumerate 0 ps))
      = sum_list ds' - int (sum_list (map c ps))"
    using snoc.IH [OF ds(2)] by presburger
  then show ?case
    by (simp add: enumerate_append_eq ds nth_append)
qed simp

text \<open>What \<open>build_result\<close> reports: one outcome per seat that was in the hand, adding up to zero.\<close>

definition result_ok :: "nat list \<Rightarrow> game_state \<Rightarrow> hand_result \<Rightarrow> bool" where
  "result_ok stacks st res \<longleftrightarrow>
     map so_seat (hr_seats res) = filter (\<lambda>i. 0 < stacks ! i) [0..<length stacks]
     \<and> sum_list (map so_chip_delta (hr_seats res)) = 0
     \<and> (\<forall>o' \<in> set (hr_seats res).
          int (stacks ! so_seat o') + so_chip_delta o' = int (p_stack (g_players st ! so_seat o')))
     \<and> map so_hole_cards (hr_seats res)
         = map p_hole_cards (filter (\<lambda>p. p_status p \<noteq> Out) (g_players st))
     \<and> hr_board res = g_board st"

lemma build_result_ok:
  assumes settled: "hand_settled stacks st deltas" and small: "2 * sum_list stacks < u32_lim"
  shows "ok (build_result hand_id st deltas) (\<lambda>res. hr_hand_id res = hand_id \<and> result_ok stacks st res)"
proof -
  let ?n = "length stacks"
  let ?seats = "filter (\<lambda>(_, p). p_status p \<noteq> Out) (enumerate 0 (g_players st))"
  let ?o = "\<lambda>(i, p). \<lparr>so_seat = i, so_hole_cards = p_hole_cards p,
      so_chip_delta = deltas ! i - int (p_total_committed p),
      so_sat_out = unwrap_or (idx (g_sat_out st) i) False\<rparr>"
  have len: "length (g_players st) = ?n" "length deltas = ?n"
    using settled by (auto simp: hand_settled_def)
  have stack: "int (p_total_committed (g_players st ! i)) \<le> int (sum_list stacks)"
    and delta: "0 \<le> deltas ! i" "deltas ! i \<le> int (sum_list stacks)" if "i < ?n" for i
  proof -
    have "p_total_committed (g_players st ! i) \<le> sum_list stacks"
      using settled that sum_list_member_le [of i stacks "\<lambda>x. x"] by (fastforce simp: hand_settled_def)
    then show "int (p_total_committed (g_players st ! i)) \<le> int (sum_list stacks)" by simp
    show "0 \<le> deltas ! i"
      using settled that by (simp add: hand_settled_def)
    have "total_committed (g_players st) \<le> sum_list stacks"
      unfolding total_committed_def
      using settled by (intro sum_list_mono2) (auto simp: hand_settled_def)
    then show "deltas ! i \<le> int (sum_list stacks)"
      using nonneg_member_le [of deltas i] settled that by (force simp: hand_settled_def)
  qed
  have outs: "seat_outcomes st deltas = Some (map ?o ?seats)"
    unfolding seat_outcomes_def
  proof (rule map_opt_eq_map)
    fix x assume "x \<in> set ?seats"
    then obtain i where i: "x = (i, g_players st ! i)" "i < ?n"
      by (auto simp: in_set_enumerate_eq len)
    then show "(case x of (i, p) \<Rightarrow>
         do { d \<leftarrow> idx deltas i;
              delta \<leftarrow> sub_i32 (as_i32 d) (as_i32 (int (p_total_committed p)));
              Some \<lparr>so_seat = i, so_hole_cards = p_hole_cards p, so_chip_delta = delta,
                    so_sat_out = unwrap_or (idx (g_sat_out st) i) False\<rparr> }) = Some (?o x)"
      using stack [OF i(2)] delta [OF i(2)] small len by (simp add: as_i32_id sub_i32_def)
  qed
  have "sum_list (map (\<lambda>(i, p). deltas ! i - int (p_total_committed p)) ?seats)
      = sum_list (map (\<lambda>(i, p). deltas ! i - int (p_total_committed p)) (enumerate 0 (g_players st)))"
    by (rule sum_list_map_filter) (use settled len in \<open>auto simp: in_set_enumerate_eq hand_settled_def\<close>)
  also have "\<dots> = 0"
    using sum_seats [of deltas "g_players st" p_total_committed] settled len
    by (simp add: hand_settled_def total_committed_def)
  finally have zero: "sum_list (map so_chip_delta (map ?o ?seats)) = 0"
    by (simp add: case_prod_unfold comp_def)
  have "map so_seat (map ?o ?seats) = map fst ?seats"
    by simp
  also have "\<dots> = filter (\<lambda>i. 0 < stacks ! i) [0..<?n]"
    unfolding map_fst_filter_enumerate len
    by (rule filter_cong) (use settled in \<open>auto simp: hand_settled_def\<close>)
  finally have seats: "map so_seat (map ?o ?seats) = filter (\<lambda>i. 0 < stacks ! i) [0..<?n]" .
  have each: "\<forall>o' \<in> set (map ?o ?seats).
          int (stacks ! so_seat o') + so_chip_delta o' = int (p_stack (g_players st ! so_seat o'))"
    using settled len by (auto simp: in_set_enumerate_eq hand_settled_def)
  have "map so_hole_cards (map ?o ?seats) = map p_hole_cards (map snd ?seats)"
    by simp
  then have holes: "map so_hole_cards (map ?o ?seats)
      = map p_hole_cards (filter (\<lambda>p. p_status p \<noteq> Out) (g_players st))"
    by (simp only: map_snd_filter_enumerate)
  show ?thesis
    unfolding build_result_def outs using zero seats each holes by (simp add: result_ok_def)
qed

section \<open>Showdown\<close>

lemma map_opt_ok:
  "(\<And>x. x \<in> set xs \<Longrightarrow> ok (f x) (\<lambda>y. g y = x)) \<Longrightarrow> ok (map_opt f xs) (\<lambda>ys. map g ys = xs)"
proof (induction xs)
  case (Cons x xs)
  obtain y where y: "f x = Some y" "g y = x"
    using Cons.prems [of x] by (auto simp: ok_def)
  obtain ys where ys: "map_opt f xs = Some ys" "map g ys = xs"
    using Cons by (auto simp: ok_def)
  show ?case using y ys by simp
qed simp

text \<open>Seats that have money in and have not folded.\<close>

definition contenders :: "player_state list \<Rightarrow> nat set" where
  "contenders players = {i. i < length players \<and> still_in (players ! i)}"

lemma live_seats_contenders:
  assumes "table_inv T lim st" and "live_seats (g_players st) s"
  shows "set s \<subseteq> contenders (g_players st)"
proof
  fix i assume "i \<in> set s"
  then have i: "i < length (g_players st)" "p_status (g_players st ! i) \<noteq> Folded"
      "0 < p_total_committed (g_players st ! i)"
    using assms(2) by (auto simp: live_seats_def)
  with table_inv_player(1) [OF assms(1) i(1)] show "i \<in> contenders (g_players st)"
    by (cases "p_status (g_players st ! i)") (auto simp: contenders_def still_in_def player_ok_def)
qed

context hand_evaluator
begin

lemma rank_seat_ok:
  assumes cards: "cards_ok st" and board: "length (g_board st) = 5"
    and i: "i \<in> contenders (g_players st)"
  shows "ok (rank_seat rank_7 (g_players st) (g_board st) i) (\<lambda>y. fst y = i)"
proof -
  have n: "i < length (g_players st)" and live: "still_in (g_players st ! i)"
    using i by (auto simp: contenders_def)
  then have "p_hole_cards (g_players st ! i) \<noteq> None"
    using cards by (auto simp: cards_ok_def)
  then obtain a b where h: "p_hole_cards (g_players st ! i) = Some (a, b)"
    by auto
  have "\<exists>r. rank_7 ([a, b] @ g_board st) = Some r"
    by (rule rank_7_ok) (use board cards in_play_seat [OF n h] in \<open>auto simp: cards_ok_def\<close>)
  then show ?thesis
    using n h by (auto simp: rank_seat_def)
qed

lemma award_pot_ok:
  assumes inv: "table_inv T lim st" and cards: "cards_ok st" and board: "length (g_board st) = 5"
    and dealer: "g_dealer st < length (g_players st)"
    and live: "live_seats (g_players st) eligible" and len: "length ds = length (g_players st)"
  shows "ok (award_pot rank_7 st (amount, eligible) ds) (gains (contenders (g_players st)) amount ds)"
proof -
  have sub: "set eligible \<subseteq> contenders (g_players st)"
    using live_seats_contenders [OF inv live] .
  have ne: "eligible \<noteq> []"
    using live by (simp add: live_seats_def)
  consider "amount = 0" | "amount \<noteq> 0" "length eligible = 1" | "amount \<noteq> 0" "length eligible \<noteq> 1"
    by blast
  then show ?thesis
  proof cases
    case 1
    then show ?thesis by (simp add: award_pot_def)
  next
    case 2
    have "eligible ! 0 \<in> contenders (g_players st)"
      using sub ne by (auto simp: nth_mem subset_iff)
    with 2 ne show ?thesis
      using add_delta_gains [of "eligible ! 0" ds] len by (simp add: award_pot_def contenders_def)
  next
    case 3
    obtain ranks where ranks: "map_opt (rank_seat rank_7 (g_players st) (g_board st)) eligible = Some ranks"
        "map fst ranks = eligible"
      using map_opt_ok [of eligible "rank_seat rank_7 (g_players st) (g_board st)" fst]
        rank_seat_ok [OF cards board] sub by (auto simp: ok_def)
    have "ranks \<noteq> []"
      using ranks(2) ne by auto
    then obtain ws where ws: "winners_of ranks = Some ws" "ws \<noteq> []" "set ws \<subseteq> set eligible"
      using winners_of_ok [of ranks] ranks(2) by (auto simp: ok_def)
    have "ok (split_pot (length (g_players st)) (g_dealer st) amount ws ds)
        (gains (contenders (g_players st)) amount ds)"
      by (rule split_pot_gains [OF ws(2)]) (use ws(3) sub len dealer in \<open>auto simp: contenders_def\<close>)
    with 3 ne ranks(1) ws(1) show ?thesis by (simp add: award_pot_def)
  qed
qed

lemma award_pots_ok:
  assumes inv: "table_inv T lim st" and cards: "cards_ok st" and board: "length (g_board st) = 5"
    and dealer: "g_dealer st < length (g_players st)"
    and live: "\<forall>s \<in> set (map snd pots). live_seats (g_players st) s"
    and len: "length ds = length (g_players st)"
  shows "ok (for_each pots (award_pot rank_7 st) ds)
    (gains (contenders (g_players st)) (pots_total pots) ds)"
  using live len
proof (induction pots arbitrary: ds)
  case (Cons p pots)
  obtain ds' where ds': "award_pot rank_7 st p ds = Some ds'"
      "gains (contenders (g_players st)) (fst p) ds ds'"
    using award_pot_ok [OF inv cards board dealer, of "snd p" ds "fst p"] Cons.prems
    by (auto simp: ok_def)
  have "length ds' = length (g_players st)"
    using ds'(2) Cons.prems(2) by (simp add: gains_def)
  then have "ok (for_each pots (award_pot rank_7 st) ds')
      (gains (contenders (g_players st)) (pots_total pots) ds')"
    using Cons.IH Cons.prems(1) by simp
  then show ?case
    using ds'(1) gains_trans [OF ds'(2)] by (auto elim!: ok_mono)
qed simp

lemma resolve_showdown_ok:
  assumes inv: "table_inv T lim st" and cards: "cards_ok st" and board: "length (g_board st) = 5"
    and seats: "seated stacks st" and dealer: "g_dealer st < length (g_players st)"
    and p: "p \<in> set (g_players st)" "p_status p \<noteq> Folded" "0 < p_total_committed p"
  shows "ok (resolve_showdown rank_7 st) (\<lambda>(deltas, st'). hand_settled stacks st' deltas
     \<and> g_board st' = g_board st \<and> map p_hole_cards (g_players st') = map p_hole_cards (g_players st)
     \<and> map p_status (g_players st') = map p_status (g_players st))"
proof -
  let ?n = "length (g_players st)" and ?tot = "total_committed (g_players st)"
  note b = table_inv_total [OF inv]
  have tot: "total_stack (g_players st) + ?tot = T"
    using inv by (simp add: table_inv_def total_chips_split)
  then obtain pots where pots: "build_showdown_pots (g_players st) = Some pots" "pots_total pots = ?tot"
    using build_showdown_pots_ok [OF p] b by (auto simp: ok_def)
  obtain ds where ds: "for_each pots (award_pot rank_7 st) (replicate ?n 0) = Some ds"
      "gains (contenders (g_players st)) ?tot (replicate ?n 0) ds"
    using award_pots_ok [OF inv cards board dealer build_showdown_pots_seats [OF pots(1)],
        of "replicate ?n 0"] pots(2)
    by (auto simp: ok_def)
  let ?st = "st\<lparr>g_players := map (\<lambda>(p, d). p\<lparr>p_stack := as_u32 (int (p_stack p) + d)\<rparr>)
     (zip (g_players st) ds)\<rparr>"
  have n: "?n = length stacks" "length ds = length stacks"
    using seated_length [OF seats] ds(2) by (auto simp: gains_def)
  have sum: "sum_list ds = int ?tot" and pos: "\<forall>i < length ds. 0 \<le> ds ! i"
    and zero: "\<And>i. i < length stacks \<Longrightarrow> \<not> still_in (g_players st ! i) \<Longrightarrow> ds ! i = 0"
    using ds(2) n by (auto simp: gains_def sum_list_replicate contenders_def)
  have stack: "as_u32 (int (p_stack (g_players st ! i)) + ds ! i) = p_stack (g_players st ! i) + nat (ds ! i)"
    if "i < length stacks" for i
  proof -
    have "ds ! i \<le> int ?tot" "p_stack (g_players st ! i) \<le> total_stack (g_players st)" "0 \<le> ds ! i"
      using nonneg_member_le [OF pos] sum that n sum_list_member_le [of i "g_players st" p_stack] pos
      by (auto simp: total_stack_def)
    with tot b(3,4) show ?thesis by (simp add: as_u32_id nat_add_distrib)
  qed
  have fields: "map p_total_committed (g_players ?st) = map p_total_committed (g_players st)"
      "map p_hole_cards (g_players ?st) = map p_hole_cards (g_players st)"
      "map p_status (g_players ?st) = map p_status (g_players st)"
    using n by (auto intro!: nth_equalityI)
  have "total_committed (g_players ?st) = ?tot"
    by (simp only: total_committed_def fields)
  moreover have "stacks ! i = 0 \<longrightarrow> ds ! i = 0" if "i < length stacks" for i
    using seated_out [OF seats that] zero [OF that] by (auto simp: still_in_def)
  ultimately have "hand_settled stacks ?st ds"
    unfolding hand_settled_def
    using n sum pos stack seated_nth [OF seats] seated_out [OF seats] by force
  with fields(2,3) show ?thesis
    using board pots(1) ds(1) by (simp add: resolve_showdown_def)
qed

end

end
