(* ===== verification/Hand.thy ===== *)
theory Hand
  imports Showdown
begin

text \<open>
  A whole hand.  \<open>hand_players\<close> joins the two interfaces a hand runs against, agents that answer and
  an evaluator that ranks.  Under it \<open>run_hand\<close> returns, whatever the agents do, and its result
  accounts for every chip.
\<close>

locale hand_players = responsive env + hand_evaluator rank_7
  for env :: "'w env" and rank_7 :: "card list \<Rightarrow> hand_rank option"

section \<open>Between betting rounds\<close>

definition hand_inv :: "betting_rules \<Rightarrow> nat list \<Rightarrow> game_state \<Rightarrow> deck \<Rightarrow> bool" where
  "hand_inv rules stacks st d \<longleftrightarrow>
     table_inv (sum_list stacks) (sum_list stacks + r_big_blind rules) st
     \<and> cards_ok st \<and> dealt_from st d
     \<and> d_cursor d \<le> 2 * length stacks + length (g_board st)
     \<and> g_dealer st < length stacks \<and> seated stacks st \<and> 2 \<le> players_still_in st"

text \<open>All bets are in the pot, and everybody still in the hand has put chips in.\<close>

definition street_done :: "game_state \<Rightarrow> bool" where
  "street_done st \<longleftrightarrow>
     (\<forall>p \<in> set (g_players st). p_bet_this_street p = 0 \<and> (still_in p \<longrightarrow> 0 < p_total_committed p))"

lemma hand_inv_frame:
  assumes "hand_inv rules stacks st d" and "hand_frame st st'" and "2 \<le> players_still_in st'"
    and "table_inv (sum_list stacks) (sum_list stacks + r_big_blind rules) st'"
  shows "hand_inv rules stacks st' d"
  using assms hand_frame_cards [OF assms(2)] seated_evolves [of stacks st st'] dealt_from_same
  by (auto simp: hand_inv_def hand_frame_def)

lemma no_bets_id:
  assumes "\<forall>p \<in> set ps. p_bet_this_street p = 0"
  shows "map (\<lambda>p. p\<lparr>p_bet_this_street := 0\<rparr>) ps = ps"
proof (rule map_idI)
  fix p assume "p \<in> set ps"
  with assms have "p_bet_this_street p = 0" by blast
  then show "p\<lparr>p_bet_this_street := 0\<rparr> = p" by simp
qed

lemma begin_street_inv:
  assumes inv: "hand_inv rules stacks st d" and bets: "street_done st" and "0 < r_big_blind rules"
  shows "hand_inv rules stacks (begin_street rules s st) d"
    and "g_players (begin_street rules s st) = g_players st"
    and "g_board (begin_street rules s st) = g_board st"
    and "g_dealer (begin_street rules s st) = g_dealer st"
proof -
  show same: "g_players (begin_street rules s st) = g_players st"
      "g_board (begin_street rules s st) = g_board st"
      "g_dealer (begin_street rules s st) = g_dealer st"
    using bets no_bets_id by (auto simp: begin_street_def street_done_def)
  have "table_inv (sum_list stacks) (sum_list stacks + r_big_blind rules) (begin_street rules s st)"
    using inv bets assms(3) same(1)
    by (auto simp: hand_inv_def table_inv_def begin_street_def street_done_def player_ok_def)
  with inv same show "hand_inv rules stacks (begin_street rules s st) d"
    by (simp add: hand_inv_def cards_ok_def in_play_def dealt_from_def seated_def players_still_in_def)
qed

lemma clear_bet_simps [simp]:
  "evolves p (p\<lparr>p_bet_this_street := 0\<rparr>)" "chips_of (p\<lparr>p_bet_this_street := 0\<rparr>) = chips_of p"
  "player_ok cb p \<Longrightarrow> player_ok cb (p\<lparr>p_bet_this_street := 0\<rparr>)"
  by (auto simp: evolves_def chips_of_def player_ok_def)

lemma collect_bets_inv:
  assumes inv: "hand_inv rules stacks st d"
    and paid: "\<forall>p \<in> set (g_players st). still_in p \<longrightarrow> 0 < p_total_committed p"
  shows "ok (collect_bets st) (\<lambda>st'. hand_inv rules stacks st' d \<and> street_done st'
           \<and> g_board st' = g_board st)"
proof -
  let ?T = "sum_list stacks" and ?lim = "sum_list stacks + r_big_blind rules"
  let ?ps = "map (\<lambda>q. q\<lparr>p_bet_this_street := 0\<rparr>) (g_players st)"
  let ?st = "st\<lparr>g_players := ?ps,
      g_pot := (g_pot st)\<lparr>pot_main := pot_main (g_pot st) + total_bets (g_players st)\<rparr>\<rparr>"
  have t: "table_inv ?T ?lim st"
    using inv by (simp add: hand_inv_def)
  have sums: "total_chips ?ps = total_chips (g_players st)" "total_committed ?ps = total_committed (g_players st)"
      "total_bets ?ps = 0"
    by (simp_all add: total_chips_def total_committed_def total_bets_def comp_def)
  have "list_all2 evolves (g_players st) ?ps"
    by (simp add: list_all2_conv_all_nth)
  then have frame: "hand_frame st ?st"
    by (simp add: hand_frame_def)
  have "table_inv ?T ?lim ?st"
    using t sums by (auto simp: table_inv_def)
  moreover have "players_still_in ?st = players_still_in st"
    by (simp add: players_still_in_def filter_map comp_def)
  ultimately have "hand_inv rules stacks ?st d"
    using hand_inv_frame [OF inv frame] inv by (simp add: hand_inv_def)
  moreover have "street_done ?st"
    using paid by (simp add: street_done_def)
  ultimately show ?thesis
    using table_inv_total(1,3,4) [OF t]
    by (simp add: collect_bets_def ok_collect_street_bets total_bets_def)
qed

lemma street_done_paid:
  assumes "street_done st" and "hand_frame st st'"
  shows "\<forall>p \<in> set (g_players st'). still_in p \<longrightarrow> 0 < p_total_committed p"
proof
  fix p' assume "p' \<in> set (g_players st')"
  then obtain i where i: "i < length (g_players st')" "p' = g_players st' ! i"
    by (auto simp: in_set_conv_nth)
  then have "evolves (g_players st ! i) p'" "g_players st ! i \<in> set (g_players st)"
    using assms(2) by (auto simp: hand_frame_def list_all2_conv_all_nth)
  with assms(1) show "still_in p' \<longrightarrow> 0 < p_total_committed p'"
    unfolding street_done_def evolves_def by (meson less_le_trans)
qed

section \<open>Streets\<close>

text \<open>How a hand may end, with the cards it has used.\<close>

definition hand_over :: "nat list \<Rightarrow> game_state \<Rightarrow> int list \<Rightarrow> bool" where
  "hand_over stacks st deltas \<longleftrightarrow> hand_settled stacks st deltas \<and> distinct (in_play st)"

lemma same_in_play:
  assumes "map p_hole_cards (g_players st') = map p_hole_cards (g_players st)"
    and "g_board st' = g_board st"
  shows "in_play st' = in_play st"
proof -
  have holes: "map hole_list ps = map (case_option [] (\<lambda>(a, b). [a, b])) (map p_hole_cards ps)" for ps
    by (simp add: hole_list_def)
  show ?thesis
    by (simp only: in_play_def holes assms)
qed

lemma hand_overI:
  assumes "ok m (\<lambda>(deltas, st'). hand_settled stacks st' deltas
     \<and> g_board st' = g_board st \<and> map p_hole_cards (g_players st') = map p_hole_cards (g_players st)
     \<and> map p_status (g_players st') = map p_status (g_players st))"
    and "distinct (in_play st)"
  shows "ok m (\<lambda>(deltas, st'). hand_over stacks st' deltas)"
  using assms(1) by (rule ok_mono) (clarsimp simp: hand_over_def, metis same_in_play assms(2))

lemma award_over:
  assumes inv: "hand_inv rules stacks st0 d" and round: "round_post (sum_list stacks)
        (sum_list stacks + r_big_blind rules) st0 (Some winner) st"
  shows "ok (award_uncontested winner st) (\<lambda>(deltas, st'). hand_over stacks st' deltas)"
proof -
  have fr: "hand_frame st0 st"
    and t: "table_inv (sum_list stacks) (sum_list stacks + r_big_blind rules) st"
    and w: "winner < length (g_players st)" "still_in (g_players st ! winner)"
    using round by (auto simp: round_post_def)
  have "seated stacks st" "distinct (in_play st)"
    using inv fr seated_evolves [of stacks st0 st] hand_frame_cards [OF fr]
    by (auto simp: hand_inv_def hand_frame_def cards_ok_def)
  with award_uncontested_ok [OF t _ w, of stacks] show ?thesis
    by (intro hand_overI) auto
qed

lemma board_dealt_inv:
  assumes inv: "hand_inv rules stacks st d" and dealt: "dealt_from (st\<lparr>g_board := g_board st @ cs\<rparr>) d'"
    and "d_cursor d' = d_cursor d + length cs"
  shows "hand_inv rules stacks (st\<lparr>g_board := g_board st @ cs\<rparr>) d'"
  using inv dealt_from_cards [OF dealt] assms(2,3)
  by (auto simp: hand_inv_def cards_ok_def seated_def players_still_in_def)

text \<open>A round that ended without a winner leaves the hand in progress.\<close>

definition round_open :: "nat \<Rightarrow> nat \<Rightarrow> game_state \<Rightarrow> nat option \<Rightarrow> game_state \<Rightarrow> bool" where
  "round_open T lim st winner st' \<longleftrightarrow>
     (case winner of
        Some i \<Rightarrow> round_post T lim st (Some i) st'
      | None \<Rightarrow> table_inv T lim st' \<and> hand_frame st st' \<and> 2 \<le> players_still_in st')"

lemma round_post_open: "round_post T lim st winner st' \<Longrightarrow> round_open T lim st winner st'"
  by (auto simp: round_post_def round_open_def split: option.splits)

definition streets_post ::
  "betting_rules \<Rightarrow> nat list \<Rightarrow> int list option \<Rightarrow> game_state \<Rightarrow> deck \<Rightarrow> bool" where
  "streets_post rules stacks early st d \<longleftrightarrow>
     (case early of
        Some deltas \<Rightarrow> hand_over stacks st deltas
      | None \<Rightarrow> hand_inv rules stacks st d \<and> street_done st \<and> length (g_board st) = 5)"

context hand_players
begin

lemma run_betting_round_ok:
  assumes "hand_inv rules stacks st d" and "first < length stacks"
  shows "ok (run_betting_round rules env st first w) (\<lambda>(winner, st', _).
     round_post (sum_list stacks) (sum_list stacks + r_big_blind rules) st winner st')"
  unfolding run_betting_round_def
  by (rule betting_loop_ok) (use assms seated_length in \<open>auto simp: hand_inv_def\<close>)

lemma street_betting_ok:
  assumes inv: "hand_inv rules stacks st d"
  shows "ok (street_betting rules env st w) (\<lambda>(winner, st', _).
     round_open (sum_list stacks) (sum_list stacks + r_big_blind rules) st winner st')"
proof -
  have none: "round_open (sum_list stacks) (sum_list stacks + r_big_blind rules) st None st"
    using inv by (simp add: round_open_def hand_inv_def)
  have "first < length stacks"
    if "next_active_after (g_dealer st) (g_players st) = Some first" for first
    using next_active_after_Some [OF that] inv seated_length by (auto simp: hand_inv_def)
  then have "ok (run_betting_round rules env st first w) (\<lambda>(winner, st', _).
      round_open (sum_list stacks) (sum_list stacks + r_big_blind rules) st winner st')"
    if "next_active_after (g_dealer st) (g_players st) = Some first" for first
    using run_betting_round_ok [OF inv, of first w] that round_post_open by (auto elim!: ok_mono)
  with none show ?thesis
    by (simp add: street_betting_def split: option.splits)
qed

lemma postflop_loop_ok:
  assumes "hand_inv rules stacks st d" and "street_done st" and bb: "0 < r_big_blind rules"
    and n: "length stacks \<le> 23" and "length (g_board st) + sum_list (map snd streets) = 5"
  shows "ok (postflop_loop rules env streets (st, d, w))
     (\<lambda>(early, st', d', _). streets_post rules stacks early st' d')"
  using assms(1,2,5)
proof (induction streets arbitrary: st d w)
  case Nil
  then show ?case by (simp add: streets_post_def)
next
  case (Cons sn streets)
  obtain s k where sn: "sn = (s, k)" by fastforce
  note beg = begin_street_inv [OF Cons.prems(1,2) bb, of s]
  let ?st = "begin_street rules s st"
  have room: "d_cursor d + k \<le> 52"
    using Cons.prems(1,3) n sn by (simp add: hand_inv_def)
  obtain cs st1 d1 w1 where deal: "deal_board_cards env k s (?st, d, w) = Some (st1, d1, w1)"
      "length cs = k" "st1 = ?st\<lparr>g_board := g_board ?st @ cs\<rparr>" "dealt_from st1 d1"
      "d_cursor d1 = d_cursor d + k"
    using deal_board_cards_ok [of ?st d k env s w] beg(1) room by (auto simp: ok_def hand_inv_def)
  have inv1: "hand_inv rules stacks st1 d1"
    using board_dealt_inv [OF beg(1)] deal(2-5) by simp
  have done1: "street_done st1" "length (g_board st1) = length (g_board st) + k"
    using Cons.prems(2) beg(2,3) deal(2,3) by (simp_all add: street_done_def)
  let ?w = "broadcast env (length (g_players st1))
      (BoardDealt s (drop (length (g_board st1) - k) (g_board st1))) w1"
  obtain winner st2 w2 where bet: "street_betting rules env st1 ?w = Some (winner, st2, w2)"
      "round_open (sum_list stacks) (sum_list stacks + r_big_blind rules) st1 winner st2"
    using street_betting_ok [OF inv1, of ?w] by (auto simp: ok_def)
  have still: "\<not> players_still_in st \<le> 1"
    using Cons.prems(1) by (simp add: hand_inv_def)
  show ?case
  proof (cases winner)
    case (Some seat)
    with bet(2) award_over [OF inv1] have "ok (award_uncontested seat st2)
        (\<lambda>(deltas, st'). hand_over stacks st' deltas)"
      by (simp add: round_open_def)
    with Some show ?thesis
      using sn still deal(1) bet(1) by (auto simp: Let_def ok_def streets_post_def)
  next
    case None
    with bet(2) have fr: "hand_frame st1 st2" and inv2: "hand_inv rules stacks st2 d1"
      using hand_inv_frame [OF inv1] by (auto simp: round_open_def)
    obtain st3 where st3: "collect_bets st2 = Some st3" "hand_inv rules stacks st3 d1"
        "street_done st3" "g_board st3 = g_board st2"
      using collect_bets_inv [OF inv2 street_done_paid [OF done1(1) fr]] by (auto simp: ok_def)
    have "g_board st2 = g_board st1"
      using fr by (simp add: hand_frame_def)
    then have "ok (postflop_loop rules env streets (st3, d1, w2))
        (\<lambda>(early, st', d', _). streets_post rules stacks early st' d')"
      using Cons.IH [OF st3(2,3)] st3(4) done1(2) Cons.prems(3) sn by simp
    with None st3(1) show ?thesis
      using sn still deal(1) bet(1) by (simp add: Let_def)
  qed
qed

lemma showdown_over:
  assumes inv: "hand_inv rules stacks st d" and "street_done st" and "length (g_board st) = 5"
  shows "ok (resolve_showdown rank_7 st) (\<lambda>(deltas, st'). hand_over stacks st' deltas)"
proof -
  have "2 \<le> players_still_in st"
    using inv by (simp add: hand_inv_def)
  then obtain j where j: "j < length (g_players st)" "still_in (g_players st ! j)"
    using other_live_seat by blast
  then have "0 < p_total_committed (g_players st ! j)" "p_status (g_players st ! j) \<noteq> Folded"
    using assms(2) by (auto simp: street_done_def still_in_def)
  with j(1) inv assms(3) show ?thesis
    using seated_length [of stacks st]
    by (intro hand_overI [OF resolve_showdown_ok [where p = "g_players st ! j"]])
       (auto simp: hand_inv_def cards_ok_def)
qed

lemma run_streets_ok:
  assumes inv: "hand_inv rules stacks st d" and cb: "0 < g_current_bet st" "g_board st = []"
    and bb: "0 < r_big_blind rules" and n: "length stacks \<le> 23" and first: "first < length stacks"
  shows "ok (run_streets rank_7 rules env first (st, d, w)) (\<lambda>(deltas, st', _). hand_over stacks st' deltas)"
proof -
  obtain winner st1 w1 where round: "run_betting_round rules env st first w = Some (winner, st1, w1)"
      "round_post (sum_list stacks) (sum_list stacks + r_big_blind rules) st winner st1"
    using run_betting_round_ok [OF inv first, of w] by (auto simp: ok_def)
  show ?thesis
  proof (cases winner)
    case (Some seat)
    with round(2) obtain deltas st2 where
        "award_uncontested seat st1 = Some (deltas, st2)" "hand_over stacks st2 deltas"
      using award_over [OF inv, of seat st1] by (auto simp: ok_def)
    with Some round(1) show ?thesis by (simp add: run_streets_def)
  next
    case None
    then have fr: "hand_frame st st1" and inv1: "hand_inv rules stacks st1 d"
      and t1: "table_inv (sum_list stacks) (sum_list stacks + r_big_blind rules) st1"
      and bets: "\<forall>p \<in> set (g_players st1). is_active p \<longrightarrow> p_bet_this_street p = g_current_bet st1"
      using round(2) hand_inv_frame [OF inv] by (auto simp: round_post_def)
    have "0 < g_current_bet st1"
      using fr cb(1) by (simp add: hand_frame_def)
    then have "\<forall>p \<in> set (g_players st1). still_in p \<longrightarrow> 0 < p_total_committed p"
      using bets t1 by (auto simp: table_inv_def player_ok_def still_in_def is_active_def
          intro: less_le_trans)
    then obtain st2 where st2: "collect_bets st1 = Some st2" "hand_inv rules stacks st2 d"
        "street_done st2" "g_board st2 = g_board st1"
      using collect_bets_inv [OF inv1] by (auto simp: ok_def)
    have "length (g_board st2) = 0"
      using st2(4) fr cb(2) by (simp add: hand_frame_def)
    then obtain early st3 d3 w3 where flop:
        "postflop_loop rules env [(Flop, 3), (Turn, 1), (River, 1)] (st2, d, w1) = Some (early, st3, d3, w3)"
        "streets_post rules stacks early st3 d3"
      using postflop_loop_ok [OF st2(2,3) bb n, of "[(Flop, 3), (Turn, 1), (River, 1)]" w1]
      by (auto simp: ok_def)
    show ?thesis
    proof (cases early)
      case (Some deltas)
      with flop(2) have "hand_over stacks st3 deltas"
        by (simp add: streets_post_def)
      with None Some round(1) st2(1) flop(1) show ?thesis by (simp add: run_streets_def)
    next
      case never: None
      with flop(2) have inv3: "hand_inv rules stacks st3 d3" "street_done st3" "length (g_board st3) = 5"
        by (auto simp: streets_post_def)
      have "ok (resolve_showdown rank_7 st3) (\<lambda>(deltas, st'). hand_over stacks st' deltas)"
        by (rule showdown_over [OF inv3])
      with None never round(1) st2(1) flop(1) inv3(3) show ?thesis
        by (auto simp: run_streets_def deal_remaining_board_def ok_def)
    qed
  qed
qed

end

section \<open>The whole hand\<close>

lemma hand_ready_inv:
  assumes "hand_ready rules stacks dealer hand_id st d" and "dealer < length stacks"
  shows "hand_inv rules stacks st d" and "g_board st = []" and "g_current_bet st = r_big_blind rules"
  using assms by (auto simp: hand_ready_def hand_inv_def seated_def)

text \<open>The cards a result shows.\<close>

definition shown_cards :: "hand_result \<Rightarrow> card list" where
  "shown_cards res = hr_board res
     @ concat (map (\<lambda>h. case h of None \<Rightarrow> [] | Some (a, b) \<Rightarrow> [a, b]) (map so_hole_cards (hr_seats res)))"

lemma shown_cards_distinct:
  assumes "result_ok stacks st res" and "distinct (in_play st)"
  shows "distinct (shown_cards res)"
proof -
  have "shown_cards res
      = g_board st @ concat (map hole_list (filter (\<lambda>p. p_status p \<noteq> Out) (g_players st)))"
    using assms(1) by (simp add: shown_cards_def result_ok_def hole_list_def [abs_def] comp_def)
  then show ?thesis
    using assms(2) distinct_concat_filter [of hole_list "g_players st"] by (auto simp: in_play_def)
qed

text \<open>What \<open>run_hand\<close> promises its caller.\<close>

definition fair_result :: "nat \<Rightarrow> nat list \<Rightarrow> hand_result \<Rightarrow> bool" where
  "fair_result hand_id stacks res \<longleftrightarrow>
     hr_hand_id res = hand_id
     \<and> map so_seat (hr_seats res) = filter (\<lambda>i. 0 < stacks ! i) [0..<length stacks]
     \<and> sum_list (map so_chip_delta (hr_seats res)) = 0
     \<and> (\<forall>o' \<in> set (hr_seats res). 0 \<le> int (stacks ! so_seat o') + so_chip_delta o')
     \<and> distinct (shown_cards res)"

context hand_players
begin

lemma first_bet_over:
  assumes ready: "hand_ready rules stacks dealer hand_id st d"
    and play: "playable rules stacks dealer seat_kinds" and bb: "bb < length stacks"
  shows "ok (case next_active_after bb (g_players st) of
               None \<Rightarrow> do { (deltas, st2) \<leftarrow> award_uncontested_and_finish st; Some (deltas, st2, w) }
             | Some first \<Rightarrow> run_streets rank_7 rules env first (st, d, w))
     (\<lambda>(deltas, st', _). hand_over stacks st' deltas)"
proof -
  have dealer: "dealer < length stacks" and blind: "0 < r_big_blind rules" and n: "length stacks \<le> 23"
    using play by (auto simp: playable_def)
  note inv = hand_ready_inv [OF ready dealer]
  have len: "length (g_players st) = length stacks"
    using inv(1) seated_length by (auto simp: hand_inv_def)
  show ?thesis
  proof (cases "next_active_after bb (g_players st)")
    case (Some first)
    then have "first < length stacks"
      using next_active_after_Some [OF Some] bb len by simp
    with Some show ?thesis
      using run_streets_ok [OF inv(1) _ inv(2) blind n] blind inv(3) by simp
  next
    case None
    have "2 \<le> players_still_in st"
      using inv(1) by (simp add: hand_inv_def)
    then obtain p where "p \<in> set (g_players st)" "still_in p"
      using other_live_seat [of st 0] nth_mem by metis
    then obtain i where i: "position still_in (g_players st) = Some i"
      using position_ex by metis
    have "i < length (g_players st)" "still_in (g_players st ! i)"
      using position_SomeD [OF i] by auto
    with inv(1) obtain deltas st' where "award_uncontested i st = Some (deltas, st')"
        "hand_over stacks st' deltas"
      using hand_overI [OF award_uncontested_ok [where st = st and stacks = stacks and winner = i
            and T = "sum_list stacks" and lim = "sum_list stacks + r_big_blind rules"]]
      by (auto simp: ok_def hand_inv_def cards_ok_def)
    with None i show ?thesis by (simp add: award_uncontested_and_finish_def)
  qed
qed

lemma run_hand_ok:
  assumes draws: "draws_in_range gen_range" and play: "playable rules stacks dealer seat_kinds"
  shows "ok (run_hand gen_range seed_from_u64 rank_7 rules env hand_id deck_seed stacks dealer
               seat_kinds w) (\<lambda>(res, _). fair_result hand_id stacks res)"
proof -
  let ?w1 = "e_sink env (HandStarted hand_id dealer deck_seed) w"
  let ?w2 = "fold (\<lambda>seat. e_on_hand_start env seat hand_id) [0..<length stacks] ?w1"
  obtain d where d: "deck_new gen_range seed_from_u64 deck_seed = Some d"
      "mset (d_cards d) = mset fresh_cards" "d_cursor d = 0"
    using deck_new_wf [OF draws, of seed_from_u64 deck_seed] by (auto simp: ok_def deck_wf_def)
  obtain bb st1 d1 w3 where prep: "setup_hand rules env seat_kinds
        (init_state rules hand_id stacks dealer, d, ?w2) = Some (bb, st1, d1, w3)"
      "bb < length stacks" "hand_ready rules stacks dealer hand_id st1 d1"
    using setup_hand_ok [OF play d(2,3), of env hand_id ?w2] by (auto simp: ok_def)
  obtain deltas st2 w4 where hand: "(case next_active_after bb (g_players st1) of
               None \<Rightarrow> do { (deltas, st2) \<leftarrow> award_uncontested_and_finish st1; Some (deltas, st2, w3) }
             | Some first \<Rightarrow> run_streets rank_7 rules env first (st1, d1, w3)) = Some (deltas, st2, w4)"
      "hand_settled stacks st2 deltas" "distinct (in_play st2)"
    using first_bet_over [OF prep(3) play prep(2), of w3] by (auto simp: ok_def hand_over_def)
  have "2 * sum_list stacks < u32_lim"
    using play by (auto simp: playable_def)
  then obtain res where res: "build_result hand_id st2 deltas = Some res" "hr_hand_id res = hand_id"
      "result_ok stacks st2 res"
    using build_result_ok [OF hand(2), of hand_id] by (auto simp: ok_def)
  then have "fair_result hand_id stacks res"
    using shown_cards_distinct [OF res(3) hand(3)] by (simp add: fair_result_def result_ok_def)
  then show ?thesis
    using d(1) prep(1) hand(1) res(1) by (simp add: run_hand_def Let_def)
qed

end

end
