(* ===== verification/Evaluator.thy ===== *)
theory Evaluator
  imports Hand "HOL-Library.List_Lexorder"
begin

text \<open>
  Hand evaluation: \<open>core/evaluator.rs\<close>.  \<open>rank_5_naive\<close> and \<open>best_of_7\<close> are the naive evaluator, with
  ranks as naturals below 13 and hand ranks built by shifts and \<open>OR\<close> on 32-bit words as in the code.
  The evaluator that calls the \<open>rs_poker\<close> crate takes that crate's ranking as a parameter.

  The specification is \<open>hand_value\<close>: the category of five cards and the ranks that break ties, in
  order of importance.  The naive evaluator computes its encoding, and the order of encodings is
  the lexicographic order of values.
\<close>

section \<open>Naive evaluator\<close>

text \<open>\<open>iter().rposition(p)\<close>: the last index whose element satisfies \<open>p\<close>.\<close>

definition rposition :: "('a \<Rightarrow> bool) \<Rightarrow> 'a list \<Rightarrow> nat option" where
  "rposition p xs =
     (let is = filter (\<lambda>i. p (xs ! i)) [0..<length xs] in if is = [] then None else Some (last is))"

definition is_straight_ranks :: "nat list \<Rightarrow> bool" where
  "is_straight_ranks ranks \<longleftrightarrow>
     ranks ! 0 = ranks ! 4 + 4 \<and> ranks ! 0 \<noteq> ranks ! 1 \<and> ranks ! 1 \<noteq> ranks ! 2
     \<and> ranks ! 2 \<noteq> ranks ! 3 \<and> ranks ! 3 \<noteq> ranks ! 4"

definition rank_counts :: "nat list \<Rightarrow> nat list" where
  "rank_counts ranks = fold (\<lambda>r counts. counts[r := counts ! r + 1]) ranks (replicate 13 0)"

definition four_of_a_kind :: "nat list \<Rightarrow> nat option" where
  "four_of_a_kind counts = rposition (\<lambda>c. c = 4) counts"

definition full_house :: "nat list \<Rightarrow> (nat \<times> nat) option" where
  "full_house counts =
     do { three \<leftarrow> rposition (\<lambda>c. c = 3) counts;
          pair \<leftarrow> rposition (\<lambda>c. c = 2) counts;
          Some (three, pair) }"

definition three_of_a_kind :: "nat list \<Rightarrow> nat option" where
  "three_of_a_kind counts = rposition (\<lambda>c. c = 3) counts"

definition two_pair :: "nat list \<Rightarrow> (nat \<times> nat) option" where
  "two_pair counts =
     (let pairs = map fst (filter (\<lambda>(_, c). c = 2) (enumerate 0 counts)) in
      if 2 \<le> length pairs then Some (pairs ! (length pairs - 1), pairs ! (length pairs - 2))
      else None)"

definition one_pair :: "nat list \<Rightarrow> nat option" where
  "one_pair counts = rposition (\<lambda>c. c = 2) counts"

definition tiebreak_kickers :: "nat list \<Rightarrow> nat \<Rightarrow> 32 word" where
  "tiebreak_kickers ranks n = fold (\<lambda>r acc. push_bit 4 acc OR of_nat r) (take n ranks) 0"

text \<open>\<open>ranks.iter().find(|&&x| p(x)).copied().unwrap_or(0)\<close>.\<close>

definition find_kicker :: "(nat \<Rightarrow> bool) \<Rightarrow> nat list \<Rightarrow> nat" where
  "find_kicker p ranks = unwrap_or (find p ranks) 0"

text \<open>The body of \<open>rank_5_naive\<close> once the cards are sorted and taken apart.\<close>

definition rank_ranks :: "nat list \<Rightarrow> bool \<Rightarrow> hand_rank option" where
  "rank_ranks ranks is_flush =
     (let is_straight = is_straight_ranks ranks;
          is_wheel = (ranks = [12, 3, 2, 1, 0]);
          high = (if is_wheel then 3 else of_nat (ranks ! 0)) :: 32 word;
          counts = rank_counts ranks in
      if is_flush \<and> (is_straight \<or> is_wheel) then Some (HandRank (0x80000000 OR high))
      else case four_of_a_kind counts of
        Some r \<Rightarrow>
          let kicker = find_kicker (\<lambda>x. x \<noteq> r) ranks in
          Some (HandRank (0x70000000 OR push_bit 4 (of_nat r) OR of_nat kicker))
      | None \<Rightarrow>
      case full_house counts of
        Some (three, pair) \<Rightarrow>
          Some (HandRank (0x60000000 OR push_bit 4 (of_nat three) OR of_nat pair))
      | None \<Rightarrow>
      if is_flush then Some (HandRank (0x50000000 OR tiebreak_kickers ranks 5))
      else if is_straight \<or> is_wheel then Some (HandRank (0x40000000 OR high))
      else case three_of_a_kind counts of
        Some r \<Rightarrow>
          do { let kickers = filter (\<lambda>x. x \<noteq> r) ranks;
               k0 \<leftarrow> idx kickers 0;
               k1 \<leftarrow> idx kickers 1;
               let tb = push_bit 4 (of_nat k0) OR of_nat k1;
               Some (HandRank (0x30000000 OR push_bit 8 (of_nat r) OR tb)) }
      | None \<Rightarrow>
      case two_pair counts of
        Some (hi, lo) \<Rightarrow>
          let kicker = find_kicker (\<lambda>x. x \<noteq> hi \<and> x \<noteq> lo) ranks in
          Some (HandRank (0x20000000 OR push_bit 8 (of_nat hi) OR push_bit 4 (of_nat lo)
                          OR of_nat kicker))
      | None \<Rightarrow>
      case one_pair counts of
        Some r \<Rightarrow>
          do { let kickers = filter (\<lambda>x. x \<noteq> r) ranks;
               k0 \<leftarrow> idx kickers 0;
               k1 \<leftarrow> idx kickers 1;
               k2 \<leftarrow> idx kickers 2;
               let tb = push_bit 8 (of_nat k0) OR push_bit 4 (of_nat k1) OR of_nat k2;
               Some (HandRank (0x10000000 OR push_bit 12 (of_nat r) OR tb)) }
      | None \<Rightarrow> Some (HandRank (tiebreak_kickers ranks 5)))"

definition card_parts :: "card \<Rightarrow> (nat \<times> suit) option" where
  "card_parts c = do { r \<leftarrow> card_rank c; s \<leftarrow> card_suit c; Some (unat (rank_u8 r), s) }"

text \<open>
  The sort is unstable and by rank only; cards of equal rank differ in suit at most, and the suits
  are only compared for equality with one another, so one order of ties stands for all.
\<close>

definition rank_5_naive :: "card list \<Rightarrow> hand_rank option" where
  "rank_5_naive cards =
     do { parts \<leftarrow> map_opt card_parts cards;
          let sorted = rev (sort_key fst parts);
          let suits = map snd sorted;
          rank_ranks (map fst sorted) (list_all (\<lambda>s. s = suits ! 0) suits) }"

definition five_of_7 :: "card list \<Rightarrow> nat \<Rightarrow> nat \<Rightarrow> card list" where
  "five_of_7 cards i j = map snd (filter (\<lambda>(k, _). k \<noteq> i \<and> k \<noteq> j) (enumerate 0 cards))"

definition best_of_7 :: "card list \<Rightarrow> hand_rank option" where
  "best_of_7 cards =
     for_each (concat (map (\<lambda>i. map (\<lambda>j. (i, j)) [i + 1..<7]) [0..<7]))
       (\<lambda>(i, j) best. do { rank \<leftarrow> rank_5_naive (five_of_7 cards i j);
                           Some (if best < rank then rank else best) })
       (HandRank 0)"

section \<open>The rs-poker evaluator\<close>

text \<open>The result type of \<open>rs_poker::core::Rank\<close>, as \<open>encode_rs_rank\<close> matches on it.\<close>

datatype rs_rank =
  RsHighCard "32 word" | RsOnePair "32 word" | RsTwoPair "32 word" | RsThreeOfAKind "32 word"
| RsStraight "32 word" | RsFlush "32 word" | RsFullHouse "32 word" | RsFourOfAKind "32 word"
| RsStraightFlush "32 word"

datatype rs_suit = RsClub | RsDiamond | RsHeart | RsSpade

fun to_rs_suit :: "suit \<Rightarrow> rs_suit" where
  "to_rs_suit Clubs = RsClub" | "to_rs_suit Diamonds = RsDiamond"
| "to_rs_suit Hearts = RsHeart" | "to_rs_suit Spades = RsSpade"

text \<open>\<open>from_u8\<close> is \<open>RsValue::from_u8\<close>, an argument.\<close>

definition to_rs_card :: "(8 word \<Rightarrow> 'v) \<Rightarrow> card \<Rightarrow> ('v \<times> rs_suit) option" where
  "to_rs_card from_u8 c =
     do { r \<leftarrow> card_rank c; s \<leftarrow> card_suit c; Some (from_u8 (rank_u8 r), to_rs_suit s) }"

fun rs_split :: "rs_rank \<Rightarrow> 32 word \<times> 32 word" where
  "rs_split (RsHighCard v) = (0, v)" | "rs_split (RsOnePair v) = (1, v)"
| "rs_split (RsTwoPair v) = (2, v)" | "rs_split (RsThreeOfAKind v) = (3, v)"
| "rs_split (RsStraight v) = (4, v)" | "rs_split (RsFlush v) = (5, v)"
| "rs_split (RsFullHouse v) = (6, v)" | "rs_split (RsFourOfAKind v) = (7, v)"
| "rs_split (RsStraightFlush v) = (8, v)"

definition encode_rs_rank :: "rs_rank \<Rightarrow> hand_rank" where
  "encode_rs_rank r =
     (let (cat, inner) = rs_split r in HandRank (push_bit 28 cat OR (inner AND 0x0FFFFFFF)))"

text \<open>\<open>rank\<close> is \<open>Rankable::rank\<close> of the crate; \<open>rank_7\<close> and \<open>rank_5\<close> differ only in the array length.\<close>

definition rs_rank_cards ::
  "(8 word \<Rightarrow> 'v) \<Rightarrow> (('v \<times> rs_suit) list \<Rightarrow> rs_rank) \<Rightarrow> card list \<Rightarrow> hand_rank option" where
  "rs_rank_cards from_u8 rank cards =
     do { rs \<leftarrow> map_opt (to_rs_card from_u8) cards; Some (encode_rs_rank (rank rs)) }"

section \<open>Specification\<close>

text \<open>The distinct ranks that occur exactly \<open>k\<close> times, highest first, for ranks sorted downwards.\<close>

definition groups :: "nat list \<Rightarrow> nat \<Rightarrow> nat list" where
  "groups ranks k = filter (\<lambda>r. count_list ranks r = k) (remdups_adj ranks)"

text \<open>
  The value of five cards: the category, then the ranks that decide between hands of the category,
  the most repeated first.  A straight is decided by its top card, which is the five when the ace
  plays low.
\<close>

definition hand_value :: "nat list \<Rightarrow> bool \<Rightarrow> nat list" where
  "hand_value ranks flush =
     (let ks = groups ranks 4 @ groups ranks 3 @ groups ranks 2 @ groups ranks 1;
          pattern = map (count_list ranks) ks;
          wheel = (ranks = [12, 3, 2, 1, 0]);
          straight = (pattern = [1, 1, 1, 1, 1] \<and> (ranks ! 0 = ranks ! 4 + 4 \<or> wheel));
          high = (if wheel then 3 else ranks ! 0) in
      if straight \<and> flush then [8, high]
      else if pattern = [4, 1] then 7 # ks
      else if pattern = [3, 2] then 6 # ks
      else if flush then 5 # ks
      else if straight then [4, high]
      else if pattern = [3, 1, 1] then 3 # ks
      else if pattern = [2, 2, 1] then 2 # ks
      else if pattern = [2, 1, 1, 1] then 1 # ks
      else 0 # ks)"

text \<open>The number a value is packed into: the category above, one hexadecimal digit per rank below.\<close>

definition digits :: "nat list \<Rightarrow> nat" where
  "digits ks = fold (\<lambda>k acc. 16 * acc + k) ks 0"

definition encode_value :: "nat list \<Rightarrow> nat" where
  "encode_value v = hd v * 2 ^ 28 + digits (tl v)"

section \<open>Counting ranks\<close>

lemma rank_counts_aux:
  assumes "\<forall>r \<in> set ranks. r < 13" and "length counts = 13"
  shows "length (fold (\<lambda>r counts. counts[r := counts ! r + 1]) ranks counts) = 13"
    and "i < 13 \<Longrightarrow> fold (\<lambda>r counts. counts[r := counts ! r + 1]) ranks counts ! i = counts ! i + count_list ranks i"
  using assms by (induction ranks arbitrary: counts) (auto simp: nth_list_update)

lemma rank_counts_nth:
  assumes "\<forall>r \<in> set ranks. r < 13"
  shows "length (rank_counts ranks) = 13" and "i < 13 \<Longrightarrow> rank_counts ranks ! i = count_list ranks i"
  using rank_counts_aux [OF assms, of "replicate 13 0"] by (auto simp: rank_counts_def)

lemma filter_counts:
  assumes desc: "sorted_wrt (\<ge>) ranks" and small: "\<forall>r \<in> set ranks. r < 13" and k: "0 < k"
  shows "filter (\<lambda>i. rank_counts ranks ! i = k) [0..<13] = rev (groups ranks k)"
proof (rule sorted_distinct_set_unique)
  have "sorted (rev ranks)"
    using desc by (simp add: sorted_wrt_rev)
  then have s: "sorted (rev (remdups_adj ranks))" "distinct (rev (remdups_adj ranks))"
    using sorted_distinct_remdups_adj [of "rev ranks"] sorted_remdups_adj [of "rev ranks"]
    by (simp_all add: remdups_adj_rev)
  show "sorted (rev (groups ranks k))" "distinct (rev (groups ranks k))"
    using s by (simp_all add: groups_def rev_filter sorted_wrt_filter)
  show "set (filter (\<lambda>i. rank_counts ranks ! i = k) [0..<13]) = set (rev (groups ranks k))"
    using small k rank_counts_nth(2) [OF small]
    by (auto simp: groups_def) (metis count_notin not_less_zero)
qed (simp_all add: sorted_wrt_filter)

lemma rposition_counts:
  assumes "sorted_wrt (\<ge>) ranks" "\<forall>r \<in> set ranks. r < 13" "0 < k"
  shows "rposition (\<lambda>c. c = k) (rank_counts ranks)
       = (case groups ranks k of [] \<Rightarrow> None | r # _ \<Rightarrow> Some r)"
  using filter_counts [OF assms] rank_counts_nth(1) [OF assms(2)]
  by (cases "groups ranks k") (auto simp: rposition_def Let_def)

lemma two_pair_counts:
  assumes "sorted_wrt (\<ge>) ranks" "\<forall>r \<in> set ranks. r < 13"
  shows "two_pair (rank_counts ranks)
       = (case groups ranks 2 of hi # lo # _ \<Rightarrow> Some (hi, lo) | _ \<Rightarrow> None)"
proof -
  have "map fst (filter (\<lambda>(_, c). c = 2) (enumerate 0 (rank_counts ranks))) = rev (groups ranks 2)"
    using filter_counts [OF assms, of 2] rank_counts_nth(1) [OF assms(2)]
    by (simp add: map_fst_filter_enumerate)
  then show ?thesis
    by (auto simp: two_pair_def Let_def nth_append split: list.splits)
qed

section \<open>Packing digits\<close>

lemma bit_small_nat: "x < 2 ^ k \<Longrightarrow> bit (of_nat x :: 32 word) n \<Longrightarrow> n < k"
proof (rule ccontr)
  assume x: "x < 2 ^ k" and b: "bit (of_nat x :: 32 word) n" and "\<not> n < k"
  then have "(2::nat) ^ k \<le> 2 ^ n"
    by (intro power_increasing) auto
  with x have "x < 2 ^ n" by linarith
  then have "x div 2 ^ n = 0" by simp
  moreover have "bit x n"
    using b by (simp add: bit_simps)
  ultimately show False by (simp add: bit_iff_odd)
qed

lemma or_digit:
  assumes "x < 2 ^ k"
  shows "push_bit k (of_nat y) OR of_nat x = (of_nat (y * 2 ^ k + x) :: 32 word)"
proof -
  have "push_bit k (of_nat y :: 32 word) OR of_nat x = push_bit k (of_nat y) + of_nat x"
  proof (rule disjunctive_add [symmetric])
    show "\<not> bit (push_bit k (of_nat y :: 32 word)) n \<or> \<not> bit (of_nat x :: 32 word) n" for n
      using bit_small_nat [OF assms, of n] by (auto simp: bit_push_bit_iff)
  qed
  then show ?thesis
    by (simp add: push_bit_eq_mult mult.commute)
qed

lemma or_category:
  assumes "x < 2 ^ 28"
  shows "0x80000000 OR of_nat x = (of_nat (8 * 2 ^ 28 + x) :: 32 word)"
    "0x70000000 OR of_nat x = (of_nat (7 * 2 ^ 28 + x) :: 32 word)"
    "0x60000000 OR of_nat x = (of_nat (6 * 2 ^ 28 + x) :: 32 word)"
    "0x50000000 OR of_nat x = (of_nat (5 * 2 ^ 28 + x) :: 32 word)"
    "0x40000000 OR of_nat x = (of_nat (4 * 2 ^ 28 + x) :: 32 word)"
    "0x30000000 OR of_nat x = (of_nat (3 * 2 ^ 28 + x) :: 32 word)"
    "0x20000000 OR of_nat x = (of_nat (2 * 2 ^ 28 + x) :: 32 word)"
    "0x10000000 OR of_nat x = (of_nat (1 * 2 ^ 28 + x) :: 32 word)"
  using or_digit [OF assms, of 8] or_digit [OF assms, of 7] or_digit [OF assms, of 6]
    or_digit [OF assms, of 5] or_digit [OF assms, of 4] or_digit [OF assms, of 3]
    or_digit [OF assms, of 2] or_digit [OF assms, of 1] by simp_all

lemma or_digit_4: "x < 16 \<Longrightarrow> push_bit 4 (of_nat y) OR of_nat x = (of_nat (16 * y + x) :: 32 word)"
  and or_digit_8: "z < 256 \<Longrightarrow> push_bit 8 (of_nat y) OR of_nat z = (of_nat (256 * y + z) :: 32 word)"
  and or_digit_12: "u < 4096 \<Longrightarrow> push_bit 12 (of_nat y) OR of_nat u = (of_nat (4096 * y + u) :: 32 word)"
  using or_digit [of x 4 y] or_digit [of z 8 y] or_digit [of u 12 y] by (simp_all add: mult.commute)

lemma fold_kickers:
  "\<forall>r \<in> set rs. r < 16 \<Longrightarrow> fold (\<lambda>r acc. push_bit 4 acc OR of_nat r) rs (of_nat n :: 32 word)
     = of_nat (fold (\<lambda>k acc. 16 * acc + k) rs n)"
  by (induction rs arbitrary: n) (simp_all add: or_digit_4 del: of_nat_add of_nat_mult)

lemma tiebreak_digits:
  "\<forall>r \<in> set ranks. r < 13 \<Longrightarrow> length ranks = 5 \<Longrightarrow> tiebreak_kickers ranks 5 = of_nat (digits ranks)"
  using fold_kickers [of ranks 0] by (force simp: tiebreak_kickers_def digits_def)

section \<open>The naive evaluator computes the value\<close>

lemma fold_digits_bound:
  "\<forall>k \<in> set ks. k < 16 \<Longrightarrow> fold (\<lambda>k acc. 16 * acc + k) ks n < (n + 1) * 16 ^ length ks"
  for n :: nat
proof (induction ks arbitrary: n)
  case (Cons k ks)
  have "fold (\<lambda>k acc. 16 * acc + k) ks (16 * n + k) < (16 * n + k + 1) * 16 ^ length ks"
    using Cons by simp
  also have "\<dots> \<le> (16 * (n + 1)) * 16 ^ length ks"
    using Cons.prems by (intro mult_le_mono1) auto
  finally show ?case by (simp add: algebra_simps)
qed simp

text \<open>The six shapes five ranks in descending order can have when no rank occurs five times.\<close>

definition quads :: "nat list \<Rightarrow> nat \<Rightarrow> nat \<Rightarrow> bool" where
  "quads ranks x y \<longleftrightarrow> groups ranks 4 = [x] \<and> groups ranks 3 = [] \<and> groups ranks 2 = []
     \<and> groups ranks 1 = [y] \<and> filter (\<lambda>z. z \<noteq> x) ranks = [y] \<and> \<not> distinct ranks"

definition full :: "nat list \<Rightarrow> nat \<Rightarrow> nat \<Rightarrow> bool" where
  "full ranks x y \<longleftrightarrow> groups ranks 4 = [] \<and> groups ranks 3 = [x] \<and> groups ranks 2 = [y]
     \<and> groups ranks 1 = [] \<and> \<not> distinct ranks"

definition trips :: "nat list \<Rightarrow> nat \<Rightarrow> nat \<Rightarrow> nat \<Rightarrow> bool" where
  "trips ranks x y z \<longleftrightarrow> groups ranks 4 = [] \<and> groups ranks 3 = [x] \<and> groups ranks 2 = []
     \<and> groups ranks 1 = [y, z] \<and> filter (\<lambda>w. w \<noteq> x) ranks = [y, z] \<and> \<not> distinct ranks"

definition pairs :: "nat list \<Rightarrow> nat \<Rightarrow> nat \<Rightarrow> nat \<Rightarrow> bool" where
  "pairs ranks x y z \<longleftrightarrow> groups ranks 4 = [] \<and> groups ranks 3 = [] \<and> groups ranks 2 = [x, y]
     \<and> groups ranks 1 = [z] \<and> filter (\<lambda>w. w \<noteq> x \<and> w \<noteq> y) ranks = [z] \<and> \<not> distinct ranks"

definition pair :: "nat list \<Rightarrow> nat \<Rightarrow> nat \<Rightarrow> nat \<Rightarrow> nat \<Rightarrow> bool" where
  "pair ranks x y z w \<longleftrightarrow> groups ranks 4 = [] \<and> groups ranks 3 = [] \<and> groups ranks 2 = [x]
     \<and> groups ranks 1 = [y, z, w] \<and> filter (\<lambda>v. v \<noteq> x) ranks = [y, z, w] \<and> \<not> distinct ranks"

definition singles :: "nat list \<Rightarrow> bool" where
  "singles ranks \<longleftrightarrow> groups ranks 4 = [] \<and> groups ranks 3 = [] \<and> groups ranks 2 = []
     \<and> groups ranks 1 = ranks \<and> distinct ranks"

lemmas shape_defs = quads_def full_def trips_def pairs_def pair_def singles_def

lemma shapes:
  fixes a b c d e :: nat
  assumes "b \<le> a" "c \<le> b" "d \<le> c" "e \<le> d" and "e \<noteq> a"
  shows "\<exists>x y z w. let ranks = [a, b, c, d, e] in quads ranks x y \<or> full ranks x y \<or> trips ranks x y z
     \<or> pairs ranks x y z \<or> pair ranks x y z w \<or> singles ranks"
proof -
  have "e < d \<or> e = d" "d < c \<or> d = c" "c < b \<or> c = b" "b < a \<or> b = a"
    using assms by auto
  then show ?thesis
    by (elim disjE) (use assms(5) in \<open>simp_all add: shape_defs groups_def Let_def\<close>)
qed

lemma digits_single: "digits [k] = k"
  by (simp add: digits_def)

lemma find_filter: "find p xs = (case filter p xs of [] \<Rightarrow> None | y # _ \<Rightarrow> Some y)"
  by (induction xs) auto

lemma map_count_groups:
  "map (count_list ranks) (groups ranks k) = replicate (length (groups ranks k)) k"
  by (auto simp: groups_def map_replicate_const [symmetric])

lemma groups_small: "\<forall>r \<in> set ranks. r < 13 \<Longrightarrow> \<forall>r \<in> set (groups ranks k). r < 13"
  by (auto simp: groups_def)

lemma straight_distinct:
  assumes "sorted_wrt (\<ge>) ranks" and "length ranks = 5"
  shows "is_straight_ranks ranks \<longleftrightarrow> distinct ranks \<and> ranks ! 0 = ranks ! 4 + 4"
proof -
  obtain a b c d e where "ranks = [a, b, c, d, e]"
    using assms(2) by (auto simp: numeral_eq_Suc length_Suc_conv)
  with assms(1) show ?thesis by (auto simp: is_straight_ranks_def)
qed

lemma rank_ranks_value:
  assumes sorted: "sorted_wrt (\<ge>) ranks" and small: "\<forall>r \<in> set ranks. r < 13"
    and len: "length ranks = 5" and four: "\<forall>r. count_list ranks r \<le> 4"
    and suited: "flush \<longrightarrow> distinct ranks"
  shows "rank_ranks ranks flush = Some (HandRank (of_nat (encode_value (hand_value ranks flush))))"
proof -
  have wheel: "\<not> distinct ranks \<longrightarrow> ranks \<noteq> [12, 3, 2, Suc 0, 0]" by auto
  have high: "ranks ! 0 < 13"
    using small len by (simp add: nth_mem)
  have pos: "(0::nat) < 4" "(0::nat) < 3" "(0::nat) < 2" by simp_all
  note counts = rposition_counts [OF sorted small pos(1)] rposition_counts [OF sorted small pos(2)]
    rposition_counts [OF sorted small pos(3)] two_pair_counts [OF sorted small]
    tiebreak_digits [OF small len] straight_distinct [OF sorted len]
  note small_groups = groups_small [OF small, of 4] groups_small [OF small, of 3]
    groups_small [OF small, of 2] groups_small [OF small, of 1]
  note pattern = map_count_groups [of ranks 4] map_count_groups [of ranks 3]
    map_count_groups [of ranks 2] map_count_groups [of ranks 1]
  have low: "digits ranks < 2 ^ 28"
    using fold_digits_bound [of ranks 0] small len by (force simp: digits_def)
  note defs = rank_ranks_def hand_value_def encode_value_def four_of_a_kind_def full_house_def
    three_of_a_kind_def one_pair_def find_kicker_def unwrap_or_def find_filter Let_def
    counts
  obtain a b c d e where r: "ranks = [a, b, c, d, e]"
    using len by (auto simp: numeral_eq_Suc length_Suc_conv)
  have "e \<noteq> a"
    using sorted four [rule_format, of a] by (auto simp: r)
  then obtain x y z w where "quads ranks x y \<or> full ranks x y \<or> trips ranks x y z
     \<or> pairs ranks x y z \<or> pair ranks x y z w \<or> singles ranks"
    using shapes [of b a c d e] sorted by (auto simp: r Let_def)
  then consider "quads ranks x y" | "full ranks x y" | "trips ranks x y z" | "pairs ranks x y z"
    | "pair ranks x y z w" | "singles ranks" by blast
  then show ?thesis
  proof cases
    case 1
    then show ?thesis
      using suited wheel small_groups pattern
      by (simp add: defs quads_def digits_def add.assoc or_category or_digit_4 del: of_nat_add of_nat_mult)
  next
    case 2
    then show ?thesis
      using suited wheel small_groups pattern
      by (simp add: defs full_def digits_def add.assoc or_category or_digit_4 del: of_nat_add of_nat_mult)
  next
    case 3
    then show ?thesis
      using suited wheel small_groups pattern
      by (simp add: defs trips_def digits_def add.assoc or_category or_digit_4 or_digit_8 del: of_nat_add of_nat_mult)
  next
    case 4
    then show ?thesis
      using suited wheel small_groups pattern
      by (simp add: defs pairs_def digits_def add.assoc or_category or_digit_4 or_digit_8 del: of_nat_add of_nat_mult)
  next
    case 5
    then show ?thesis
      using suited wheel small_groups pattern
      by (simp add: defs pair_def digits_def add.assoc or_category or_digit_4 or_digit_8 or_digit_12 del: of_nat_add of_nat_mult)
  next
    case 6
    let ?wheel = "ranks = [12, 3, 2, 1, 0]"
    define high' where "high' = (if ?wheel then 3 else ranks ! 0)"
    define straight where "straight \<longleftrightarrow> ranks ! 0 = ranks ! 4 + 4 \<or> ?wheel"
    have u: "rank_ranks ranks flush = Some (HandRank (
        if flush \<and> straight then 0x80000000 OR of_nat high'
        else if flush then 0x50000000 OR of_nat (digits ranks)
        else if straight then 0x40000000 OR of_nat high'
        else of_nat (digits ranks)))"
      using 6 by (simp add: defs singles_def high'_def straight_def)
    have "map (count_list ranks) ranks = [1, 1, 1, 1, 1]"
      using 6 pattern(4) len by (simp add: singles_def numeral_eq_Suc)
    then have v: "hand_value ranks flush =
        (if flush \<and> straight then [8, high'] else if flush then 5 # ranks
         else if straight then [4, high'] else 0 # ranks)"
      using 6 by (simp add: hand_value_def singles_def Let_def high'_def straight_def)
    have "high' < 2 ^ 28"
      using high by (simp add: high'_def)
    with low show ?thesis
      unfolding u v
      by (cases flush; cases straight)
         (simp_all add: or_category encode_value_def digits_single del: of_nat_add of_nat_mult)
  qed
qed

section \<open>Order of encodings\<close>

lemma fold_digits_mono: "m \<le> n \<Longrightarrow> fold (\<lambda>k acc. 16 * acc + k) ks m \<le> fold (\<lambda>k acc. 16 * acc + k) ks n"
  for m n :: nat
  by (induction ks arbitrary: m n) auto

lemma fold_digits_lower: "n * 16 ^ length ks \<le> fold (\<lambda>k acc. 16 * acc + k) ks n" for n :: nat
proof (induction ks arbitrary: n)
  case (Cons k ks)
  have "n * 16 ^ length (k # ks) \<le> (16 * n + k) * 16 ^ length ks"
    by (simp add: algebra_simps)
  also have "\<dots> \<le> fold (\<lambda>k acc. 16 * acc + k) ks (16 * n + k)"
    by (rule Cons.IH)
  finally show ?case by simp
qed simp

lemma fold_digits_less:
  assumes "length ks = length ls" and "\<forall>k \<in> set ks. k < 16" "\<forall>k \<in> set ls. k < 16" and "ks < ls"
  shows "fold (\<lambda>k acc. 16 * acc + k) ks n < fold (\<lambda>k acc. 16 * acc + k) ls (n :: nat)"
  using assms
proof (induction ks ls arbitrary: n rule: list_induct2)
  case (Cons k ks l ls)
  show ?case
  proof (cases "k = l")
    case True
    with Cons show ?thesis by simp
  next
    case False
    then have "16 * n + k + 1 \<le> 16 * n + l"
      using Cons.prems(3) by simp
    then have "(16 * n + k + 1) * 16 ^ length ls \<le> (16 * n + l) * 16 ^ length ls"
      by (rule mult_le_mono1)
    with fold_digits_bound [of ks "16 * n + k"] fold_digits_lower [of "16 * n + l" ls] Cons.hyps Cons.prems
    show ?thesis by simp
  qed
qed simp

text \<open>A value as \<open>hand_value\<close> makes them: a category and at most five digits, as many as the category needs.\<close>

definition tie_length :: "nat \<Rightarrow> nat" where
  "tie_length cat = [5, 4, 3, 3, 1, 5, 2, 2, 1] ! cat"

definition value_ok :: "nat list \<Rightarrow> bool" where
  "value_ok v \<longleftrightarrow> v \<noteq> [] \<and> hd v \<le> 8 \<and> length (tl v) = tie_length (hd v) \<and> (\<forall>k \<in> set (tl v). k < 13)"

lemma tie_length_le: "c \<le> 8 \<Longrightarrow> tie_length c \<le> 5"
  unfolding tie_length_def
  by (cases c rule: nat.exhaust; simp add: nth_Cons')

lemma encode_value_bound:
  assumes "value_ok v"
  shows "digits (tl v) < 2 ^ 20" and "encode_value v < 2 ^ 32"
proof -
  have "length (tl v) \<le> 5"
    using assms tie_length_le by (auto simp: value_ok_def)
  then have "(16::nat) ^ length (tl v) \<le> 16 ^ 5"
    by (intro power_increasing) auto
  moreover have "digits (tl v) < 1 * 16 ^ length (tl v)"
    using fold_digits_bound [of "tl v" 0] assms by (force simp: digits_def value_ok_def)
  ultimately show *: "digits (tl v) < 2 ^ 20" by simp
  have "hd v * 2 ^ 28 \<le> 8 * 2 ^ 28"
    using assms by (auto simp: value_ok_def)
  with * show "encode_value v < 2 ^ 32"
    by (simp add: encode_value_def)
qed

lemma encode_value_less:
  assumes "value_ok v" "value_ok v'" and "v < v'"
  shows "encode_value v < encode_value v'"
proof -
  obtain c ks c' ks' where v: "v = c # ks" "v' = c' # ks'"
    using assms by (cases v; cases v') (auto simp: value_ok_def)
  note b = encode_value_bound(1) [OF assms(1)] encode_value_bound(1) [OF assms(2)]
  show ?thesis
  proof (cases "c = c'")
    case True
    then have "digits ks < digits ks'"
      unfolding digits_def
      using assms v by (intro fold_digits_less) (auto simp: value_ok_def)
    with True show ?thesis by (simp add: v encode_value_def)
  next
    case False
    then have "(c + 1) * 2 ^ 28 \<le> c' * 2 ^ 28"
      using assms(3) v by (intro mult_le_mono1) simp
    with b(1) show ?thesis by (simp add: v encode_value_def)
  qed
qed

lemma encode_value_order:
  assumes "value_ok v" "value_ok v'"
  shows "HandRank (of_nat (encode_value v)) < HandRank (of_nat (encode_value v')) \<longleftrightarrow> v < v'"
proof -
  have "encode_value v < encode_value v' \<longleftrightarrow> v < v'"
    using encode_value_less [OF assms] encode_value_less [OF assms(2,1)]
    by (metis linorder_neqE order_less_asym order_less_irrefl)
  with encode_value_bound(2) [OF assms(1)] encode_value_bound(2) [OF assms(2)] show ?thesis
    by (simp add: less_hand_rank_def word_less_nat_alt unat_of_nat)
qed

section \<open>From cards to ranks\<close>

definition valid_cards :: "card list \<Rightarrow> bool" where
  "valid_cards cs \<longleftrightarrow> distinct cs \<and> (\<forall>c \<in> set cs. card_index c < 52)"

text \<open>Rank and suit of a real card.\<close>

definition rank_of :: "card \<Rightarrow> nat" where
  "rank_of c = fst (the (card_parts c))"

definition suit_of :: "card \<Rightarrow> suit" where
  "suit_of c = snd (the (card_parts c))"

lemma card_parts_new: "card_parts (card_new r s) = Some (unat (rank_u8 r), s)"
  by (simp add: card_parts_def card_rank_new card_suit_new)

lemma card_parts_valid:
  assumes "card_index c < 52"
  shows "card_parts c = Some (rank_of c, suit_of c)" and "rank_of c < 13"
  using assms unat_rank_u8 by (auto simp: card_pack_index rank_of_def suit_of_def card_parts_new)

lemma parts_inject:
  assumes "card_index c < 52" "card_index c' < 52" "rank_of c = rank_of c'" "suit_of c = suit_of c'"
  shows "c = c'"
  using assms unat_rank_inject
  by (auto simp: card_pack_index rank_of_def suit_of_def card_parts_new)

definition ranks_desc :: "card list \<Rightarrow> nat list" where
  "ranks_desc cs = rev (sort (map rank_of cs))"

definition suited :: "card list \<Rightarrow> bool" where
  "suited cs \<longleftrightarrow> (\<forall>c \<in> set cs. \<forall>c' \<in> set cs. suit_of c = suit_of c')"

lemma map_sort_key: "map f (sort_key f xs) = sort (map f xs)"
  by (rule properties_for_sort [symmetric]) simp_all

lemma list_all_hd:
  "xs \<noteq> [] \<Longrightarrow> list_all (\<lambda>s. s = xs ! 0) xs \<longleftrightarrow> (\<forall>s \<in> set xs. \<forall>t \<in> set xs. s = t)"
  by (cases xs) (simp_all add: list_all_iff, metis)

lemma rank_5_naive_eq:
  assumes "\<forall>c \<in> set cs. card_index c < 52" and "cs \<noteq> []"
  shows "rank_5_naive cs = rank_ranks (ranks_desc cs) (suited cs)"
proof -
  let ?parts = "map (\<lambda>c. (rank_of c, suit_of c)) cs"
  let ?sorted = "rev (sort_key fst ?parts)"
  have parts: "map_opt card_parts cs = Some ?parts"
    using assms(1) card_parts_valid(1) by (intro map_opt_eq_map) auto
  have fst: "map fst ?sorted = ranks_desc cs"
    by (simp add: ranks_desc_def rev_map [symmetric] map_sort_key comp_def)
  have "set (map snd ?sorted) = suit_of ` set cs"
    by (auto simp: image_iff)
  moreover have "map snd ?sorted \<noteq> []"
    using assms(2) by (metis length_0_conv length_map length_rev length_sort)
  ultimately have "list_all (\<lambda>s. s = map snd ?sorted ! 0) (map snd ?sorted) \<longleftrightarrow> suited cs"
    using list_all_hd [of "map snd ?sorted"] by (simp add: suited_def)
  then show ?thesis
    using fst by (simp add: rank_5_naive_def parts Let_def)
qed

lemma rank_5_naive_perm:
  assumes "\<forall>c \<in> set cs. card_index c < 52" and "cs \<noteq> []" and "mset cs' = mset cs"
  shows "rank_5_naive cs' = rank_5_naive cs"
proof -
  have "set cs' = set cs" "cs' \<noteq> []"
    using mset_eq_setD [OF assms(3)] assms(2) by auto
  moreover have "sort (map rank_of cs') = sort (map rank_of cs)"
    by (rule properties_for_sort) (simp_all add: assms(3))
  ultimately show ?thesis
    using assms by (simp add: rank_5_naive_eq ranks_desc_def suited_def)
qed

lemma suit_list_le: "distinct xs \<Longrightarrow> length xs \<le> 4" for xs :: "suit list"
proof -
  assume "distinct xs"
  have "set xs \<subseteq> set all_suits"
    by (metis (full_types) all_suits_def insertI1 insertI2 list.simps(15) subsetI suit.exhaust)
  then have "card (set xs) \<le> card (set all_suits)"
    by (intro card_mono) auto
  with \<open>distinct xs\<close> show ?thesis
    by (simp add: distinct_card all_suits_def)
qed

lemma count_list_map: "count_list (map f xs) y = length (filter (\<lambda>x. f x = y) xs)"
  by (induction xs) auto

lemma valid_counts:
  assumes "valid_cards cs"
  shows "count_list (ranks_desc cs) r \<le> 4"
proof -
  let ?same = "filter (\<lambda>c. rank_of c = r) cs"
  have "inj_on suit_of (set ?same)"
    by (rule inj_onI, rule parts_inject) (use assms in \<open>simp_all add: valid_cards_def\<close>)
  then have "distinct (map suit_of ?same)"
    using assms by (simp add: distinct_map valid_cards_def)
  then have "length ?same \<le> 4"
    using suit_list_le by fastforce
  moreover have "count_list (ranks_desc cs) r = count_list (map rank_of cs) r"
    by (simp add: ranks_desc_def count_mset [symmetric])
  ultimately show ?thesis by (simp add: count_list_map)
qed

lemma suited_distinct:
  assumes "valid_cards cs" and "suited cs"
  shows "distinct (ranks_desc cs)"
proof -
  have "inj_on rank_of (set cs)"
  proof (rule inj_onI)
    fix c c' assume c: "c \<in> set cs" "c' \<in> set cs" and "rank_of c = rank_of c'"
    moreover have "suit_of c = suit_of c'"
      using assms(2) c unfolding suited_def by blast
    ultimately show "c = c'"
      using assms(1) by (intro parts_inject) (auto simp: valid_cards_def)
  qed
  then show ?thesis
    using assms(1) by (simp add: ranks_desc_def distinct_map valid_cards_def)
qed

section \<open>Values of five cards\<close>

text \<open>The value of five cards, as a list compared lexicographically.\<close>

definition card_value :: "card list \<Rightarrow> nat list" where
  "card_value cs = hand_value (ranks_desc cs) (suited cs)"

lemma hand_value_ok:
  assumes sorted: "sorted_wrt (\<ge>) ranks" and small: "\<forall>r \<in> set ranks. r < 13"
    and len: "length ranks = 5" and four: "\<forall>r. count_list ranks r \<le> 4"
    and suited: "flush \<longrightarrow> distinct ranks"
  shows "value_ok (hand_value ranks flush)"
proof -
  note small_groups = groups_small [OF small, of 4] groups_small [OF small, of 3]
    groups_small [OF small, of 2] groups_small [OF small, of 1]
  note pattern = map_count_groups [of ranks 4] map_count_groups [of ranks 3]
    map_count_groups [of ranks 2] map_count_groups [of ranks 1]
  obtain a b c d e where r: "ranks = [a, b, c, d, e]"
    using len by (auto simp: numeral_eq_Suc length_Suc_conv)
  have high: "ranks ! 0 < 13"
    using small len by (simp add: nth_mem)
  have "e \<noteq> a"
    using sorted four [rule_format, of a] by (auto simp: r)
  then obtain x y z w where "quads ranks x y \<or> full ranks x y \<or> trips ranks x y z
     \<or> pairs ranks x y z \<or> pair ranks x y z w \<or> singles ranks"
    using shapes [of b a c d e] sorted by (auto simp: r Let_def)
  then consider "quads ranks x y" | "full ranks x y" | "trips ranks x y z" | "pairs ranks x y z"
    | "pair ranks x y z w" | "singles ranks" by blast
  then show ?thesis
  proof cases
    case 6
    then show ?thesis
      using small high len
      by (auto simp: singles_def hand_value_def Let_def value_ok_def tie_length_def numeral_eq_Suc)
  qed (use suited small_groups pattern in
      \<open>simp_all add: shape_defs hand_value_def Let_def value_ok_def tie_length_def\<close>)
qed

lemma ranks_desc_facts:
  assumes "valid_cards cs" and "length cs = 5"
  shows "sorted_wrt (\<ge>) (ranks_desc cs)" and "\<forall>r \<in> set (ranks_desc cs). r < 13"
    and "length (ranks_desc cs) = 5" and "\<forall>r. count_list (ranks_desc cs) r \<le> 4"
    and "suited cs \<longrightarrow> distinct (ranks_desc cs)"
  using assms valid_counts [OF assms(1)] suited_distinct [OF assms(1)] card_parts_valid(2)
  by (auto simp: ranks_desc_def valid_cards_def sorted_wrt_rev)

lemma rank_5_naive_value:
  assumes "valid_cards cs" and "length cs = 5"
  shows "rank_5_naive cs = Some (HandRank (of_nat (encode_value (card_value cs))))"
    and "value_ok (card_value cs)"
proof -
  have "cs \<noteq> []" "\<forall>c \<in> set cs. card_index c < 52"
    using assms by (auto simp: valid_cards_def)
  then show "rank_5_naive cs = Some (HandRank (of_nat (encode_value (card_value cs))))"
    using rank_ranks_value [OF ranks_desc_facts [OF assms]]
    by (simp add: rank_5_naive_eq card_value_def)
  show "value_ok (card_value cs)"
    unfolding card_value_def by (rule hand_value_ok [OF ranks_desc_facts [OF assms]])
qed

lemma category_of_value:
  assumes "value_ok v"
  shows "hand_rank_category (HandRank (of_nat (encode_value v))) = all_categories ! hd v"
proof -
  have "unat (of_nat (encode_value v) :: 32 word) = encode_value v"
    using encode_value_bound(2) [OF assms] by (simp add: unat_of_nat)
  moreover have "encode_value v div 2 ^ 28 = hd v"
    using encode_value_bound(1) [OF assms] by (simp add: encode_value_def)
  ultimately have "unat (drop_bit 28 (of_nat (encode_value v) :: 32 word)) = hd v"
    unfolding unat_drop_bit_eq by (simp add: drop_bit_eq_div)
  then show ?thesis
    using assms by (simp add: hand_rank_category_def value_ok_def)
qed

section \<open>Best of seven\<close>

lemma mset_five_of_7:
  assumes "i < length cs" "j < length cs" "i \<noteq> j"
  shows "mset (five_of_7 cs i j) + {# cs ! i, cs ! j #} = mset cs"
proof -
  let ?P = "\<lambda>k. k \<noteq> i \<and> k \<noteq> j"
  have "mset (filter ?P [0..<length cs]) + {# i, j #} = mset [0..<length cs]"
    using assms by (intro multiset_eqI) (auto simp: count_mset_set')
  then have "image_mset (\<lambda>k. cs ! k) (mset (filter ?P [0..<length cs]) + {# i, j #}) = mset (map ((!) cs) [0..<length cs])"
    by simp
  moreover have "five_of_7 cs i j = map ((!) cs) (filter ?P [0..<length cs])"
    unfolding five_of_7_def by (rule map_snd_filter_index)
  ultimately show ?thesis
    by (simp add: map_nth)
qed

definition seven_pairs :: "(nat \<times> nat) list" where
  "seven_pairs = concat (map (\<lambda>i. map (\<lambda>j. (i, j)) [i + 1..<7]) [0..<7])"

lemma seven_pairs_set: "set seven_pairs = {(i, j). i < j \<and> j < 7}"
  by (auto simp: seven_pairs_def image_iff)

text \<open>A running maximum over options that all return.\<close>

lemma for_each_max:
  fixes b :: "'r::linorder"
  assumes "\<And>x. x \<in> set xs \<Longrightarrow> f x = Some (g x)"
  shows "ok (for_each xs (\<lambda>x best. do { r \<leftarrow> f x; Some (if best < r then r else best) }) b)
     (\<lambda>m. b \<le> m \<and> (\<forall>x \<in> set xs. g x \<le> m) \<and> (m = b \<or> (\<exists>x \<in> set xs. m = g x)))"
  using assms
proof (induction xs arbitrary: b)
  case (Cons x xs)
  have "ok (for_each xs (\<lambda>x best. do { r \<leftarrow> f x; Some (if best < r then r else best) })
      (if b < g x then g x else b))
     (\<lambda>m. (if b < g x then g x else b) \<le> m \<and> (\<forall>x \<in> set xs. g x \<le> m)
        \<and> (m = (if b < g x then g x else b) \<or> (\<exists>x \<in> set xs. m = g x)))"
    using Cons.prems by (intro Cons.IH) auto
  then show ?case
    using Cons.prems by (auto elim!: ok_mono split: if_splits)
qed simp

lemma valid_five:
  assumes "valid_cards cs" "length cs = 7" "i < j" "j < 7"
  shows "valid_cards (five_of_7 cs i j)" and "length (five_of_7 cs i j) = 5"
proof -
  have m: "mset (five_of_7 cs i j) + {# cs ! i, cs ! j #} = mset cs"
    using assms by (intro mset_five_of_7) auto
  then have "size (mset (five_of_7 cs i j) + {# cs ! i, cs ! j #}) = 7"
    using assms(2) by (simp only: size_mset)
  then show "length (five_of_7 cs i j) = 5" by simp
  have "distinct (five_of_7 cs i j)" "set (five_of_7 cs i j) \<subseteq> set cs"
    unfolding five_of_7_def map_snd_filter_index
    using assms(1) by (auto simp: distinct_map valid_cards_def inj_on_nth)
  with assms(1) show "valid_cards (five_of_7 cs i j)"
    by (auto simp: valid_cards_def)
qed

lemma five_of_7_commute: "five_of_7 cs i j = five_of_7 cs j i"
  by (simp add: five_of_7_def conj_commute)

lemma size_two: "size m = 2 \<Longrightarrow> \<exists>x y. m = {# x, y #}" for m :: "'a multiset"
proof -
  assume "size m = 2"
  then obtain x m' where m: "m = add_mset x m'" "size m' = 1"
    by (cases m) auto
  then obtain y where "m' = {# y #}"
    by (metis size_1_singleton_mset)
  with m show ?thesis by blast
qed

lemma drop_two:
  assumes sub: "mset five \<subseteq># mset cs" and len: "length five = 5" "length cs = 7" and "distinct cs"
  shows "\<exists>i j. i < j \<and> j < 7 \<and> mset (five_of_7 cs i j) = mset five"
proof -
  obtain rest where rest: "mset cs = mset five + rest"
    using sub by (metis mset_subset_eq_exists_conv)
  have "size (mset five + rest) = 7"
    using len(2) rest by (metis size_mset)
  then obtain x y where xy: "rest = {# x, y #}"
    using len(1) size_two [of rest] by auto
  have "set cs = set five \<union> {x, y}"
    using arg_cong [OF rest, of set_mset] xy by auto
  then obtain i j where ij: "i < 7" "j < 7" "cs ! i = x" "cs ! j = y"
    using len(2) by (metis UnI2 in_set_conv_nth insertI1 insertI2)
  have "count (mset cs) x \<le> 1"
    using \<open>distinct cs\<close> by (simp add: distinct_count_atmost_1)
  then have "i \<noteq> j"
    using rest xy ij by (auto split: if_splits)
  then have "mset (five_of_7 cs i j) = mset five"
    using mset_five_of_7 [of i cs j] ij len(2) rest xy by auto
  with \<open>i \<noteq> j\<close> ij five_of_7_commute [of cs i j] show ?thesis
    by (metis linorder_neqE_nat)
qed

lemma best_of_7_ok:
  assumes "valid_cards cs" and "length cs = 7"
  shows "ok (best_of_7 cs) (\<lambda>best.
     (\<exists>five. mset five \<subseteq># mset cs \<and> length five = 5 \<and> rank_5_naive five = Some best)
     \<and> (\<forall>five. mset five \<subseteq># mset cs \<longrightarrow> length five = 5 \<longrightarrow> ok (rank_5_naive five) (\<lambda>r. r \<le> best)))"
proof -
  let ?five = "\<lambda>(i, j). five_of_7 cs i j"
  let ?g = "\<lambda>ij. HandRank (of_nat (encode_value (card_value (?five ij))))"
  have g: "rank_5_naive (?five ij) = Some (?g ij)" if "ij \<in> set seven_pairs" for ij
    using that valid_five [OF assms] rank_5_naive_value(1) by (auto simp: seven_pairs_set)
  have loop: "best_of_7 cs = for_each seven_pairs (\<lambda>ij best. do { rank \<leftarrow> rank_5_naive (?five ij);
      Some (if best < rank then rank else best) }) (HandRank 0)"
    by (simp add: best_of_7_def seven_pairs_def case_prod_unfold)
  have "ok (best_of_7 cs) (\<lambda>m. HandRank 0 \<le> m \<and> (\<forall>ij \<in> set seven_pairs. ?g ij \<le> m)
      \<and> (m = HandRank 0 \<or> (\<exists>ij \<in> set seven_pairs. m = ?g ij)))"
    unfolding loop by (rule for_each_max [OF g])
  then obtain best where best: "best_of_7 cs = Some best" "\<forall>ij \<in> set seven_pairs. ?g ij \<le> best"
      "best = HandRank 0 \<or> (\<exists>ij \<in> set seven_pairs. best = ?g ij)"
    unfolding ok_def by blast
  have "HandRank 0 \<le> r" for r
    by (simp add: less_eq_hand_rank_def)
  moreover have first: "(0, 1) \<in> set seven_pairs"
    by (simp add: seven_pairs_set)
  ultimately obtain i j where ij: "(i, j) \<in> set seven_pairs" "best = ?g (i, j)"
    using best(2,3) by (metis antisym surj_pair)
  then have "i < j" "j < 7"
    by (auto simp: seven_pairs_set)
  then have "mset (five_of_7 cs i j) \<subseteq># mset cs"
    using mset_five_of_7 [of i cs j] assms(2) by (metis le_refl less_trans mset_subset_eq_add_left
        nat_neq_iff)
  moreover have "length (five_of_7 cs i j) = 5" "rank_5_naive (five_of_7 cs i j) = Some best"
    using valid_five(2) [OF assms \<open>i < j\<close> \<open>j < 7\<close>] g [OF ij(1)] ij(2) by auto
  moreover have "ok (rank_5_naive five) (\<lambda>r. r \<le> best)"
    if five: "mset five \<subseteq># mset cs" "length five = 5" for five
  proof -
    obtain k l where kl: "k < l" "l < 7" "mset (five_of_7 cs k l) = mset five"
      using drop_two [OF five(1,2) assms(2)] assms(1) by (auto simp: valid_cards_def)
    then have "(k, l) \<in> set seven_pairs"
      by (simp add: seven_pairs_set)
    moreover have "rank_5_naive five = rank_5_naive (five_of_7 cs k l)"
      using rank_5_naive_perm [of "five_of_7 cs k l" five] valid_five [OF assms kl(1,2)] kl(3)
      by (force simp: valid_cards_def)
    ultimately show ?thesis
      using g best(2) by fastforce
  qed
  ultimately show ?thesis
    using best(1) by auto
qed

interpretation naive: hand_evaluator best_of_7
proof
  fix cs :: "card list"
  assume "length cs = 7" "distinct cs" "\<And>c. c \<in> set cs \<Longrightarrow> card_index c < 52"
  then show "\<exists>r. best_of_7 cs = Some r"
    using best_of_7_ok [of cs] by (auto simp: valid_cards_def ok_def)
qed

text \<open>The \<open>rs_poker\<close> evaluator ranks whenever its cards are real, whatever the crate returns.\<close>

lemma to_rs_card_valid: "card_index c < 52 \<Longrightarrow> \<exists>x. to_rs_card from_u8 c = Some x"
  by (auto simp: card_pack_index to_rs_card_def card_rank_new card_suit_new)

lemma rs_rank_cards_total:
  assumes "\<And>c. c \<in> set cs \<Longrightarrow> card_index c < 52"
  shows "\<exists>r. rs_rank_cards from_u8 rank cs = Some r"
proof -
  have "map_opt (to_rs_card from_u8) cs = Some (map (\<lambda>c. the (to_rs_card from_u8 c)) cs)"
    by (rule map_opt_eq_map) (metis assms to_rs_card_valid option.sel)
  then show ?thesis by (simp add: rs_rank_cards_def)
qed

interpretation rs: hand_evaluator "rs_rank_cards from_u8 rank"
  by unfold_locales (rule rs_rank_cards_total)

section \<open>Properties\<close>

text \<open>
  (C18) The naive evaluator ranks poker hands: for five distinct cards it returns, its category is that
  of the hand, and the order and the ties of its numbers are those of the hands' values, compared
  rank by rank.
\<close>

theorem rank_5_naive_refines:
  assumes "valid_cards cs" "length cs = 5" and "valid_cards cs'" "length cs' = 5"
  shows "\<exists>r r'. rank_5_naive cs = Some r \<and> rank_5_naive cs' = Some r'
    \<and> hand_rank_category r = all_categories ! hd (card_value cs)
    \<and> (r < r' \<longleftrightarrow> card_value cs < card_value cs') \<and> (r = r' \<longleftrightarrow> card_value cs = card_value cs')"
proof -
  note v = rank_5_naive_value [OF assms(1,2)] and v' = rank_5_naive_value [OF assms(3,4)]
  have "card_value cs = card_value cs'"
    if "HandRank (of_nat (encode_value (card_value cs))) = HandRank (of_nat (encode_value (card_value cs')))"
    using that encode_value_order [OF v(2) v'(2)] encode_value_order [OF v'(2) v(2)]
    by (metis less_irrefl linorder_neqE)
  then show ?thesis
    using v v' category_of_value [OF v(2)] encode_value_order [OF v(2) v'(2)] by auto
qed

text \<open>A full house and the wheel.\<close>

definition boat :: "card list" where
  "boat = [card_new Ace Clubs, card_new Ace Hearts, card_new Two Spades, card_new Two Clubs, card_new Two Hearts]"

definition wheel_straight :: "card list" where
  "wheel_straight = [card_new Ace Clubs, card_new Two Hearts, card_new Three Spades, card_new Four Clubs, card_new Five Hearts]"

lemma sample_hands:
  "valid_cards boat" "length boat = 5" "valid_cards wheel_straight" "length wheel_straight = 5"
  by (simp_all add: boat_def wheel_straight_def valid_cards_def card_new_def card_index_def)

lemma sample_values: "card_value boat = [6, 0, 12]" "card_value wheel_straight = [4, 3]"
  by code_simp+

theorem rank_5_naive_refines_witness:
  "\<exists>r r'. rank_5_naive wheel_straight = Some r \<and> rank_5_naive boat = Some r' \<and> r < r'
     \<and> hand_rank_category r = Straight"
proof -
  have "card_value wheel_straight < card_value boat" by (simp add: sample_values)
  moreover have "all_categories ! hd (card_value wheel_straight) = Straight"
    by (simp add: sample_values all_categories_def)
  ultimately show ?thesis
    using rank_5_naive_refines [OF sample_hands(3,4,1,2)] by auto
qed

text \<open>
  (C19) \<open>best_of_7\<close> returns on seven distinct cards, with the rank of one of the five-card hands in them,
  and no five of the seven cards, in any order, rank higher.
\<close>

theorem best_of_7_best:
  assumes "valid_cards cs" and "length cs = 7"
  shows "\<exists>best. best_of_7 cs = Some best
    \<and> (\<exists>five. mset five \<subseteq># mset cs \<and> length five = 5 \<and> rank_5_naive five = Some best)
    \<and> (\<forall>five. mset five \<subseteq># mset cs \<longrightarrow> length five = 5 \<longrightarrow>
         (\<exists>r. rank_5_naive five = Some r \<and> r \<le> best))"
  using best_of_7_ok [OF assms] by (auto simp: ok_def)

theorem best_of_7_best_witness:
  "\<exists>best. best_of_7 (boat @ [card_new King Clubs, card_new Queen Clubs]) = Some best
     \<and> (\<exists>r. rank_5_naive boat = Some r \<and> r \<le> best)"
proof -
  let ?cs = "boat @ [card_new King Clubs, card_new Queen Clubs]"
  have "valid_cards ?cs" "length ?cs = 7"
    by (simp_all add: boat_def valid_cards_def card_new_def card_index_def)
  from best_of_7_best [OF this] sample_hands(2) show ?thesis by auto
qed

lemma unat_category_tiebreak:
  fixes cat v :: "32 word"
  assumes "unat cat < 9" and "unat v < 2 ^ 28"
  shows "unat (push_bit 28 cat OR (v AND 0x0FFFFFFF)) = unat cat * 2 ^ 28 + unat v"
proof -
  have "unat (take_bit 28 v) = unat v"
    using assms(2) by (simp add: unsigned_take_bit_eq take_bit_nat_eq_self)
  then have "take_bit 28 v = v" by (rule unsigned_word_eqI)
  then have "v AND 0x0FFFFFFF = v"
    by (simp add: take_bit_eq_mask mask_eq_exp_minus_1)
  then have "push_bit 28 cat OR (v AND 0x0FFFFFFF) = of_nat (unat cat * 2 ^ 28 + unat v)"
    using or_digit [OF assms(2), of "unat cat"] by simp
  moreover have "unat cat * 2 ^ 28 + unat v < 2 ^ 32"
    using assms by simp
  ultimately show ?thesis
    by (simp only: unat_of_nat take_bit_nat_eq_self) (simp add: take_bit_nat_eq_self)
qed

lemma rs_split_cat: "unat (fst (rs_split r)) < 9"
  by (cases r) simp_all

lemma unat_encode_rs_rank:
  assumes "unat (snd (rs_split r)) < 2 ^ 28"
  shows "unat (hand_rank_u32 (encode_rs_rank r)) = unat (fst (rs_split r)) * 2 ^ 28 + unat (snd (rs_split r))"
  using unat_category_tiebreak [OF rs_split_cat assms] by (simp add: encode_rs_rank_def split_beta)

text \<open>
  Packing the crate's rank keeps its order and its category: as long as the crate's tie-breakers
  fit in 28 bits, the packed numbers compare as the pairs of variant and tie-breaker do, and the
  category read back is the variant.
\<close>

theorem encode_rs_rank_order:
  assumes "unat (snd (rs_split a)) < 2 ^ 28" and "unat (snd (rs_split b)) < 2 ^ 28"
  shows "(encode_rs_rank a < encode_rs_rank b \<longleftrightarrow>
      fst (rs_split a) < fst (rs_split b)
      \<or> fst (rs_split a) = fst (rs_split b) \<and> snd (rs_split a) < snd (rs_split b))
    \<and> hand_rank_category (encode_rs_rank a) = all_categories ! unat (fst (rs_split a))"
proof -
  have "x * 2 ^ 28 + p < y * 2 ^ 28 + q \<longleftrightarrow> x < y \<or> x = y \<and> p < q"
    if "p < 2 ^ 28" "q < 2 ^ 28" for x y p q :: nat
    by (cases x y rule: linorder_cases) (use that in simp_all)
  from this [OF assms] have "encode_rs_rank a < encode_rs_rank b \<longleftrightarrow>
      fst (rs_split a) < fst (rs_split b)
      \<or> fst (rs_split a) = fst (rs_split b) \<and> snd (rs_split a) < snd (rs_split b)"
    using unat_encode_rs_rank [OF assms(1)] unat_encode_rs_rank [OF assms(2)]
    by (simp only: less_hand_rank_def word_less_nat_alt word_unat_eq_iff)
  moreover have "unat (drop_bit 28 (hand_rank_u32 (encode_rs_rank a))) = unat (fst (rs_split a))"
    unfolding unsigned_drop_bit_eq unat_encode_rs_rank [OF assms(1)]
    using assms(1) rs_split_cat [of a] by (subst take_bit_nat_eq_self) (simp_all add: drop_bit_eq_div)
  ultimately show ?thesis
    using rs_split_cat [of a] by (simp add: hand_rank_category_def)
qed

theorem encode_rs_rank_order_witness:
  "encode_rs_rank (RsFlush 5) < encode_rs_rank (RsFullHouse 3)
   \<and> hand_rank_category (encode_rs_rank (RsFlush 5)) = Flush"
  using encode_rs_rank_order [of "RsFlush 5" "RsFullHouse 3"] by (simp add: all_categories_def)

end
