(* ===== verification/Preflop.thy ===== *)
theory Preflop
  imports Evaluator
begin

text \<open>
  Preflop hand classes: \<open>abstraction/preflop.rs\<close>.  A class is a pair, or two ranks suited or not, the
  higher rank first; \<open>index\<close> numbers the 169 classes.
\<close>

datatype preflop_class = Pair rank | Suited rank rank | Offsuit rank rank

definition preflop_COUNT :: nat where
  "preflop_COUNT = 169"

definition from_hole :: "card \<times> card \<Rightarrow> preflop_class option" where
  "from_hole = (\<lambda>(c0, c1).
     do { r0 \<leftarrow> card_rank c0;
          r1 \<leftarrow> card_rank c1;
          let (high, low) = (if r1 \<le> r0 then (c0, c1) else (c1, c0));
          h \<leftarrow> card_rank high;
          l \<leftarrow> card_rank low;
          if h = l then Some (Pair h)
          else do { sh \<leftarrow> card_suit high;
                    sl \<leftarrow> card_suit low;
                    Some (if sh = sl then Suited h l else Offsuit h l) } })"

definition non_pair_offset :: "rank \<Rightarrow> rank \<Rightarrow> nat option" where
  "non_pair_offset high low =
     do { let h = unat (rank_u8 high);
          let l = unat (rank_u8 low);
          row_start \<leftarrow> sub_u32 78 (h * (h + 1) div 2);
          a \<leftarrow> sub_u32 h 1;
          b \<leftarrow> sub_u32 a l;
          Some (row_start + b) }"

fun preflop_index :: "preflop_class \<Rightarrow> nat option" where
  "preflop_index (Pair r) = sub_u32 12 (unat (rank_u8 r))"
| "preflop_index (Suited h l) = map_option (\<lambda>k. 13 + k) (non_pair_offset h l)"
| "preflop_index (Offsuit h l) = map_option (\<lambda>k. 91 + k) (non_pair_offset h l)"

text \<open>The invariant of the type: the first rank of a non-pair is the higher one.\<close>

fun canonical :: "preflop_class \<Rightarrow> bool" where
  "canonical (Pair r) = True"
| "canonical (Suited h l) = (l < h)"
| "canonical (Offsuit h l) = (l < h)"

text \<open>The documented layout: pairs, suited, offsuit, each from the aces down.\<close>

definition rank_pairs_desc :: "(rank \<times> rank) list" where
  "rank_pairs_desc = filter (\<lambda>(h, l). l < h) (List.product (rev all_ranks) (rev all_ranks))"

definition preflop_layout :: "preflop_class list" where
  "preflop_layout = map Pair (rev all_ranks) @ map (\<lambda>(h, l). Suited h l) rank_pairs_desc
     @ map (\<lambda>(h, l). Offsuit h l) rank_pairs_desc"

lemma all_ranks_complete: "set all_ranks = UNIV"
  unfolding all_ranks_def by (auto intro: rank.exhaust)

lemma preflop_layout_set: "set preflop_layout = {c. canonical c}"
proof -
  have "c \<in> set preflop_layout \<longleftrightarrow> canonical c" for c
    by (cases c) (auto simp: preflop_layout_def rank_pairs_desc_def all_ranks_complete)
  then show ?thesis by blast
qed

lemma preflop_layout_index: "map preflop_index preflop_layout = map Some [0..<169]"
  by (simp add: preflop_layout_def rank_pairs_desc_def all_ranks_def less_rank_def non_pair_offset_def
        sub_u32_def upt_rec)

lemma preflop_index_nth:
  assumes "canonical c"
  shows "ok (preflop_index c) (\<lambda>i. i < 169 \<and> preflop_layout ! i = c)"
proof -
  obtain i where i: "i < length preflop_layout" "preflop_layout ! i = c"
    using assms preflop_layout_set by (metis in_set_conv_nth mem_Collect_eq)
  have "length (map preflop_index preflop_layout) = 169"
    unfolding preflop_layout_index by simp
  then have "i < 169"
    using i(1) by simp
  moreover have "preflop_index c = Some i"
    using arg_cong [OF preflop_layout_index, of "\<lambda>xs. xs ! i"] i \<open>i < 169\<close> by simp
  ultimately show ?thesis
    using i(2) by simp
qed

text \<open>
  Every starting hand falls into exactly one of the 169 classes.  For two real cards
  \<open>from_hole\<close> returns a class whose higher rank comes first, the same class in whichever order the
  cards are held, and \<open>index\<close> sends it to a number below \<open>COUNT\<close> at which the documented layout has
  this very class, so that different classes have different numbers.
\<close>

theorem preflop_class_index:
  assumes "card_index c0 < 52" and "card_index c1 < 52"
  shows "ok (from_hole (c0, c1)) (\<lambda>c. canonical c \<and> from_hole (c1, c0) = Some c
     \<and> ok (preflop_index c) (\<lambda>i. i < preflop_COUNT \<and> preflop_layout ! i = c))"
proof -
  obtain r0 s0 r1 s1 where c: "c0 = card_new r0 s0" "c1 = card_new r1 s1"
    using assms by (auto simp: card_pack_index)
  have "ok (from_hole (c0, c1)) (\<lambda>c. canonical c \<and> from_hole (c1, c0) = Some c)"
    by (auto simp: c from_hole_def card_rank_new card_suit_new not_le)
  then show ?thesis
    by (rule ok_mono) (simp add: preflop_index_nth preflop_COUNT_def)
qed

theorem preflop_class_index_witness:
  "ok (from_hole (card_new King Hearts, card_new Ace Spades)) (\<lambda>c. canonical c
     \<and> from_hole (card_new Ace Spades, card_new King Hearts) = Some c
     \<and> ok (preflop_index c) (\<lambda>i. i < preflop_COUNT \<and> preflop_layout ! i = c))"
  by (rule preflop_class_index) (auto simp: card_pack_index)

end
