(* ===== verification/Agents.thy ===== *)
theory Agents
  imports Preflop
begin

text \<open>
  The agents that ship with the engine: \<open>agent/builtin.rs\<close> and the personas of \<open>agent/personas.rs\<close>.

  Random draws come from the \<open>rand\<close> crate and are arguments: \<open>gen_index r n\<close> is \<open>rng.gen_range(0..n)\<close>,
  \<open>gen_f32 r\<close> is \<open>rng.gen::<f32>()\<close>, and \<open>below x p\<close> is the comparison of such a draw with the
  literal \<open>p\<close> hundredths.  \<open>rank_5\<close> and \<open>rank_7\<close> are the two methods of the evaluator a persona owns.
  A world of these agents with a \<open>VecSink\<close> is an environment of the engine, and it is responsive:
  none of them ever checks while it owes chips.
\<close>

section \<open>Strength of a hand\<close>

datatype strength = Trash | Weak | Medium | Strong | Premium

definition preflop_strength :: "nat \<Rightarrow> strength" where
  "preflop_strength i =
     (if i \<le> 10 then Premium else if i \<le> 30 then Strong else if i \<le> 70 then Medium
      else if i \<le> 130 then Weak else Trash)"

fun category_strength :: "hand_category \<Rightarrow> strength" where
  "category_strength FullHouse = Premium"
| "category_strength FourOfAKind = Premium"
| "category_strength StraightFlush = Premium"
| "category_strength Flush = Strong"
| "category_strength Straight = Strong"
| "category_strength ThreeOfAKind = Medium"
| "category_strength TwoPair = Medium"
| "category_strength OnePair = Weak"
| "category_strength HighCard = Trash"

text \<open>\<open>HandCategory\<close> derives \<open>Ord\<close>: categories compare by position.\<close>

definition category_less :: "hand_category \<Rightarrow> hand_category \<Rightarrow> bool" where
  "category_less a b \<longleftrightarrow>
     unwrap_or (position (\<lambda>c. c = a) all_categories) 0 < unwrap_or (position (\<lambda>c. c = b) all_categories) 0"

definition best_category ::
  "(card list \<Rightarrow> hand_rank option) \<Rightarrow> (card list \<Rightarrow> hand_rank option) \<Rightarrow> card \<times> card \<Rightarrow> card list \<Rightarrow>
     hand_category option" where
  "best_category rank_5 rank_7 hole board =
     (let all_cards = [fst hole, snd hole] @ board in
      if length board = 3 then map_option hand_rank_category (rank_5 all_cards)
      else if length board = 4 then
        do { best \<leftarrow> for_each [0..<6] (\<lambda>skip best.
               do { r \<leftarrow> rank_5 (map (\<lambda>i. all_cards ! (if i < skip then i else i + 1)) [0..<5]);
                    let cat = hand_rank_category r;
                    Some (case best of
                        None \<Rightarrow> Some cat
                      | Some b \<Rightarrow> Some (if category_less b cat then cat else b)) }) None;
             best }
      else if length board = 5 then map_option hand_rank_category (rank_7 all_cards)
      else Some HighCard)"

definition evaluate ::
  "(card list \<Rightarrow> hand_rank option) \<Rightarrow> (card list \<Rightarrow> hand_rank option) \<Rightarrow> observation \<Rightarrow>
     strength option" where
  "evaluate rank_5 rank_7 obs =
     (if o_street obs = Preflop then
        do { c \<leftarrow> from_hole (o_hole_cards obs); i \<leftarrow> preflop_index c; Some (preflop_strength i) }
      else map_option category_strength (best_category rank_5 rank_7 (o_hole_cards obs) (o_board obs)))"

section \<open>Action helpers\<close>

definition fold_or_check :: "observation \<Rightarrow> action" where
  "fold_or_check obs = (if la_can_check (o_legal_actions obs) then Check else Fold)"

definition call_or_check :: "observation \<Rightarrow> action" where
  "call_or_check obs =
     (if la_can_check (o_legal_actions obs) then Check
      else if la_can_call (o_legal_actions obs) then Call else Fold)"

definition raise_or_call :: "observation \<Rightarrow> action" where
  "raise_or_call obs =
     (if la_can_raise (o_legal_actions obs) then Raise (la_min_raise (o_legal_actions obs))
      else call_or_check obs)"

definition shove_or_call :: "observation \<Rightarrow> action" where
  "shove_or_call obs = (if 0 < la_all_in_amount (o_legal_actions obs) then AllIn else call_or_check obs)"

section \<open>Built-in agents\<close>

definition calling_station_act :: "observation \<Rightarrow> action" where
  "calling_station_act obs = (if la_can_check (o_legal_actions obs) then Check else Call)"

text \<open>The first \<open>n\<close> entries of the array \<open>choices\<close>.\<close>

definition random_choices :: "legal_actions \<Rightarrow> action list" where
  "random_choices la =
     (if \<not> la_can_check la then [Fold] else [])
     @ (if la_can_check la then [Check] else [])
     @ (if la_can_call la then [Call] else [])
     @ (if la_can_raise la then [Raise (la_min_raise la)] else [])
     @ (if 0 < la_all_in_amount la then [AllIn] else [])"

definition random_act ::
  "('r \<Rightarrow> nat \<Rightarrow> nat \<times> 'r) \<Rightarrow> observation \<Rightarrow> 'r \<Rightarrow> (action \<times> 'r) option" where
  "random_act gen_index obs r =
     (let choices = random_choices (o_legal_actions obs); (k, r') = gen_index r (length choices)
      in do { a \<leftarrow> idx choices k; Some (a, r') })"

record scripted_agent =
  sa_script :: "action list"
  sa_cursor :: nat

definition scripted_act :: "scripted_agent \<Rightarrow> (action \<times> scripted_agent) option" where
  "scripted_act ag =
     do { a \<leftarrow> idx (sa_script ag) (sa_cursor ag);
          Some (a, ag\<lparr>sa_cursor := sa_cursor ag + 1\<rparr>) }"

section \<open>Personas\<close>

text \<open>
  The decision of each persona, given the strength \<open>s\<close> of the hand and the comparison \<open>lt p\<close> of its
  random draw with \<open>p\<close> hundredths.
\<close>

definition nit_decide :: "observation \<Rightarrow> strength \<Rightarrow> (nat \<Rightarrow> bool) \<Rightarrow> action" where
  "nit_decide obs s lt =
     (if o_street obs = Preflop then
        (case s of
           Premium \<Rightarrow> if lt 70 then raise_or_call obs else call_or_check obs
         | Strong \<Rightarrow> call_or_check obs
         | _ \<Rightarrow> fold_or_check obs)
      else
        (case s of
           Premium \<Rightarrow> if lt 50 then raise_or_call obs else call_or_check obs
         | Strong \<Rightarrow> call_or_check obs
         | Medium \<Rightarrow> call_or_check obs
         | _ \<Rightarrow> fold_or_check obs))"

definition tag_decide :: "observation \<Rightarrow> strength \<Rightarrow> (nat \<Rightarrow> bool) \<Rightarrow> action" where
  "tag_decide obs s lt =
     (if o_street obs = Preflop then
        (case s of
           Premium \<Rightarrow> raise_or_call obs
         | Strong \<Rightarrow> if lt 75 then raise_or_call obs else call_or_check obs
         | Medium \<Rightarrow> if la_can_check (o_legal_actions obs) then Check else Fold
         | _ \<Rightarrow> fold_or_check obs)
      else
        (case s of
           Premium \<Rightarrow> raise_or_call obs
         | Strong \<Rightarrow> raise_or_call obs
         | Medium \<Rightarrow> if lt 60 then raise_or_call obs else call_or_check obs
         | Weak \<Rightarrow> call_or_check obs
         | Trash \<Rightarrow> fold_or_check obs))"

definition lag_decide :: "observation \<Rightarrow> strength \<Rightarrow> (nat \<Rightarrow> bool) \<Rightarrow> action" where
  "lag_decide obs s lt =
     (if o_street obs = Preflop then
        (case s of
           Premium \<Rightarrow> raise_or_call obs
         | Strong \<Rightarrow> raise_or_call obs
         | Medium \<Rightarrow> if lt 70 then raise_or_call obs else call_or_check obs
         | Weak \<Rightarrow> if lt 30 then raise_or_call obs else fold_or_check obs
         | Trash \<Rightarrow> fold_or_check obs)
      else
        (case s of
           Premium \<Rightarrow> raise_or_call obs
         | Strong \<Rightarrow> raise_or_call obs
         | Medium \<Rightarrow> if lt 60 then raise_or_call obs else call_or_check obs
         | Weak \<Rightarrow> if lt 35 then raise_or_call obs else call_or_check obs
         | Trash \<Rightarrow> if lt 15 then raise_or_call obs else fold_or_check obs))"

definition maniac_decide :: "observation \<Rightarrow> (nat \<Rightarrow> bool) \<Rightarrow> action option" where
  "maniac_decide obs lt =
     do { fold_now \<leftarrow>
            (if o_street obs = Preflop then
               do { c \<leftarrow> from_hole (o_hole_cards obs); s \<leftarrow> preflop_index c; Some (150 < s \<and> lt 40) }
             else Some False);
          Some (if fold_now then fold_or_check obs
                else if lt 5 then shove_or_call obs
                else if lt 85 then raise_or_call obs
                else call_or_check obs) }"

definition tilt_decide :: "observation \<Rightarrow> strength \<Rightarrow> (nat \<Rightarrow> bool) \<Rightarrow> bool \<Rightarrow> action" where
  "tilt_decide obs s lt tilted =
     (if o_street obs = Preflop then
        (case s of
           Premium \<Rightarrow> raise_or_call obs
         | Strong \<Rightarrow> raise_or_call obs
         | Medium \<Rightarrow> if lt (if tilted then 85 else 30) then raise_or_call obs
                      else if tilted then call_or_check obs else fold_or_check obs
         | Weak \<Rightarrow> if tilted \<and> lt 50 then raise_or_call obs else fold_or_check obs
         | Trash \<Rightarrow> fold_or_check obs)
      else
        (case s of
           Premium \<Rightarrow> raise_or_call obs
         | Strong \<Rightarrow> raise_or_call obs
         | Medium \<Rightarrow> if lt (if tilted then 80 else 50) then raise_or_call obs else call_or_check obs
         | Weak \<Rightarrow> if tilted \<and> lt 40 then raise_or_call obs
                   else if lt 50 then call_or_check obs else fold_or_check obs
         | Trash \<Rightarrow> if tilted \<and> lt 20 then raise_or_call obs else fold_or_check obs))"

text \<open>Division of signed integers truncates towards zero.\<close>

definition div_trunc :: "int \<Rightarrow> int \<Rightarrow> int" where
  "div_trunc a b = sgn a * sgn b * (\<bar>a\<bar> div \<bar>b\<bar>)"

definition tilted :: "int \<Rightarrow> int \<Rightarrow> bool" where
  "tilted recent_delta tilt_threshold \<longleftrightarrow> recent_delta \<le> - tilt_threshold"

definition tilt_on_hand_end :: "hand_result \<Rightarrow> int \<Rightarrow> int" where
  "tilt_on_hand_end result recent_delta =
     (let ds = map so_chip_delta (hr_seats result) in
      if ds = [] then recent_delta
      else div_trunc (recent_delta * 3 + Min (set ds)) 4)"

end
