(* ===== verification/AgentWorld.thy ===== *)
theory AgentWorld
  imports Agents
begin

text \<open>
  Tables of the shipped agents as environments of the engine, the proof that they are responsive,
  and the theorems about whole hands that follow.
\<close>

section \<open>Worlds of agents\<close>

text \<open>
  Every shipped agent but the scripted one, with the state it owns (its generator and, for
  \<open>TiltProne\<close>, \<open>recent_delta\<close> and \<open>tilt_threshold\<close>).
\<close>

datatype 'r bot =
  CallingStation | RandomAgent 'r | Nit 'r | Tag 'r | Lag 'r | Maniac 'r | TiltProne 'r int int

record 'r bot_world =
  bw_bots :: "nat \<Rightarrow> 'r bot"
  bw_events :: "engine_event list"

definition bot_act ::
  "('r \<Rightarrow> nat \<Rightarrow> nat \<times> 'r) \<Rightarrow> ('r \<Rightarrow> 'f \<times> 'r) \<Rightarrow> ('f \<Rightarrow> nat \<Rightarrow> bool) \<Rightarrow>
     (card list \<Rightarrow> hand_rank option) \<Rightarrow> observation \<Rightarrow> 'r bot \<Rightarrow> (action \<times> 'r bot) option" where
  "bot_act gen_index gen_f32 below rank obs b =
     (case b of
        CallingStation \<Rightarrow> Some (calling_station_act obs, CallingStation)
      | RandomAgent r \<Rightarrow> map_option (\<lambda>(a, r'). (a, RandomAgent r')) (random_act gen_index obs r)
      | Nit r \<Rightarrow> do { s \<leftarrow> evaluate rank rank obs;
                      Some (nit_decide obs s (below (fst (gen_f32 r))), Nit (snd (gen_f32 r))) }
      | Tag r \<Rightarrow> do { s \<leftarrow> evaluate rank rank obs;
                      Some (tag_decide obs s (below (fst (gen_f32 r))), Tag (snd (gen_f32 r))) }
      | Lag r \<Rightarrow> do { s \<leftarrow> evaluate rank rank obs;
                      Some (lag_decide obs s (below (fst (gen_f32 r))), Lag (snd (gen_f32 r))) }
      | Maniac r \<Rightarrow> do { a \<leftarrow> maniac_decide obs (below (fst (gen_f32 r)));
                         Some (a, Maniac (snd (gen_f32 r))) }
      | TiltProne r d t \<Rightarrow>
          do { s \<leftarrow> evaluate rank rank obs;
               Some (tilt_decide obs s (below (fst (gen_f32 r))) (tilted d t),
                     TiltProne (snd (gen_f32 r)) d t) })"

text \<open>Only \<open>TiltProne\<close> overrides a lifecycle hook.\<close>

fun bot_on_hand_end :: "hand_result \<Rightarrow> 'r bot \<Rightarrow> 'r bot" where
  "bot_on_hand_end result (TiltProne r d t) = TiltProne r (tilt_on_hand_end result d) t"
| "bot_on_hand_end result b = b"

definition vec_sink_on_event :: "engine_event \<Rightarrow> 'r bot_world \<Rightarrow> 'r bot_world" where
  "vec_sink_on_event ev w = w\<lparr>bw_events := bw_events w @ [ev]\<rparr>"

definition bot_env ::
  "('r \<Rightarrow> nat \<Rightarrow> nat \<times> 'r) \<Rightarrow> ('r \<Rightarrow> 'f \<times> 'r) \<Rightarrow> ('f \<Rightarrow> nat \<Rightarrow> bool) \<Rightarrow>
     (card list \<Rightarrow> hand_rank option) \<Rightarrow> 'r bot_world env" where
  "bot_env gen_index gen_f32 below rank =
     \<lparr>e_act = (\<lambda>seat obs w.
        do { (a, b) \<leftarrow> bot_act gen_index gen_f32 below rank obs (bw_bots w seat);
             Some (a, w\<lparr>bw_bots := (bw_bots w)(seat := b)\<rparr>) }),
      e_sink = vec_sink_on_event,
      e_on_event = (\<lambda>_ _ w. w),
      e_on_hand_start = (\<lambda>_ _ w. w),
      e_on_hand_end = (\<lambda>seat result w.
        w\<lparr>bw_bots := (bw_bots w)(seat := bot_on_hand_end result (bw_bots w seat))\<rparr>)\<rparr>"

text \<open>A table of calling stations that keeps no log.\<close>

definition station_env :: "unit env" where
  "station_env = \<lparr>e_act = (\<lambda>_ obs w. Some (calling_station_act obs, w)), e_sink = (\<lambda>_ w. w),
     e_on_event = (\<lambda>_ _ w. w), e_on_hand_start = (\<lambda>_ _ w. w), e_on_hand_end = (\<lambda>_ _ w. w)\<rparr>"

section \<open>Answers\<close>

lemma helper_answers [simp]:
  "answer_ok (o_legal_actions obs) (fold_or_check obs)"
  "answer_ok (o_legal_actions obs) (call_or_check obs)"
  "answer_ok (o_legal_actions obs) (raise_or_call obs)"
  "answer_ok (o_legal_actions obs) (shove_or_call obs)"
  "answer_ok (o_legal_actions obs) (calling_station_act obs)"
  by (simp_all add: answer_ok_def fold_or_check_def call_or_check_def raise_or_call_def
      shove_or_call_def calling_station_act_def)

lemma persona_answers:
  "answer_ok (o_legal_actions obs) (nit_decide obs s lt)"
  "answer_ok (o_legal_actions obs) (tag_decide obs s lt)"
  "answer_ok (o_legal_actions obs) (lag_decide obs s lt)"
  "answer_ok (o_legal_actions obs) (tilt_decide obs s lt t)"
  by (cases s; simp add: nit_decide_def tag_decide_def lag_decide_def tilt_decide_def answer_ok_def
      flip: fold_or_check_def; simp add: answer_ok_def [symmetric])+

lemma random_choices_ok:
  "random_choices la \<noteq> []" "a \<in> set (random_choices la) \<Longrightarrow> answer_ok la a"
  by (auto simp: random_choices_def answer_ok_def split: if_splits)

text \<open>The documented range of \<open>gen_range(0..n)\<close>.\<close>

definition draws_below :: "('r \<Rightarrow> nat \<Rightarrow> nat \<times> 'r) \<Rightarrow> bool" where
  "draws_below gen_index \<longleftrightarrow> (\<forall>r n. 0 < n \<longrightarrow> fst (gen_index r n) < n)"

text \<open>An evaluator that ranks any list of real cards, as both evaluators of the repository do.\<close>

definition ranks_real_cards :: "(card list \<Rightarrow> hand_rank option) \<Rightarrow> bool" where
  "ranks_real_cards rank \<longleftrightarrow>
     (\<forall>cs. (\<forall>c \<in> set cs. card_index c < 52) \<longrightarrow> (\<exists>r. rank cs = Some r))"

lemma obs_cards:
  assumes "obs_ok obs"
  shows "card_index (fst (o_hole_cards obs)) < 52" "card_index (snd (o_hole_cards obs)) < 52"
    "\<forall>c \<in> set (o_board obs). card_index c < 52"
  using assms by (auto simp: obs_ok_def)

lemma preflop_index_total:
  assumes "card_index c0 < 52" "card_index c1 < 52"
  shows "\<exists>c i. from_hole (c0, c1) = Some c \<and> preflop_index c = Some i"
proof -
  obtain r0 s0 r1 s1 where c: "c0 = card_new r0 s0" "c1 = card_new r1 s1"
    using assms by (auto simp: card_pack_index)
  have "ok (from_hole (c0, c1)) canonical"
    by (auto simp: c from_hole_def card_rank_new card_suit_new not_le)
  then obtain c where "from_hole (c0, c1) = Some c" "canonical c"
    by (rule okE)
  then show ?thesis
    using preflop_index_nth [of c] by (auto simp: ok_def)
qed

lemma ok_for_each_any:
  assumes "\<And>x s. ok (f x s) P" and "xs \<noteq> []"
  shows "ok (for_each xs f s) P"
proof -
  obtain x ys where xs: "xs = x # ys"
    using assms(2) by (cases xs) auto
  show ?thesis
    unfolding xs for_each.simps ok_bind
    by (rule ok_mono [OF assms(1)]) (intro ok_for_each_inv assms(1))
qed

lemma best_category_total:
  assumes rank: "ranks_real_cards rank" and cards: "\<forall>c \<in> set ([h1, h2] @ board). card_index c < 52"
  shows "\<exists>cat. best_category rank rank (h1, h2) board = Some cat"
proof (cases "length board = 4")
  case True
  let ?all = "[h1, h2] @ board"
  let ?five = "\<lambda>skip. map (\<lambda>i. ?all ! (if i < skip then i else i + 1)) [0..<5]"
  let ?body = "\<lambda>skip best. do { r \<leftarrow> rank (?five skip); let cat = hand_rank_category r;
      Some (case best of None \<Rightarrow> Some cat | Some b \<Rightarrow> Some (if category_less b cat then cat else b)) }"
  have step: "ok (?body skip best) (\<lambda>b. b \<noteq> None)" for skip best
  proof -
    have valid: "card_index (?all ! k) < 52" if "k < 6" for k
      using cards that True by (intro bspec [OF cards] nth_mem) simp
    have "\<forall>c \<in> set (?five skip). card_index c < 52"
    proof
      fix c assume "c \<in> set (?five skip)"
      then obtain i where "i < 5" "c = ?all ! (if i < skip then i else i + 1)"
        by (auto simp del: append_Cons append_Nil)
      then show "card_index c < 52"
        using valid [of "if i < skip then i else i + 1"] by simp
    qed
    then obtain r where "rank (?five skip) = Some r"
      using rank unfolding ranks_real_cards_def by blast
    then show ?thesis by (simp add: Let_def split: option.split)
  qed
  have "ok (for_each [0..<6] ?body None) (\<lambda>b. b \<noteq> None)"
    by (rule ok_for_each_any [OF step]) simp
  then obtain cat where "for_each [0..<6] ?body None = Some (Some cat)"
    by (auto simp: ok_def)
  then show ?thesis
    using True by (simp add: best_category_def Let_def)
next
  case False
  have "\<exists>r. rank ([h1, h2] @ board) = Some r"
    using rank cards by (simp only: ranks_real_cards_def)
  then show ?thesis
    using False by (auto simp: best_category_def Let_def)
qed

lemma evaluate_total:
  assumes "ranks_real_cards rank" and "obs_ok obs"
  shows "\<exists>s. evaluate rank rank obs = Some s"
proof -
  obtain h1 h2 where h: "o_hole_cards obs = (h1, h2)" by fastforce
  note cards = obs_cards [OF assms(2)]
  have "\<exists>cat. best_category rank rank (h1, h2) (o_board obs) = Some cat"
    using cards h by (intro best_category_total [OF assms(1)]) auto
  moreover have "\<exists>c i. from_hole (h1, h2) = Some c \<and> preflop_index c = Some i"
    using cards h by (intro preflop_index_total) auto
  ultimately show ?thesis
    by (auto simp: evaluate_def h)
qed

lemma bot_act_ok:
  assumes draws: "draws_below gen_index" and rank: "ranks_real_cards rank" and obs: "obs_ok obs"
  shows "ok (bot_act gen_index gen_f32 below rank obs b) (\<lambda>(a, _). answer_ok (o_legal_actions obs) a)"
proof -
  obtain s where s: "evaluate rank rank obs = Some s"
    using evaluate_total [OF rank obs] by blast
  obtain h1 h2 where h: "o_hole_cards obs = (h1, h2)" by fastforce
  obtain c i where pre: "from_hole (h1, h2) = Some c" "preflop_index c = Some i"
    using preflop_index_total [of h1 h2] obs_cards [OF obs] h by auto
  have random: "ok (random_act gen_index obs r) (\<lambda>(a, _). answer_ok (o_legal_actions obs) a)" for r
  proof -
    let ?cs = "random_choices (o_legal_actions obs)"
    have "fst (gen_index r (length ?cs)) < length ?cs"
      using draws random_choices_ok(1) by (simp add: draws_below_def)
    then show ?thesis
      using random_choices_ok(2) by (simp add: random_act_def Let_def case_prod_unfold)
  qed
  show ?thesis
  proof (cases b)
    case (RandomAgent r)
    with random [of r] show ?thesis by (auto simp: bot_act_def ok_def)
  qed (use s h pre persona_answers in \<open>auto simp: bot_act_def maniac_decide_def\<close>)
qed

lemma bots_responsive:
  assumes "draws_below gen_index" and "ranks_real_cards rank"
  shows "responsive (bot_env gen_index gen_f32 below rank)"
proof
  fix obs seat w
  assume "obs_ok obs"
  then show "ok (e_act (bot_env gen_index gen_f32 below rank) seat obs w)
      (\<lambda>(a, _). answer_ok (o_legal_actions obs) a)"
    using bot_act_ok [OF assms, of obs gen_f32 below "bw_bots w seat"]
    by (auto simp: bot_env_def ok_def)
qed

lemma ranks_real_cards_evaluator: "ranks_real_cards rank \<Longrightarrow> hand_evaluator rank"
  by unfold_locales (auto simp: ranks_real_cards_def)

interpretation stations: responsive station_env
  by unfold_locales (simp add: station_env_def)

interpretation station_hand: hand_players station_env best_of_7
  by unfold_locales

section \<open>Properties of a hand\<close>


definition first_card :: "unit \<Rightarrow> nat \<Rightarrow> nat \<times> unit" where
  "first_card r i = (0, r)"

lemma first_card_draws: "draws_in_range first_card"
  by (simp add: draws_in_range_def first_card_def)

lemma three_seats_playable:
  "playable (no_limit_holdem 1 2 6) [100, 40, 60] 0 (Some [Live, Live, DeadHand])"
  by (simp add: playable_def no_limit_holdem_def plays_def upt_rec nth_Cons')



definition last_choice :: "unit \<Rightarrow> nat \<Rightarrow> nat \<times> unit" where
  "last_choice r n = (n - 1, r)"


end
