(* ===== verification/Sim.thy ===== *)
theory Sim
  imports AgentWorld
begin

text \<open>
  The simulation runner of \<open>sim/mod.rs\<close>: many hands at one table, with stacks that are reset or carried
  over, and the split of a run over threads.

  The engine and its agents are the arguments of \<open>run_hand\<close>; the two hooks around a run are arguments
  as well.  \<open>next_u64\<close> is the generator of the runner.  A thread is a worker that runs on its own
  engine, agents and generator and whose result is joined in order; workers share nothing.  Sums of
  \<open>i64\<close> chips and hand counts are integers without a bound, which a run of less than \<open>2 ^ 31\<close> hands of
  \<open>i32\<close> deltas cannot leave.
\<close>

section \<open>Configuration\<close>

datatype seed_mode = RandomSeeds | Sequential "64 word"

datatype stack_policy = Reset | Persistent

record sim_config =
  sc_seed :: seed_mode
  sc_stack_policy :: stack_policy

definition standard_config :: sim_config where
  "standard_config = \<lparr>sc_seed = RandomSeeds, sc_stack_policy = Reset\<rparr>"

definition deterministic_config :: "64 word \<Rightarrow> sim_config" where
  "deterministic_config base_seed = \<lparr>sc_seed = Sequential base_seed, sc_stack_policy = Reset\<rparr>"

record sim_result =
  sr_hands_played :: nat
  sr_chip_deltas :: "int list"
  sr_final_stacks :: "nat list"

record run_config =
  rc_small_blind :: nat
  rc_big_blind :: nat
  rc_max_players :: nat

section \<open>Helpers\<close>

text \<open>\<open>v[i] += x\<close>.\<close>

definition add_at :: "int list \<Rightarrow> nat \<Rightarrow> int \<Rightarrow> int list option" where
  "add_at xs i x = do { y \<leftarrow> idx xs i; Some (xs[i := y + x]) }"

definition apply_result_to_deltas :: "hand_result \<Rightarrow> int list \<Rightarrow> int list option" where
  "apply_result_to_deltas result deltas =
     for_each (hr_seats result) (\<lambda>out ds. add_at ds (so_seat out) (so_chip_delta out)) deltas"

definition apply_result_to_stacks :: "hand_result \<Rightarrow> nat list \<Rightarrow> nat list option" where
  "apply_result_to_stacks result stacks =
     for_each (hr_seats result) (\<lambda>out ss.
       do { s \<leftarrow> idx ss (so_seat out);
            Some (ss[so_seat out := as_u32 (max (int s + so_chip_delta out) 0)]) }) stacks"

definition next_dealer :: "nat \<Rightarrow> nat list \<Rightarrow> nat" where
  "next_dealer current stacks =
     unwrap_or (find (\<lambda>seat. 0 < stacks ! seat)
       (map (\<lambda>i. (current + i) mod length stacks) [1..<length stacks + 1])) current"

text \<open>\<open>base + hand_idx as u64\<close>, with its overflow check.\<close>

definition add_u64 :: "64 word \<Rightarrow> nat \<Rightarrow> 64 word option" where
  "add_u64 base k = (if unat base + k < 2 ^ 64 then Some (base + of_nat k) else None)"

definition thread_hands :: "nat \<Rightarrow> nat \<Rightarrow> nat \<Rightarrow> nat" where
  "thread_hands base_hands remainder t = base_hands + (if t < remainder then 1 else 0)"

definition thread_config :: "sim_config \<Rightarrow> nat \<Rightarrow> nat \<Rightarrow> nat \<Rightarrow> sim_config option" where
  "thread_config base thread_idx base_hands remainder =
     (case sc_seed base of
        RandomSeeds \<Rightarrow> Some \<lparr>sc_seed = RandomSeeds, sc_stack_policy = sc_stack_policy base\<rparr>
      | Sequential base_seed \<Rightarrow>
          do { s \<leftarrow> add_u64 base_seed (sum_list (map (thread_hands base_hands remainder) [0..<thread_idx]));
               Some \<lparr>sc_seed = Sequential s, sc_stack_policy = sc_stack_policy base\<rparr> })"

fun add_pointwise :: "int list \<Rightarrow> int list \<Rightarrow> int list option" where
  "add_pointwise deltas ds =
     for_each (enumerate 0 ds) (\<lambda>(i, d) acc. add_at acc i d) deltas"

definition merge :: "sim_result list \<Rightarrow> sim_result option" where
  "merge results =
     (if results = [] then None
      else do { deltas \<leftarrow> for_each results (\<lambda>r acc. add_pointwise acc (sr_chip_deltas r))
                  (replicate (length (sr_chip_deltas (hd results))) 0);
                Some \<lparr>sr_hands_played = sum_list (map sr_hands_played results), sr_chip_deltas = deltas,
                      sr_final_stacks = sr_final_stacks (last results)\<rparr> })"

section \<open>The runner\<close>

record 'g sim_runner =
  rn_stacks :: "nat list"
  rn_starting_stacks :: "nat list"
  rn_dealer :: nat
  rn_next_hand_id :: nat
  rn_rng :: 'g

definition with_rng :: "nat list \<Rightarrow> 'g \<Rightarrow> 'g sim_runner" where
  "with_rng stacks rng =
     \<lparr>rn_stacks = stacks, rn_starting_stacks = stacks, rn_dealer = 0, rn_next_hand_id = 1, rn_rng = rng\<rparr>"

definition new_seeded :: "(64 word \<Rightarrow> 'g) \<Rightarrow> nat list \<Rightarrow> 64 word \<Rightarrow> 'g sim_runner" where
  "new_seeded seed_rng stacks rng_seed = with_rng stacks (seed_rng rng_seed)"

definition reset_stacks :: "'g sim_runner \<Rightarrow> 'g sim_runner" where
  "reset_stacks rn = rn\<lparr>rn_stacks := rn_starting_stacks rn\<rparr>"

text \<open>
  \<open>play\<close> is \<open>Engine::run_hand\<close> with the engine's evaluator and the agents applied: it takes the hand id,
  the deck seed, the stacks, the dealer and the seat kinds.
\<close>

type_synonym 'w play =
  "nat \<Rightarrow> 64 word \<Rightarrow> nat list \<Rightarrow> nat \<Rightarrow> seat_kind list option \<Rightarrow> 'w \<Rightarrow> (hand_result \<times> 'w) option"

definition hand_seed :: "('g \<Rightarrow> 64 word \<times> 'g) \<Rightarrow> seed_mode \<Rightarrow> nat \<Rightarrow> 'g \<Rightarrow> (64 word \<times> 'g) option" where
  "hand_seed next_u64 mode hand_idx rng =
     (case mode of
        RandomSeeds \<Rightarrow> Some (next_u64 rng)
      | Sequential base \<Rightarrow> do { s \<leftarrow> add_u64 base hand_idx; Some (s, rng) })"

definition sim_hand ::
  "('g \<Rightarrow> 64 word \<times> 'g) \<Rightarrow> 'w play \<Rightarrow> sim_config \<Rightarrow> nat \<Rightarrow>
     'g sim_runner \<times> int list \<times> 'w \<Rightarrow> ('g sim_runner \<times> int list \<times> 'w) option" where
  "sim_hand next_u64 play config hand_idx = (\<lambda>(rn, deltas, w).
     do { let hand_stacks = (case sc_stack_policy config of
                Reset \<Rightarrow> rn_starting_stacks rn | Persistent \<Rightarrow> rn_stacks rn);
          (deck_seed, rng') \<leftarrow> hand_seed next_u64 (sc_seed config) hand_idx (rn_rng rn);
          (result, w') \<leftarrow> play (rn_next_hand_id rn) deck_seed hand_stacks (rn_dealer rn) None w;
          deltas' \<leftarrow> apply_result_to_deltas result deltas;
          stacks' \<leftarrow> (case sc_stack_policy config of
                Persistent \<Rightarrow> apply_result_to_stacks result (rn_stacks rn)
              | Reset \<Rightarrow> Some (rn_stacks rn));
          Some (rn\<lparr>rn_rng := rng', rn_next_hand_id := rn_next_hand_id rn + 1, rn_stacks := stacks',
                   rn_dealer := next_dealer (rn_dealer rn) stacks'\<rparr>, deltas', w') })"

definition sim_run ::
  "('g \<Rightarrow> 64 word \<times> 'g) \<Rightarrow> (nat \<Rightarrow> run_config \<Rightarrow> 'w \<Rightarrow> 'w) \<Rightarrow> (nat \<Rightarrow> 'w \<Rightarrow> 'w) \<Rightarrow> betting_rules \<Rightarrow> 'w play \<Rightarrow>
     nat \<Rightarrow> sim_config \<Rightarrow> 'g sim_runner \<Rightarrow> 'w \<Rightarrow> (sim_result \<times> 'g sim_runner \<times> 'w) option" where
  "sim_run next_u64 on_run_start on_run_end rules play hands config rn w =
     do { let n = length (rn_stacks rn);
          let run_cfg = \<lparr>rc_small_blind = r_small_blind rules, rc_big_blind = r_big_blind rules,
                         rc_max_players = n\<rparr>;
          let w1 = fold (\<lambda>seat. on_run_start seat run_cfg) [0..<n] w;
          (rn', deltas, w2) \<leftarrow> for_each [0..<hands] (sim_hand next_u64 play config) (rn, replicate n 0, w1);
          Some (\<lparr>sr_hands_played = hands, sr_chip_deltas = deltas, sr_final_stacks = rn_stacks rn'\<rparr>, rn',
                fold on_run_end [0..<n] w2) }"

text \<open>\<open>worker t\<close> is what thread \<open>t\<close> owns: its generator and its agents.\<close>

definition run_parallel ::
  "('g \<Rightarrow> 64 word \<times> 'g) \<Rightarrow> (nat \<Rightarrow> run_config \<Rightarrow> 'w \<Rightarrow> 'w) \<Rightarrow> (nat \<Rightarrow> 'w \<Rightarrow> 'w) \<Rightarrow> betting_rules \<Rightarrow> 'w play \<Rightarrow>
     nat \<Rightarrow> nat \<Rightarrow> nat list \<Rightarrow> (nat \<Rightarrow> 'g \<times> 'w) \<Rightarrow> sim_config \<Rightarrow> sim_result option" where
  "run_parallel next_u64 on_run_start on_run_end rules play hands_total threads stacks worker config =
     (let threads = max threads 1; base_hands = hands_total div threads;
          remainder = hands_total mod threads in
      do { results \<leftarrow> map_opt (\<lambda>t.
             do { cfg \<leftarrow> thread_config config t base_hands remainder;
                  (res, _, _) \<leftarrow> sim_run next_u64 on_run_start on_run_end rules play
                    (thread_hands base_hands remainder t) cfg (with_rng stacks (fst (worker t)))
                    (snd (worker t));
                  Some res }) [0..<threads];
           merge results })"

section \<open>Results applied to seats\<close>

lemma ok_add_at [simp, wp]: "ok (add_at xs i x) P \<longleftrightarrow> i < length xs \<and> P (xs[i := xs ! i + x])"
  by (simp add: add_at_def)

lemma sum_list_update_int:
  "i < length xs \<Longrightarrow> sum_list (xs[i := y]) = sum_list xs - xs ! i + y" for xs :: "int list"
proof (induction xs arbitrary: i)
  case (Cons x xs)
  then show ?case by (cases i) auto
qed simp

lemma nth_update_cases: "i < length xs \<Longrightarrow> xs[i := y] ! j = (if j = i then y else xs ! j)"
  by (simp add: nth_list_update)

lemma int_sum_list: "int (sum_list (map f xs)) = sum_list (map (\<lambda>x. int (f x)) xs)"
  by (induction xs) auto

lemma sum_list_filter_le: "sum_list (map f (filter P xs)) \<le> (sum_list (map f xs) :: nat)"
  by (induction xs) auto

text \<open>The change a list of outcomes makes at one seat.\<close>

definition delta_at :: "seat_outcome list \<Rightarrow> nat \<Rightarrow> int" where
  "delta_at outs j = sum_list (map so_chip_delta (filter (\<lambda>out. so_seat out = j) outs))"

lemma delta_at_simps [simp]:
  "delta_at [] j = 0"
  "delta_at (outs @ [out]) j = delta_at outs j + (if so_seat out = j then so_chip_delta out else 0)"
  by (simp_all add: delta_at_def)

lemma apply_result_to_deltas_ok:
  assumes "\<forall>out \<in> set (hr_seats result). so_seat out < length deltas"
  shows "ok (apply_result_to_deltas result deltas) (\<lambda>ds. length ds = length deltas
     \<and> sum_list ds = sum_list deltas + sum_list (map so_chip_delta (hr_seats result))
     \<and> (\<forall>j < length deltas. ds ! j = deltas ! j + delta_at (hr_seats result) j))"
  unfolding apply_result_to_deltas_def
  by (rule ok_for_each) (use assms in \<open>auto simp: sum_list_update_int nth_update_cases\<close>)

text \<open>What a fair result says about the stacks after it.\<close>

lemma fair_stack_bound:
  assumes "fair_result hid stacks res" and out: "out \<in> set (hr_seats res)"
  shows "so_seat out < length stacks" and "0 \<le> int (stacks ! so_seat out) + so_chip_delta out"
    and "int (stacks ! so_seat out) + so_chip_delta out \<le> int (sum_list stacks)"
    and "distinct (map so_seat (hr_seats res))"
proof -
  note f = assms(1)[unfolded fair_result_def]
  show seats: "so_seat out < length stacks"
    using f out by (metis (no_types, lifting) atLeastLessThan_iff filter_is_subset image_eqI list.set_map
        set_upt subset_code(1))
  show nonneg: "0 \<le> int (stacks ! so_seat out) + so_chip_delta out"
    using f out by blast
  show "distinct (map so_seat (hr_seats res))"
    using f by simp
  have zero: "sum_list (map so_chip_delta (hr_seats res)) = 0"
    using f by blast
  let ?after = "\<lambda>out. int (stacks ! so_seat out) + so_chip_delta out"
  have "?after out \<le> sum_list (map ?after (hr_seats res))"
    using f out by (intro member_le_sum_list) auto
  also have "\<dots> = sum_list (map (\<lambda>out. int (stacks ! so_seat out)) (hr_seats res))
      + sum_list (map so_chip_delta (hr_seats res))"
    by (rule sum_list_addf)
  also have "\<dots> = int (sum_list (map ((!) stacks) (map so_seat (hr_seats res))))"
    using zero by (simp add: int_sum_list o_def)
  also have "\<dots> \<le> int (sum_list (map ((!) stacks) [0..<length stacks]))"
    using f by (simp only: of_nat_le_iff sum_list_filter_le)
  finally show "int (stacks ! so_seat out) + so_chip_delta out \<le> int (sum_list stacks)"
    by (simp add: map_nth)
qed

definition stacks_after :: "nat list \<Rightarrow> hand_result \<Rightarrow> nat list \<Rightarrow> bool" where
  "stacks_after stacks res stacks' \<longleftrightarrow> length stacks' = length stacks \<and> sum_list stacks' = sum_list stacks
     \<and> (\<forall>j < length stacks. int (stacks' ! j) = int (stacks ! j) + delta_at (hr_seats res) j)"

lemma sum_list_update_nat:
  "i < length xs \<Longrightarrow> int (sum_list (xs[i := y])) = int (sum_list xs) - int (xs ! i) + int y" for xs :: "nat list"
  using sum_list_update [of i xs id y] by simp

lemma apply_result_to_stacks_ok:
  assumes fair: "fair_result hid stacks res" and small: "sum_list stacks < u32_lim"
  shows "ok (apply_result_to_stacks res stacks) (stacks_after stacks res)"
proof -
  let ?I = "\<lambda>done ss. length ss = length stacks
      \<and> int (sum_list ss) = int (sum_list stacks) + sum_list (map so_chip_delta done)
      \<and> (\<forall>j < length stacks. int (ss ! j) = int (stacks ! j) + delta_at done j)"
  have "ok (apply_result_to_stacks res stacks) (?I (hr_seats res))"
    unfolding apply_result_to_stacks_def
  proof (rule ok_for_each)
    fix "done" out todo ss
    assume split: "hr_seats res = done @ out # todo" and I: "?I done ss"
    then have out: "out \<in> set (hr_seats res)" by simp
    note b = fair_stack_bound [OF fair out]
    have "filter (\<lambda>o'. so_seat o' = so_seat out) done = []"
      using b(4) unfolding split by (auto simp: filter_empty_conv) (metis image_eqI)
    then have "delta_at done (so_seat out) = 0" by (simp add: delta_at_def)
    then have "int (ss ! so_seat out) = int (stacks ! so_seat out)"
      using I b(1) by simp
    moreover have "as_u32 (int (stacks ! so_seat out) + so_chip_delta out)
        = nat (int (stacks ! so_seat out) + so_chip_delta out)"
      using b small by (intro as_u32_id) auto
    ultimately show "ok (do { s \<leftarrow> idx ss (so_seat out);
        Some (ss[so_seat out := as_u32 (max (int s + so_chip_delta out) 0)]) }) (?I (done @ [out]))"
      using I b by (auto simp: sum_list_update_nat nth_update_cases max_absorb1)
  qed simp
  moreover have "sum_list (map so_chip_delta (hr_seats res)) = 0"
    using fair by (simp add: fair_result_def)
  ultimately show ?thesis
    by (auto elim!: ok_mono simp: stacks_after_def)
qed

section \<open>The dealer\<close>

lemma next_dealer_funded:
  assumes "j < length stacks" "0 < stacks ! j"
  shows "next_dealer current stacks < length stacks" and "0 < stacks ! next_dealer current stacks"
proof -
  let ?n = "length stacks" and ?seats = "map (\<lambda>i. (current + i) mod length stacks) [1..<length stacks + 1]"
  have n: "0 < ?n" using assms(1) by auto
  obtain i where i: "i < ?n" "(current + i) mod ?n = j"
  proof -
    have "(current + (j + ?n - current mod ?n) mod ?n) mod ?n = (current + (j + ?n - current mod ?n)) mod ?n"
      by (simp add: mod_simps)
    also have "\<dots> = (current mod ?n + (j + ?n - current mod ?n)) mod ?n"
      by (simp add: mod_simps)
    also have "current mod ?n + (j + ?n - current mod ?n) = j + ?n"
      using mod_less_divisor [OF n, of current] by linarith
    also have "(j + ?n) mod ?n = j"
      using assms(1) by simp
    finally show thesis
      using that n by (meson mod_less_divisor)
  qed
  have "j \<in> set ?seats"
  proof (cases i)
    case 0
    then have "j = (current + ?n) mod ?n" using i by simp
    then show ?thesis using n by (auto simp: Suc_le_eq intro!: image_eqI [where x = ?n])
  next
    case (Suc k)
    then show ?thesis using i by (auto intro!: image_eqI [where x = i])
  qed
  then obtain s where s: "find (\<lambda>seat. 0 < stacks ! seat) ?seats = Some s"
    using assms(2) by (metis (mono_tags, lifting) find_None_iff not_Some_eq)
  then have "s \<in> set ?seats" "0 < stacks ! s"
    using find_member by fastforce+
  then show "next_dealer current stacks < ?n" "0 < stacks ! next_dealer current stacks"
    using n s by (auto simp: next_dealer_def unwrap_or_def)
qed

lemma next_dealer_less:
  assumes "current < length stacks"
  shows "next_dealer current stacks < length stacks"
proof (cases "find (\<lambda>seat. 0 < stacks ! seat) (map (\<lambda>i. (current + i) mod length stacks) [1..<length stacks + 1])")
  case None
  then show ?thesis using assms by (simp add: next_dealer_def unwrap_or_def)
next
  case (Some s)
  then have "s \<in> (\<lambda>i. (current + i) mod length stacks) ` set [1..<length stacks + 1]"
    using find_member by fastforce
  moreover have "next_dealer current stacks = s"
    unfolding next_dealer_def Some by (simp add: unwrap_or_def)
  moreover have "0 < length stacks" using assms by auto
  ultimately show ?thesis by auto
qed

section \<open>A table that plays fairly\<close>

text \<open>What the runner asks of the engine: a playable hand ends with a fair result.\<close>

locale fair_table =
  fixes rules :: betting_rules and play :: "'w play"
  assumes play_fair: "playable rules stacks dealer None \<Longrightarrow>
      ok (play hand_id deck_seed stacks dealer None w) (\<lambda>(res, _). fair_result hand_id stacks res)"

lemma playable_dealer:
  "playable rules stacks dealer None \<Longrightarrow> d < length stacks \<Longrightarrow> playable rules stacks d None"
  by (simp add: playable_def)

lemma playable_facts:
  assumes "playable rules stacks dealer None"
  shows "sum_list stacks < u32_lim" and "dealer < length stacks" and "\<exists>j < length stacks. 0 < stacks ! j"
proof -
  show "sum_list stacks < u32_lim" "dealer < length stacks"
    using assms by (auto simp: playable_def)
  have "filter (\<lambda>j. 0 < stacks ! j) [0..<length stacks] \<noteq> []"
    using assms by (auto simp: playable_def plays_def)
  then show "\<exists>j < length stacks. 0 < stacks ! j"
    by (auto simp: filter_empty_conv)
qed

definition seeds_fit :: "seed_mode \<Rightarrow> nat \<Rightarrow> bool" where
  "seeds_fit mode hands = (case mode of RandomSeeds \<Rightarrow> True | Sequential base \<Rightarrow> unat base + hands \<le> 2 ^ 64)"

lemma hand_seed_ok: "seeds_fit mode hands \<Longrightarrow> k < hands \<Longrightarrow> ok (hand_seed next_u64 mode k g) (\<lambda>_. True)"
  by (cases mode) (auto simp: seeds_fit_def hand_seed_def add_u64_def split: if_splits)

lemma fair_seats: "fair_result hid stacks res \<Longrightarrow> out \<in> set (hr_seats res) \<Longrightarrow> so_seat out < length stacks"
  by (rule fair_stack_bound(1))

text \<open>One pass of the loop, under either policy.\<close>

definition hand_step ::
  "nat list \<Rightarrow> 'g sim_runner \<times> int list \<times> 'w \<Rightarrow> 'g sim_runner \<times> int list \<times> 'w \<Rightarrow> sim_config \<Rightarrow> bool" where
  "hand_step stacks s s' config \<longleftrightarrow>
     (case (s, s') of ((rn, ds, _), (rn', ds', _)) \<Rightarrow>
        rn_starting_stacks rn' = rn_starting_stacks rn \<and> rn_next_hand_id rn' = rn_next_hand_id rn + 1
        \<and> length ds' = length ds \<and> sum_list ds' = sum_list ds
        \<and> length (rn_stacks rn') = length (rn_stacks rn) \<and> sum_list (rn_stacks rn') = sum_list (rn_stacks rn)
        \<and> (case sc_stack_policy config of
             Reset \<Rightarrow> rn_stacks rn' = rn_stacks rn
           | Persistent \<Rightarrow> \<forall>j < length ds. int (rn_stacks rn' ! j) - int (rn_stacks rn ! j) = ds' ! j - ds ! j)
        \<and> rn_dealer rn' = next_dealer (rn_dealer rn) (rn_stacks rn'))"

context fair_table
begin

lemma sim_hand_ok:
  assumes fit: "seeds_fit (sc_seed config) hands" "k < hands" and len: "length ds = length (rn_stacks rn)"
    and stacks: "stacks = (case sc_stack_policy config of Reset \<Rightarrow> rn_starting_stacks rn | Persistent \<Rightarrow> rn_stacks rn)"
    and same: "length stacks = length (rn_stacks rn)" and play: "playable rules stacks (rn_dealer rn) None"
  shows "ok (sim_hand next_u64 play config k (rn, ds, w)) (\<lambda>s'. hand_step stacks (rn, ds, w) s' config)"
proof -
  obtain seed g' where seed: "hand_seed next_u64 (sc_seed config) k (rn_rng rn) = Some (seed, g')"
    using hand_seed_ok [OF fit, of next_u64 "rn_rng rn"] by (auto simp: ok_def)
  obtain res w' where res: "play (rn_next_hand_id rn) seed stacks (rn_dealer rn) None w = Some (res, w')"
      and fair: "fair_result (rn_next_hand_id rn) stacks res"
    using play_fair [OF play, of "rn_next_hand_id rn" seed w] by (auto simp: ok_def)
  have zero: "sum_list (map so_chip_delta (hr_seats res)) = 0"
    using fair by (simp add: fair_result_def)
  obtain ds' where ds': "apply_result_to_deltas res ds = Some ds'" "length ds' = length ds"
      "sum_list ds' = sum_list ds" "\<forall>j < length ds. ds' ! j = ds ! j + delta_at (hr_seats res) j"
    using apply_result_to_deltas_ok [of res ds] fair_seats [OF fair] len same zero by (auto simp: ok_def)
  obtain ss' where ss': "apply_result_to_stacks res stacks = Some ss'" "stacks_after stacks res ss'"
    using apply_result_to_stacks_ok [OF fair playable_facts(1) [OF play]] by (auto simp: ok_def)
  show ?thesis
    using seed res ds' ss' stacks len
    by (cases "sc_stack_policy config") (auto simp: sim_hand_def hand_step_def stacks_after_def)
qed

end

section \<open>Whole runs\<close>

lemma for_each_append: "for_each (xs @ ys) f s = do { s' \<leftarrow> for_each xs f s; for_each ys f s' }"
  by (induction xs arbitrary: s) (auto split: bind_splits)

lemma for_each_snoc: "for_each [0..<Suc k] f s = do { s' \<leftarrow> for_each [0..<k] f s; f k s' }"
proof -
  have "for_each [] f = Some" by (rule ext) simp
  then show ?thesis by (simp add: for_each_append)
qed

definition runner_ready :: "betting_rules \<Rightarrow> 'g sim_runner \<Rightarrow> bool" where
  "runner_ready rules rn \<longleftrightarrow> playable rules (rn_stacks rn) (rn_dealer rn) None"

lemma runner_next:
  assumes "playable rules stacks d None" and "rn_stacks rn' = stacks"
    and "rn_dealer rn' = next_dealer k stacks"
  shows "runner_ready rules rn'"
  using playable_facts(3) [OF assms(1)] next_dealer_funded [where current = k] playable_dealer [OF assms(1)] assms(2,3)
  by (auto simp: runner_ready_def)

context fair_table
begin

lemma reset_loop_ok:
  assumes "seeds_fit (sc_seed config) hands" and policy: "sc_stack_policy config = Reset"
    and start: "rn_starting_stacks rn = rn_stacks rn" and ready: "runner_ready rules rn"
  shows "k \<le> hands \<Longrightarrow> ok (for_each [0..<k] (sim_hand next_u64 play config) (rn, replicate (length (rn_stacks rn)) 0, w))
     (\<lambda>(rn', ds, _). rn_stacks rn' = rn_stacks rn \<and> rn_starting_stacks rn' = rn_stacks rn \<and> runner_ready rules rn'
        \<and> length ds = length (rn_stacks rn) \<and> sum_list ds = 0 \<and> rn_next_hand_id rn' = rn_next_hand_id rn + k)"
proof (induction k)
  case 0
  then show ?case using start ready by (simp add: sum_list_replicate)
next
  case (Suc k)
  show ?case
    unfolding for_each_snoc ok_bind
  proof (rule ok_mono)
    show "ok (for_each [0..<k] (sim_hand next_u64 play config) (rn, replicate (length (rn_stacks rn)) 0, w))
     (\<lambda>(rn', ds, _). rn_stacks rn' = rn_stacks rn \<and> rn_starting_stacks rn' = rn_stacks rn \<and> runner_ready rules rn'
        \<and> length ds = length (rn_stacks rn) \<and> sum_list ds = 0 \<and> rn_next_hand_id rn' = rn_next_hand_id rn + k)"
      using Suc by simp
    fix s :: "'a sim_runner \<times> int list \<times> 'w"
    obtain rn1 ds1 w1 where s: "s = (rn1, ds1, w1)" by (cases s)
    assume "case s of (rn', ds, _) \<Rightarrow> rn_stacks rn' = rn_stacks rn \<and> rn_starting_stacks rn' = rn_stacks rn
        \<and> runner_ready rules rn' \<and> length ds = length (rn_stacks rn) \<and> sum_list ds = 0
        \<and> rn_next_hand_id rn' = rn_next_hand_id rn + k"
    then have i: "rn_stacks rn1 = rn_stacks rn" "rn_starting_stacks rn1 = rn_stacks rn"
        "playable rules (rn_stacks rn) (rn_dealer rn1) None"
        "length ds1 = length (rn_stacks rn)" "sum_list ds1 = 0" "rn_next_hand_id rn1 = rn_next_hand_id rn + k"
      by (auto simp: s runner_ready_def)
    have "ok (sim_hand next_u64 play config k (rn1, ds1, w1))
        (\<lambda>s'. hand_step (rn_stacks rn) (rn1, ds1, w1) s' config)"
      by (rule sim_hand_ok [OF assms(1)]) (use Suc.prems i policy in auto)
    then show "ok (sim_hand next_u64 play config k s) (\<lambda>(rn', ds, _). rn_stacks rn' = rn_stacks rn
        \<and> rn_starting_stacks rn' = rn_stacks rn \<and> runner_ready rules rn'
        \<and> length ds = length (rn_stacks rn) \<and> sum_list ds = 0 \<and> rn_next_hand_id rn' = rn_next_hand_id rn + Suc k)"
      unfolding s by (rule ok_mono) (use i policy runner_next [OF i(3)] in \<open>auto simp: hand_step_def\<close>)
  qed
qed

lemma sim_run_reset_ok:
  assumes "seeds_fit (sc_seed config) hands" and "sc_stack_policy config = Reset"
    and "rn_starting_stacks rn = rn_stacks rn" and "runner_ready rules rn"
  shows "ok (sim_run next_u64 on_run_start on_run_end rules play hands config rn w) (\<lambda>(res, rn', _).
     sr_hands_played res = hands \<and> length (sr_chip_deltas res) = length (rn_stacks rn)
     \<and> sum_list (sr_chip_deltas res) = 0 \<and> sr_final_stacks res = rn_stacks rn
     \<and> rn_next_hand_id rn' = rn_next_hand_id rn + hands \<and> runner_ready rules rn')"
  unfolding sim_run_def Let_def ok_bind
  by (rule ok_mono [OF reset_loop_ok [OF assms order_refl]]) auto

end

context fair_table
begin

text \<open>Stacks that carry over: the run goes on while two seats have chips.\<close>

lemma persistent_loop_ok:
  assumes fit: "seeds_fit (sc_seed config) hands" and policy: "sc_stack_policy config = Persistent"
    and ready: "runner_ready rules rn"
  shows "k \<le> hands \<Longrightarrow> \<exists>m \<le> k.
     ok (for_each [0..<m] (sim_hand next_u64 play config) (rn, replicate (length (rn_stacks rn)) 0, w))
       (\<lambda>(rn', ds, _). length ds = length (rn_stacks rn) \<and> sum_list ds = 0
          \<and> length (rn_stacks rn') = length (rn_stacks rn) \<and> sum_list (rn_stacks rn') = sum_list (rn_stacks rn)
          \<and> (\<forall>j < length ds. int (rn_stacks rn' ! j) = int (rn_stacks rn ! j) + ds ! j)
          \<and> rn_next_hand_id rn' = rn_next_hand_id rn + m \<and> rn_dealer rn' < length (rn_stacks rn)
          \<and> (m = k \<or> length (filter (\<lambda>s. 0 < s) (rn_stacks rn')) < 2))"
  (is "_ \<Longrightarrow> \<exists>m \<le> k. ok (?run m) (?post k m)")
proof (induction k)
  case 0
  have "ok (?run 0) (?post 0 0)"
    using playable_facts(2) ready by (auto simp: sum_list_replicate runner_ready_def)
  then show ?case by blast
next
  case (Suc k)
  then obtain m where m: "m \<le> k" "ok (?run m) (?post k m)" by auto
  then obtain rn1 ds1 w1 where run: "?run m = Some (rn1, ds1, w1)" and post: "?post k m (rn1, ds1, w1)"
    by (auto simp: ok_def)
  have funded: "length (filter (\<lambda>s. 0 < s) ss) = length (filter (\<lambda>j. 0 < ss ! j) [0..<length ss])" for ss :: "nat list"
    by (rule length_filter_conv_card [THEN trans]) (simp add: distinct_length_filter Int_def conj_commute)
  show ?case
  proof (cases "length (filter (\<lambda>s. 0 < s) (rn_stacks rn1)) < 2")
    case True
    then have "ok (?run m) (?post (Suc k) m)"
      using run post by (auto simp: ok_def)
    then show ?thesis using m(1) by (intro exI [of _ m]) simp
  next
    case False
    then have mk: "m = k" using post by auto
    have "playable rules (rn_stacks rn1) (rn_dealer rn1) None"
      using ready post False by (auto simp: runner_ready_def playable_def plays_def funded)
    then have "ok (sim_hand next_u64 play config k (rn1, ds1, w1))
        (\<lambda>s'. hand_step (rn_stacks rn1) (rn1, ds1, w1) s' config)"
      by (intro sim_hand_ok [OF fit]) (use Suc.prems post policy in auto)
    moreover have "next_dealer (rn_dealer rn1) ss < length (rn_stacks rn)"
      if "length ss = length (rn_stacks rn)" for ss
      using next_dealer_less [of "rn_dealer rn1" ss] post that by simp
    ultimately have "ok (?run (Suc k)) (?post (Suc k) (Suc k))"
      unfolding for_each_snoc using run post mk policy
      by (auto simp: hand_step_def elim!: ok_mono)
    then show ?thesis by blast
  qed
qed

end

section \<open>Splitting a run over threads\<close>

definition thread_offset :: "nat \<Rightarrow> nat \<Rightarrow> nat \<Rightarrow> nat" where
  "thread_offset base_hands remainder t = sum_list (map (thread_hands base_hands remainder) [0..<t])"

lemma thread_offset_simps [simp]:
  "thread_offset b r 0 = 0"
  "thread_offset b r (Suc t) = thread_offset b r t + thread_hands b r t"
  by (simp_all add: thread_offset_def)

lemma thread_offset_eq: "thread_offset b r t = t * b + min t r"
  by (induction t) (auto simp: thread_hands_def min_def)

lemma thread_offset_total:
  "0 < threads \<Longrightarrow> thread_offset (hands_total div threads) (hands_total mod threads) threads = hands_total"
  by (simp add: thread_offset_eq min_absorb2 less_imp_le)

lemma thread_offset_mono: "t < threads \<Longrightarrow>
    thread_offset b r t + thread_hands b r t \<le> thread_offset b r threads"
proof -
  assume "t < threads"
  then have "t * b + b \<le> threads * b"
    by (metis Suc_leI add.commute mult_Suc mult_le_mono1)
  with \<open>t < threads\<close> show ?thesis
    by (auto simp: thread_offset_eq thread_hands_def min_def)
qed

text \<open>The deck seeds a worker uses.\<close>

definition worker_seeds :: "sim_config \<Rightarrow> nat \<Rightarrow> 64 word list" where
  "worker_seeds config hands =
     (case sc_seed config of Sequential s \<Rightarrow> map (\<lambda>i. s + of_nat i) [0..<hands] | RandomSeeds \<Rightarrow> [])"

lemma thread_seeds_prefix:
  fixes base :: "64 word"
  shows "concat (map (\<lambda>t. map (\<lambda>i. base + of_nat (thread_offset b r t) + of_nat i) [0..<thread_hands b r t]) [0..<m])
    = map (\<lambda>i. base + of_nat i) [0..<thread_offset b r m]"
proof (induction m)
  case (Suc m)
  have "map (\<lambda>i. base + of_nat (thread_offset b r m) + of_nat i) [0..<thread_hands b r m]
      = map (\<lambda>i. base + of_nat i) [thread_offset b r m..<thread_offset b r m + thread_hands b r m]"
    by (rule nth_equalityI) (simp_all add: add.assoc)
  then show ?case
    using Suc upt_add_eq_append [of 0 "thread_offset b r m" "thread_hands b r m"] by simp
qed simp



lemma add_pointwise_ok:
  assumes "length ds \<le> length acc"
  shows "ok (add_pointwise acc ds) (\<lambda>acc'. length acc' = length acc \<and> sum_list acc' = sum_list acc + sum_list ds)"
proof -
  have "ok (add_pointwise acc ds) (\<lambda>acc'. length acc' = length acc
      \<and> sum_list acc' = sum_list acc + sum_list (map snd (enumerate 0 ds)))"
    unfolding add_pointwise.simps
  proof (rule ok_for_each [where I = "\<lambda>done acc'. length acc' = length acc
      \<and> sum_list acc' = sum_list acc + sum_list (map snd done)"])
    fix "done" x todo acc'
    assume "enumerate 0 ds = done @ x # todo"
      and I: "length acc' = length acc \<and> sum_list acc' = sum_list acc + sum_list (map snd done)"
    then have "x \<in> set (enumerate 0 ds)" by simp
    then have "fst x < length acc"
      using assms by (auto simp: in_set_enumerate_eq)
    with I show "ok ((case x of (i, d) \<Rightarrow> \<lambda>acc. add_at acc i d) acc') (\<lambda>acc'. length acc' = length acc
      \<and> sum_list acc' = sum_list acc + sum_list (map snd (done @ [x])))"
      by (cases x) (simp add: sum_list_update_int)
  qed simp
  then show ?thesis by simp
qed

lemma merge_ok:
  assumes "results \<noteq> []" and "\<forall>r \<in> set results. length (sr_chip_deltas r) = n \<and> sum_list (sr_chip_deltas r) = 0"
  shows "ok (merge results) (\<lambda>res. sr_hands_played res = sum_list (map sr_hands_played results)
     \<and> length (sr_chip_deltas res) = n \<and> sum_list (sr_chip_deltas res) = 0
     \<and> sr_final_stacks res = sr_final_stacks (last results))"
proof -
  have n: "length (sr_chip_deltas (hd results)) = n"
    using assms by (cases results) auto
  have "ok (for_each results (\<lambda>r acc. add_pointwise acc (sr_chip_deltas r)) (replicate n 0))
      (\<lambda>acc. length acc = n \<and> sum_list acc = 0)"
  proof (rule ok_for_each_inv)
    fix r acc
    assume "r \<in> set results" and "length acc = n \<and> sum_list acc = (0::int)"
    then show "ok (add_pointwise acc (sr_chip_deltas r)) (\<lambda>acc. length acc = n \<and> sum_list acc = 0)"
      using assms(2) ok_mono [OF add_pointwise_ok [of "sr_chip_deltas r" acc]] by auto
  qed (simp add: sum_list_replicate)
  then show ?thesis
    using assms(1) by (auto simp: merge_def n elim!: ok_mono)
qed

lemma map_opt_all2:
  assumes "\<And>x. x \<in> set xs \<Longrightarrow> ok (f x) (P x)"
  shows "ok (map_opt f xs) (list_all2 P xs)"
  using assms
proof (induction xs)
  case (Cons x xs)
  then have "ok (f x) (P x)" "ok (map_opt f xs) (list_all2 P xs)" by simp_all
  then show ?case by (auto simp: ok_def)
qed simp

lemma unat_add_u64: "unat base + k < 2 ^ 64 \<Longrightarrow> unat (base + of_nat k :: 64 word) = unat base + k"
  by (simp add: unat_word_ariths unat_of_nat take_bit_nat_eq_self)

lemma thread_config_ok:
  assumes "thread_offset b r t + thread_hands b r t \<le> hands" and "sc_stack_policy config = Reset"
    and "seeds_fit (sc_seed config) (Suc hands)"
  shows "ok (thread_config config t b r) (\<lambda>cfg. sc_stack_policy cfg = Reset
     \<and> seeds_fit (sc_seed cfg) (thread_hands b r t))"
proof (cases "sc_seed config")
  case RandomSeeds
  then show ?thesis using assms by (simp add: thread_config_def seeds_fit_def)
next
  case (Sequential base)
  then have "unat base + thread_offset b r t < 2 ^ 64"
      "unat base + thread_offset b r t + thread_hands b r t \<le> 2 ^ 64"
    using assms by (auto simp: seeds_fit_def)
  then show ?thesis
    using assms(2) unat_add_u64 [of base "thread_offset b r t"]
    by (simp add: thread_config_def Sequential add_u64_def seeds_fit_def flip: thread_offset_def)
qed

context fair_table
begin

lemma run_parallel_ok:
  assumes "sc_stack_policy config = Reset" and "seeds_fit (sc_seed config) (Suc hands_total)"
    and play: "playable rules stacks 0 None"
  shows "ok (run_parallel next_u64 on_run_start on_run_end rules play hands_total threads stacks worker config)
     (\<lambda>res. sr_hands_played res = hands_total \<and> length (sr_chip_deltas res) = length stacks
        \<and> sum_list (sr_chip_deltas res) = 0 \<and> sr_final_stacks res = stacks)"
proof -
  define n b r where nbr: "n = max threads 1" "b = hands_total div n" "r = hands_total mod n"
  have n: "0 < n" and all: "thread_offset b r n = hands_total"
    using thread_offset_total [of n hands_total] by (simp_all add: nbr)
  let ?work = "\<lambda>t. do { cfg \<leftarrow> thread_config config t b r;
      (res, _, _) \<leftarrow> sim_run next_u64 on_run_start on_run_end rules play (thread_hands b r t) cfg
        (with_rng stacks (fst (worker t))) (snd (worker t)); Some res }"
  let ?good = "\<lambda>t res. sr_hands_played res = thread_hands b r t \<and> length (sr_chip_deltas res) = length stacks
      \<and> sum_list (sr_chip_deltas res) = 0 \<and> sr_final_stacks res = stacks"
  have "ok (?work t) (?good t)" if "t \<in> set [0..<n]" for t
  proof -
    have "thread_offset b r t + thread_hands b r t \<le> hands_total"
      using that thread_offset_mono [of t n b r] all by simp
    then have "ok (thread_config config t b r) (\<lambda>cfg. sc_stack_policy cfg = Reset
        \<and> seeds_fit (sc_seed cfg) (thread_hands b r t))"
      by (rule thread_config_ok) (use assms in simp_all)
    then show ?thesis
      unfolding ok_bind
      by (rule ok_mono) (rule ok_mono [OF sim_run_reset_ok],
          use play in \<open>auto simp: with_rng_def runner_ready_def\<close>)
  qed
  then obtain results where results: "map_opt ?work [0..<n] = Some results" "list_all2 ?good [0..<n] results"
    using map_opt_all2 [of "[0..<n]" ?work ?good] by (auto simp: ok_def)
  then have len: "length results = n" and good: "k < n \<Longrightarrow> ?good k (results ! k)" for k
    by (auto simp: list_all2_conv_all_nth)
  have "map sr_hands_played results = map (thread_hands b r) [0..<n]"
    by (rule nth_equalityI) (use len good in auto)
  then have "sum_list (map sr_hands_played results) = hands_total"
    using all by (simp add: thread_offset_def)
  moreover have "sr_final_stacks (last results) = stacks"
    using good [of "n - 1"] n len by (subst last_conv_nth) auto
  moreover have "ok (merge results) (\<lambda>res. sr_hands_played res = sum_list (map sr_hands_played results)
     \<and> length (sr_chip_deltas res) = length stacks \<and> sum_list (sr_chip_deltas res) = 0
     \<and> sr_final_stacks res = sr_final_stacks (last results))"
    using len n good by (intro merge_ok) (auto simp: all_set_conv_all_nth)
  ultimately show ?thesis
    using results(1) unfolding run_parallel_def Let_def nbr by simp
qed

end

section \<open>The engine is a fair table\<close>

abbreviation engine_play where
  "engine_play gen_range seed_from_u64 rank_7 rules env \<equiv> run_hand gen_range seed_from_u64 rank_7 rules env"

lemma engine_fair_table:
  assumes "responsive env" and "hand_evaluator rank_7" and "draws_in_range gen_range"
  shows "fair_table rules (engine_play gen_range seed_from_u64 rank_7 rules env)"
proof
  have "hand_players env rank_7"
    using assms(1,2) by (simp add: hand_players_def)
  then show "ok (engine_play gen_range seed_from_u64 rank_7 rules env hand_id deck_seed stacks dealer None w)
      (\<lambda>(res, _). fair_result hand_id stacks res)" if "playable rules stacks dealer None"
    for stacks dealer hand_id deck_seed w
    using assms(3) that by (rule hand_players.run_hand_ok)
qed

interpretation station_table: fair_table "no_limit_holdem 1 2 6"
  "engine_play first_card (\<lambda>_. ()) best_of_7 (no_limit_holdem 1 2 6) station_env"
  by (rule engine_fair_table [OF stations.responsive_axioms naive.hand_evaluator_axioms first_card_draws])

text \<open>
  A simulation with stacks that are reset plays every hand asked for and is zero-sum: it
  returns, the net chips of the seats add up to nothing, the stacks are the starting stacks and the
  hand ids go on without a gap.
\<close>

theorem sim_reset_zero_sum:
  assumes "responsive env" and "hand_evaluator rank_7" and "draws_in_range gen_range"
    and "playable rules stacks 0 None" and "sc_stack_policy config = Reset" and "seeds_fit (sc_seed config) hands"
  shows "ok (sim_run next_u64 on_run_start on_run_end rules
       (engine_play gen_range seed_from_u64 rank_7 rules env) hands config (with_rng stacks g) w) (\<lambda>(res, rn', _).
     sr_hands_played res = hands \<and> length (sr_chip_deltas res) = length stacks
     \<and> sum_list (sr_chip_deltas res) = 0 \<and> sr_final_stacks res = stacks \<and> rn_next_hand_id rn' = 1 + hands)"
proof (rule ok_mono)
  show "ok (sim_run next_u64 on_run_start on_run_end rules (engine_play gen_range seed_from_u64 rank_7 rules env)
      hands config (with_rng stacks g) w) (\<lambda>(res, rn', _).
     sr_hands_played res = hands \<and> length (sr_chip_deltas res) = length (rn_stacks (with_rng stacks g))
     \<and> sum_list (sr_chip_deltas res) = 0 \<and> sr_final_stacks res = rn_stacks (with_rng stacks g)
     \<and> rn_next_hand_id rn' = rn_next_hand_id (with_rng stacks g) + hands \<and> runner_ready rules rn')"
    by (rule fair_table.sim_run_reset_ok [OF engine_fair_table [OF assms(1-3)]])
      (use assms in \<open>simp_all add: with_rng_def runner_ready_def\<close>)
qed (auto simp: with_rng_def)

lemma two_seats_playable: "playable (no_limit_holdem 1 2 6) [100, 60] 0 None"
  by (simp add: playable_def no_limit_holdem_def plays_def upt_rec nth_Cons')

theorem sim_reset_zero_sum_witness:
  "ok (sim_run (\<lambda>g. (0, g)) (\<lambda>_ _ w. w) (\<lambda>_ w. w) (no_limit_holdem 1 2 6)
       (engine_play first_card (\<lambda>_. ()) best_of_7 (no_limit_holdem 1 2 6) station_env) 5 (deterministic_config 7)
       (with_rng [100, 60] ()) ()) (\<lambda>(res, _). sr_hands_played res = 5 \<and> sum_list (sr_chip_deltas res) = 0)"
  by (rule ok_mono [OF sim_reset_zero_sum [OF stations.responsive_axioms naive.hand_evaluator_axioms
        first_card_draws two_seats_playable]])
    (auto simp: deterministic_config_def seeds_fit_def)

text \<open>
  A simulation whose stacks carry over never creates or destroys a chip: either it plays every
  hand asked for, or it plays some of them and then fewer than two seats have chips.  After the hands
  it plays, the stacks hold the chips they started with, and each stack is its start plus the net
  chips reported for the seat.
\<close>

theorem sim_persistent_conserves:
  assumes "responsive env" and "hand_evaluator rank_7" and "draws_in_range gen_range"
    and "playable rules stacks 0 None" and "sc_stack_policy config = Persistent"
    and "seeds_fit (sc_seed config) hands"
  shows "\<exists>m \<le> hands. ok (sim_run next_u64 on_run_start on_run_end rules
       (engine_play gen_range seed_from_u64 rank_7 rules env) m config (with_rng stacks g) w) (\<lambda>(res, _).
     sum_list (sr_chip_deltas res) = 0 \<and> sum_list (sr_final_stacks res) = sum_list stacks
     \<and> (\<forall>j < length stacks. int (sr_final_stacks res ! j) = int (stacks ! j) + sr_chip_deltas res ! j)
     \<and> (m = hands \<or> length (filter (\<lambda>s. 0 < s) (sr_final_stacks res)) < 2))"
proof -
  let ?play = "engine_play gen_range seed_from_u64 rank_7 rules env" and ?rn = "with_rng stacks g"
  let ?w = "fold (\<lambda>seat. on_run_start seat \<lparr>rc_small_blind = r_small_blind rules,
      rc_big_blind = r_big_blind rules, rc_max_players = length stacks\<rparr>) [0..<length stacks] w"
  have "runner_ready rules ?rn"
    using assms(4) by (simp add: with_rng_def runner_ready_def)
  from fair_table.persistent_loop_ok [OF engine_fair_table [OF assms(1-3)] assms(6,5) this order_refl,
      of next_u64 seed_from_u64 ?w]
  obtain m where m: "m \<le> hands"
    and run: "ok (for_each [0..<m] (sim_hand next_u64 ?play config) (?rn, replicate (length (rn_stacks ?rn)) 0, ?w))
       (\<lambda>(rn', ds, _). length ds = length (rn_stacks ?rn) \<and> sum_list ds = 0
          \<and> length (rn_stacks rn') = length (rn_stacks ?rn) \<and> sum_list (rn_stacks rn') = sum_list (rn_stacks ?rn)
          \<and> (\<forall>j < length ds. int (rn_stacks rn' ! j) = int (rn_stacks ?rn ! j) + ds ! j)
          \<and> rn_next_hand_id rn' = rn_next_hand_id ?rn + m \<and> rn_dealer rn' < length (rn_stacks ?rn)
          \<and> (m = hands \<or> length (filter (\<lambda>s. 0 < s) (rn_stacks rn')) < 2))"
    by blast
  have stacks: "rn_stacks ?rn = stacks" by (simp add: with_rng_def)
  show ?thesis
    using m ok_mono [OF run]
    by (intro exI [of _ m] conjI m) (auto simp: sim_run_def Let_def stacks elim!: ok_mono)
qed

definition carry_over :: sim_config where
  "carry_over = \<lparr>sc_seed = Sequential 7, sc_stack_policy = Persistent\<rparr>"

theorem sim_persistent_conserves_witness:
  "\<exists>m \<le> 5. ok (sim_run (\<lambda>g. (0, g)) (\<lambda>_ _ w. w) (\<lambda>_ w. w) (no_limit_holdem 1 2 6)
       (engine_play first_card (\<lambda>_. ()) best_of_7 (no_limit_holdem 1 2 6) station_env) m carry_over
       (with_rng [100, 60] ()) ()) (\<lambda>(res, _). sum_list (sr_final_stacks res) = 160)"
proof -
  have "sc_stack_policy carry_over = Persistent" "seeds_fit (sc_seed carry_over) 5"
    by (simp_all add: carry_over_def seeds_fit_def)
  from sim_persistent_conserves [OF stations.responsive_axioms naive.hand_evaluator_axioms first_card_draws
      two_seats_playable this, of "\<lambda>g. (0, g)" "\<lambda>_ _ w. w" "\<lambda>_ w. w" "\<lambda>_. ()" "()" "()"]
  show ?thesis by (auto elim!: ok_mono)
qed

text \<open>
  A parallel run is zero-sum and complete: whatever number of threads is asked for, it returns,
  reports every hand asked for, and the net chips of the seats add up to nothing.
\<close>

theorem run_parallel_zero_sum:
  assumes "responsive env" and "hand_evaluator rank_7" and "draws_in_range gen_range"
    and "playable rules stacks 0 None" and "sc_stack_policy config = Reset"
    and "seeds_fit (sc_seed config) (Suc hands_total)"
  shows "ok (run_parallel next_u64 on_run_start on_run_end rules
       (engine_play gen_range seed_from_u64 rank_7 rules env) hands_total threads stacks worker config)
     (\<lambda>res. sr_hands_played res = hands_total \<and> length (sr_chip_deltas res) = length stacks
        \<and> sum_list (sr_chip_deltas res) = 0)"
  by (rule ok_mono [OF fair_table.run_parallel_ok [OF engine_fair_table [OF assms(1-3)] assms(5,6,4)]]) simp

theorem run_parallel_zero_sum_witness:
  "ok (run_parallel (\<lambda>g. (0, g)) (\<lambda>_ _ w. w) (\<lambda>_ w. w) (no_limit_holdem 1 2 6)
       (engine_play first_card (\<lambda>_. ()) best_of_7 (no_limit_holdem 1 2 6) station_env) 10 3 [100, 60]
       (\<lambda>_. ((), ())) (deterministic_config 7))
     (\<lambda>res. sr_hands_played res = 10 \<and> sum_list (sr_chip_deltas res) = 0)"
  by (rule ok_mono [OF run_parallel_zero_sum [OF stations.responsive_axioms naive.hand_evaluator_axioms
        first_card_draws two_seats_playable]])
    (auto simp: deterministic_config_def seeds_fit_def)

end
