(* ===== verification/Protocol.thy ===== *)
theory Protocol
  imports Game "HOL-Library.Char_ord"
begin

text \<open>
  The wire protocol: message types and validators of \<open>net/protocol.rs\<close> and the codec of
  \<open>net/frame.rs\<close>.

  A Rust \<open>str\<close> is its UTF-8 bytes, a \<open>string\<close> here (a \<open>char\<close> of HOL is one byte).  Message
  constructors carry a letter for the direction, \<open>C\<close> from the client and \<open>S\<close> from the server, since
  both sides have a \<open>Heartbeat\<close>.  MessagePack is a third-party crate: \<open>to_vec\<close> and \<open>from_slice\<close> are
  arguments, and a property that needs it says so with \<open>codec_ok\<close>.
\<close>

section \<open>Messages\<close>

definition PROTOCOL_VERSION :: nat where
  "PROTOCOL_VERSION = 5"

type_synonym table_id = nat
type_synonym player_id = nat

record table_info =
  ti_table_id :: table_id
  ti_name :: string
  ti_small_blind :: nat
  ti_big_blind :: nat
  ti_max_seats :: nat
  ti_seated :: nat
  ti_default_buy_in :: nat

record seat_info =
  si_seat :: nat
  si_player_id :: player_id
  si_username :: string
  si_stack :: nat

record lifetime_stats =
  ls_hands :: nat
  ls_voluntary_pf :: nat
  ls_raised_pf :: nat
  ls_aggressive_actions :: nat
  ls_passive_actions :: nat
  ls_showdowns :: nat
  ls_chip_delta :: int

datatype auth_mode =
  Password (auth_identifier: string) (auth_password: string)
| Session (session_auth_key: string)

datatype client_message =
  CRegister nat string string string "string option"
| CAuthenticate nat auth_mode "string option"
| CListTables
| CJoinTable table_id nat
| CLeaveTable table_id
| CSubmitAction table_id nat action
| CRequestReplay nat
| CHeartbeat
| CDisconnect

datatype server_message =
  SWelcome nat player_id string string lifetime_stats
| SRejected nat string
| STableList "table_info list"
| SJoinedTable table_id nat "seat_info list"
| SLeftTable table_id
| STableEvent table_id engine_event
| STableState table_id "seat_info list" nat
| SPrompt table_id nat nat legal_actions nat
| SActionRejected string
| SReplayEvents nat "server_message list"
| SHeartbeat
| SGoodbye string

datatype reject_reason =
  ProtocolMismatch | InvalidUsername | InvalidEmail | InvalidPassword | UsernameInUse | EmailInUse
| BadCredentials | SessionRevoked | UnknownSession | InternalError

fun reject_as_str :: "reject_reason \<Rightarrow> string" where
  "reject_as_str ProtocolMismatch = ''protocol version mismatch''"
| "reject_as_str InvalidUsername = ''invalid username''"
| "reject_as_str InvalidEmail = ''invalid email''"
| "reject_as_str InvalidPassword = ''invalid password''"
| "reject_as_str UsernameInUse = ''username already in use''"
| "reject_as_str EmailInUse = ''email already in use''"
| "reject_as_str BadCredentials = ''bad credentials''"
| "reject_as_str SessionRevoked = ''session revoked''"
| "reject_as_str UnknownSession = ''unknown session''"
| "reject_as_str InternalError = ''internal error''"

section \<open>Validators\<close>

definition is_ascii_alphanumeric :: "char \<Rightarrow> bool" where
  "is_ascii_alphanumeric c \<longleftrightarrow>
     (CHR ''0'' \<le> c \<and> c \<le> CHR ''9'') \<or> (CHR ''A'' \<le> c \<and> c \<le> CHR ''Z'')
     \<or> (CHR ''a'' \<le> c \<and> c \<le> CHR ''z'')"

definition is_valid_username :: "string \<Rightarrow> bool" where
  "is_valid_username name =
     (if \<not> (3 \<le> length name \<and> length name \<le> 24) then False
      else if \<not> is_ascii_alphanumeric (name ! 0) then False
      else list_all (\<lambda>c. is_ascii_alphanumeric c \<or> c = CHR ''_'' \<or> c = CHR ''-'' \<or> c = CHR ''.'') name)"

text \<open>\<open>str::chars\<close>: the Unicode scalar values of a valid UTF-8 string, by the length its lead byte gives.\<close>

fun utf8_chars :: "nat list \<Rightarrow> nat list" where
  "utf8_chars [] = []"
| "utf8_chars [a] = [a]"
| "utf8_chars [a, b] = (if a < 128 then a # utf8_chars [b] else [(a mod 32) * 64 + b mod 64])"
| "utf8_chars [a, b, c] =
     (if a < 128 then a # utf8_chars [b, c]
      else if a < 224 then ((a mod 32) * 64 + b mod 64) # utf8_chars [c]
      else [((a mod 16) * 64 + b mod 64) * 64 + c mod 64])"
| "utf8_chars (a # b # c # d # bs) =
     (if a < 128 then a # utf8_chars (b # c # d # bs)
      else if a < 224 then ((a mod 32) * 64 + b mod 64) # utf8_chars (c # d # bs)
      else if a < 240 then (((a mod 16) * 64 + b mod 64) * 64 + c mod 64) # utf8_chars (d # bs)
      else ((((a mod 8) * 64 + b mod 64) * 64 + c mod 64) * 64 + d mod 64) # utf8_chars bs)"

text \<open>\<open>char::is_whitespace\<close> (the property \<open>White_Space\<close>) and \<open>char::is_control\<close> (the category \<open>Cc\<close>).\<close>

definition is_whitespace :: "nat \<Rightarrow> bool" where
  "is_whitespace c \<longleftrightarrow>
     (9 \<le> c \<and> c \<le> 13) \<or> c \<in> {32, 0x85, 0xA0, 0x1680, 0x2028, 0x2029, 0x202F, 0x205F, 0x3000}
     \<or> (0x2000 \<le> c \<and> c \<le> 0x200A)"

definition is_control :: "nat \<Rightarrow> bool" where
  "is_control c \<longleftrightarrow> c \<le> 31 \<or> (127 \<le> c \<and> c \<le> 159)"

definition is_valid_email :: "string \<Rightarrow> bool" where
  "is_valid_email email =
     (if \<not> (3 \<le> length email \<and> length email \<le> 254) then False
      else case position (\<lambda>c. c = CHR ''@'') email of
        None \<Rightarrow> False
      | Some at \<Rightarrow>
          if count_list email (CHR ''@'') \<noteq> 1 then False
          else let local = take at email; domain = drop 1 (drop at email) in
            if local = [] \<or> domain = [] then False
            else if CHR ''.'' \<notin> set domain then False
            else \<not> list_ex (\<lambda>c. is_whitespace c \<or> is_control c) (utf8_chars (map of_char email)))"

definition is_valid_password :: "string \<Rightarrow> bool" where
  "is_valid_password password \<longleftrightarrow> 8 \<le> length password \<and> length password \<le> 128"

section \<open>Frames\<close>

definition LENGTH_PREFIX_BYTES :: nat where
  "LENGTH_PREFIX_BYTES = 4"

definition MAX_FRAME_BYTES :: nat where
  "MAX_FRAME_BYTES = 4 * 1024 * 1024"

text \<open>An error of a third-party crate is kept as the text it displays.\<close>

datatype frame_error = TooLarge nat | Encode string | Decode string

text \<open>\<open>u32::to_le_bytes\<close> and \<open>u32::from_le_bytes\<close>.\<close>

definition to_le_bytes :: "32 word \<Rightarrow> 8 word list" where
  "to_le_bytes w = map (\<lambda>k. ucast (drop_bit (8 * k) w)) [0..<4]"

definition from_le_bytes :: "8 word list \<Rightarrow> 32 word" where
  "from_le_bytes bs = foldr (\<lambda>b acc. push_bit 8 acc OR ucast b) bs 0"

definition encode ::
  "('a \<Rightarrow> string + 8 word list) \<Rightarrow> 'a \<Rightarrow> frame_error + 8 word list" where
  "encode to_vec value =
     (case to_vec value of
        Inl e \<Rightarrow> Inl (Encode e)
      | Inr payload \<Rightarrow>
          if MAX_FRAME_BYTES < length payload then Inl (TooLarge (length payload))
          else Inr (to_le_bytes (of_nat (length payload)) @ payload))"

definition parse_length_prefix :: "8 word list \<Rightarrow> frame_error + nat" where
  "parse_length_prefix prefix =
     (let len = unat (from_le_bytes prefix) in
      if MAX_FRAME_BYTES < len then Inl (TooLarge len) else Inr len)"

definition decode :: "(8 word list \<Rightarrow> string + 'a) \<Rightarrow> 8 word list \<Rightarrow> frame_error + 'a" where
  "decode from_slice payload =
     (case from_slice payload of Inl d \<Rightarrow> Inl (Decode d) | Inr v \<Rightarrow> Inr v)"

text \<open>What the codec relies on: MessagePack decodes what it encoded.\<close>

definition codec_ok :: "('a \<Rightarrow> string + 8 word list) \<Rightarrow> (8 word list \<Rightarrow> string + 'a) \<Rightarrow> bool" where
  "codec_ok to_vec from_slice \<longleftrightarrow> (\<forall>v p. to_vec v = Inr p \<longrightarrow> from_slice p = Inr v)"

section \<open>Reading and writing a stream\<close>

text \<open>
  \<open>poker-server/src/wire.rs\<close>.  A reader is the bytes that are still to come and how the stream ends:
  \<open>None\<close> is a clean end of file, \<open>Some e\<close> an I/O error.  A writer is the bytes written so far; the
  socket's own failures are the argument \<open>fault\<close>.
\<close>

datatype io_error = UnexpectedEof | OtherIo string

datatype wire_error = WireIo io_error | WireFrame "frame_error" | Closed

record reader =
  rd_bytes :: "8 word list"
  rd_end :: "string option"

definition read_exact :: "nat \<Rightarrow> reader \<Rightarrow> io_error + (8 word list \<times> reader)" where
  "read_exact n r =
     (if n \<le> length (rd_bytes r) then Inr (take n (rd_bytes r), r\<lparr>rd_bytes := drop n (rd_bytes r)\<rparr>)
      else case rd_end r of None \<Rightarrow> Inl UnexpectedEof | Some e \<Rightarrow> Inl (OtherIo e))"

definition read_message ::
  "(8 word list \<Rightarrow> string + 'a) \<Rightarrow> reader \<Rightarrow> wire_error + ('a \<times> reader)" where
  "read_message from_slice r =
     (case read_exact LENGTH_PREFIX_BYTES r of
        Inl UnexpectedEof \<Rightarrow> Inl Closed
      | Inl e \<Rightarrow> Inl (WireIo e)
      | Inr (len_buf, r') \<Rightarrow>
          case parse_length_prefix len_buf of
            Inl fe \<Rightarrow> Inl (WireFrame fe)
          | Inr len \<Rightarrow>
              case read_exact len r' of
                Inl e \<Rightarrow> Inl (WireIo e)
              | Inr (payload, r'') \<Rightarrow>
                  case decode from_slice payload of
                    Inl fe \<Rightarrow> Inl (WireFrame fe)
                  | Inr v \<Rightarrow> Inr (v, r''))"

definition write_message ::
  "('a \<Rightarrow> string + 8 word list) \<Rightarrow> string option \<Rightarrow> 8 word list \<Rightarrow> 'a
   \<Rightarrow> wire_error + 8 word list" where
  "write_message to_vec fault written value =
     (case encode to_vec value of
        Inl fe \<Rightarrow> Inl (WireFrame fe)
      | Inr bytes \<Rightarrow>
          case fault of Some e \<Rightarrow> Inl (WireIo (OtherIo e)) | None \<Rightarrow> Inr (written @ bytes))"

text \<open>The two loops that drive a connection: every message written in order, and read until the end.\<close>

fun write_all_messages ::
  "('a \<Rightarrow> string + 8 word list) \<Rightarrow> 8 word list \<Rightarrow> 'a list \<Rightarrow> wire_error + 8 word list" where
  "write_all_messages to_vec written [] = Inr written"
| "write_all_messages to_vec written (v # vs) =
     (case write_message to_vec None written v of
        Inl e \<Rightarrow> Inl e
      | Inr w \<Rightarrow> write_all_messages to_vec w vs)"

lemma read_exact_shrinks:
  "read_exact n r = Inr (bs, r') \<Longrightarrow> length (rd_bytes r') + n = length (rd_bytes r)"
  by (auto simp: read_exact_def split: if_splits option.splits)

lemma read_message_shrinks:
  assumes "read_message from_slice r = Inr (v, r')"
  shows "length (rd_bytes r') < length (rd_bytes r)"
  using assms
  by (auto simp: read_message_def LENGTH_PREFIX_BYTES_def split: sum.splits prod.splits io_error.splits
      dest!: read_exact_shrinks)

function read_all_messages ::
  "(8 word list \<Rightarrow> string + 'a) \<Rightarrow> reader \<Rightarrow> 'a list \<times> wire_error" where
  "read_all_messages from_slice r =
     (case read_message from_slice r of
        Inl e \<Rightarrow> ([], e)
      | Inr (v, r') \<Rightarrow> (case read_all_messages from_slice r' of (vs, e) \<Rightarrow> (v # vs, e)))"
  by pat_completeness auto

termination read_all_messages
  by (relation "measure (\<lambda>(_, r). length (rd_bytes r))") (auto dest: read_message_shrinks)

declare read_all_messages.simps [simp del]

section \<open>Properties of the codec\<close>

lemma to_le_bytes_length [simp]: "length (to_le_bytes w) = 4"
  by (simp add: to_le_bytes_def)

lemma to_le_bytes_eq:
  "to_le_bytes w = [ucast w, ucast (drop_bit 8 w), ucast (drop_bit 16 w), ucast (drop_bit 24 w)]"
  by (simp add: to_le_bytes_def upt_rec)

lemma from_to_le_bytes [simp]: "from_le_bytes (to_le_bytes w) = w"
proof (rule bit_word_eqI)
  fix n assume n: "n < LENGTH(32)"
  consider "n < 8" | "8 \<le> n" "n < 16" | "16 \<le> n" "n < 24" | "24 \<le> n" by linarith
  then show "bit (from_le_bytes (to_le_bytes w)) n = bit w n"
    by cases (use n in \<open>auto simp: from_le_bytes_def to_le_bytes_eq bit_simps\<close>)
qed

lemma encode_InrD:
  assumes "encode to_vec v = Inr bytes"
  obtains payload where "to_vec v = Inr payload" "length payload \<le> MAX_FRAME_BYTES"
    "bytes = to_le_bytes (of_nat (length payload)) @ payload"
  using assms by (auto simp: encode_def split: sum.splits if_splits)

lemma unat_frame_length:
  "n \<le> MAX_FRAME_BYTES \<Longrightarrow> unat (of_nat n :: 32 word) = n"
  by (simp add: unat_of_nat take_bit_nat_eq_self MAX_FRAME_BYTES_def)

lemma encode_frame:
  assumes "codec_ok to_vec from_slice" and "encode to_vec v = Inr bytes"
  shows "parse_length_prefix (take LENGTH_PREFIX_BYTES bytes) = Inr (length bytes - LENGTH_PREFIX_BYTES)"
    and "decode from_slice (drop LENGTH_PREFIX_BYTES bytes) = Inr v"
    and "LENGTH_PREFIX_BYTES \<le> length bytes"
proof -
  obtain p where p: "to_vec v = Inr p" "length p \<le> MAX_FRAME_BYTES"
    "bytes = to_le_bytes (of_nat (length p)) @ p"
    using assms(2) by (rule encode_InrD)
  from p(1) have "from_slice p = Inr v" using assms(1) by (auto simp: codec_ok_def)
  with p(2,3) show "parse_length_prefix (take LENGTH_PREFIX_BYTES bytes) = Inr (length bytes - LENGTH_PREFIX_BYTES)"
    and "decode from_slice (drop LENGTH_PREFIX_BYTES bytes) = Inr v"
    and "LENGTH_PREFIX_BYTES \<le> length bytes"
    by (simp_all add: LENGTH_PREFIX_BYTES_def parse_length_prefix_def decode_def unat_frame_length Let_def)
qed

lemma read_message_frame:
  assumes "codec_ok to_vec from_slice" and "encode to_vec v = Inr bytes"
  shows "read_message from_slice (r\<lparr>rd_bytes := bytes @ rest\<rparr>) = Inr (v, r\<lparr>rd_bytes := rest\<rparr>)"
proof -
  note f = encode_frame [OF assms]
  have "take LENGTH_PREFIX_BYTES (bytes @ rest) = take LENGTH_PREFIX_BYTES bytes"
    and "drop LENGTH_PREFIX_BYTES (bytes @ rest) = drop LENGTH_PREFIX_BYTES bytes @ rest"
    using f(3) by simp_all
  then show ?thesis
    using f by (simp add: read_message_def read_exact_def diff_le_mono)
qed

lemma write_all_messages_frames:
  assumes "write_all_messages to_vec w vs = Inr w'"
  shows "\<exists>frames. list_all2 (\<lambda>v f. encode to_vec v = Inr f) vs frames \<and> w' = w @ concat frames"
  using assms
proof (induction vs arbitrary: w)
  case Nil
  then show ?case by simp
next
  case (Cons v vs)
  then obtain f where f: "encode to_vec v = Inr f" "write_all_messages to_vec (w @ f) vs = Inr w'"
    by (auto simp: write_message_def split: sum.splits)
  obtain fs where "list_all2 (\<lambda>v f. encode to_vec v = Inr f) vs fs" "w' = (w @ f) @ concat fs"
    using Cons.IH [OF f(2)] by blast
  then show ?case
    using f(1) by (intro exI [of _ "f # fs"]) simp
qed

lemma read_all_messages_frames:
  assumes "codec_ok to_vec from_slice" and "list_all2 (\<lambda>v f. encode to_vec v = Inr f) vs frames"
  shows "read_all_messages from_slice (r\<lparr>rd_bytes := concat frames @ rest\<rparr>)
    = (case read_all_messages from_slice (r\<lparr>rd_bytes := rest\<rparr>) of (us, e) \<Rightarrow> (vs @ us, e))"
  using assms(2)
proof (induction rule: list_all2_induct)
  case Nil
  then show ?case by simp
next
  case (Cons v vs f fs)
  show ?case
    by (subst read_all_messages.simps)
      (simp add: read_message_frame [OF assms(1) Cons.hyps(1)] Cons.IH split: prod.splits)
qed

text \<open>
  (C23) A conversation survives the wire: when every message could be written, reading the byte stream
  that was written gives the same messages in the same order, and then reports that the peer closed.
\<close>

theorem stream_roundtrip:
  assumes "codec_ok to_vec from_slice"
    and "write_all_messages to_vec [] vs = (Inr bytes :: wire_error + _)"
  shows "read_all_messages from_slice (\<lparr>rd_bytes = bytes, rd_end = None\<rparr> :: reader) = (vs, Closed)"
proof -
  obtain fs where fs: "list_all2 (\<lambda>v f. encode to_vec v = (Inr f :: frame_error + _)) vs fs"
    and b: "bytes = concat fs"
    using write_all_messages_frames [OF assms(2)] by auto
  have "read_message from_slice (\<lparr>rd_bytes = [], rd_end = None\<rparr> :: reader) = Inl Closed"
    by (simp add: read_message_def read_exact_def LENGTH_PREFIX_BYTES_def)
  then have "read_all_messages from_slice (\<lparr>rd_bytes = [], rd_end = None\<rparr> :: reader) = ([], Closed)"
    by (simp add: read_all_messages.simps)
  then show ?thesis
    using read_all_messages_frames [OF assms(1) fs, where r = "\<lparr>rd_bytes = [], rd_end = None\<rparr>" and rest = "[]"] b by simp
qed

text \<open>A codec that satisfies the hypothesis: numbers below 256 as one byte.\<close>

definition byte_to_vec :: "nat \<Rightarrow> string + 8 word list" where
  "byte_to_vec n = (if n < 256 then Inr [of_nat n] else Inl ''out of range'')"

definition byte_from_slice :: "8 word list \<Rightarrow> string + nat" where
  "byte_from_slice bs = (case bs of [b] \<Rightarrow> Inr (unat b) | _ \<Rightarrow> Inl ''not one byte'')"

lemma byte_codec_ok: "codec_ok byte_to_vec byte_from_slice"
  by (auto simp: codec_ok_def byte_to_vec_def byte_from_slice_def unat_of_nat take_bit_nat_eq_self
      split: if_splits)

theorem stream_roundtrip_witness:
  "write_all_messages byte_to_vec [] [7, 9] = Inr [1, 0, 0, 0, 7, 1, 0, 0, 0, 9]
   \<and> read_all_messages byte_from_slice
       \<lparr>rd_bytes = [1, 0, 0, 0, 7, 1, 0, 0, 0, 9], rd_end = None\<rparr> = ([7, 9], Closed)"
proof -
  have "write_all_messages byte_to_vec [] [7, 9] = Inr [1, 0, 0, 0, 7, 1, 0, 0, 0, 9]"
    by (simp add: write_message_def encode_def byte_to_vec_def MAX_FRAME_BYTES_def to_le_bytes_eq)
  then show ?thesis
    using stream_roundtrip [OF byte_codec_ok] by simp
qed

text \<open>
  The errors of \<open>read_message\<close>: a stream that ends within the length prefix is \<open>Closed\<close> (also after
  one to three bytes of it), a prefix above the limit is refused before any payload is read, and a
  stream that ends within the payload is an I/O error.
\<close>

theorem read_message_errors:
  "read_message from_slice r =
     (if length (rd_bytes r) < 4 then
        (case rd_end r of None \<Rightarrow> Inl Closed | Some e \<Rightarrow> Inl (WireIo (OtherIo e)))
      else let len = unat (from_le_bytes (take 4 (rd_bytes r))) in
        if 4194304 < len then Inl (WireFrame (TooLarge len))
        else if length (rd_bytes r) < 4 + len then
          Inl (WireIo (case rd_end r of None \<Rightarrow> UnexpectedEof | Some e \<Rightarrow> OtherIo e))
        else case from_slice (take len (drop 4 (rd_bytes r))) of
          Inl e \<Rightarrow> Inl (WireFrame (Decode e))
        | Inr v \<Rightarrow> Inr (v, r\<lparr>rd_bytes := drop (4 + len) (rd_bytes r)\<rparr>))"
  by (auto simp: read_message_def read_exact_def parse_length_prefix_def decode_def Let_def add.commute
      LENGTH_PREFIX_BYTES_def MAX_FRAME_BYTES_def split: option.splits sum.splits)

section \<open>Properties of the validators\<close>

lemma reject_as_str_inj: "inj reject_as_str"
proof (rule injI)
  fix r s assume "reject_as_str r = reject_as_str s"
  then show "r = s" by (cases r; cases s) simp_all
qed

text \<open>An accepted user name needs no escaping: it is 3 to 24 printable ASCII bytes with no blank.\<close>

lemma username_char_printable:
  "is_ascii_alphanumeric c \<or> c = CHR ''_'' \<or> c = CHR ''-'' \<or> c = CHR ''.''
   \<Longrightarrow> 32 < (of_char c :: nat) \<and> (of_char c :: nat) < 127"
  by (auto simp: is_ascii_alphanumeric_def less_eq_char_def)

text \<open>
  What \<open>is_valid_username\<close> accepts: 3 to 24 bytes, all of them printable ASCII, none of them a
  blank, an \<open>@\<close> or a slash, and the first one a letter or a digit.  So no user name is a valid e-mail
  address and the identifier of a password login is never ambiguous.
\<close>

theorem valid_username_shape:
  assumes "is_valid_username name"
  shows "3 \<le> length name \<and> length name \<le> 24 \<and> is_ascii_alphanumeric (hd name)
    \<and> (\<forall>c \<in> set name. 32 < (of_char c :: nat) \<and> (of_char c :: nat) < 127 \<and> c \<noteq> CHR ''@'' \<and> c \<noteq> CHR ''/'')
    \<and> \<not> is_valid_email name"
proof -
  have l: "3 \<le> length name" "length name \<le> 24" and h: "is_ascii_alphanumeric (name ! 0)"
    and cs: "c \<in> set name \<Longrightarrow> is_ascii_alphanumeric c \<or> c = CHR ''_'' \<or> c = CHR ''-'' \<or> c = CHR ''.''" for c
    using assms by (auto simp: is_valid_username_def list_all_iff split: if_splits)
  have at: "c \<noteq> CHR ''@'' \<and> c \<noteq> CHR ''/''" if "c \<in> set name" for c
    using cs [OF that] by (auto simp: is_ascii_alphanumeric_def less_eq_char_def)
  have "count_list name (CHR ''@'') = 0"
    using at by (auto simp: count_list_0_iff)
  then have "\<not> is_valid_email name"
    by (auto simp: is_valid_email_def split: option.splits)
  moreover have "hd name = name ! 0"
    using l by (cases name) auto
  ultimately show ?thesis
    using l h at username_char_printable cs by auto
qed

theorem valid_username_shape_witness:
  "is_valid_username ''joe_42'' \<and> \<not> is_valid_email ''joe_42''"
proof -
  have "is_valid_username ''joe_42''" by code_simp
  then show ?thesis using valid_username_shape by blast
qed

end
