(* ===== verification/Connection.thy ===== *)
theory Connection
  imports Protocol
begin

text \<open>
  The server's per-connection state and the agent that plays for a remote client:
  \<open>poker-server/src/connection.rs\<close> and \<open>poker-server/src/remote_agent.rs\<close>.

  Connections, seat links and one-shot channels are shared through \<open>Arc\<close>s, so they live in a store and
  are named by addresses; an address is always allocated, as an \<open>Arc\<close> is.  A method that takes a lock
  is one step on the store.  The blocking wait of \<open>RemoteAgent::act\<close> is cut in two: \<open>act_begin\<close> up to
  the wait, \<open>act_end\<close> from the moment the channel answers, is dropped or the deadline passes.
\<close>

section \<open>The store\<close>

definition OUTBOUND_CAPACITY :: nat where
  "OUTBOUND_CAPACITY = 256"

text \<open>A one-shot channel: waiting, answered, its sender dropped, or its receiver gone.\<close>

datatype chan = Open | Answered action | Dropped | ReceiverGone

record pending_action =
  pa_table_id :: table_id
  pa_hand_id :: nat
  pa_seat :: nat
  pa_legal :: legal_actions
  pa_responder :: nat

text \<open>\<open>cn_out\<close> is the outbound queue and \<open>cn_out_open\<close> whether the writer task still holds its receiver.\<close>

record connection =
  cn_player_id :: player_id
  cn_username :: string
  cn_session_id :: int
  cn_out :: "server_message list"
  cn_out_open :: bool
  cn_pending :: "pending_action option"
  cn_departed :: bool

record replay_buffer =
  rb_hand_id :: "nat option"
  rb_events :: "server_message list"

record seat_link =
  sl_inner :: nat
  sl_replay :: replay_buffer

record store =
  s_conn :: "nat \<Rightarrow> connection"
  s_link :: "nat \<Rightarrow> seat_link"
  s_chan :: "nat \<Rightarrow> chan"
  s_next_chan :: nat
  s_next_link :: nat

definition upd_conn :: "nat \<Rightarrow> (connection \<Rightarrow> connection) \<Rightarrow> store \<Rightarrow> store" where
  "upd_conn c f s = s\<lparr>s_conn := (s_conn s)(c := f (s_conn s c))\<rparr>"

definition upd_link :: "nat \<Rightarrow> (seat_link \<Rightarrow> seat_link) \<Rightarrow> store \<Rightarrow> store" where
  "upd_link l f s = s\<lparr>s_link := (s_link s)(l := f (s_link s l))\<rparr>"

definition drop_sender :: "nat \<Rightarrow> store \<Rightarrow> store" where
  "drop_sender k s = (if s_chan s k = Open then s\<lparr>s_chan := (s_chan s)(k := Dropped)\<rparr> else s)"

section \<open>Connections\<close>

definition connection_new :: "player_id \<Rightarrow> string \<Rightarrow> int \<Rightarrow> connection" where
  "connection_new player_id username session_id =
     \<lparr>cn_player_id = player_id, cn_username = username, cn_session_id = session_id, cn_out = [],
      cn_out_open = True, cn_pending = None, cn_departed = False\<rparr>"

definition try_send :: "nat \<Rightarrow> server_message \<Rightarrow> store \<Rightarrow> store" where
  "try_send c msg = upd_conn c (\<lambda>cn.
     if cn_out_open cn \<and> length (cn_out cn) < OUTBOUND_CAPACITY then cn\<lparr>cn_out := cn_out cn @ [msg]\<rparr> else cn)"

text \<open>\<open>responder.send(action).is_ok()\<close>.\<close>

definition oneshot_send :: "nat \<Rightarrow> action \<Rightarrow> store \<Rightarrow> bool \<times> store" where
  "oneshot_send k a s =
     (if s_chan s k = Open then (True, s\<lparr>s_chan := (s_chan s)(k := Answered a)\<rparr>) else (False, s))"

definition deliver_action :: "nat \<Rightarrow> table_id \<Rightarrow> nat \<Rightarrow> action \<Rightarrow> store \<Rightarrow> bool \<times> store" where
  "deliver_action c table_id hand_id action s =
     (case cn_pending (s_conn s c) of
        None \<Rightarrow> (False, s)
      | Some pending \<Rightarrow>
          if pa_table_id pending \<noteq> table_id \<or> pa_hand_id pending \<noteq> hand_id then (False, s)
          else if \<not> is_legal (pa_legal pending) action then (False, s)
          else oneshot_send (pa_responder pending) action (upd_conn c (\<lambda>cn. cn\<lparr>cn_pending := None\<rparr>) s))"

text \<open>Taking the prompt out of the slot and dropping it drops the sender inside.\<close>

definition drop_pending :: "nat \<Rightarrow> store \<Rightarrow> store" where
  "drop_pending c s =
     (case cn_pending (s_conn s c) of
        None \<Rightarrow> s
      | Some p \<Rightarrow> drop_sender (pa_responder p) (upd_conn c (\<lambda>cn. cn\<lparr>cn_pending := None\<rparr>) s))"

definition cancel_pending :: "nat \<Rightarrow> store \<Rightarrow> store" where
  "cancel_pending c s = drop_pending c (upd_conn c (\<lambda>cn. cn\<lparr>cn_departed := True\<rparr>) s)"

text \<open>One round of \<open>writer_task\<close>: take the next message off the queue; a failed write ends the task.\<close>

definition writer_step :: "bool \<Rightarrow> nat \<Rightarrow> store \<Rightarrow> server_message option \<times> store" where
  "writer_step write_ok c s =
     (case cn_out (s_conn s c) of
        [] \<Rightarrow> (None, s)
      | m # ms \<Rightarrow>
          if write_ok then (Some m, upd_conn c (\<lambda>cn. cn\<lparr>cn_out := ms\<rparr>) s)
          else (None, upd_conn c (\<lambda>cn. cn\<lparr>cn_out := [], cn_out_open := False\<rparr>) s))"

section \<open>Seat links\<close>

definition replay_default :: replay_buffer where
  "replay_default = \<lparr>rb_hand_id = None, rb_events = []\<rparr>"

definition seat_link_new :: "nat \<Rightarrow> seat_link" where
  "seat_link_new conn = \<lparr>sl_inner = conn, sl_replay = replay_default\<rparr>"

text \<open>\<open>SeatLink::new\<close> allocates: the address is the next free one.\<close>

definition alloc_link :: "nat \<Rightarrow> store \<Rightarrow> nat \<times> store" where
  "alloc_link conn s =
     (s_next_link s, (upd_link (s_next_link s) (\<lambda>_. seat_link_new conn) s)\<lparr>s_next_link := s_next_link s + 1\<rparr>)"

definition link_current :: "nat \<Rightarrow> store \<Rightarrow> nat" where
  "link_current l s = sl_inner (s_link s l)"

definition link_replace :: "nat \<Rightarrow> nat \<Rightarrow> store \<Rightarrow> nat \<times> store" where
  "link_replace l new s = (sl_inner (s_link s l), upd_link l (\<lambda>sl. sl\<lparr>sl_inner := new\<rparr>) s)"

definition link_player_id :: "nat \<Rightarrow> store \<Rightarrow> player_id" where
  "link_player_id l s = cn_player_id (s_conn s (link_current l s))"

definition link_session_id :: "nat \<Rightarrow> store \<Rightarrow> int" where
  "link_session_id l s = cn_session_id (s_conn s (link_current l s))"

definition upd_replay :: "nat \<Rightarrow> (replay_buffer \<Rightarrow> replay_buffer) \<Rightarrow> store \<Rightarrow> store" where
  "upd_replay l f = upd_link l (\<lambda>sl. sl\<lparr>sl_replay := f (sl_replay sl)\<rparr>)"

definition replay_begin :: "nat \<Rightarrow> nat \<Rightarrow> store \<Rightarrow> store" where
  "replay_begin l hand_id = upd_replay l (\<lambda>buf. buf\<lparr>rb_hand_id := Some hand_id, rb_events := []\<rparr>)"

definition replay_push :: "nat \<Rightarrow> server_message \<Rightarrow> store \<Rightarrow> store" where
  "replay_push l msg = upd_replay l (\<lambda>buf.
     if rb_hand_id buf \<noteq> None then buf\<lparr>rb_events := rb_events buf @ [msg]\<rparr> else buf)"

definition replay_end :: "nat \<Rightarrow> store \<Rightarrow> store" where
  "replay_end l = upd_replay l (\<lambda>buf. buf\<lparr>rb_hand_id := None, rb_events := []\<rparr>)"

definition replay_snapshot :: "nat \<Rightarrow> nat \<Rightarrow> store \<Rightarrow> server_message list option" where
  "replay_snapshot l hand_id s =
     (if rb_hand_id (sl_replay (s_link s l)) = Some hand_id then Some (rb_events (sl_replay (s_link s l)))
      else None)"

section \<open>The remote agent\<close>

record remote_agent =
  ra_link :: nat
  ra_table_id :: table_id
  ra_current_hand :: nat
  ra_deadline_ms :: nat

definition remote_agent_new :: "nat \<Rightarrow> table_id \<Rightarrow> nat \<Rightarrow> remote_agent" where
  "remote_agent_new link table_id deadline =
     \<lparr>ra_link = link, ra_table_id = table_id, ra_current_hand = 0, ra_deadline_ms = deadline\<rparr>"

definition remote_prompt :: "remote_agent \<Rightarrow> observation \<Rightarrow> server_message" where
  "remote_prompt ag obs =
     SPrompt (ra_table_id ag) (ra_current_hand ag) (o_position obs) (o_legal_actions obs)
       (ra_deadline_ms ag mod 4294967296)"

text \<open>\<open>Inl\<close> is the fast fold, \<open>Inr\<close> the channel the agent waits on.\<close>

definition act_begin :: "remote_agent \<Rightarrow> observation \<Rightarrow> store \<Rightarrow> (action + nat) \<times> store" where
  "act_begin ag obs s =
     (let conn = link_current (ra_link ag) s in
      if cn_departed (s_conn s conn) then (Inl Fold, s)
      else
        let k = s_next_chan s;
            s1 = s\<lparr>s_chan := (s_chan s)(k := Open), s_next_chan := k + 1\<rparr>;
            pending = \<lparr>pa_table_id = ra_table_id ag, pa_hand_id = ra_current_hand ag,
                       pa_seat = o_position obs, pa_legal = o_legal_actions obs, pa_responder = k\<rparr>;
            s2 = upd_conn conn (\<lambda>cn. cn\<lparr>cn_pending := Some pending\<rparr>) (drop_pending conn s1);
            s3 = try_send conn (remote_prompt ag obs) s2;
            s4 = replay_push (ra_link ag) (remote_prompt ag obs) s3
        in (Inr k, s4))"

text \<open>After the wait: an open channel means that the deadline has passed.\<close>

definition act_end :: "remote_agent \<Rightarrow> nat \<Rightarrow> store \<Rightarrow> action \<times> store" where
  "act_end ag k s =
     (let cleanup = link_current (ra_link ag) s in
      case s_chan s k of
        Answered a \<Rightarrow> (a, s)
      | Dropped \<Rightarrow> (Fold, drop_pending cleanup s)
      | _ \<Rightarrow> (Fold, drop_pending cleanup (s\<lparr>s_chan := (s_chan s)(k := ReceiverGone)\<rparr>)))"

definition remote_on_hand_start :: "nat \<Rightarrow> remote_agent \<Rightarrow> remote_agent" where
  "remote_on_hand_start hand_id ag = ag\<lparr>ra_current_hand := hand_id\<rparr>"

definition remote_on_hand_end :: "remote_agent \<Rightarrow> remote_agent" where
  "remote_on_hand_end ag = ag\<lparr>ra_current_hand := 0\<rparr>"

section \<open>Sessions while an agent waits\<close>

text \<open>
  What the tasks of other sessions do to the store: deliver an action, leave, move a seat to another
  connection, queue a message, write one to the socket, and accept a new connection.
\<close>

text \<open>The seat's link moves to a new connection, which takes over the open prompt (\<open>reconnect_player\<close>).\<close>

definition splice :: "nat \<Rightarrow> nat \<Rightarrow> nat \<Rightarrow> store \<Rightarrow> store" where
  "splice deadline_ms l new s =
     (let old = link_current l s;
          migrated = cn_pending (s_conn s old);
          s1 = upd_conn old (\<lambda>cn. cn\<lparr>cn_pending := None\<rparr>) s;
          s2 = snd (link_replace l new s1)
      in case migrated of
           None \<Rightarrow> s2
         | Some p \<Rightarrow>
             try_send new (SPrompt (pa_table_id p) (pa_hand_id p) (pa_seat p) (pa_legal p) (deadline_ms mod 4294967296))
               (upd_conn new (\<lambda>cn. cn\<lparr>cn_pending := Some p\<rparr>) (drop_pending new s2)))"

datatype session_op =
  Deliver nat table_id nat action
| Cancel nat
| Splice nat nat nat
| Send nat server_message
| Drain bool nat
| Accept nat player_id string int

fun session_step :: "session_op \<Rightarrow> store \<Rightarrow> store" where
  "session_step (Deliver c t h a) s = snd (deliver_action c t h a s)"
| "session_step (Cancel c) s = cancel_pending c s"
| "session_step (Splice deadline l new) s = splice deadline l new s"
| "session_step (Send c m) s = try_send c m s"
| "session_step (Drain write_ok c) s = snd (writer_step write_ok c s)"
| "session_step (Accept c p username session) s = upd_conn c (\<lambda>_. connection_new p username session) s"

section \<open>Invariants of the store\<close>

definition prompt_in :: "store \<Rightarrow> pending_action \<Rightarrow> bool" where
  "prompt_in s p \<longleftrightarrow> (\<exists>c. cn_pending (s_conn s c) = Some p)"

definition store_inv :: "store \<Rightarrow> bool" where
  "store_inv s \<longleftrightarrow> (\<forall>p. prompt_in s p \<longrightarrow> pa_responder p < s_next_chan s)"

text \<open>Channel \<open>k\<close> carries at most one answer, and a legal one.\<close>

definition chan_ok :: "nat \<Rightarrow> legal_actions \<Rightarrow> store \<Rightarrow> bool" where
  "chan_ok k la s \<longleftrightarrow> (\<forall>p. prompt_in s p \<longrightarrow> pa_responder p = k \<longrightarrow> pa_legal p = la)
     \<and> (\<forall>a. s_chan s k = Answered a \<longrightarrow> is_legal la a)"

lemmas store_defs = upd_conn_def upd_link_def drop_sender_def try_send_def oneshot_send_def
  drop_pending_def link_replace_def upd_replay_def replay_begin_def replay_push_def replay_end_def

text \<open>A step that adds no prompt and answers no channel.\<close>

definition calm :: "store \<Rightarrow> store \<Rightarrow> bool" where
  "calm s s' \<longleftrightarrow> (\<forall>p. prompt_in s' p \<longrightarrow> prompt_in s p) \<and> s_next_chan s' = s_next_chan s
     \<and> (\<forall>k a. s_chan s' k = Answered a \<longrightarrow> s_chan s k = Answered a)"

lemma calm_refl [simp]: "calm s s"
  by (simp add: calm_def)

lemma calm_trans: "calm s s' \<Longrightarrow> calm s' s'' \<Longrightarrow> calm s s''"
  by (auto simp: calm_def)

lemma calm_store_inv: "calm s s' \<Longrightarrow> store_inv s \<Longrightarrow> store_inv s'"
  by (auto simp: calm_def store_inv_def)

lemma calm_chan_ok: "calm s s' \<Longrightarrow> chan_ok k la s \<Longrightarrow> chan_ok k la s'"
  by (auto simp: calm_def chan_ok_def)

lemma calm_upd_conn:
  "(cn_pending (f (s_conn s c)) = None \<or> cn_pending (f (s_conn s c)) = cn_pending (s_conn s c)) \<Longrightarrow> calm s (upd_conn c f s)"
  by (auto simp: calm_def upd_conn_def prompt_in_def split: if_splits)

lemma calm_try_send [simp]: "calm s (try_send c m s)"
  unfolding try_send_def by (rule calm_upd_conn) simp

lemma calm_links [simp]:
  "calm s (replay_push l m s)" "calm s (replay_begin l h s)" "calm s (replay_end l s)" "calm s (upd_link l f s)"
  by (auto simp: calm_def store_defs prompt_in_def)

lemma calm_drop_sender [simp]: "calm s (drop_sender k s)"
  by (auto simp: calm_def drop_sender_def prompt_in_def)

lemma calm_drop_pending [simp]: "calm s (drop_pending c s)"
  unfolding drop_pending_def
  by (auto split: option.split intro!: calm_trans [OF calm_upd_conn calm_drop_sender])

lemma calm_cancel [simp]: "calm s (cancel_pending c s)"
  unfolding cancel_pending_def by (rule calm_trans [OF calm_upd_conn calm_drop_pending]) simp

lemma calm_writer [simp]: "calm s (snd (writer_step write_ok c s))"
  by (auto simp: writer_step_def split: list.split intro!: calm_upd_conn)

lemma calm_accept [simp]: "calm s (upd_conn c (\<lambda>_. connection_new p username session) s)"
  by (rule calm_upd_conn) (simp add: connection_new_def)

lemma prompt_in_take: "cn_pending (s_conn s c) = Some p \<Longrightarrow> prompt_in s p"
  by (auto simp: prompt_in_def)

lemma deliver_keeps:
  assumes "store_inv s"
  shows "store_inv (snd (deliver_action c t h a s))"
    and "chan_ok k la s \<Longrightarrow> chan_ok k la (snd (deliver_action c t h a s))"
proof -
  let ?take = "\<lambda>s. upd_conn c (\<lambda>cn. cn\<lparr>cn_pending := None\<rparr>) s"
  have take: "calm s (?take s)" by (rule calm_upd_conn) simp
  show "store_inv (snd (deliver_action c t h a s))"
    using calm_store_inv [OF take assms] assms
    by (auto simp: deliver_action_def oneshot_send_def store_inv_def prompt_in_def split: option.split)
  show "chan_ok k la (snd (deliver_action c t h a s))" if ok: "chan_ok k la s"
    using calm_chan_ok [OF take ok] ok prompt_in_take [of s c]
    by (auto simp: deliver_action_def oneshot_send_def chan_ok_def prompt_in_def split: option.split)
qed

lemma splice_keeps:
  "store_inv s \<Longrightarrow> store_inv (splice d l new s)"
  "chan_ok k la s \<Longrightarrow> chan_ok k la (splice d l new s)"
proof -
  let ?s1 = "upd_conn (link_current l s) (\<lambda>cn. cn\<lparr>cn_pending := None\<rparr>) s"
  let ?s2 = "snd (link_replace l new ?s1)"
  have s2: "calm s ?s2"
    unfolding link_replace_def snd_conv by (rule calm_trans [OF calm_upd_conn calm_links(4)]) simp
  have s3: "calm s (drop_pending new ?s2)" by (rule calm_trans [OF s2 calm_drop_pending])
  have put: "store_inv (upd_conn new (\<lambda>cn. cn\<lparr>cn_pending := Some p\<rparr>) s')"
      if "store_inv s'" "pa_responder p < s_next_chan s'" for p s'
    using that by (auto simp: store_inv_def prompt_in_def upd_conn_def split: if_splits)
  have put': "chan_ok k la (upd_conn new (\<lambda>cn. cn\<lparr>cn_pending := Some p\<rparr>) s')"
      if "chan_ok k la s'" "pa_responder p = k \<longrightarrow> pa_legal p = la" for p s'
    using that by (auto simp: chan_ok_def prompt_in_def upd_conn_def split: if_splits)
  note splice_eq = splice_def Let_def
  show "store_inv (splice d l new s)" if inv: "store_inv s"
  proof (cases "cn_pending (s_conn s (link_current l s))")
    case None
    then show ?thesis using calm_store_inv [OF s2 inv] by (simp add: splice_eq)
  next
    case (Some p)
    then have "pa_responder p < s_next_chan (drop_pending new ?s2)"
      using inv prompt_in_take [OF Some] s3 by (simp add: store_inv_def calm_def)
    from calm_store_inv [OF calm_try_send put [OF calm_store_inv [OF s3 inv] this]] Some
    show ?thesis by (simp add: splice_eq)
  qed
  show "chan_ok k la (splice d l new s)" if ok: "chan_ok k la s"
  proof (cases "cn_pending (s_conn s (link_current l s))")
    case None
    then show ?thesis using calm_chan_ok [OF s2 ok] by (simp add: splice_eq)
  next
    case (Some p)
    then have "pa_responder p = k \<longrightarrow> pa_legal p = la"
      using ok prompt_in_take [OF Some] by (simp add: chan_ok_def)
    from calm_chan_ok [OF calm_try_send put' [OF calm_chan_ok [OF s3 ok] this]] Some
    show ?thesis by (simp add: splice_eq)
  qed
qed

lemma session_step_keeps:
  assumes "store_inv s"
  shows "store_inv (session_step x s)" and "chan_ok k la s \<Longrightarrow> chan_ok k la (session_step x s)"
  using assms
  by (cases x; simp add: deliver_keeps splice_keeps calm_store_inv [OF calm_cancel] calm_chan_ok [OF calm_cancel]
      calm_store_inv [OF calm_try_send] calm_chan_ok [OF calm_try_send] calm_store_inv [OF calm_writer]
      calm_chan_ok [OF calm_writer] calm_store_inv [OF calm_accept] calm_chan_ok [OF calm_accept])+

lemma sessions_keep:
  "store_inv s \<Longrightarrow> store_inv (fold session_step ops s)
     \<and> (chan_ok k la s \<longrightarrow> chan_ok k la (fold session_step ops s))"
  by (induction ops arbitrary: s) (auto simp: session_step_keeps)

text \<open>The whole of \<open>act\<close>, with what other sessions do while it waits.\<close>

definition remote_act :: "session_op list \<Rightarrow> remote_agent \<Rightarrow> observation \<Rightarrow> store \<Rightarrow> action \<times> store" where
  "remote_act ops ag obs s =
     (case act_begin ag obs s of
        (Inl a, s') \<Rightarrow> (a, s')
      | (Inr k, s') \<Rightarrow> act_end ag k (fold session_step ops s'))"

lemma act_begin_keeps:
  assumes inv: "store_inv s" and k: "act_begin ag obs s = (Inr k, s')"
  shows "store_inv s'" and "chan_ok k (o_legal_actions obs) s'"
proof -
  let ?c = "link_current (ra_link ag) s" and ?k = "s_next_chan s"
  let ?s1 = "s\<lparr>s_chan := (s_chan s)(?k := Open), s_next_chan := ?k + 1\<rparr>"
  let ?p = "\<lparr>pa_table_id = ra_table_id ag, pa_hand_id = ra_current_hand ag,
      pa_seat = o_position obs, pa_legal = o_legal_actions obs, pa_responder = ?k\<rparr>"
  let ?s2 = "upd_conn ?c (\<lambda>cn. cn\<lparr>cn_pending := Some ?p\<rparr>) (drop_pending ?c ?s1)"
  have old: "prompt_in ?s1 p \<Longrightarrow> pa_responder p < ?k" for p
    using inv by (auto simp: store_inv_def prompt_in_def)
  have d: "calm ?s1 (drop_pending ?c ?s1)" by simp
  have prompts: "prompt_in ?s2 p \<Longrightarrow> p = ?p \<or> prompt_in ?s1 p" for p
    using d by (auto simp: prompt_in_def upd_conn_def calm_def split: if_splits)
  have s2: "store_inv ?s2" "chan_ok ?k (o_legal_actions obs) ?s2"
  proof -
    have "s_chan (drop_pending ?c ?s1) ?k = Answered a \<Longrightarrow> s_chan ?s1 ?k = Answered a" for a
      using d unfolding calm_def by blast
    then have "s_chan ?s2 ?k \<noteq> Answered a" for a by (auto simp: upd_conn_def)
    moreover have "s_next_chan ?s2 = ?k + 1" using d by (simp add: upd_conn_def calm_def)
    ultimately show "store_inv ?s2" "chan_ok ?k (o_legal_actions obs) ?s2"
      using prompts old by (fastforce simp: store_inv_def chan_ok_def simp del: fun_upd_apply)+
  qed
  have "k = ?k" and s': "s' = replay_push (ra_link ag) (remote_prompt ag obs) (try_send ?c (remote_prompt ag obs) ?s2)"
    using k by (auto simp: act_begin_def Let_def split: if_splits)
  moreover have calm: "calm ?s2 s'"
    unfolding s' by (rule calm_trans [OF calm_try_send calm_links(1)])
  ultimately show "store_inv s'" "chan_ok k (o_legal_actions obs) s'"
    using calm_store_inv [OF calm s2(1)] calm_chan_ok [OF calm s2(2)] by simp_all
qed

lemma remote_act_ok:
  assumes "store_inv s" and "remote_act ops ag obs s = (a, s')"
  shows "is_legal (o_legal_actions obs) a \<and> store_inv s'"
proof (cases "act_begin ag obs s")
  case (Pair r s1)
  show ?thesis
  proof (cases r)
    case (Inl b)
    then show ?thesis
      using assms Pair by (auto simp: remote_act_def act_begin_def Let_def split: if_splits)
  next
    case (Inr k)
    note b = act_begin_keeps [OF assms(1) Pair [unfolded Inr]]
    note f = sessions_keep [OF b(1), of ops k "o_legal_actions obs"]
    have gone: "store_inv (t\<lparr>s_chan := (s_chan t)(k := ReceiverGone)\<rparr>)" if "store_inv t" for t
      using that by (simp add: store_inv_def prompt_in_def)
    define t where "t = fold session_step ops s1"
    have t: "store_inv t" "chan_ok k (o_legal_actions obs) t"
      using f b(2) by (simp_all add: t_def)
    have "act_end ag k t = (a, s')"
      using assms(2) Pair Inr by (simp add: remote_act_def t_def)
    then show ?thesis
      using t by (cases "s_chan t k")
        (auto simp: act_end_def chan_ok_def calm_store_inv [OF calm_drop_pending] gone)
  qed
qed

section \<open>Properties\<close>

definition quiet_conn :: "player_id \<Rightarrow> connection" where
  "quiet_conn p = connection_new p ''anna'' 1"

definition demo_store :: store where
  "demo_store = \<lparr>s_conn = (\<lambda>c. quiet_conn c), s_link = (\<lambda>l. seat_link_new l), s_chan = (\<lambda>_. Dropped),
     s_next_chan = 0, s_next_link = 10\<rparr>"

lemma demo_store_inv: "store_inv demo_store"
  by (simp add: store_inv_def prompt_in_def demo_store_def quiet_conn_def connection_new_def)

definition demo_obs :: observation where
  "demo_obs = \<lparr>o_hole_cards = (Card 0, Card 1), o_board = [], o_pot = pot_default,
     o_legal_actions = \<lparr>la_can_check = False, la_can_call = True, la_call_amount = 2, la_can_raise = False,
       la_min_raise = 4, la_max_raise = 0, la_all_in_amount = 50\<rparr>,
     o_players = [], o_street = Preflop, o_position = 1, o_dealer = 0\<rparr>"

text \<open>
  (C27) A remote player can only make legal moves: whatever other sessions submit, cancel or reconnect while
  the agent waits, \<open>act\<close> returns, with a fold or with an action that the prompt offered, and every
  open prompt in the store still has a channel of its own.
\<close>

theorem remote_act_legal:
  assumes "store_inv s"
  shows "is_legal (o_legal_actions obs) (fst (remote_act ops ag obs s)) \<and> store_inv (snd (remote_act ops ag obs s))"
  using remote_act_ok [OF assms, of ops ag obs "fst (remote_act ops ag obs s)" "snd (remote_act ops ag obs s)"] by simp

theorem remote_act_legal_witness:
  "is_legal (o_legal_actions demo_obs)
     (fst (remote_act [Deliver 0 9 7 (Raise 3), Deliver 0 9 7 Call] (remote_on_hand_start 7 (remote_agent_new 0 9 30000)) demo_obs demo_store))"
  using remote_act_legal [OF demo_store_inv] by blast

text \<open>
  An action is delivered at most once and only if it answers the open prompt: \<open>deliver_action\<close> succeeds
  exactly when a prompt for this table and hand is open, offers the action, and its agent still
  waits.  Then the agent's channel holds the action and a second delivery on the connection fails.
\<close>

theorem deliver_action_once:
  "fst (deliver_action c t h a s) \<longleftrightarrow>
     (\<exists>p. cn_pending (s_conn s c) = Some p \<and> pa_table_id p = t \<and> pa_hand_id p = h \<and> is_legal (pa_legal p) a
        \<and> s_chan s (pa_responder p) = Open
        \<and> s_chan (snd (deliver_action c t h a s)) (pa_responder p) = Answered a
        \<and> (\<forall>t' h' a'. \<not> fst (deliver_action c t' h' a' (snd (deliver_action c t h a s)))))"
  by (auto simp: deliver_action_def oneshot_send_def upd_conn_def split: option.splits if_splits)

text \<open>
  (C28) Reconnecting keeps the prompt: when the seat's link moves to a new connection, the open prompt moves
  with it, its channel still waits, the old connection can no longer answer, and a legal answer
  on the new connection reaches the waiting agent.
\<close>

theorem reconnect_keeps_prompt:
  assumes "cn_pending (s_conn s (link_current l s)) = Some p" and "new \<noteq> link_current l s"
    and "cn_pending (s_conn s new) = None" and "s_chan s (pa_responder p) = Open" and "is_legal (pa_legal p) a"
  shows "let s' = splice d l new s; (done, s'') = deliver_action new (pa_table_id p) (pa_hand_id p) a s' in
     link_current l s' = new \<and> cn_pending (s_conn s' (link_current l s)) = None
     \<and> done \<and> s_chan s'' (pa_responder p) = Answered a"
  using assms
  by (auto simp: splice_def Let_def link_current_def store_defs deliver_action_def)

theorem reconnect_keeps_prompt_witness:
  "let s = snd (act_begin (remote_on_hand_start 7 (remote_agent_new 0 9 30000)) demo_obs demo_store);
       (done, s') = deliver_action 5 9 7 Call (splice 30000 0 5 s)
   in done \<and> s_chan s' 0 = Answered Call"
proof -
  define s where "s = snd (act_begin (remote_on_hand_start 7 (remote_agent_new 0 9 30000)) demo_obs demo_store)"
  define p where "p = \<lparr>pa_table_id = 9, pa_hand_id = 7, pa_seat = 1, pa_legal = o_legal_actions demo_obs, pa_responder = 0\<rparr>"
  have "cn_pending (s_conn s (link_current 0 s)) = Some p" "5 \<noteq> link_current 0 s" "cn_pending (s_conn s 5) = None"
      "s_chan s (pa_responder p) = Open" "is_legal (pa_legal p) Call"
    by (simp_all add: s_def p_def act_begin_def Let_def link_current_def store_defs demo_store_def seat_link_new_def
        quiet_conn_def connection_new_def remote_agent_new_def remote_on_hand_start_def demo_obs_def replay_default_def)
  from reconnect_keeps_prompt [OF this] show ?thesis
    by (simp add: s_def [symmetric] p_def Let_def split_beta)
qed

text \<open>
  A connection that left a table plays no more: after \<open>cancel_pending\<close> every later request to act through
  this connection folds at once, without a prompt and without touching the store, whatever messages
  are sent on it and whatever the observation, also in a hand at a table joined afterwards.
\<close>

theorem departed_folds_forever:
  assumes "link_current (ra_link ag) s = c" and "s' = fold (\<lambda>m. try_send c m) ms (cancel_pending c s)"
  shows "act_begin ag obs s' = (Inl Fold, s')"
proof -
  have "cn_departed (s_conn (cancel_pending c s) c)" "s_link (cancel_pending c s) = s_link s"
    by (auto simp: cancel_pending_def drop_pending_def drop_sender_def upd_conn_def split: option.split)
  moreover have "cn_departed (s_conn (fold (\<lambda>m. try_send c m) ms t) c) = cn_departed (s_conn t c)"
      "s_link (fold (\<lambda>m. try_send c m) ms t) = s_link t" for t
    by (induction ms arbitrary: t) (simp_all add: try_send_def upd_conn_def)
  ultimately show ?thesis
    using assms by (simp add: act_begin_def Let_def link_current_def)
qed

theorem departed_folds_forever_witness:
  "fst (act_begin (remote_on_hand_start 8 (remote_agent_new 0 9 30000)) demo_obs
     (try_send 0 (SJoinedTable 9 1 []) (cancel_pending 0 demo_store))) = Inl Fold"
  using departed_folds_forever [of "remote_on_hand_start 8 (remote_agent_new 0 9 30000)" demo_store 0
      "try_send 0 (SJoinedTable 9 1 []) (cancel_pending 0 demo_store)" "[SJoinedTable 9 1 []]" demo_obs]
  by (simp add: link_current_def demo_store_def seat_link_new_def remote_agent_new_def remote_on_hand_start_def)

end
