(* ===== verification/ServerTable.thy ===== *)
theory ServerTable
  imports Connection "HOL-Library.AList"
begin

text \<open>
  Tables of the server, \<open>poker-server/src/table.rs\<close>: seats, joining and leaving, the snapshot a hand runs
  on, how its result is applied, the sink that fans engine events out to the players, and the
  manager of all tables.

  A table's fields are those behind its mutex; each method that holds the lock is one step.  The
  permit of \<open>Notify\<close> is the flag \<open>tb_notified\<close>.  Durations are milliseconds.  The store of
  connections and links is threaded through the steps that use it.
\<close>

section \<open>Tables\<close>

record table_config =
  tc_name :: string
  tc_max_seats :: nat
  tc_min_seats :: nat
  tc_small_blind :: nat
  tc_big_blind :: nat
  tc_default_buy_in :: nat
  tc_action_deadline_ms :: nat
  tc_between_hands_ms :: nat

definition default_table_config :: table_config where
  "default_table_config =
     \<lparr>tc_name = ''Main'', tc_max_seats = 2, tc_min_seats = 2, tc_small_blind = 1, tc_big_blind = 2,
      tc_default_buy_in = 200, tc_action_deadline_ms = 30000, tc_between_hands_ms = 500\<rparr>"

record seat =
  se_player_id :: player_id
  se_username :: string
  se_stack :: nat
  se_link :: nat
  se_leave_pending :: bool

record table =
  tb_id :: table_id
  tb_config :: table_config
  tb_seats :: "seat option list"
  tb_button :: nat
  tb_next_hand_id :: nat
  tb_hand_in_progress :: bool
  tb_notified :: bool

definition table_new :: "table_id \<Rightarrow> table_config \<Rightarrow> table" where
  "table_new i config =
     \<lparr>tb_id = i, tb_config = config, tb_seats = replicate (tc_max_seats config) None, tb_button = 0,
      tb_next_hand_id = 1, tb_hand_in_progress = False, tb_notified = False\<rparr>"

definition occupied :: "table \<Rightarrow> nat" where
  "occupied t = length (filter (\<lambda>s. s \<noteq> None) (tb_seats t))"

definition table_to_info :: "table \<Rightarrow> table_info" where
  "table_to_info t =
     \<lparr>ti_table_id = tb_id t, ti_name = tc_name (tb_config t), ti_small_blind = tc_small_blind (tb_config t),
      ti_big_blind = tc_big_blind (tb_config t), ti_max_seats = tc_max_seats (tb_config t),
      ti_seated = occupied t mod 256, ti_default_buy_in = tc_default_buy_in (tb_config t)\<rparr>"

definition seat_infos_locked :: "table \<Rightarrow> seat_info list" where
  "seat_infos_locked t =
     List.map_filter (\<lambda>(i, s). map_option (\<lambda>s.
         \<lparr>si_seat = i, si_player_id = se_player_id s, si_username = se_username s, si_stack = se_stack s\<rparr>) s)
       (enumerate 0 (tb_seats t))"

definition collect_links :: "table \<Rightarrow> nat list" where
  "collect_links t = List.map_filter (map_option se_link) (tb_seats t)"

definition seated_as :: "player_id \<Rightarrow> seat option \<Rightarrow> bool" where
  "seated_as p slot = (case slot of None \<Rightarrow> False | Some s \<Rightarrow> se_player_id s = p)"

definition notify_one :: "table \<Rightarrow> table" where
  "notify_one t = t\<lparr>tb_notified := True\<rparr>"

section \<open>Joining and leaving\<close>

datatype sit_error = BuyInTooSmall nat | AlreadySeated | TableFull

fun digit_char10 :: "nat \<Rightarrow> char" where
  "digit_char10 n = char_of (48 + n)"

function show_nat :: "nat \<Rightarrow> string" where
  "show_nat n = (if n < 10 then [digit_char10 n] else show_nat (n div 10) @ [digit_char10 (n mod 10)])"
  by pat_completeness auto
termination show_nat
  by (relation "measure id") auto

declare show_nat.simps [simp del]

fun sit_error_str :: "sit_error \<Rightarrow> string" where
  "sit_error_str (BuyInTooSmall n) = ''buy-in must be at least '' @ show_nat n"
| "sit_error_str AlreadySeated = ''already seated at this table''"
| "sit_error_str TableFull = ''table full''"

definition sit :: "nat \<Rightarrow> nat \<Rightarrow> table \<times> store \<Rightarrow> ((sit_error + nat) \<times> table \<times> store) option" where
  "sit conn buy_in = (\<lambda>(t, s).
     do { minimum \<leftarrow> mul_u32 (tc_big_blind (tb_config t)) 10;
          Some (
            if buy_in < minimum then (Inl (BuyInTooSmall minimum), t, s)
            else let cn = s_conn s conn in
              if list_ex (seated_as (cn_player_id cn)) (tb_seats t) then (Inl AlreadySeated, t, s)
              else case position (\<lambda>slot. slot = None) (tb_seats t) of
                None \<Rightarrow> (Inl TableFull, t, s)
              | Some i \<Rightarrow>
                  let (link, s') = alloc_link conn s;
                      st = \<lparr>se_player_id = cn_player_id cn, se_username = cn_username cn, se_stack = buy_in,
                            se_link = link, se_leave_pending = False\<rparr>
                  in (Inr i, notify_one (t\<lparr>tb_seats := (tb_seats t)[i := Some st]\<rparr>), s')) })"

definition seat_link_for :: "player_id \<Rightarrow> table \<Rightarrow> (nat \<times> nat) option" where
  "seat_link_for p t =
     do { i \<leftarrow> position (seated_as p) (tb_seats t); st \<leftarrow> tb_seats t ! i; Some (i, se_link st) }"

definition reconnect_player :: "nat \<Rightarrow> table \<times> store \<Rightarrow> nat option \<times> store" where
  "reconnect_player new = (\<lambda>(t, s).
     case seat_link_for (cn_player_id (s_conn s new)) t of
       None \<Rightarrow> (None, s)
     | Some (i, link) \<Rightarrow>
         (Some i, splice (tc_action_deadline_ms (tb_config t)) link new
            (try_send new (SJoinedTable (tb_id t) i (seat_infos_locked t)) s)))"

definition send_links :: "nat list \<Rightarrow> server_message \<Rightarrow> store \<Rightarrow> store" where
  "send_links links msg s = fold (\<lambda>l s. try_send (link_current l s) msg s) links s"

definition broadcast_table_state :: "player_id option \<Rightarrow> table \<times> store \<Rightarrow> store" where
  "broadcast_table_state except = (\<lambda>(t, s).
     let links = List.map_filter (\<lambda>slot. case slot of
             None \<Rightarrow> None
           | Some st \<Rightarrow> if except = Some (se_player_id st) then None else Some (se_link st)) (tb_seats t)
     in send_links links (STableState (tb_id t) (seat_infos_locked t) (tb_button t)) s)"

definition vacate :: "nat \<Rightarrow> table \<Rightarrow> table" where
  "vacate i t =
     (if tb_hand_in_progress t
      then t\<lparr>tb_seats := (tb_seats t)[i := map_option (\<lambda>st. st\<lparr>se_leave_pending := True\<rparr>) (tb_seats t ! i)]\<rparr>
      else t\<lparr>tb_seats := (tb_seats t)[i := None]\<rparr>)"

definition leave :: "player_id \<Rightarrow> table \<Rightarrow> (string + unit) \<times> table" where
  "leave p t =
     (case position (seated_as p) (tb_seats t) of
        None \<Rightarrow> (Inl ''not seated at this table'', t)
      | Some i \<Rightarrow> (Inr (), notify_one (vacate i t)))"

definition force_leave :: "player_id \<Rightarrow> int option \<Rightarrow> table \<times> store \<Rightarrow> table \<times> store" where
  "force_leave p session_id = (\<lambda>(t, s).
     case position (seated_as p) (tb_seats t) of
       None \<Rightarrow> (t, s)
     | Some i \<Rightarrow>
         (case tb_seats t ! i of
            None \<Rightarrow> (t, s)
          | Some st \<Rightarrow>
              (case session_id of
                 Some sid \<Rightarrow>
                   if link_session_id (se_link st) s \<noteq> sid then (t, s)
                   else let t' = notify_one (vacate i t) in (t', broadcast_table_state None (t', s))
               | None \<Rightarrow> let t' = notify_one (vacate i t) in (t', broadcast_table_state None (t', s)))))"

section \<open>Running hands\<close>

text \<open>One look of \<open>wait_for_quorum\<close> at the table.\<close>

definition quorum_check :: "table \<Rightarrow> bool \<times> table" where
  "quorum_check t =
     (if \<not> tb_hand_in_progress t \<and> tc_min_seats (tb_config t) \<le> occupied t
      then (True, t\<lparr>tb_hand_in_progress := True\<rparr>) else (False, t))"

record snapshot_player =
  sp_table_seat :: nat
  sp_stack :: nat
  sp_link :: nat

record running_snapshot =
  rs_hand_id :: nat
  rs_players :: "snapshot_player list"
  rs_dealer :: nat

definition take_running_snapshot :: "table \<Rightarrow> running_snapshot \<times> table" where
  "take_running_snapshot t =
     (let players = List.map_filter (\<lambda>(i, slot). case slot of
             None \<Rightarrow> None
           | Some st \<Rightarrow> if se_stack st < tc_big_blind (tb_config t) then None
                       else Some \<lparr>sp_table_seat = i, sp_stack = se_stack st, sp_link = se_link st\<rparr>)
           (enumerate 0 (tb_seats t));
          dealer = (case position (\<lambda>p. tb_button t \<le> sp_table_seat p) players of None \<Rightarrow> 0 | Some d \<Rightarrow> d)
      in (\<lparr>rs_hand_id = tb_next_hand_id t, rs_players = players, rs_dealer = dealer\<rparr>,
          t\<lparr>tb_next_hand_id := tb_next_hand_id t + 1\<rparr>))"

definition r_with_table_seats :: "nat list \<Rightarrow> hand_result \<Rightarrow> hand_result" where
  "r_with_table_seats table_seats r =
     r\<lparr>hr_seats := map (\<lambda>out.
         if so_seat out < length table_seats then out\<lparr>so_seat := table_seats ! so_seat out\<rparr> else out)
       (hr_seats r)\<rparr>"

definition next_occupied_seat :: "seat option list \<Rightarrow> nat \<Rightarrow> nat option" where
  "next_occupied_seat seats from' =
     (if seats = [] then None
      else find (\<lambda>i. seats ! i \<noteq> None)
        (map (\<lambda>offset. (from' + offset) mod length seats) [1..<length seats + 1]))"

definition apply_delta :: "seat_outcome \<Rightarrow> seat option list \<Rightarrow> seat option list" where
  "apply_delta out seats =
     (if so_seat out < length seats
      then seats[so_seat out := map_option (\<lambda>st.
             st\<lparr>se_stack := as_u32 (max (int (se_stack st) + so_chip_delta out) 0)\<rparr>) (seats ! so_seat out)]
      else seats)"

definition settle_slot :: "seat option \<Rightarrow> seat option" where
  "settle_slot slot =
     (case slot of
        None \<Rightarrow> None
      | Some st \<Rightarrow> if se_leave_pending st \<or> se_stack st = 0 then None else Some st)"

definition apply_hand_result :: "hand_result \<Rightarrow> table \<times> store \<Rightarrow> table \<times> store" where
  "apply_hand_result result = (\<lambda>(t, s).
     let seats = map settle_slot (fold apply_delta (hr_seats result) (tb_seats t));
         button = (case next_occupied_seat seats (tb_button t) of None \<Rightarrow> tb_button t | Some b \<Rightarrow> b);
         t' = t\<lparr>tb_seats := seats, tb_button := button, tb_hand_in_progress := False\<rparr>
     in (t', send_links (collect_links t') (STableState (tb_id t') (seat_infos_locked t') button) s))"

definition derive_seed :: "table_id \<Rightarrow> nat \<Rightarrow> 64 word" where
  "derive_seed table_id hand_id =
     (let x = of_nat table_id * 0x9E3779B97F4A7C15;
          x = x XOR (of_nat hand_id * 0xBF58476D1CE4E5B9);
          x = x XOR drop_bit 27 x
      in x * 0x94D049BB133111EB)"

record hand_seat_record =
  hs_seat :: nat
  hs_player_id :: "player_id option"
  hs_chip_delta :: int
  hs_sat_out :: bool

text \<open>The rows \<open>persist_hand\<close> hands to the registry.\<close>

definition hand_seat_records :: "player_id list \<Rightarrow> hand_result \<Rightarrow> hand_seat_record list" where
  "hand_seat_records player_ids result =
     map (\<lambda>(k, out). \<lparr>hs_seat = so_seat out, hs_player_id = idx player_ids k,
        hs_chip_delta = so_chip_delta out, hs_sat_out = so_sat_out out\<rparr>) (enumerate 0 (hr_seats result))"

section \<open>The broadcast sink\<close>

record broadcast_sink =
  bs_table_id :: table_id
  bs_links :: "nat list"
  bs_folded :: "nat set"
  bs_board_cards :: nat
  bs_log :: "8 word list"

definition broadcast_sink_new :: "table_id \<Rightarrow> nat list \<Rightarrow> broadcast_sink" where
  "broadcast_sink_new table_id links =
     \<lparr>bs_table_id = table_id, bs_links = links, bs_folded = {}, bs_board_cards = 0, bs_log = []\<rparr>"

definition record_event ::
  "(engine_event \<Rightarrow> string + 8 word list) \<Rightarrow> engine_event \<Rightarrow> broadcast_sink \<Rightarrow> broadcast_sink" where
  "record_event to_vec event bs =
     (case encode to_vec event of Inr framed \<Rightarrow> bs\<lparr>bs_log := bs_log bs @ framed\<rparr> | Inl _ \<Rightarrow> bs)"

definition fan :: "nat \<Rightarrow> server_message \<Rightarrow> store \<Rightarrow> store" where
  "fan link msg s = (let s' = replay_push link msg s in try_send (link_current link s') msg s')"

definition broadcast_all :: "broadcast_sink \<Rightarrow> engine_event \<Rightarrow> store \<Rightarrow> store" where
  "broadcast_all bs event s = fold (\<lambda>link. fan link (STableEvent (bs_table_id bs) event)) (bs_links bs) s"

definition send_to :: "broadcast_sink \<Rightarrow> nat \<Rightarrow> engine_event \<Rightarrow> store \<Rightarrow> store" where
  "send_to bs engine_seat event s =
     (if engine_seat < length (bs_links bs)
      then fan (bs_links bs ! engine_seat) (STableEvent (bs_table_id bs) event) s else s)"

definition showdown_reached :: "broadcast_sink \<Rightarrow> bool" where
  "showdown_reached bs \<longleftrightarrow>
     5 \<le> bs_board_cards bs \<and> 2 \<le> length (filter (\<lambda>i. i \<notin> bs_folded bs) [0..<length (bs_links bs)])"

definition filtered_hand_end :: "broadcast_sink \<Rightarrow> nat option \<Rightarrow> hand_result \<Rightarrow> hand_result" where
  "filtered_hand_end bs recipient result =
     result\<lparr>hr_seats := map (\<lambda>out.
         let is_self = (recipient = Some (so_seat out));
             reveals = (showdown_reached bs \<and> so_seat out \<notin> bs_folded bs)
         in if \<not> is_self \<and> \<not> reveals then out\<lparr>so_hole_cards := None\<rparr> else out)
       (hr_seats result)\<rparr>"

definition sink_on_event ::
  "(engine_event \<Rightarrow> string + 8 word list) \<Rightarrow> engine_event \<Rightarrow> broadcast_sink \<times> store \<Rightarrow> broadcast_sink \<times> store" where
  "sink_on_event to_vec event = (\<lambda>(bs0, s).
     let bs = record_event to_vec event bs0 in
     case event of
       HandStarted hand_id _ _ \<Rightarrow>
         (bs, broadcast_all bs event (fold (\<lambda>link. replay_begin link hand_id) (bs_links bs) s))
     | HoleCardsDealt seat _ \<Rightarrow> (bs, send_to bs seat event s)
     | ActionTaken seat action _ \<Rightarrow>
         let bs' = (if action = Fold then bs\<lparr>bs_folded := insert seat (bs_folded bs)\<rparr> else bs)
         in (bs', broadcast_all bs' event s)
     | BoardDealt _ cards \<Rightarrow>
         let bs' = bs\<lparr>bs_board_cards := bs_board_cards bs + length cards\<rparr>
         in (bs', broadcast_all bs' event s)
     | HandEnded hand_id result \<Rightarrow>
         let s1 = fold (\<lambda>(engine_seat, link).
               fan link (STableEvent (bs_table_id bs)
                 (HandEnded hand_id (filtered_hand_end bs (Some engine_seat) result))))
               (enumerate 0 (bs_links bs)) s;
             s2 = fold replay_end (bs_links bs) s1
         in (bs\<lparr>bs_folded := {}, bs_board_cards := 0\<rparr>, s2)
     | PlayerAllIn _ _ \<Rightarrow> (bs, broadcast_all bs event s))"

section \<open>The manager\<close>

record manager =
  mg_tables :: "(table_id \<times> table) list"
  mg_player_table :: "player_id \<rightharpoonup> table_id"

definition manager_new :: manager where
  "manager_new = \<lparr>mg_tables = [], mg_player_table = Map.empty\<rparr>"

definition install :: "table \<Rightarrow> manager \<Rightarrow> manager" where
  "install t m = m\<lparr>mg_tables := AList.update (tb_id t) t (mg_tables m)\<rparr>"

definition list_infos :: "manager \<Rightarrow> table_info list" where
  "list_infos m = sort_key ti_table_id (map (table_to_info \<circ> snd) (mg_tables m))"

definition get_table :: "table_id \<Rightarrow> manager \<Rightarrow> table option" where
  "get_table i m = map_of (mg_tables m) i"

definition current_table :: "player_id \<Rightarrow> manager \<Rightarrow> table_id option" where
  "current_table p m = mg_player_table m p"

definition record_join :: "player_id \<Rightarrow> table_id \<Rightarrow> manager \<Rightarrow> manager" where
  "record_join p i m = m\<lparr>mg_player_table := (mg_player_table m)(p \<mapsto> i)\<rparr>"

definition record_leave :: "player_id \<Rightarrow> manager \<Rightarrow> table_id option \<times> manager" where
  "record_leave p m = (mg_player_table m p, m\<lparr>mg_player_table := (mg_player_table m)(p := None)\<rparr>)"

end
