(* ===== verification/TableInv.thy ===== *)
theory TableInv
  imports ServerTable
begin

text \<open>
  The invariant of a table together with the store of its connections, and the proof that every
  operation on a table keeps it: nobody holds two seats, every seat's link leads to a connection
  of its player, stacks are positive, and the button stays on the table.
\<close>

section \<open>Who owns a link\<close>

text \<open>A step of the store that rebinds no link and renames no connection.\<close>

definition same_owners :: "store \<Rightarrow> store \<Rightarrow> bool" where
  "same_owners s s' \<longleftrightarrow> s_next_link s' = s_next_link s \<and> (\<forall>l. link_player_id l s' = link_player_id l s)"

lemma same_owners_refl [simp]: "same_owners s s"
  by (simp add: same_owners_def)

lemma same_owners_trans [trans]: "same_owners s s' \<Longrightarrow> same_owners s' s'' \<Longrightarrow> same_owners s s''"
  by (simp add: same_owners_def)

lemma same_owners_fold: "(\<And>x s. same_owners s (f x s)) \<Longrightarrow> same_owners s (fold f xs s)"
  by (induction xs arbitrary: s) (auto intro: same_owners_trans)

lemma same_owners_upd_conn:
  "cn_player_id (f (s_conn s c)) = cn_player_id (s_conn s c) \<Longrightarrow> same_owners s (upd_conn c f s)"
  by (simp add: same_owners_def upd_conn_def link_player_id_def link_current_def)

lemma same_owners_upd_link:
  "sl_inner (f (s_link s l)) = sl_inner (s_link s l) \<Longrightarrow> same_owners s (upd_link l f s)"
  by (simp add: same_owners_def upd_link_def link_player_id_def link_current_def)

lemma same_owners_chan [simp]:
  "same_owners s (s\<lparr>s_chan := f\<rparr>)" "same_owners s (s\<lparr>s_chan := f, s_next_chan := n\<rparr>)"
  by (simp_all add: same_owners_def link_player_id_def link_current_def)

lemma same_owners_send [simp]: "same_owners s (try_send c m s)"
  unfolding try_send_def by (rule same_owners_upd_conn) simp

lemma same_owners_replay [simp]:
  "same_owners s (replay_push l m s)" "same_owners s (replay_begin l h s)" "same_owners s (replay_end l s)"
  unfolding replay_push_def replay_begin_def replay_end_def upd_replay_def
  by (rule same_owners_upd_link; simp)+

lemma same_owners_drop [simp]: "same_owners s (drop_pending c s)"
proof -
  have "same_owners s (upd_conn c (\<lambda>cn. cn\<lparr>cn_pending := None\<rparr>) s)" by (rule same_owners_upd_conn) simp
  then show ?thesis
    by (auto simp: drop_pending_def drop_sender_def split: option.split intro: same_owners_trans)
qed

lemma same_owners_cancel [simp]: "same_owners s (cancel_pending c s)"
  unfolding cancel_pending_def
  by (rule same_owners_trans [OF same_owners_upd_conn same_owners_drop]) simp

lemma same_owners_deliver [simp]: "same_owners s (snd (deliver_action c t h a s))"
proof -
  have "same_owners s (upd_conn c (\<lambda>cn. cn\<lparr>cn_pending := None\<rparr>) s)" by (rule same_owners_upd_conn) simp
  then show ?thesis
    by (auto simp: deliver_action_def oneshot_send_def split: option.split intro: same_owners_trans)
qed

lemma same_owners_writer [simp]: "same_owners s (snd (writer_step ok' c s))"
  by (auto simp: writer_step_def split: list.split intro: same_owners_upd_conn)

lemma same_owners_put_pending [simp]: "same_owners s (upd_conn c (\<lambda>cn. cn\<lparr>cn_pending := p\<rparr>) s)"
  by (rule same_owners_upd_conn) simp

lemma same_owners_act_begin [simp]: "same_owners s (snd (act_begin ag obs s))"
proof -
  let ?s1 = "s\<lparr>s_chan := (s_chan s)(s_next_chan s := Open), s_next_chan := Suc (s_next_chan s)\<rparr>"
  have prompted: "same_owners s (replay_push l m (try_send c m (upd_conn c (\<lambda>cn. cn\<lparr>cn_pending := p\<rparr>) (drop_pending c ?s1))))"
      for l m c p
    by (rule same_owners_trans [OF same_owners_trans [OF same_owners_trans
          [OF same_owners_trans [OF same_owners_chan(2) same_owners_drop] same_owners_put_pending]
          same_owners_send] same_owners_replay(1)])
  show ?thesis by (simp add: act_begin_def Let_def prompted)
qed

lemma same_owners_act_end [simp]: "same_owners s (snd (act_end ag k s))"
  unfolding act_end_def Let_def
  by (cases "s_chan s k") (auto intro!: same_owners_trans [OF same_owners_chan(1) same_owners_drop])

lemma same_owners_replace:
  assumes "link_player_id l s = cn_player_id (s_conn s new)"
  shows "same_owners s (snd (link_replace l new s))"
proof -
  have "link_player_id l' (snd (link_replace l new s)) = link_player_id l' s" for l'
    using assms by (cases "l' = l") (simp_all add: link_replace_def upd_link_def link_player_id_def link_current_def)
  then show ?thesis by (simp add: same_owners_def link_replace_def upd_link_def)
qed

lemma same_owners_splice:
  assumes "link_player_id l s = cn_player_id (s_conn s new)"
  shows "same_owners s (splice d l new s)"
proof -
  let ?s1 = "upd_conn (link_current l s) (\<lambda>cn. cn\<lparr>cn_pending := None\<rparr>) s"
  have "link_player_id l ?s1 = link_player_id l s"
    using same_owners_put_pending [of s] unfolding same_owners_def by blast
  moreover have "cn_player_id (s_conn ?s1 new) = cn_player_id (s_conn s new)"
    by (simp add: upd_conn_def)
  ultimately have "same_owners ?s1 (snd (link_replace l new ?s1))"
    using assms by (intro same_owners_replace) simp
  then have s2: "same_owners s (snd (link_replace l new ?s1))"
    by (rule same_owners_trans [OF same_owners_put_pending])
  have s3: "same_owners s (try_send new m (upd_conn new (\<lambda>cn. cn\<lparr>cn_pending := p\<rparr>)
      (drop_pending new (snd (link_replace l new ?s1)))))" for m p
    by (rule same_owners_trans [OF same_owners_trans [OF same_owners_trans [OF s2 same_owners_drop]
          same_owners_put_pending] same_owners_send])
  show ?thesis
    by (cases "cn_pending (s_conn s (link_current l s))") (simp_all add: splice_def Let_def s2 s3)
qed

lemma same_owners_fan [simp]: "same_owners s (fan l m s)"
  unfolding fan_def Let_def by (rule same_owners_trans [OF same_owners_replay(1) same_owners_send])

lemma same_owners_broadcast [simp]: "same_owners s (broadcast_all bs ev s)"
  unfolding broadcast_all_def by (rule same_owners_fold) simp

lemma same_owners_links [simp]: "same_owners s (send_links ls m s)"
  unfolding send_links_def by (rule same_owners_fold) simp

lemma same_owners_sink: "same_owners s (snd (sink_on_event to_vec ev (bs, s)))"
proof -
  have begins: "same_owners s (fold (\<lambda>l. replay_begin l h) ls s)" for h ls s
    by (rule same_owners_fold) simp
  have ends: "same_owners s (fold replay_end ls s)" for ls s
    by (rule same_owners_fold) simp
  have fans: "same_owners s (fold (\<lambda>(i, l). fan l (g i)) ils s)" for g ils s
    by (rule same_owners_fold) (auto split: prod.split)
  show ?thesis
    by (cases ev) (auto simp: sink_on_event_def Let_def send_to_def
        intro: same_owners_trans [OF begins same_owners_broadcast] same_owners_trans [OF fans ends])
qed

section \<open>The invariant of a table\<close>

definition seated :: "table \<Rightarrow> nat \<Rightarrow> seat option" where
  "seated t i = (if i < length (tb_seats t) then tb_seats t ! i else None)"

definition seat_ok :: "store \<Rightarrow> seat \<Rightarrow> bool" where
  "seat_ok s a \<longleftrightarrow> 0 < se_stack a \<and> se_stack a < u32_lim \<and> se_link a < s_next_link s
     \<and> link_player_id (se_link a) s = se_player_id a"

definition table_ok :: "table \<Rightarrow> store \<Rightarrow> bool" where
  "table_ok t s \<longleftrightarrow>
     length (tb_seats t) = tc_max_seats (tb_config t) \<and> 0 < tc_big_blind (tb_config t)
     \<and> (tb_button t = 0 \<or> tb_button t < tc_max_seats (tb_config t))
     \<and> (\<forall>i a. seated t i = Some a \<longrightarrow> seat_ok s a)
     \<and> (\<forall>i j a b. seated t i = Some a \<longrightarrow> seated t j = Some b \<longrightarrow> i \<noteq> j
          \<longrightarrow> se_player_id a \<noteq> se_player_id b \<and> se_link a \<noteq> se_link b)"

lemma seated_simps [simp]:
  "seated (t\<lparr>tb_notified := n\<rparr>) = seated t" "seated (t\<lparr>tb_hand_in_progress := h\<rparr>) = seated t"
  "seated (t\<lparr>tb_next_hand_id := k\<rparr>) = seated t" "seated (t\<lparr>tb_button := b\<rparr>) = seated t"
  by (simp_all add: seated_def fun_eq_iff)

lemma table_ok_simps [simp]:
  "table_ok (t\<lparr>tb_notified := n\<rparr>) s = table_ok t s" "table_ok (t\<lparr>tb_hand_in_progress := h\<rparr>) s = table_ok t s"
  "table_ok (t\<lparr>tb_next_hand_id := k\<rparr>) s = table_ok t s"
  by (simp_all add: table_ok_def)

lemma seated_update:
  "i < length (tb_seats t) \<Longrightarrow> seated (t\<lparr>tb_seats := (tb_seats t)[i := x]\<rparr>) j = (if j = i then x else seated t j)"
  by (simp add: seated_def nth_list_update)

lemma table_ok_owners: "table_ok t s \<Longrightarrow> same_owners s s' \<Longrightarrow> table_ok t s'"
  by (simp add: table_ok_def seat_ok_def same_owners_def)

lemma seated_asD: "position (seated_as p) (tb_seats t) = Some i \<Longrightarrow>
    i < length (tb_seats t) \<and> (\<exists>a. seated t i = Some a \<and> se_player_id a = p)"
  by (auto dest!: position_SomeD simp: seated_as_def seated_def split: option.splits)

text \<open>A table whose seats come from an old one, a few of them vacated or with other chips.\<close>

lemma table_ok_fewer:
  assumes "table_ok t s" and "length (tb_seats t') = length (tb_seats t)" and "tb_config t' = tb_config t"
    and "tb_button t' = 0 \<or> tb_button t' < tc_max_seats (tb_config t)"
    and sub: "\<And>i b. seated t' i = Some b \<Longrightarrow>
      \<exists>a. seated t i = Some a \<and> se_player_id b = se_player_id a \<and> se_link b = se_link a \<and> 0 < se_stack b \<and> se_stack b < u32_lim"
  shows "table_ok t' s"
proof -
  have "seat_ok s b" if "seated t' i = Some b" for i b
    using sub [OF that] assms(1) by (fastforce simp: table_ok_def seat_ok_def)
  moreover have "se_player_id a \<noteq> se_player_id b \<and> se_link a \<noteq> se_link b"
    if "seated t' i = Some a" "seated t' j = Some b" "i \<noteq> j" for i j a b
    using sub [OF that(1)] sub [OF that(2)] that(3) assms(1) unfolding table_ok_def by metis
  ultimately show ?thesis using assms by (auto simp: table_ok_def)
qed

lemma table_ok_new: "0 < tc_big_blind config \<Longrightarrow> table_ok (table_new i config) s"
  by (auto simp: table_ok_def table_new_def seated_def split: if_splits)

lemma table_ok_sit:
  assumes "table_ok t s" and "buy_in < u32_lim" and "sit conn buy_in (t, s) = Some (r, t', s')"
  shows "table_ok t' s'"
proof (cases "\<exists>i. r = Inr i")
  case False
  then have "t' = t" "s' = s"
    using assms(3) by (auto simp: sit_def Let_def alloc_link_def split: bind_splits if_splits option.splits)
  then show ?thesis using assms(1) by simp
next
  case True
  define a where "a = \<lparr>se_player_id = cn_player_id (s_conn s conn), se_username = cn_username (s_conn s conn),
      se_stack = buy_in, se_link = s_next_link s, se_leave_pending = False\<rparr>"
  obtain i m where free: "position (\<lambda>slot. slot = None) (tb_seats t) = Some i"
      and min: "mul_u32 (tc_big_blind (tb_config t)) 10 = Some m" "\<not> buy_in < m"
      and new: "\<not> list_ex (seated_as (cn_player_id (s_conn s conn))) (tb_seats t)"
      and t': "t' = notify_one (t\<lparr>tb_seats := (tb_seats t)[i := Some a]\<rparr>)" and s': "s' = snd (alloc_link conn s)"
    using assms(3) True
    by (auto simp: sit_def Let_def alloc_link_def a_def split: bind_splits if_splits option.splits)
  have i: "i < length (tb_seats t)" "seated t i = None"
    using position_SomeD [OF free] by (simp_all add: seated_def)
  have old: "seat_ok s' b \<and> se_player_id b \<noteq> se_player_id a \<and> se_link b \<noteq> se_link a" if "seated t j = Some b" for j b
  proof -
    have b: "seat_ok s b" using that assms(1) by (auto simp: table_ok_def)
    moreover have "se_player_id b \<noteq> cn_player_id (s_conn s conn)"
      using that new by (fastforce simp: list_ex_iff seated_as_def seated_def split: if_splits dest: nth_mem)
    ultimately show ?thesis
      by (auto simp: s' a_def seat_ok_def alloc_link_def upd_link_def link_player_id_def link_current_def)
  qed
  have "0 < m" using min(1) assms(1) by (auto simp: mul_u32_def table_ok_def split: if_splits)
  then have "seat_ok s' a"
    using min(2) assms(2)
    by (simp add: s' a_def seat_ok_def alloc_link_def upd_link_def link_player_id_def link_current_def seat_link_new_def)
  moreover have "seated t' j = (if j = i then Some a else seated t j)" for j
    by (simp add: t' notify_one_def seated_update i)
  ultimately show ?thesis
    using old i assms(1) by (auto simp: table_ok_def t' notify_one_def split: if_splits) (metis+)
qed

lemma same_owners_reconnect:
  assumes "table_ok t s" and "reconnect_player new (t, s) = (r, s')"
  shows "same_owners s s'"
proof (cases "seat_link_for (cn_player_id (s_conn s new)) t")
  case None
  then show ?thesis using assms by (simp add: reconnect_player_def)
next
  case (Some il)
  obtain i l where il: "il = (i, l)" by (cases il)
  define s1 where "s1 = try_send new (SJoinedTable (tb_id t) i (seat_infos_locked t)) s"
  have one: "same_owners s s1" unfolding s1_def by simp
  obtain a where a: "seated t i = Some a" "se_link a = l" "se_player_id a = cn_player_id (s_conn s new)"
    using Some il by (auto simp: seat_link_for_def seated_def split: bind_splits dest!: position_SomeD dest: seated_asD)
       (auto simp: seated_as_def)
  have "link_player_id l s1 = cn_player_id (s_conn s1 new)"
    using table_ok_owners [OF assms(1) one] a by (auto simp: table_ok_def seat_ok_def s1_def try_send_def upd_conn_def)
  then have "same_owners s1 (splice d l new s1)" for d by (rule same_owners_splice)
  then show ?thesis
    using assms(2) Some same_owners_trans [OF one] by (auto simp: reconnect_player_def il s1_def)
qed

lemma table_ok_reconnect: "table_ok t s \<Longrightarrow> reconnect_player new (t, s) = (r, s') \<Longrightarrow> table_ok t s'"
  by (blast intro: table_ok_owners same_owners_reconnect)

lemma vacate_seats:
  "i < length (tb_seats t) \<Longrightarrow> seated (vacate i t) j =
     (if j = i then if tb_hand_in_progress t then map_option (\<lambda>a. a\<lparr>se_leave_pending := True\<rparr>) (seated t i) else None
      else seated t j)"
  "length (tb_seats (vacate i t)) = length (tb_seats t)" "tb_config (vacate i t) = tb_config t"
  "tb_button (vacate i t) = tb_button t" "tb_hand_in_progress (vacate i t) = tb_hand_in_progress t"
  by (simp_all add: vacate_def seated_update) (simp add: seated_def)

lemma table_ok_vacate:
  assumes "table_ok t s" and i: "i < length (tb_seats t)"
  shows "table_ok (vacate i t) s"
proof (rule table_ok_fewer [OF assms(1)])
  show "tb_button (vacate i t) = 0 \<or> tb_button (vacate i t) < tc_max_seats (tb_config t)"
    using assms(1) by (simp add: vacate_seats table_ok_def)
  fix j b assume "seated (vacate i t) j = Some b"
  then show "\<exists>a. seated t j = Some a \<and> se_player_id b = se_player_id a \<and> se_link b = se_link a
      \<and> 0 < se_stack b \<and> se_stack b < u32_lim"
    using assms(1) by (auto simp: vacate_seats(1) [OF i] table_ok_def seat_ok_def split: if_splits)
qed (simp_all add: vacate_seats)

lemma table_ok_leave: "table_ok t s \<Longrightarrow> table_ok (snd (leave p t)) s"
  by (auto simp: leave_def notify_one_def split: option.split dest!: position_SomeD intro: table_ok_vacate)

lemma same_owners_table_state [simp]: "same_owners s (broadcast_table_state e (t, s))"
  by (simp add: broadcast_table_state_def Let_def)

lemma table_ok_force_leave:
  assumes "table_ok t s" and "force_leave p sid (t, s) = (t', s')"
  shows "table_ok t' s'"
proof -
  have "t' = t \<and> s' = s \<or> (\<exists>i < length (tb_seats t). t' = notify_one (vacate i t) \<and> s' = broadcast_table_state None (t', s))"
    using assms(2) by (auto simp: force_leave_def Let_def split: option.splits if_splits dest!: position_SomeD)
  then show ?thesis
    using assms(1) table_ok_vacate [OF assms(1)]
    by (auto simp: notify_one_def intro!: table_ok_owners [OF _ same_owners_table_state])
qed

text \<open>Applying outcomes changes stacks only; settling vacates the seats of players who left or are broke.\<close>

definition restacked :: "seat \<Rightarrow> seat \<Rightarrow> bool" where
  "restacked a b \<longleftrightarrow> b = a\<lparr>se_stack := se_stack b\<rparr> \<and> (se_stack a < u32_lim \<longrightarrow> se_stack b < u32_lim)"

lemma restacked_refl [simp]: "restacked a a"
  by (simp add: restacked_def)

lemma restacked_trans: "restacked a b \<Longrightarrow> restacked b c \<Longrightarrow> restacked a c"
  by (cases a; cases b; cases c) (auto simp: restacked_def)

lemma as_u32_bound [simp]: "as_u32 x < 4294967296"
  by (simp add: as_u32_def)

lemma apply_delta_restacked: "list_all2 (rel_option restacked) seats (apply_delta out seats)"
proof -
  have "rel_option restacked x x" for x by (rule option.rel_refl) simp
  moreover have "rel_option restacked x (map_option (\<lambda>st. st\<lparr>se_stack := as_u32 (f st)\<rparr>) x)" for x f
    by (cases x) (simp_all add: restacked_def)
  ultimately show ?thesis
    by (auto simp: apply_delta_def list_all2_conv_all_nth nth_list_update)
qed

lemma apply_deltas_restacked: "list_all2 (rel_option restacked) seats (fold apply_delta outs seats)"
proof (induction outs arbitrary: seats)
  case Nil
  show ?case by (simp add: list.rel_refl option.rel_refl)
next
  case (Cons out outs)
  have "rel_option restacked x z" if "rel_option restacked x y" "rel_option restacked y z" for x y z
    using that by (cases x; cases y; cases z) (auto intro: restacked_trans)
  from list_all2_trans [OF this apply_delta_restacked Cons.IH] show ?case by simp
qed

lemma settled_seat:
  assumes "list_all2 (rel_option restacked) seats seats'" and "i < length seats"
    and "map settle_slot seats' ! i = Some b"
  shows "\<exists>a. seats ! i = Some a \<and> restacked a b \<and> seats' ! i = Some b \<and> 0 < se_stack b \<and> \<not> se_leave_pending b"
proof -
  have len: "length seats' = length seats" and "rel_option restacked (seats ! i) (seats' ! i)"
    using assms by (simp_all add: list_all2_conv_all_nth)
  then show ?thesis
    using assms(2,3) by (cases "seats ! i"; cases "seats' ! i") (auto simp: settle_slot_def split: if_splits)
qed

lemma next_occupied_bound: "next_occupied_seat seats b = Some i \<Longrightarrow> i < length seats"
  by (auto simp: next_occupied_seat_def split: if_splits dest!: find_member)

lemma table_ok_settle:
  assumes ok: "table_ok t s" and "apply_hand_result res (t, s) = (t', s')"
  shows "table_ok t' s'"
proof -
  let ?seats = "fold apply_delta (hr_seats res) (tb_seats t)"
  note rel = apply_deltas_restacked [of "tb_seats t" "hr_seats res"]
  have t': "tb_seats t' = map settle_slot ?seats" "tb_config t' = tb_config t"
      "tb_button t' = (case next_occupied_seat (map settle_slot ?seats) (tb_button t) of None \<Rightarrow> tb_button t | Some b \<Rightarrow> b)"
      and s': "same_owners s s'"
    using assms(2) by (auto simp: apply_hand_result_def Let_def)
  have len: "length (tb_seats t') = length (tb_seats t)"
    using rel by (simp add: t' list_all2_lengthD)
  have "table_ok t' s"
  proof (rule table_ok_fewer [OF ok len t'(2)])
    show "tb_button t' = 0 \<or> tb_button t' < tc_max_seats (tb_config t)"
      using ok next_occupied_bound [of "tb_seats t'" "tb_button t"] len t'
      by (auto simp: table_ok_def split: option.splits)
    fix i b assume b: "seated t' i = Some b"
    then have i: "i < length (tb_seats t)" "map settle_slot ?seats ! i = Some b"
      using len by (auto simp: seated_def t'(1) split: if_splits)
    from settled_seat [OF rel this] obtain a where a: "tb_seats t ! i = Some a" "restacked a b" "0 < se_stack b" by blast
    moreover from a(1) i(1) have "seated t i = Some a" by (simp add: seated_def)
    with ok have "seat_ok s a" unfolding table_ok_def by blast
    ultimately show "\<exists>a. seated t i = Some a \<and> se_player_id b = se_player_id a \<and> se_link b = se_link a
        \<and> 0 < se_stack b \<and> se_stack b < u32_lim"
      using i(1) by (cases a; cases b) (auto simp: seated_def restacked_def seat_ok_def)
  qed
  then show ?thesis using s' by (rule table_ok_owners)
qed

section \<open>Reachable tables\<close>

text \<open>
  Everything that happens to a table and its store: players sit, reconnect and leave, the table's
  task starts and settles hands, and meanwhile agents, the sink and other sessions use the store.
  A link is rebound only by \<open>reconnect_player\<close>, and a new connection is a fresh object.
\<close>

fun plain_op :: "store \<Rightarrow> session_op \<Rightarrow> bool" where
  "plain_op s (Splice _ _ _) = False"
| "plain_op s (Accept c _ _ _) \<longleftrightarrow> (\<forall>l. link_current l s \<noteq> c)"
| "plain_op s _ = True"

inductive table_step :: "table \<times> store \<Rightarrow> table \<times> store \<Rightarrow> bool" where
  sits: "buy_in < u32_lim \<Longrightarrow> sit conn buy_in ts = Some (r, ts') \<Longrightarrow> table_step ts ts'"
| reconnects: "reconnect_player new (t, s) = (r, s') \<Longrightarrow> table_step (t, s) (t, s')"
| leaves: "leave p t = (r, t') \<Longrightarrow> table_step (t, s) (t', s)"
| forced: "table_step ts (force_leave p sid ts)"
| announces: "table_step (t, s) (t, broadcast_table_state e (t, s))"
| quorum: "quorum_check t = (r, t') \<Longrightarrow> table_step (t, s) (t', s)"
| snapshot: "take_running_snapshot t = (sn, t') \<Longrightarrow> table_step (t, s) (t', s)"
| called_off: "table_step (t, s) (t\<lparr>tb_hand_in_progress := False\<rparr>, s)"
| settles: "table_step ts (apply_hand_result res ts)"
| prompts: "act_begin ag obs s = (r, s') \<Longrightarrow> table_step (t, s) (t, s')"
| answered: "act_end ag k s = (a, s') \<Longrightarrow> table_step (t, s) (t, s')"
| fans: "sink_on_event to_vec ev (bs, s) = (bs', s') \<Longrightarrow> table_step (t, s) (t, s')"
| sessions: "plain_op s x \<Longrightarrow> table_step (t, s) (t, session_step x s)"

lemma same_owners_plain: "plain_op s x \<Longrightarrow> same_owners s (session_step x s)"
proof (cases x)
  case (Accept c p u i)
  moreover assume "plain_op s x"
  ultimately show ?thesis
    by (simp add: same_owners_def upd_conn_def link_player_id_def link_current_def)
qed simp_all

lemma table_ok_step: "table_step ts ts' \<Longrightarrow> table_ok (fst ts) (snd ts) \<Longrightarrow> table_ok (fst ts') (snd ts')"
proof (induction rule: table_step.induct)
  case (sits buy_in conn ts r ts')
  then show ?case by (cases ts; cases ts') (auto intro: table_ok_sit)
next
  case (forced ts p sid)
  then show ?case by (cases ts; cases "force_leave p sid ts") (auto intro: table_ok_force_leave)
next
  case (settles ts res)
  then show ?case by (cases ts; cases "apply_hand_result res ts") (auto intro: table_ok_settle)
next
  case (leaves p t r t' s)
  then show ?case using table_ok_leave [of t s p] by simp
next
  case (prompts ag obs s r s' t)
  then show ?case using same_owners_act_begin [of s ag obs] by (auto intro: table_ok_owners)
next
  case (answered ag k s a s' t)
  then show ?case using same_owners_act_end [of s ag k] by (auto intro: table_ok_owners)
next
  case (fans to_vec ev bs s bs' s' t)
  then show ?case using same_owners_sink [of s to_vec ev bs] by (auto intro: table_ok_owners)
qed (auto intro: table_ok_reconnect table_ok_owners same_owners_plain
    simp: quorum_check_def take_running_snapshot_def Let_def split: if_splits)

lemma table_ok_run:
  "table_step\<^sup>*\<^sup>* ts ts' \<Longrightarrow> table_ok (fst ts) (snd ts) \<Longrightarrow> table_ok (fst ts') (snd ts')"
  by (induction rule: rtranclp_induct) (auto intro: table_ok_step)

section \<open>Properties\<close>

text \<open>
  (C10) Every table that the server can reach is consistent.  Whatever players join, reconnect, leave, are
  dropped or answer, and whatever hands start, are called off or are settled, in any order: the
  number of seats stays the configured one, no player holds two seats, no two seats share a link,
  each link leads to a connection of the player in the seat, every seated player has chips, and the
  button is on the table.
\<close>

theorem table_reachable_ok:
  assumes "0 < tc_big_blind config" and "table_step\<^sup>*\<^sup>* (table_new i config, s\<^sub>0) (t, s)"
  shows "table_ok t s"
  using table_ok_run [OF assms(2)] table_ok_new [OF assms(1)] by simp

text \<open>Two players at a new heads-up table.\<close>

definition two_seated :: "table \<times> store" where
  "two_seated =
     (case sit 1 200 (table_new 9 default_table_config, demo_store) of
        Some (_, ts) \<Rightarrow> (case sit 2 150 ts of Some (_, ts') \<Rightarrow> ts' | None \<Rightarrow> ts)
      | None \<Rightarrow> (table_new 9 default_table_config, demo_store))"

definition demo_seat :: "player_id \<Rightarrow> nat \<Rightarrow> nat \<Rightarrow> seat" where
  "demo_seat p stack link =
     \<lparr>se_player_id = p, se_username = ''anna'', se_stack = stack, se_link = link, se_leave_pending = False\<rparr>"

lemmas demo_table_defs = table_new_def default_table_config_def demo_store_def quiet_conn_def connection_new_def
  sit_def alloc_link_def upd_link_def notify_one_def mul_u32_def seated_as_def numeral_2_eq_2

lemma two_seated_steps:
  "sit 1 200 (table_new 9 default_table_config, demo_store) = Some (Inr 0,
     (table_new 9 default_table_config)\<lparr>tb_seats := [Some (demo_seat 1 200 10), None], tb_notified := True\<rparr>,
     snd (alloc_link 1 demo_store))"
  "sit 2 150 ((table_new 9 default_table_config)\<lparr>tb_seats := [Some (demo_seat 1 200 10), None], tb_notified := True\<rparr>,
     snd (alloc_link 1 demo_store)) = Some (Inr 1, two_seated)"
  "tb_seats (fst two_seated) = [Some (demo_seat 1 200 10), Some (demo_seat 2 150 11)]"
  by (simp_all add: demo_table_defs two_seated_def demo_seat_def)

lemma two_seated_run: "table_step\<^sup>*\<^sup>* (table_new 9 default_table_config, demo_store) two_seated"
proof -
  let ?one = "((table_new 9 default_table_config)\<lparr>tb_seats := [Some (demo_seat 1 200 10), None], tb_notified := True\<rparr>,
       snd (alloc_link 1 demo_store))"
  have "table_step (table_new 9 default_table_config, demo_store) ?one"
    by (rule sits [OF _ two_seated_steps(1)]) simp
  moreover have "table_step ?one two_seated"
    by (rule sits [OF _ two_seated_steps(2)]) simp
  ultimately show ?thesis
    by (meson converse_rtranclp_into_rtranclp r_into_rtranclp)
qed

lemma two_seated_ok: "table_ok (fst two_seated) (snd two_seated)"
  using table_ok_run [OF two_seated_run] table_ok_new by (simp add: default_table_config_def)

theorem table_reachable_ok_witness:
  "table_step\<^sup>*\<^sup>* (table_new 9 default_table_config, demo_store) two_seated
   \<and> table_ok (fst two_seated) (snd two_seated) \<and> seated (fst two_seated) 1 = Some (demo_seat 2 150 11)"
  using table_reachable_ok [of default_table_config 9 demo_store "fst two_seated" "snd two_seated"] two_seated_run
  by (simp add: default_table_config_def seated_def two_seated_steps(3))

end
