(* ===== verification/TableHand.thy ===== *)
theory TableHand
  imports Sim TableInv
begin

text \<open>
  A hand at a table of the server: \<open>run_one_hand\<close> of \<open>table.rs\<close>, with a \<open>RemoteAgent\<close> in every seat and the
  broadcast sink, on the engine of this development, and one round of \<open>run_table\<close>.

  The engine runs on a blocking thread while the sessions go on.  A schedule says what they do to the
  store before each call of the engine into an agent or the sink and during each wait for an answer; the
  theorems hold for every schedule.  Stores whose prompts have channels are a type of their own, so
  that the agents satisfy the engine's interface.
\<close>

section \<open>Live stores\<close>

typedef live_store = "{s. store_inv s}" morphisms store_of live
  by (rule exI [of _ demo_store]) (simp add: demo_store_inv)

setup_lifting type_definition_live_store

lift_definition live_ops :: "session_op list \<Rightarrow> live_store \<Rightarrow> live_store"
  is "fold session_step"
  by (simp add: sessions_keep)

lift_definition live_act :: "session_op list \<Rightarrow> remote_agent \<Rightarrow> observation \<Rightarrow> live_store \<Rightarrow> action \<times> live_store"
  is remote_act
  using remote_act_ok by (auto simp: pred_prod_beta) (metis prod.collapse)

lemma calm_fold: "(\<And>x s. calm s (f x s)) \<Longrightarrow> calm s (fold f xs s)"
  by (induction xs arbitrary: s) (auto intro: calm_trans)

lemma calm_fan [simp]: "calm s (fan l m s)"
  unfolding fan_def Let_def by (rule calm_trans [OF calm_links(1) calm_try_send])

lemma calm_broadcast [simp]: "calm s (broadcast_all bs ev s)"
  unfolding broadcast_all_def by (rule calm_fold) simp

lemma calm_sink: "calm s (snd (sink_on_event to_vec ev (bs, s)))"
proof -
  have begins: "calm s (fold (\<lambda>l. replay_begin l h) ls s)" for h ls s by (rule calm_fold) simp
  have ends: "calm s (fold replay_end ls s)" for ls s by (rule calm_fold) simp
  have fans: "calm s (fold (\<lambda>(i, l). fan l (g i)) ils s)" for g ils s
    by (rule calm_fold) (auto split: prod.split)
  show ?thesis
    by (cases ev) (auto simp: sink_on_event_def Let_def send_to_def
        intro: calm_trans [OF begins calm_broadcast] calm_trans [OF fans ends])
qed

lift_definition live_sink ::
  "(engine_event \<Rightarrow> string + 8 word list) \<Rightarrow> engine_event \<Rightarrow> broadcast_sink \<times> live_store \<Rightarrow> broadcast_sink \<times> live_store"
  is sink_on_event
  using calm_store_inv [OF calm_sink] by (auto simp: pred_prod_beta)

section \<open>The agents and the sink as an environment of the engine\<close>

record hand_world =
  hw_store :: live_store
  hw_sink :: broadcast_sink
  hw_agents :: "nat \<Rightarrow> remote_agent"
  hw_schedule :: "session_op list list"

definition next_batch :: "hand_world \<Rightarrow> session_op list \<times> hand_world" where
  "next_batch w = (case hw_schedule w of [] \<Rightarrow> ([], w) | ops # rest \<Rightarrow> (ops, w\<lparr>hw_schedule := rest\<rparr>))"

definition meanwhile :: "hand_world \<Rightarrow> hand_world" where
  "meanwhile w = (let (ops, w') = next_batch w in w'\<lparr>hw_store := live_ops ops (hw_store w')\<rparr>)"

definition seat_act :: "nat \<Rightarrow> observation \<Rightarrow> hand_world \<Rightarrow> action \<times> hand_world" where
  "seat_act seat obs w0 =
     (let (ops, w) = next_batch (meanwhile w0);
          (a, s) = live_act ops (hw_agents w seat) obs (hw_store w)
      in (a, w\<lparr>hw_store := s\<rparr>))"

definition world_sink :: "(engine_event \<Rightarrow> string + 8 word list) \<Rightarrow> engine_event \<Rightarrow> hand_world \<Rightarrow> hand_world" where
  "world_sink to_vec ev w0 =
     (let w = meanwhile w0; (bs, s) = live_sink to_vec ev (hw_sink w, hw_store w)
      in w\<lparr>hw_sink := bs, hw_store := s\<rparr>)"

definition upd_agent :: "nat \<Rightarrow> (remote_agent \<Rightarrow> remote_agent) \<Rightarrow> hand_world \<Rightarrow> hand_world" where
  "upd_agent seat f w = w\<lparr>hw_agents := (hw_agents w)(seat := f (hw_agents w seat))\<rparr>"

definition remote_env :: "(engine_event \<Rightarrow> string + 8 word list) \<Rightarrow> hand_world env" where
  "remote_env to_vec =
     \<lparr>e_act = (\<lambda>seat obs w. Some (seat_act seat obs w)),
      e_sink = world_sink to_vec,
      e_on_event = (\<lambda>_ _ w. w),
      e_on_hand_start = (\<lambda>seat hand_id. upd_agent seat (remote_on_hand_start hand_id)),
      e_on_hand_end = (\<lambda>seat _. upd_agent seat remote_on_hand_end)\<rparr>"

lemma live_act_legal: "is_legal (o_legal_actions obs) (fst (live_act ops ag obs s))"
  by transfer (use remote_act_ok in \<open>metis prod.collapse\<close>)

lemma legal_answer: "is_legal la a \<Longrightarrow> answer_ok la a"
  by (auto simp: answer_ok_def)

interpretation remote: responsive "remote_env to_vec" for to_vec
proof
  fix obs :: observation and seat w
  have "is_legal (o_legal_actions obs) (fst (seat_act seat obs w))"
    by (simp add: seat_act_def Let_def split_beta live_act_legal)
  then show "ok (e_act (remote_env to_vec) seat obs w) (\<lambda>(a, _). answer_ok (o_legal_actions obs) a)"
    by (simp add: remote_env_def split_beta legal_answer)
qed

section \<open>One hand\<close>

text \<open>
  \<open>run_one_hand\<close>.  \<open>None\<close> is a hand whose engine thread panics or never returns.  The source turns a
  panic into an empty result; the theorem below shows that there is none.
\<close>

definition run_one_hand ::
  "('r \<Rightarrow> nat \<Rightarrow> nat \<times> 'r) \<Rightarrow> (64 word \<Rightarrow> 'r) \<Rightarrow> (card list \<Rightarrow> hand_rank option) \<Rightarrow>
     (engine_event \<Rightarrow> string + 8 word list) \<Rightarrow> table \<Rightarrow> betting_rules \<Rightarrow> running_snapshot \<Rightarrow> 64 word \<Rightarrow>
     session_op list list \<Rightarrow> live_store \<Rightarrow> (hand_result \<times> 8 word list \<times> live_store) option" where
  "run_one_hand gen_range seed_from_u64 rank_7 to_vec t rules snapshot deck_seed schedule s =
     do { let stacks = map sp_stack (rs_players snapshot);
          let links = map sp_link (rs_players snapshot);
          let table_seats = map sp_table_seat (rs_players snapshot);
          let agents = (\<lambda>seat. remote_agent_new (links ! seat) (tb_id t) (tc_action_deadline_ms (tb_config t)));
          (r, w) \<leftarrow> run_hand gen_range seed_from_u64 rank_7 rules (remote_env to_vec) (rs_hand_id snapshot)
             deck_seed stacks (rs_dealer snapshot) None
             \<lparr>hw_store = s, hw_sink = broadcast_sink_new (tb_id t) links, hw_agents = agents,
              hw_schedule = schedule\<rparr>;
          Some (r_with_table_seats table_seats r, bs_log (hw_sink w), hw_store w) }"

text \<open>A round of \<open>run_table\<close> after the quorum: the hand is called off when too few seats can post the blind.\<close>

definition start_hand :: "table \<Rightarrow> table + running_snapshot \<times> table" where
  "start_hand t =
     (let (snapshot, t') = take_running_snapshot t in
      if length (rs_players snapshot) < tc_min_seats (tb_config t) then Inl (t'\<lparr>tb_hand_in_progress := False\<rparr>)
      else Inr (snapshot, t'))"

definition finish_hand ::
  "player_id list \<Rightarrow> hand_result \<Rightarrow> table \<times> store \<Rightarrow> (table \<times> store) \<times> hand_seat_record list" where
  "finish_hand player_ids result ts = (apply_hand_result result ts, hand_seat_records player_ids result)"

section \<open>Snapshots\<close>

definition snapshot_seat :: "table \<Rightarrow> nat \<times> seat option \<Rightarrow> snapshot_player option" where
  "snapshot_seat t = (\<lambda>(i, slot). case slot of None \<Rightarrow> None
     | Some st \<Rightarrow> if se_stack st < tc_big_blind (tb_config t) then None
                 else Some \<lparr>sp_table_seat = i, sp_stack = se_stack st, sp_link = se_link st\<rparr>)"

lemma snapshot_players:
  assumes "take_running_snapshot t = (sn, t')"
  shows "rs_players sn = map (the \<circ> snapshot_seat t) (filter (\<lambda>x. snapshot_seat t x \<noteq> None) (enumerate 0 (tb_seats t)))"
    and "rs_hand_id sn = tb_next_hand_id t" and "t' = t\<lparr>tb_next_hand_id := tb_next_hand_id t + 1\<rparr>"
    and "rs_players sn \<noteq> [] \<Longrightarrow> rs_dealer sn < length (rs_players sn)"
  using assms
  by (auto simp: take_running_snapshot_def Let_def map_filter_def snapshot_seat_def split: option.splits
      dest!: position_SomeD)

lemma snapshot_seat_Some:
  "snapshot_seat t (i, slot) = Some p \<Longrightarrow> \<exists>a. slot = Some a \<and> sp_table_seat p = i \<and> sp_stack p = se_stack a
     \<and> sp_link p = se_link a \<and> tc_big_blind (tb_config t) \<le> se_stack a"
  by (auto simp: snapshot_seat_def split: option.splits if_splits)

lemma snapshot_player:
  assumes "take_running_snapshot t = (sn, t')" and "p \<in> set (rs_players sn)"
  shows "\<exists>a. seated t (sp_table_seat p) = Some a \<and> sp_stack p = se_stack a \<and> sp_link p = se_link a
     \<and> tc_big_blind (tb_config t) \<le> se_stack a"
proof -
  obtain i slot where "(i, slot) \<in> set (enumerate 0 (tb_seats t))" "snapshot_seat t (i, slot) = Some p"
    using assms(2) by (auto simp: snapshot_players(1) [OF assms(1)])
  then show ?thesis
    using snapshot_seat_Some [of t i slot p] by (auto simp: in_set_enumerate_eq seated_def)
qed

lemma snapshot_distinct:
  assumes "take_running_snapshot t = (sn, t')"
  shows "distinct (map sp_table_seat (rs_players sn))" and "length (rs_players sn) \<le> length (tb_seats t)"
proof -
  let ?xs = "filter (\<lambda>x. snapshot_seat t x \<noteq> None) (enumerate 0 (tb_seats t))"
  have "sp_table_seat (the (snapshot_seat t x)) = fst x" if "x \<in> set ?xs" for x
    using that snapshot_seat_Some [of t "fst x" "snd x"] by auto
  then have "map sp_table_seat (rs_players sn) = map fst ?xs"
    by (simp add: snapshot_players(1) [OF assms])
  then show "distinct (map sp_table_seat (rs_players sn))"
    using distinct_map_filter [of fst "enumerate 0 (tb_seats t)"] by simp
  show "length (rs_players sn) \<le> length (tb_seats t)"
    using length_filter_le [of _ "enumerate 0 (tb_seats t)"] by (simp add: snapshot_players(1) [OF assms])
qed

section \<open>Chips on the table\<close>

definition slot_chips :: "seat option \<Rightarrow> nat" where
  "slot_chips slot = (case slot of None \<Rightarrow> 0 | Some a \<Rightarrow> se_stack a)"

definition chips :: "seat option list \<Rightarrow> nat" where
  "chips seats = sum_list (map slot_chips seats)"

lemma chips_update:
  "i < length seats \<Longrightarrow> int (chips (seats[i := x])) = int (chips seats) - int (slot_chips (seats ! i)) + int (slot_chips x)"
  using sum_list_update_nat [of i "map slot_chips seats" "slot_chips x"]
  by (simp add: chips_def map_update)

text \<open>Outcomes whose seats are distinct and occupied and whose deltas fit the stacks.\<close>

definition payable :: "seat_outcome list \<Rightarrow> seat option list \<Rightarrow> bool" where
  "payable outs seats \<longleftrightarrow> distinct (map so_seat outs)
     \<and> (\<forall>out \<in> set outs. so_seat out < length seats \<and> (\<exists>a. seats ! so_seat out = Some a
          \<and> 0 \<le> int (se_stack a) + so_chip_delta out \<and> int (se_stack a) + so_chip_delta out < int u32_lim))"

definition pay_seat :: "seat_outcome list \<Rightarrow> nat \<Rightarrow> seat option \<Rightarrow> seat option" where
  "pay_seat outs i = map_option (\<lambda>a. a\<lparr>se_stack := nat (int (se_stack a) + delta_at outs i)\<rparr>)"

lemma apply_deltas_pay:
  "payable outs seats \<Longrightarrow>
     int (chips (fold apply_delta outs seats)) = int (chips seats) + sum_list (map so_chip_delta outs)
     \<and> (\<forall>i < length seats. fold apply_delta outs seats ! i = pay_seat outs i (seats ! i))"
proof (induction outs arbitrary: seats)
  case Nil
  have "pay_seat [] i x = x" for i x by (cases x) (simp_all add: pay_seat_def)
  then show ?case by simp
next
  case (Cons out outs)
  let ?k = "so_seat out"
  obtain a where a: "?k < length seats" "seats ! ?k = Some a" "0 \<le> int (se_stack a) + so_chip_delta out"
      "int (se_stack a) + so_chip_delta out < 4294967296"
    using Cons.prems by (auto simp: payable_def)
  let ?a = "a\<lparr>se_stack := nat (int (se_stack a) + so_chip_delta out)\<rparr>"
  have step: "apply_delta out seats = seats[?k := Some ?a]"
    using a by (simp add: apply_delta_def as_u32_id)
  have rest: "payable outs (seats[?k := Some ?a])"
    using Cons.prems a by (auto simp: payable_def nth_list_update)
  have "filter (\<lambda>o'. so_seat o' = ?k) outs = []"
    using Cons.prems by (auto simp: payable_def filter_empty_conv) (metis image_eqI)
  then have none: "delta_at outs ?k = 0" by (simp add: delta_at_def)
  have cons: "delta_at (out # outs) i = delta_at outs i + (if i = ?k then so_chip_delta out else 0)" for i
    by (simp add: delta_at_def)
  have "pay_seat (out # outs) i (seats ! i) = pay_seat outs i (seats[?k := Some ?a] ! i)" if "i < length seats" for i
    using a none by (cases "i = ?k") (simp_all add: pay_seat_def cons)
  then show ?case
    using Cons.IH [OF rest] a by (simp add: step chips_update slot_chips_def)
qed

section \<open>While a hand is on\<close>

text \<open>Players may sit down and leave while the engine plays; a leaving player's seat is only marked.\<close>

inductive player_step :: "table \<times> store \<Rightarrow> table \<times> store \<Rightarrow> bool" where
  "buy_in < u32_lim \<Longrightarrow> sit conn buy_in ts = Some (r, ts') \<Longrightarrow> player_step ts ts'"
| "leave p t = (r, t') \<Longrightarrow> player_step (t, s) (t', s)"
| "player_step ts (force_leave p sid ts)"

definition marked :: "seat \<Rightarrow> seat \<Rightarrow> bool" where
  "marked a b \<longleftrightarrow> b = a\<lparr>se_leave_pending := se_leave_pending b\<rparr>"

definition kept :: "table \<Rightarrow> table \<Rightarrow> bool" where
  "kept t t' \<longleftrightarrow> tb_hand_in_progress t' \<and> tb_config t' = tb_config t \<and> length (tb_seats t') = length (tb_seats t)
     \<and> (\<forall>i a. seated t i = Some a \<longrightarrow> (\<exists>b. seated t' i = Some b \<and> marked a b))"

lemma marked_trans: "marked a b \<Longrightarrow> marked b c \<Longrightarrow> marked a c"
  by (cases a; cases b; cases c) (simp add: marked_def)

lemma kept_refl: "tb_hand_in_progress t \<Longrightarrow> kept t t"
  by (simp add: kept_def marked_def)

lemma kept_trans: "kept t t' \<Longrightarrow> kept t' t'' \<Longrightarrow> kept t t''"
  unfolding kept_def by (metis marked_trans)

lemma kept_vacate: "tb_hand_in_progress t \<Longrightarrow> i < length (tb_seats t) \<Longrightarrow> kept t (notify_one (vacate i t))"
proof -
  assume on: "tb_hand_in_progress t" and i: "i < length (tb_seats t)"
  have "\<exists>b. seated (vacate i t) j = Some b \<and> marked a b" if "seated t j = Some a" for j a
    using that on by (cases "j = i") (simp_all add: vacate_seats(1) [OF i] marked_def)
  then show ?thesis using on by (simp add: kept_def notify_one_def vacate_seats(2-))
qed

lemma kept_step: "player_step ts ts' \<Longrightarrow> tb_hand_in_progress (fst ts) \<Longrightarrow> kept (fst ts) (fst ts')"
proof (induction rule: player_step.induct)
  case (1 buy_in conn ts r ts')
  obtain t s where ts: "ts = (t, s)" by (cases ts)
  have "fst ts' = t \<or> (\<exists>i a. position (\<lambda>slot. slot = None) (tb_seats t) = Some i
      \<and> fst ts' = notify_one (t\<lparr>tb_seats := (tb_seats t)[i := Some a]\<rparr>))"
    using 1(2) by (auto simp: ts sit_def Let_def alloc_link_def split: bind_splits if_splits option.splits)
  then show ?case
  proof
    assume "\<exists>i a. position (\<lambda>slot. slot = None) (tb_seats t) = Some i
      \<and> fst ts' = notify_one (t\<lparr>tb_seats := (tb_seats t)[i := Some a]\<rparr>)"
    then obtain i a where i: "i < length (tb_seats t)" "seated t i = None"
        and t': "fst ts' = notify_one (t\<lparr>tb_seats := (tb_seats t)[i := Some a]\<rparr>)"
      by (auto dest!: position_SomeD simp: seated_def)
    then show ?thesis
      using 1(3) by (auto simp: ts t' kept_def notify_one_def seated_update marked_def)
  qed (use 1(3) in \<open>simp add: ts kept_refl\<close>)
next
  case (2 p t r t' s)
  then show ?case
    by (auto simp: leave_def kept_refl kept_vacate split: option.splits dest!: position_SomeD)
next
  case (3 ts p sid)
  then show ?case
    by (cases ts) (auto simp: force_leave_def Let_def kept_refl kept_vacate split: option.splits if_splits
        dest!: position_SomeD)
qed

lemma kept_steps: "player_step\<^sup>*\<^sup>* ts ts' \<Longrightarrow> tb_hand_in_progress (fst ts) \<Longrightarrow> kept (fst ts) (fst ts')"
proof (induction rule: rtranclp_induct)
  case (step ts' ts'')
  then have "kept (fst ts) (fst ts')" by simp
  moreover from this have "tb_hand_in_progress (fst ts')" by (simp add: kept_def)
  ultimately show ?case using kept_step [OF step(2)] kept_trans by blast
qed (simp add: kept_refl)

section \<open>A hand of remote players\<close>

text \<open>The rules of the table's engine are those of its configuration, and its chips fit the engine.\<close>

definition hand_fits :: "betting_rules \<Rightarrow> table \<Rightarrow> bool" where
  "hand_fits rules t \<longleftrightarrow>
     r_ante rules = 0 \<and> r_big_blind rules = tc_big_blind (tb_config t) \<and> r_small_blind rules \<le> r_big_blind rules
     \<and> tc_max_seats (tb_config t) \<le> 23 \<and> 2 \<le> tc_min_seats (tb_config t)
     \<and> 8 * (chips (tb_seats t) + tc_big_blind (tb_config t)) < u32_lim"

lemma stacks_le_chips:
  assumes "distinct ks" and "\<forall>k \<in> set ks. k < length seats"
  shows "sum_list (map (\<lambda>k. slot_chips (seats ! k)) ks) \<le> chips seats"
proof -
  have "sum_list (map (\<lambda>k. slot_chips (seats ! k)) ks) = (\<Sum>k \<in> set ks. slot_chips (seats ! k))"
    using assms(1) by (simp add: sum_list_distinct_conv_sum_set)
  also have "\<dots> \<le> (\<Sum>k \<in> {..< length seats}. slot_chips (seats ! k))"
    using assms(2) by (intro sum_mono2) auto
  also have "\<dots> = chips seats"
    by (simp add: chips_def sum_list_sum_nth atLeast0LessThan)
  finally show ?thesis .
qed

lemma snapshot_playable:
  assumes "table_ok t s" and "hand_fits rules t" and start: "start_hand t = Inr (sn, t')"
  shows "playable rules (map sp_stack (rs_players sn)) (rs_dealer sn) None"
    and "\<forall>x \<in> set (map sp_stack (rs_players sn)). 0 < x"
proof -
  let ?stacks = "map sp_stack (rs_players sn)" and ?seats = "map sp_table_seat (rs_players sn)"
  have sn: "take_running_snapshot t = (sn, t')" and many: "2 \<le> length (rs_players sn)"
    using start assms(2) by (auto simp: start_hand_def hand_fits_def Let_def split: prod.splits if_splits)
  note p = snapshot_player [OF sn]
  show pos: "\<forall>x \<in> set ?stacks. 0 < x"
    using p assms(1) by (fastforce simp: table_ok_def)
  have "?stacks = map (\<lambda>k. slot_chips (tb_seats t ! k)) ?seats"
    using p by (fastforce simp: slot_chips_def seated_def split: if_splits)
  moreover have "\<forall>k \<in> set ?seats. k < length (tb_seats t)"
    using p by (fastforce simp: seated_def split: if_splits)
  ultimately have "sum_list ?stacks \<le> chips (tb_seats t)"
    using stacks_le_chips [OF snapshot_distinct(1) [OF sn]] by metis
  moreover have "rs_dealer sn < length ?stacks"
    using snapshot_players(4) [OF sn] many by fastforce
  moreover have "length ?stacks \<le> 23"
    using snapshot_distinct(2) [OF sn] assms(1,2) by (simp add: table_ok_def hand_fits_def)
  moreover have "filter (\<lambda>j. 0 < ?stacks ! j \<and> plays None j) [0..<length ?stacks] = [0..<length ?stacks]"
    using pos by (auto simp: plays_def intro!: filter_True)
  ultimately show "playable rules ?stacks (rs_dealer sn) None"
    using assms(1,2) many by (simp add: playable_def hand_fits_def table_ok_def)
qed

lemma remapped_fair:
  assumes fair: "fair_result hid stacks res" and pos: "\<forall>x \<in> set stacks. 0 < x"
    and len: "length seats = length stacks"
  shows "map so_seat (hr_seats (r_with_table_seats seats res)) = seats"
    and "map so_chip_delta (hr_seats (r_with_table_seats seats res)) = map so_chip_delta (hr_seats res)"
proof -
  have "map so_seat (hr_seats res) = [0..<length stacks]"
    using fair pos by (simp add: fair_result_def filter_True)
  from arg_cong [OF this, of "map ((!) seats)"]
  have "map (\<lambda>out. seats ! so_seat out) (hr_seats res) = map ((!) seats) [0..<length stacks]"
    by (simp add: o_def)
  moreover have "so_seat out < length seats" if "out \<in> set (hr_seats res)" for out
    using fair_stack_bound(1) [OF fair that] len by simp
  ultimately show "map so_seat (hr_seats (r_with_table_seats seats res)) = seats"
    using len map_nth [of seats] by (simp add: r_with_table_seats_def o_def cong: map_cong)
  show "map so_chip_delta (hr_seats (r_with_table_seats seats res)) = map so_chip_delta (hr_seats res)"
    by (simp add: r_with_table_seats_def)
qed

lemma hand_seat_records_seats: "map hs_seat (hand_seat_records ids res) = map so_seat (hr_seats res)"
  by (rule nth_equalityI) (simp_all add: hand_seat_records_def nth_enumerate_eq)

lemma snapshot_payable:
  assumes "table_ok t s" and "hand_fits rules t" and start: "start_hand t = Inr (sn, t')" and "kept t' t2"
    and fair: "fair_result hid (map sp_stack (rs_players sn)) res"
  shows "payable (hr_seats (r_with_table_seats (map sp_table_seat (rs_players sn)) res)) (tb_seats t2)"
proof -
  let ?players = "rs_players sn" and ?res = "r_with_table_seats (map sp_table_seat (rs_players sn)) res"
  let ?stacks = "map sp_stack ?players"
  have sn: "take_running_snapshot t = (sn, t')"
    using start by (auto simp: start_hand_def Let_def split: prod.splits if_splits)
  note play = snapshot_playable [OF assms(1-3)]
  note remap = remapped_fair [OF fair play(2), of "map sp_table_seat ?players"]
  have "\<exists>a. so_seat out < length (tb_seats t2) \<and> tb_seats t2 ! so_seat out = Some a
      \<and> 0 \<le> int (se_stack a) + so_chip_delta out \<and> int (se_stack a) + so_chip_delta out < int u32_lim"
    if out: "out \<in> set (hr_seats ?res)" for out
  proof -
    obtain o' where o': "o' \<in> set (hr_seats res)" "so_chip_delta out = so_chip_delta o'"
        and seat: "so_seat out = sp_table_seat (?players ! so_seat o')" and i: "so_seat o' < length ?players"
      using out fair_stack_bound(1) [OF fair] by (auto simp: r_with_table_seats_def)
    from snapshot_player [OF sn nth_mem [OF i]]
    obtain a where a: "seated t (so_seat out) = Some a" "sp_stack (?players ! so_seat o') = se_stack a"
      by (auto simp: seat)
    moreover have "seated t' = seated t" using snapshot_players(3) [OF sn] by simp
    ultimately obtain b where b: "seated t2 (so_seat out) = Some b" "marked a b"
      using assms(4) unfolding kept_def by metis
    have stack: "se_stack b = ?stacks ! so_seat o'"
      using a(2) b(2) i by (cases a; cases b) (simp add: marked_def)
    have "sum_list ?stacks < u32_lim"
      using play(1) by (simp add: playable_def)
    then show ?thesis
      using fair_stack_bound(2,3) [OF fair o'(1)] b(1) o'(2)
      by (auto simp: seated_def stack split: if_splits)
  qed
  moreover have "distinct (map so_seat (hr_seats ?res))"
    using remap(1) snapshot_distinct(1) [OF sn] by simp
  ultimately show ?thesis unfolding payable_def by blast
qed

text \<open>
  (C7) A hand among remote players always ends and loses no chip.  Take a consistent table that starts a hand
  (enough seats can post the blind).  Whatever the clients and their sessions do while it runs
  (answer late, illegally or never, leave, drop, reconnect from elsewhere) and whoever sits
  down or leaves meanwhile, \<open>run_one_hand\<close> returns a result whose deltas sum to zero.  Applying it ends
  the hand, gives every seat exactly its stack plus its delta, keeps the chips on the table, and
  vacates exactly the seats that are broke or asked to leave; and one row per player is recorded.
\<close>

theorem networked_hand_settles:
  assumes "draws_in_range gen_range" and "hand_evaluator rank_7"
    and "table_ok t s" and "hand_fits rules t" and "tb_hand_in_progress t"
    and "start_hand t = Inr (sn, t1)" and "player_step\<^sup>*\<^sup>* (t1, s1) (t2, s2)"
  shows "\<exists>res log st. run_one_hand gen_range seed_from_u64 rank_7 to_vec t rules sn deck_seed schedule live_st
       = Some (res, log, st)
     \<and> (let ((t3, s3), rows) = finish_hand player_ids res (t2, s2);
            paid = map (\<lambda>i. pay_seat (hr_seats res) i (tb_seats t2 ! i)) [0..<length (tb_seats t2)]
        in \<not> tb_hand_in_progress t3 \<and> tb_seats t3 = map settle_slot paid
         \<and> chips paid = chips (tb_seats t2) \<and> sum_list (map so_chip_delta (hr_seats res)) = 0
         \<and> map hs_seat rows = map sp_table_seat (rs_players sn))"
proof -
  let ?players = "rs_players sn"
  let ?seats = "map sp_table_seat ?players" and ?stacks = "map sp_stack ?players"
  note play = snapshot_playable [OF assms(3,4,6)]
  have "hand_players (remote_env to_vec) rank_7"
    using remote.responsive_axioms assms(2) by (simp add: hand_players_def)
  from hand_players.run_hand_ok [OF this assms(1) play(1)]
  obtain r w where run: "run_hand gen_range seed_from_u64 rank_7 rules (remote_env to_vec) (rs_hand_id sn) deck_seed
      ?stacks (rs_dealer sn) None \<lparr>hw_store = live_st, hw_sink = broadcast_sink_new (tb_id t) (map sp_link ?players),
        hw_agents = (\<lambda>seat. remote_agent_new (map sp_link ?players ! seat) (tb_id t) (tc_action_deadline_ms (tb_config t))),
        hw_schedule = schedule\<rparr> = Some (r, w)"
      and fair: "fair_result (rs_hand_id sn) ?stacks r"
    by (fastforce simp: ok_def)
  define res where "res = r_with_table_seats ?seats r"
  define paid where "paid = map (\<lambda>i. pay_seat (hr_seats res) i (tb_seats t2 ! i)) [0..<length (tb_seats t2)]"
  have t1: "tb_hand_in_progress t1"
    using assms(5,6) by (auto simp: start_hand_def take_running_snapshot_def Let_def split: if_splits)
  have kept: "kept t1 t2" using kept_steps [OF assms(7)] t1 by simp
  note remap = remapped_fair [OF fair play(2), of ?seats, folded res_def]
  have "payable (hr_seats res) (tb_seats t2)"
    unfolding res_def by (rule snapshot_payable [OF assms(3,4,6) kept fair])
  note pay = apply_deltas_pay [OF this]
  have paid: "fold apply_delta (hr_seats res) (tb_seats t2) = paid"
    using pay list_all2_lengthD [OF apply_deltas_restacked [of "tb_seats t2" "hr_seats res"]]
    by (intro nth_equalityI) (simp_all add: paid_def)
  have zero: "sum_list (map so_chip_delta (hr_seats res)) = 0"
    using fair remap(2) by (simp add: fair_result_def)
  have "run_one_hand gen_range seed_from_u64 rank_7 to_vec t rules sn deck_seed schedule live_st
       = Some (res, bs_log (hw_sink w), hw_store w)"
    using run by (simp add: run_one_hand_def Let_def res_def)
  moreover have "map hs_seat (hand_seat_records player_ids res) = ?seats"
    using remap(1) by (simp add: hand_seat_records_seats)
  moreover have "chips paid = chips (tb_seats t2)"
    using pay zero by (simp add: paid)
  ultimately show ?thesis
    using zero by (simp add: finish_hand_def apply_hand_result_def Let_def paid del: map_map flip: paid_def)
qed

definition hand_table :: table where
  "hand_table = (fst two_seated)\<lparr>tb_hand_in_progress := True\<rparr>"

definition hand_snapshot :: running_snapshot where
  "hand_snapshot = \<lparr>rs_hand_id = 1, rs_players =
     [\<lparr>sp_table_seat = 0, sp_stack = 200, sp_link = 10\<rparr>, \<lparr>sp_table_seat = 1, sp_stack = 150, sp_link = 11\<rparr>],
     rs_dealer = 0\<rparr>"

lemma two_seated_config:
  "tb_config (fst two_seated) = default_table_config" "tb_next_hand_id (fst two_seated) = 1"
  "tb_button (fst two_seated) = 0"
  by (simp_all add: demo_table_defs two_seated_def)

lemma hand_table_starts:
  "start_hand hand_table = Inr (hand_snapshot, hand_table\<lparr>tb_next_hand_id := 2\<rparr>)"
  by (simp add: start_hand_def take_running_snapshot_def hand_table_def two_seated_steps(3) two_seated_config
      demo_seat_def default_table_config_def hand_snapshot_def map_filter_simps)

theorem networked_hand_settles_witness:
  "\<exists>res log st. run_one_hand first_card (\<lambda>_. ()) best_of_7 (\<lambda>_. Inl ''too big'') hand_table (no_limit_holdem 1 2 2)
       hand_snapshot 42 [[Cancel 1], [Deliver 2 9 1 (Raise 8)], [Splice 30000 11 5]] (live demo_store) = Some (res, log, st)
     \<and> sum_list (map so_chip_delta (hr_seats res)) = 0
     \<and> \<not> tb_hand_in_progress (fst (apply_hand_result res
           (snd (leave 2 (hand_table\<lparr>tb_next_hand_id := 2\<rparr>)), snd two_seated)))"
proof -
  have ok: "table_ok hand_table (snd two_seated)"
    using two_seated_ok by (simp add: hand_table_def)
  have fits: "hand_fits (no_limit_holdem 1 2 2) hand_table"
    by (simp add: hand_fits_def no_limit_holdem_def hand_table_def two_seated_config two_seated_steps(3)
        default_table_config_def chips_def slot_chips_def demo_seat_def)
  have on: "tb_hand_in_progress hand_table" by (simp add: hand_table_def)
  let ?t1 = "hand_table\<lparr>tb_next_hand_id := 2\<rparr>"
  have "player_step\<^sup>*\<^sup>* (?t1, snd two_seated) (snd (leave 2 ?t1), snd two_seated)"
    by (intro r_into_rtranclp player_step.intros(2) [OF surjective_pairing])
  from networked_hand_settles [OF first_card_draws naive.hand_evaluator_axioms ok fits on hand_table_starts this,
      of "\<lambda>_. ()" "\<lambda>_. Inl ''too big''" 42 "[[Cancel 1], [Deliver 2 9 1 (Raise 8)], [Splice 30000 11 5]]" "live demo_store" "[1, 2]"]
  show ?thesis by (fastforce simp: finish_hand_def Let_def split_beta)
qed

end
