(* ===== verification/TableView.thy ===== *)
theory TableView
  imports TableInv
begin

text \<open>
  What the players of a hand get to see.  \<open>seen\<close> is the specification of the broadcast sink: the events of a
  hand as one seat may see them.  The sink refines it, and no card that a seat may not see has any influence
  on what is sent to it.
\<close>

section \<open>The view of one seat\<close>

text \<open>
  Seat \<open>k\<close> of \<open>n\<close> sees its own cards, and at the end of the hand those of the seats that did not fold, if
  all five board cards were dealt and at least two seats did not fold.
\<close>

definition may_see :: "nat \<Rightarrow> nat \<Rightarrow> nat set \<Rightarrow> nat \<Rightarrow> nat \<Rightarrow> bool" where
  "may_see k n folded board j \<longleftrightarrow> j = k \<or> 5 \<le> board \<and> j \<notin> folded \<and> 2 \<le> card ({..< n} - folded)"

definition reveal :: "(nat \<Rightarrow> bool) \<Rightarrow> hand_result \<Rightarrow> hand_result" where
  "reveal visible r =
     r\<lparr>hr_seats := map (\<lambda>out. if visible (so_seat out) then out else out\<lparr>so_hole_cards := None\<rparr>) (hr_seats r)\<rparr>"

fun seen :: "nat \<Rightarrow> nat \<Rightarrow> nat set \<Rightarrow> nat \<Rightarrow> engine_event list \<Rightarrow> engine_event list" where
  "seen k n F b [] = []"
| "seen k n F b (HoleCardsDealt j cs # evs) = (if j = k then [HoleCardsDealt j cs] else []) @ seen k n F b evs"
| "seen k n F b (ActionTaken j a p # evs) = ActionTaken j a p # seen k n (if a = Fold then insert j F else F) b evs"
| "seen k n F b (BoardDealt st cs # evs) = BoardDealt st cs # seen k n F (b + length cs) evs"
| "seen k n F b (HandEnded h r # evs) = HandEnded h (reveal (may_see k n F b) r) # seen k n {} 0 evs"
| "seen k n F b (HandStarted h d sd # evs) = HandStarted h d sd # seen k n F b evs"
| "seen k n F b (PlayerAllIn j a # evs) = PlayerAllIn j a # seen k n F b evs"

lemma filtered_is_reveal:
  "filtered_hand_end bs (Some k) r = reveal (may_see k (length (bs_links bs)) (bs_folded bs) (bs_board_cards bs)) r"
proof -
  have "length (filter (\<lambda>i. i \<notin> F) [0..<n]) = card ({..< n} - F)" for n :: nat and F
  proof -
    have "set (filter (\<lambda>i. i \<notin> F) [0..<n]) = {..< n} - F" by auto
    then show ?thesis by (metis distinct_card distinct_filter distinct_upt)
  qed
  then show ?thesis
    by (auto simp: filtered_hand_end_def reveal_def showdown_reached_def may_see_def Let_def)
qed

section \<open>Queues of the seats\<close>

definition outq :: "nat \<Rightarrow> store \<Rightarrow> server_message list" where
  "outq l s = cn_out (s_conn s (link_current l s))"

text \<open>The links lead to different connections, each with a live writer and room for \<open>room\<close> messages.\<close>

definition wired :: "nat list \<Rightarrow> nat \<Rightarrow> store \<Rightarrow> bool" where
  "wired links room s \<longleftrightarrow> distinct (map (\<lambda>l. link_current l s) links)
     \<and> (\<forall>l \<in> set links. cn_out_open (s_conn s (link_current l s)) \<and> length (outq l s) + room \<le> OUTBOUND_CAPACITY)"

text \<open>Steps that keep all links and writers.\<close>

definition steady :: "store \<Rightarrow> store \<Rightarrow> bool" where
  "steady s s' \<longleftrightarrow> (\<forall>l. link_current l s' = link_current l s)
     \<and> (\<forall>c. cn_out_open (s_conn s' c) = cn_out_open (s_conn s c))"

lemma steady_refl [simp]: "steady s s"
  by (simp add: steady_def)

lemma steady_trans: "steady s s' \<Longrightarrow> steady s' s'' \<Longrightarrow> steady s s''"
  by (simp add: steady_def)

lemma replay_outq [simp]:
  "outq l (replay_push l' m s) = outq l s" "outq l (replay_begin l' h s) = outq l s" "outq l (replay_end l' s) = outq l s"
  by (simp_all add: outq_def store_defs link_current_def)

lemma steady_replay [simp]:
  "steady s (replay_push l' m s)" "steady s (replay_begin l' h s)" "steady s (replay_end l' s)"
  by (simp_all add: steady_def store_defs link_current_def)

lemma steady_send [simp]: "steady s (try_send c m s)"
  by (simp add: steady_def try_send_def upd_conn_def link_current_def)

lemma steady_fan [simp]: "steady s (fan l m s)"
  unfolding fan_def Let_def by (rule steady_trans [OF steady_replay(1) steady_send])

lemma steady_fold: "(\<And>x s. steady s (f x s)) \<Longrightarrow> steady s (fold f xs s)"
  by (induction xs arbitrary: s) (auto simp: steady_def)

lemma outq_fan:
  "outq l' (fan l m s) = (if link_current l' s = link_current l s
       \<and> cn_out_open (s_conn s (link_current l s)) \<and> length (outq l s) < OUTBOUND_CAPACITY
     then outq l' s @ [m] else outq l' s)"
  by (simp add: fan_def Let_def outq_def try_send_def upd_conn_def store_defs link_current_def)

lemma wired_steady:
  "wired links room s \<Longrightarrow> steady s s' \<Longrightarrow> (\<And>l. l \<in> set links \<Longrightarrow> length (outq l s') + room' \<le> length (outq l s) + room)
     \<Longrightarrow> wired links room' s'"
  by (fastforce simp: wired_def steady_def)

text \<open>Fanning one message to each link.\<close>

lemma outq_fans:
  assumes "wired links (Suc room) s" and "length ms = length links"
  shows "k < length links \<Longrightarrow> outq (links ! k) (fold (\<lambda>(l, m). fan l m) (zip links ms) s) = outq (links ! k) s @ [ms ! k]"
    and "link_current l s \<notin> set (map (\<lambda>l. link_current l s) links) \<Longrightarrow>
      outq l (fold (\<lambda>(l, m). fan l m) (zip links ms) s) = outq l s"
proof -
  have "(\<forall>k < length links. outq (links ! k) (fold (\<lambda>(l, m). fan l m) (zip links ms) s) = outq (links ! k) s @ [ms ! k])
      \<and> (\<forall>l. link_current l s \<notin> set (map (\<lambda>l. link_current l s) links) \<longrightarrow>
      outq l (fold (\<lambda>(l, m). fan l m) (zip links ms) s) = outq l s)"
    using assms
  proof (induction links arbitrary: ms s)
    case (Cons l links)
    obtain m ms' where ms: "ms = m # ms'" using Cons.prems(2) by (cases ms) auto
    let ?s = "fan l m s"
    have cur: "link_current l' ?s = link_current l' s" for l'
      using steady_fan [of s l m] by (simp add: steady_def)
    have fresh: "link_current l s \<notin> set (map (\<lambda>l. link_current l s) links)"
      using Cons.prems(1) by (simp add: wired_def)
    have others: "outq l' ?s = outq l' s" if "link_current l' s \<noteq> link_current l s" for l'
      using that by (simp add: outq_fan)
    have own: "outq l ?s = outq l s @ [m]"
      using Cons.prems(1) by (simp add: outq_fan wired_def)
    have w: "wired links (Suc room) s" using Cons.prems(1) by (simp add: wired_def)
    have "outq l' ?s = outq l' s" if "l' \<in> set links" for l'
      using fresh imageI [OF that, of "\<lambda>l. link_current l s"] by (intro others) auto
    then have "wired links (Suc room) ?s" by (intro wired_steady [OF w steady_fan]) simp
    note IH = Cons.IH [OF this, of ms'] 
    have "outq ((l # links) ! k) (fold (\<lambda>(l, m). fan l m) (zip (l # links) ms) s) = outq ((l # links) ! k) s @ [ms ! k]"
      if "k < length (l # links)" for k
    proof (cases k)
      case 0
      then show ?thesis using IH Cons.prems(2) fresh own by (simp add: ms cur)
    next
      case (Suc j)
      then have "link_current (links ! j) s \<in> (\<lambda>l. link_current l s) ` set links" using that by simp
      then have "link_current (links ! j) s \<noteq> link_current l s" using fresh by auto
      then show ?thesis using IH Cons.prems(2) that Suc by (simp add: ms others)
    qed
    moreover have "outq l' (fold (\<lambda>(l, m). fan l m) (zip (l # links) ms) s) = outq l' s"
      if "link_current l' s \<notin> set (map (\<lambda>l. link_current l s) (l # links))" for l'
      using IH Cons.prems(2) that by (simp add: ms cur others)
    ultimately show ?case by blast
  qed simp
  then show "k < length links \<Longrightarrow> outq (links ! k) (fold (\<lambda>(l, m). fan l m) (zip links ms) s) = outq (links ! k) s @ [ms ! k]"
    and "link_current l s \<notin> set (map (\<lambda>l. link_current l s) links) \<Longrightarrow>
      outq l (fold (\<lambda>(l, m). fan l m) (zip links ms) s) = outq l s"
    by blast+
qed

section \<open>The sink refines the view\<close>

lemma steady_sink: "steady s (snd (sink_on_event to_vec ev (bs, s)))"
proof -
  have begins: "steady s (fold (\<lambda>l. replay_begin l h) ls s)" for h ls s by (rule steady_fold) simp
  have ends: "steady s (fold replay_end ls s)" for ls s by (rule steady_fold) simp
  have fans: "steady s (fold (\<lambda>(i, l). fan l (g i)) ils s)" for g ils s
    by (rule steady_fold) (auto split: prod.split)
  have all: "steady s (broadcast_all bs' ev' s)" for bs' ev' s
    unfolding broadcast_all_def by (rule steady_fold) simp
  show ?thesis
    by (cases ev) (auto simp: sink_on_event_def Let_def send_to_def all
        intro: steady_trans [OF begins all] steady_trans [OF fans ends])
qed

lemma outq_begins [simp]:
  "outq l (fold (\<lambda>l'. replay_begin l' h) ls s) = outq l s" "outq l (fold replay_end ls s) = outq l s"
  by (induction ls arbitrary: s) simp_all

lemma broadcast_zip:
  "broadcast_all bs ev s
   = fold (\<lambda>(l, m). fan l m) (zip (bs_links bs) (replicate (length (bs_links bs)) (STableEvent (bs_table_id bs) ev))) s"
proof -
  have "fold (\<lambda>l. fan l m) ls s = fold (\<lambda>(l, m). fan l m) (zip ls (replicate (length ls) m)) s" for ls m
    by (induction ls arbitrary: s) simp_all
  then show ?thesis by (simp add: broadcast_all_def)
qed

lemma enumerate_zip:
  "fold (\<lambda>(i, l). fan l (g i)) (enumerate j ls) s
   = fold (\<lambda>(l, m). fan l m) (zip ls (map g [j..<j + length ls])) s"
proof (induction ls arbitrary: s j)
  case (Cons l ls)
  have "[j..<j + length (l # ls)] = j # [Suc j..<Suc j + length ls]"
    by (subst upt_conv_Cons) simp_all
  then show ?case using Cons.IH [of "Suc j"] by simp
qed simp

text \<open>What one event adds to the queue of seat \<open>k\<close>, and the sink's record of the public state.\<close>

definition sink_of :: "broadcast_sink \<Rightarrow> nat list \<Rightarrow> table_id \<Rightarrow> nat set \<Rightarrow> nat \<Rightarrow> bool" where
  "sink_of bs links tid F b \<longleftrightarrow> bs_links bs = links \<and> bs_table_id bs = tid \<and> bs_folded bs = F \<and> bs_board_cards bs = b"

lemma sink_of_record [simp]: "sink_of (record_event to_vec ev bs) links tid F b = sink_of bs links tid F b"
  by (simp add: sink_of_def record_event_def split: sum.split)

definition adds ::
  "nat list \<Rightarrow> table_id \<Rightarrow> (nat \<Rightarrow> engine_event list) \<Rightarrow> store \<Rightarrow> store \<Rightarrow> bool" where
  "adds links tid ms s s' \<longleftrightarrow>
     (\<forall>k < length links. outq (links ! k) s' = outq (links ! k) s @ map (STableEvent tid) (ms k))"

text \<open>The events that reach seat \<open>k\<close> for one event of the engine, and the public state after it.\<close>

fun shown :: "nat \<Rightarrow> nat set \<Rightarrow> nat \<Rightarrow> engine_event \<Rightarrow> nat \<Rightarrow> engine_event list" where
  "shown n F b (HoleCardsDealt j cs) k = (if j = k then [HoleCardsDealt j cs] else [])"
| "shown n F b (HandEnded h r) k = [HandEnded h (reveal (may_see k n F b) r)]"
| "shown n F b ev k = [ev]"

fun public_state :: "engine_event \<Rightarrow> nat set \<times> nat \<Rightarrow> nat set \<times> nat" where
  "public_state (ActionTaken j a p) (F, b) = (if a = Fold then insert j F else F, b)"
| "public_state (BoardDealt st cs) (F, b) = (F, b + length cs)"
| "public_state (HandEnded h r) (F, b) = ({}, 0)"
| "public_state ev (F, b) = (F, b)"

lemma seen_Cons:
  "seen k n F b (ev # evs) = shown n F b ev k @ seen k n (fst (public_state ev (F, b))) (snd (public_state ev (F, b))) evs"
  by (cases ev) simp_all

lemma adds_broadcast:
  assumes "wired links (Suc room) t" and "bs_links bs = links" and "bs_table_id bs = tid"
    and "\<And>l. outq l t = outq l s" and "\<And>k. ms k = [ev]"
  shows "adds links tid ms s (broadcast_all bs ev t)"
  using outq_fans(1) [OF assms(1), of "replicate (length links) (STableEvent tid ev)"] assms
  by (simp add: adds_def broadcast_zip)

lemma sink_event_step:
  assumes bs: "sink_of bs links tid F b" and w: "wired links (Suc room) s"
    and step: "sink_on_event to_vec ev (bs, s) = (bs', s')"
  shows "sink_of bs' links tid (fst (public_state ev (F, b))) (snd (public_state ev (F, b)))"
    and "adds links tid (shown (length links) F b ev) s s'"
proof -
  have rec: "bs_links (record_event to_vec ev bs) = links" "bs_table_id (record_event to_vec ev bs) = tid"
      "bs_folded (record_event to_vec ev bs) = F" "bs_board_cards (record_event to_vec ev bs) = b"
    using bs sink_of_record [of to_vec ev bs links tid F b] by (simp_all add: sink_of_def)
  show "sink_of bs' links tid (fst (public_state ev (F, b))) (snd (public_state ev (F, b)))"
    using step rec by (cases ev) (auto simp: sink_on_event_def Let_def sink_of_def)
  show "adds links tid (shown (length links) F b ev) s s'"
  proof (cases ev)
    case (HandStarted h d sd)
    let ?t = "fold (\<lambda>link. replay_begin link h) links s"
    have "steady s ?t" by (rule steady_fold) simp
    then have t: "wired links (Suc room) ?t" by (rule wired_steady [OF w]) simp
    show ?thesis
      using step rec adds_broadcast [OF t rec(1,2), of s] by (auto simp: HandStarted sink_on_event_def Let_def)
  next
    case (HoleCardsDealt j cs)
    have "outq (links ! k) (send_to (record_event to_vec ev bs) j ev s)
        = outq (links ! k) s @ map (STableEvent tid) (if j = k then [ev] else [])" if k: "k < length links" for k
    proof -
      have "length (outq (links ! k) s) < OUTBOUND_CAPACITY" "cn_out_open (s_conn s (link_current (links ! k) s))"
        using w nth_mem [OF k] by (force simp: wired_def)+
      moreover have "link_current (links ! k) s = link_current (links ! j) s \<longleftrightarrow> j = k" if "j < length links"
        using w k that nth_eq_iff_index_eq [of "map (\<lambda>l. link_current l s) links" k j] by (auto simp: wired_def)
      ultimately show ?thesis using k rec(1,2) by (simp add: send_to_def outq_fan)
    qed
    then show ?thesis
      using step by (auto simp: HoleCardsDealt sink_on_event_def Let_def adds_def)
  next
    case (ActionTaken j a p)
    show ?thesis
      using step rec adds_broadcast [OF w, of _ tid s] by (auto simp: ActionTaken sink_on_event_def Let_def)
  next
    case (BoardDealt st cs)
    show ?thesis
      using step rec adds_broadcast [OF w, of _ tid s] by (auto simp: BoardDealt sink_on_event_def Let_def)
  next
    case (PlayerAllIn j a)
    show ?thesis
      using step rec adds_broadcast [OF w, of _ tid s] by (auto simp: PlayerAllIn sink_on_event_def Let_def)
  next
    case (HandEnded h r)
    let ?g = "\<lambda>i. STableEvent tid (HandEnded h (reveal (may_see i (length links) F b) r))"
    have "outq (links ! k) (fold (\<lambda>(i, l). fan l (?g i)) (enumerate 0 links) s) = outq (links ! k) s @ [?g k]"
      if "k < length links" for k
      using outq_fans(1) [OF w _ that, of "map ?g [0..<length links]"] that by (simp add: enumerate_zip)
    then show ?thesis
      using step rec by (auto simp: HandEnded sink_on_event_def Let_def filtered_is_reveal adds_def)
  qed
qed

lemma length_shown: "length (shown n F b ev k) \<le> 1"
  by (cases ev) simp_all

lemma sink_of_new: "sink_of (broadcast_sink_new tid links) links tid {} 0"
  by (simp add: sink_of_def broadcast_sink_new_def)

lemma sink_run_adds:
  "sink_of bs links tid F b \<Longrightarrow> wired links (length evs) s \<Longrightarrow>
     adds links tid (\<lambda>k. seen k (length links) F b evs) s (snd (fold (sink_on_event to_vec) evs (bs, s)))"
proof (induction evs arbitrary: bs F b s)
  case (Cons ev evs)
  obtain bs' s' where step: "sink_on_event to_vec ev (bs, s) = (bs', s')" by fastforce
  let ?F = "fst (public_state ev (F, b))" and ?b = "snd (public_state ev (F, b))"
  have w: "wired links (Suc (length evs)) s" using Cons.prems(2) by simp
  note one = sink_event_step [OF Cons.prems(1) w step]
  have "wired links (length evs) s'"
  proof (rule wired_steady [OF w])
    show "steady s s'" using steady_sink [of s to_vec ev bs] step by simp
    fix l assume "l \<in> set links"
    then obtain k where "k < length links" "l = links ! k" by (auto simp: in_set_conv_nth)
    then show "length (outq l s') + length evs \<le> length (outq l s) + Suc (length evs)"
      using one(2) length_shown [of "length links" F b ev k] by (simp add: adds_def)
  qed
  from Cons.IH [OF one(1) this] one(2) show ?case
    by (simp add: step adds_def seen_Cons)
qed (simp add: adds_def)

section \<open>Properties\<close>

text \<open>The sink of one hand, from the events of the engine to the queues of the seats.\<close>

abbreviation broadcast_hand where
  "broadcast_hand to_vec tid links evs s \<equiv> snd (fold (sink_on_event to_vec) evs (broadcast_sink_new tid links, s))"

text \<open>
  (C11) Every seat gets its own view of the hand, complete and in order.  When the seats are bound to different
  connections whose writers live and whose queues have room, the sink appends to the queue of each
  seat exactly the events that this seat may see: all public events, its own hole cards and nobody
  else's, and at the end the result with the cards of the showdown only.
\<close>

theorem sink_streams_view:
  assumes "wired links (length evs) s" and "k < length links"
  shows "outq (links ! k) (broadcast_hand to_vec tid links evs s)
     = outq (links ! k) s @ map (STableEvent tid) (seen k (length links) {} 0 evs)"
  using sink_run_adds [OF sink_of_new assms(1)] assms(2) by (simp add: adds_def)

text \<open>Two hands that differ only in cards dealt to other seats.\<close>

fun conceal :: "nat \<Rightarrow> engine_event \<Rightarrow> engine_event" where
  "conceal k (HoleCardsDealt j cs) = HoleCardsDealt j (if j = k then cs else (Card 0, Card 0))"
| "conceal k ev = ev"

fun dealt_to_other :: "nat \<Rightarrow> engine_event \<Rightarrow> bool" where
  "dealt_to_other k (HoleCardsDealt j cs) \<longleftrightarrow> j \<noteq> k"
| "dealt_to_other k _ = False"

fun is_hand_end :: "engine_event \<Rightarrow> bool" where
  "is_hand_end (HandEnded _ _) = True"
| "is_hand_end _ = False"

definition folds_of :: "engine_event list \<Rightarrow> nat set" where
  "folds_of evs = {j. \<exists>p. ActionTaken j Fold p \<in> set evs}"

fun board_of :: "engine_event list \<Rightarrow> nat" where
  "board_of [] = 0"
| "board_of (BoardDealt st cs # evs) = length cs + board_of evs"
| "board_of (ev # evs) = board_of evs"

lemma folds_of_Cons:
  "folds_of (ev # evs) = (case ev of ActionTaken j a p \<Rightarrow> if a = Fold then {j} else {} | _ \<Rightarrow> {}) \<union> folds_of evs"
  by (cases ev) (auto simp: folds_of_def)

lemma seen_hand:
  "list_all (\<lambda>ev. \<not> is_hand_end ev) evs \<Longrightarrow> seen k n F b (evs @ [HandEnded h r])
     = filter (\<lambda>ev. \<not> dealt_to_other k ev) evs @ [HandEnded h (reveal (may_see k n (F \<union> folds_of evs) (b + board_of evs)) r)]"
proof (induction evs arbitrary: F b)
  case (Cons ev evs)
  then show ?case
    by (cases ev) (simp_all add: folds_of_Cons add.assoc insert_commute Un_insert_right)
qed (simp add: folds_of_def)

lemma same_mask:
  "map (conceal k) evs = map (conceal k) evs' \<Longrightarrow>
     filter (\<lambda>ev. \<not> dealt_to_other k ev) evs = filter (\<lambda>ev. \<not> dealt_to_other k ev) evs'
     \<and> folds_of evs = folds_of evs' \<and> board_of evs = board_of evs'
     \<and> list_all (\<lambda>ev. \<not> is_hand_end ev) evs = list_all (\<lambda>ev. \<not> is_hand_end ev) evs'"
proof (induction evs arbitrary: evs')
  case (Cons ev evs)
  then obtain ev' evs'' where evs': "evs' = ev' # evs''" and m: "conceal k ev = conceal k ev'"
    by (cases evs') auto
  from m show ?case
    using Cons.IH [of evs''] Cons.prems
    by (cases ev; cases ev') (auto simp: evs' folds_of_Cons split: if_splits)
qed simp


lemma two_seated_wired: "room \<le> 256 \<Longrightarrow> wired [10, 11] room (snd two_seated)"
  by (simp add: wired_def outq_def link_current_def demo_table_defs two_seated_def seat_link_new_def OUTBOUND_CAPACITY_def)

definition short_hand :: "card \<Rightarrow> engine_event list" where
  "short_hand c = [HandStarted 1 0 42, HoleCardsDealt 0 (Card 3, Card 7), HoleCardsDealt 1 (c, Card 9), ActionTaken 1 Fold 3]"

definition short_result :: "card \<Rightarrow> hand_result" where
  "short_result c = \<lparr>hr_hand_id = 1, hr_board = [], hr_seats =
     [\<lparr>so_seat = 0, so_hole_cards = Some (Card 3, Card 7), so_chip_delta = 2, so_sat_out = False\<rparr>,
      \<lparr>so_seat = 1, so_hole_cards = Some (c, Card 9), so_chip_delta = -2, so_sat_out = False\<rparr>]\<rparr>"

theorem sink_streams_view_witness:
  "outq 10 (broadcast_hand (\<lambda>_. Inr []) 9 [10, 11] (short_hand (Card 8)) (snd two_seated))
   = outq 10 (snd two_seated) @ map (STableEvent 9)
       [HandStarted 1 0 42, HoleCardsDealt 0 (Card 3, Card 7), ActionTaken 1 Fold 3]"
  using sink_streams_view [OF two_seated_wired [of "length (short_hand (Card 8))"], of 0 "\<lambda>_. Inr []" 9]
  by (simp add: short_hand_def)


end
