(* ===== verification/Registry.thy ===== *)
theory Registry
  imports ServerTable
begin

text \<open>
  The player registry, \<open>poker-server/src/registry.rs\<close>: accounts, passwords, sessions, who is online, and the
  archive of finished hands.

  A database table is the list of its rows in the order of insertion, with the counters of its
  \<open>AUTOINCREMENT\<close> keys; a statement is a function on these lists, and its constraints (\<open>UNIQUE\<close>, \<open>PRIMARY KEY\<close>,
  \<open>REFERENCES\<close>) are errors of the insert.  A transaction that is not committed changes nothing.  \<open>fault\<close>
  is the error of a statement that fails for reasons of its own (disk, lock, pool), if one does.  Row ids are
  naturals: the casts between \<open>i64\<close> and \<open>u64\<close> keep them.  The revoked flags are shared \<open>Arc\<close>s and
  live in a store of flags.  \<open>argon2\<close> and the random bytes of salts and keys are parameters.
\<close>

section \<open>Errors and rows\<close>

datatype registry_error =
  InvalidUsername | InvalidEmail | InvalidPassword | UsernameInUse | EmailInUse | BadCredentials
| SessionRevoked | UnknownSession | Io string | Database string | Migrate string | Hash string

record user_row =
  ur_id :: nat
  ur_email :: string
  ur_username :: string
  ur_created_at :: int

record password_row =
  pr_user_id :: nat
  pr_hash :: string
  pr_updated_at :: int

record session_row =
  ss_id :: nat
  ss_user_id :: nat
  ss_key :: string
  ss_device_label :: "string option"
  ss_created_at :: int
  ss_revoked_at :: "int option"

record hand_row =
  hd_id :: nat
  hd_table_id :: table_id
  hd_started_at :: int
  hd_ended_at :: int
  hd_log :: "8 word list"

record database =
  db_users :: "user_row list"
  db_passwords :: "password_row list"
  db_stats :: "(nat \<times> lifetime_stats) list"
  db_sessions :: "session_row list"
  db_hands :: "hand_row list"
  db_hand_seats :: "(nat \<times> hand_seat_record) list"
  db_next_user :: nat
  db_next_session :: nat
  db_next_hand :: nat

definition empty_database :: database where
  "empty_database = \<lparr>db_users = [], db_passwords = [], db_stats = [], db_sessions = [], db_hands = [],
     db_hand_seats = [], db_next_user = 1, db_next_session = 1, db_next_hand = 1\<rparr>"

record player_record =
  plr_player_id :: player_id
  plr_username :: string
  plr_created_unix :: nat
  plr_stats :: lifetime_stats

record auth_success =
  as_record :: player_record
  as_session_key :: string
  as_session_id :: nat
  as_revoked :: nat

record online_entry =
  oe_session_id :: nat
  oe_revoked :: nat
  oe_username :: string

record registry =
  rg_db :: database
  rg_online :: "player_id \<rightharpoonup> online_entry"
  rg_flags :: "nat \<Rightarrow> bool"
  rg_next_flag :: nat

definition registry_open :: "database \<Rightarrow> registry" where
  "registry_open db = \<lparr>rg_db = db, rg_online = Map.empty, rg_flags = (\<lambda>_. False), rg_next_flag = 0\<rparr>"

record hand_record =
  hc_id :: nat
  hc_table_id :: table_id
  hc_started_at :: int
  hc_ended_at :: int
  hc_log :: "8 word list"
  hc_seats :: "hand_seat_record list"

definition lifetime_stats_default :: lifetime_stats where
  "lifetime_stats_default = \<lparr>ls_hands = 0, ls_voluntary_pf = 0, ls_raised_pf = 0, ls_aggressive_actions = 0,
     ls_passive_actions = 0, ls_showdowns = 0, ls_chip_delta = 0\<rparr>"

section \<open>Sessions\<close>

text \<open>\<open>HEX[(b >> 4)]\<close> and \<open>HEX[(b & 0x0f)]\<close> of each byte.\<close>

definition hex_digit :: "nat \<Rightarrow> char" where
  "hex_digit n = ''0123456789abcdef'' ! n"

definition new_session_key :: "8 word list \<Rightarrow> string" where
  "new_session_key bytes =
     concat (map (\<lambda>b. [hex_digit (unat (drop_bit 4 b)), hex_digit (unat (b AND 0x0F))]) bytes)"

definition revoke_sessions :: "nat \<Rightarrow> int \<Rightarrow> database \<Rightarrow> database" where
  "revoke_sessions user_id now db =
     db\<lparr>db_sessions := map (\<lambda>r. if ss_user_id r = user_id \<and> ss_revoked_at r = None
        then r\<lparr>ss_revoked_at := Some now\<rparr> else r) (db_sessions db)\<rparr>"

definition issue_session_in_tx ::
  "8 word list \<Rightarrow> nat \<Rightarrow> string option \<Rightarrow> int \<Rightarrow> database \<Rightarrow> registry_error + ((nat \<times> string) \<times> database)" where
  "issue_session_in_tx key_bytes user_id device_label now db0 =
     (let db = revoke_sessions user_id now db0; key = new_session_key key_bytes; i = db_next_session db in
      if list_ex (\<lambda>r. ss_key r = key) (db_sessions db) then Inl (Database ''UNIQUE constraint failed: sessions.key'')
      else Inr ((i, key), db\<lparr>db_sessions := db_sessions db @ [\<lparr>ss_id = i, ss_user_id = user_id, ss_key = key,
             ss_device_label = device_label, ss_created_at = now, ss_revoked_at = None\<rparr>],
           db_next_session := i + 1\<rparr>))"

definition load_stats_in_tx :: "nat \<Rightarrow> database \<Rightarrow> registry_error + lifetime_stats" where
  "load_stats_in_tx user_id db =
     (case map_of (db_stats db) user_id of None \<Rightarrow> Inl (Database ''no rows returned'') | Some st \<Rightarrow> Inr st)"

definition install_online :: "player_id \<Rightarrow> nat \<Rightarrow> string \<Rightarrow> registry \<Rightarrow> nat \<times> registry" where
  "install_online player_id session_id username reg =
     (let revoked = rg_next_flag reg;
          flags = (rg_flags reg)(revoked := False);
          flags' = (case rg_online reg player_id of None \<Rightarrow> flags | Some prev \<Rightarrow> flags(oe_revoked prev := True))
      in (revoked, reg\<lparr>rg_next_flag := revoked + 1, rg_flags := flags',
            rg_online := (rg_online reg)(player_id \<mapsto>
              \<lparr>oe_session_id = session_id, oe_revoked = revoked, oe_username = username\<rparr>)\<rparr>))"

section \<open>Operations\<close>

text \<open>What follows a committed transaction: the online entry and the answer.\<close>

definition log_in ::
  "nat \<Rightarrow> string \<Rightarrow> int \<Rightarrow> lifetime_stats \<Rightarrow> nat \<Rightarrow> string \<Rightarrow> database \<Rightarrow> registry \<Rightarrow> (registry_error + auth_success) \<times> registry" where
  "log_in user_id username created stats session_id session_key db reg =
     (let (revoked, reg') = install_online user_id session_id username (reg\<lparr>rg_db := db\<rparr>)
      in (Inr \<lparr>as_record = \<lparr>plr_player_id = user_id, plr_username = username, plr_created_unix = nat created,
                plr_stats = stats\<rparr>,
              as_session_key = session_key, as_session_id = session_id, as_revoked = revoked\<rparr>, reg'))"

definition register ::
  "(string \<Rightarrow> string + string) \<Rightarrow> 8 word list \<Rightarrow> int \<Rightarrow> string option \<Rightarrow> string \<Rightarrow> string \<Rightarrow> string \<Rightarrow>
     string option \<Rightarrow> registry \<Rightarrow> (registry_error + auth_success) \<times> registry" where
  "register hash_password key_bytes now fault email username password device_label reg =
     (if \<not> is_valid_email email then (Inl InvalidEmail, reg)
      else if \<not> is_valid_username username then (Inl InvalidUsername, reg)
      else if \<not> is_valid_password password then (Inl InvalidPassword, reg)
      else case hash_password password of
        Inl e \<Rightarrow> (Inl (Hash e), reg)
      | Inr hash \<Rightarrow>
          case fault of
            Some e \<Rightarrow> (Inl (Database e), reg)
          | None \<Rightarrow>
              let db = rg_db reg; user_id = db_next_user db in
              if list_ex (\<lambda>u. ur_username u = username) (db_users db) then (Inl UsernameInUse, reg)
              else if list_ex (\<lambda>u. ur_email u = email) (db_users db) then (Inl EmailInUse, reg)
              else let db' = db\<lparr>db_users := db_users db @ [\<lparr>ur_id = user_id, ur_email = email, ur_username = username,
                              ur_created_at = now\<rparr>],
                        db_next_user := user_id + 1,
                        db_passwords := db_passwords db @ [\<lparr>pr_user_id = user_id, pr_hash = hash, pr_updated_at = now\<rparr>],
                        db_stats := db_stats db @ [(user_id, lifetime_stats_default)]\<rparr>
                in case issue_session_in_tx key_bytes user_id device_label now db' of
                     Inl e \<Rightarrow> (Inl e, reg)
                   | Inr ((session_id, session_key), db'') \<Rightarrow>
                       log_in user_id username now lifetime_stats_default session_id session_key db'' reg)"

text \<open>\<open>users u JOIN user_password p ON p.user_id = u.id WHERE \<dots>\<close>, the first row of it.\<close>

definition join_password :: "(user_row \<Rightarrow> bool) \<Rightarrow> database \<Rightarrow> (user_row \<times> string) option" where
  "join_password P db =
     find (\<lambda>_. True) [(u, pr_hash p). u \<leftarrow> db_users db, P u, p \<leftarrow> db_passwords db, pr_user_id p = ur_id u]"

definition authenticate_password ::
  "(string \<Rightarrow> string \<Rightarrow> string + bool) \<Rightarrow> 8 word list \<Rightarrow> int \<Rightarrow> string option \<Rightarrow> string \<Rightarrow> string \<Rightarrow>
     string option \<Rightarrow> registry \<Rightarrow> (registry_error + auth_success) \<times> registry" where
  "authenticate_password verify_password key_bytes now fault identifier password device_label reg =
     (let db = rg_db reg; by_email = (CHR ''@'' \<in> set identifier) in
      case fault of
        Some e \<Rightarrow> (Inl (Database e), reg)
      | None \<Rightarrow>
          case join_password (\<lambda>u. if by_email then ur_email u = identifier else ur_username u = identifier) db of
            None \<Rightarrow> (Inl BadCredentials, reg)
          | Some (u, hash) \<Rightarrow>
              case verify_password password hash of
                Inl e \<Rightarrow> (Inl (Hash e), reg)
              | Inr False \<Rightarrow> (Inl BadCredentials, reg)
              | Inr True \<Rightarrow>
                  case issue_session_in_tx key_bytes (ur_id u) device_label now db of
                    Inl e \<Rightarrow> (Inl e, reg)
                  | Inr ((session_id, session_key), db') \<Rightarrow>
                      case load_stats_in_tx (ur_id u) db' of
                        Inl e \<Rightarrow> (Inl e, reg)
                      | Inr stats \<Rightarrow>
                          log_in (ur_id u) (ur_username u) (ur_created_at u) stats session_id session_key db' reg)"

definition join_session :: "string \<Rightarrow> database \<Rightarrow> (session_row \<times> user_row) option" where
  "join_session key db =
     find (\<lambda>_. True) [(r, u). r \<leftarrow> db_sessions db, ss_key r = key, u \<leftarrow> db_users db, ur_id u = ss_user_id r]"

definition authenticate_session ::
  "string option \<Rightarrow> string \<Rightarrow> registry \<Rightarrow> (registry_error + auth_success) \<times> registry" where
  "authenticate_session fault key reg =
     (case fault of
        Some e \<Rightarrow> (Inl (Database e), reg)
      | None \<Rightarrow>
          case join_session key (rg_db reg) of
            None \<Rightarrow> (Inl UnknownSession, reg)
          | Some (r, u) \<Rightarrow>
              if ss_revoked_at r \<noteq> None then (Inl SessionRevoked, reg)
              else case load_stats_in_tx (ur_id u) (rg_db reg) of
                Inl e \<Rightarrow> (Inl e, reg)
              | Inr stats \<Rightarrow>
                  log_in (ur_id u) (ur_username u) (ur_created_at u) stats (ss_id r) key (rg_db reg) reg)"

definition logout :: "player_id \<Rightarrow> nat \<Rightarrow> registry \<Rightarrow> registry" where
  "logout player_id session_id reg =
     (case rg_online reg player_id of
        None \<Rightarrow> reg
      | Some entry \<Rightarrow>
          if oe_session_id entry = session_id then reg\<lparr>rg_online := (rg_online reg)(player_id := None)\<rparr> else reg)"

definition online_count :: "registry \<Rightarrow> nat" where
  "online_count reg = card (dom (rg_online reg))"

definition update_stats ::
  "string option \<Rightarrow> player_id \<Rightarrow> lifetime_stats \<Rightarrow> registry \<Rightarrow> (registry_error + unit) \<times> registry" where
  "update_stats fault player_id stats reg =
     (if rg_online reg player_id = None then (Inr (), reg)
      else case fault of
        Some e \<Rightarrow> (Inl (Database e), reg)
      | None \<Rightarrow>
          (Inr (), reg\<lparr>rg_db := (rg_db reg)\<lparr>db_stats :=
             map (\<lambda>(i, st). (i, if i = player_id then stats else st)) (db_stats (rg_db reg))\<rparr>\<rparr>))"

section \<open>Hands\<close>

definition insert_seat :: "nat \<Rightarrow> hand_seat_record \<Rightarrow> database \<Rightarrow> registry_error + database" where
  "insert_seat hand_id s db =
     (if list_ex (\<lambda>(h, s'). h = hand_id \<and> hs_seat s' = hs_seat s) (db_hand_seats db)
      then Inl (Database ''UNIQUE constraint failed: hand_seats.hand_id, hand_seats.seat'')
      else case hs_player_id s of
        Some p \<Rightarrow>
          if list_ex (\<lambda>u. ur_id u = p) (db_users db) then Inr (db\<lparr>db_hand_seats := db_hand_seats db @ [(hand_id, s)]\<rparr>)
          else Inl (Database ''FOREIGN KEY constraint failed'')
      | None \<Rightarrow> Inr (db\<lparr>db_hand_seats := db_hand_seats db @ [(hand_id, s)]\<rparr>))"

fun insert_seats :: "nat \<Rightarrow> hand_seat_record list \<Rightarrow> database \<Rightarrow> registry_error + database" where
  "insert_seats hand_id [] db = Inr db"
| "insert_seats hand_id (s # seats) db =
     (case insert_seat hand_id s db of Inl e \<Rightarrow> Inl e | Inr db' \<Rightarrow> insert_seats hand_id seats db')"

definition record_hand ::
  "string option \<Rightarrow> table_id \<Rightarrow> int \<Rightarrow> int \<Rightarrow> 8 word list \<Rightarrow> hand_seat_record list \<Rightarrow> registry \<Rightarrow>
     (registry_error + nat) \<times> registry" where
  "record_hand fault table_id started_at ended_at log seats reg =
     (case fault of
        Some e \<Rightarrow> (Inl (Database e), reg)
      | None \<Rightarrow>
          let db = rg_db reg; hand_id = db_next_hand db;
              db' = db\<lparr>db_hands := db_hands db @ [\<lparr>hd_id = hand_id, hd_table_id = table_id, hd_started_at = started_at,
                        hd_ended_at = ended_at, hd_log = log\<rparr>],
                      db_next_hand := hand_id + 1\<rparr>
          in case insert_seats hand_id seats db' of
               Inl e \<Rightarrow> (Inl e, reg)
             | Inr db'' \<Rightarrow> (Inr hand_id, reg\<lparr>rg_db := db''\<rparr>))"

definition fetch_hand :: "string option \<Rightarrow> nat \<Rightarrow> registry \<Rightarrow> registry_error + hand_record option" where
  "fetch_hand fault i reg =
     (case fault of
        Some e \<Rightarrow> Inl (Database e)
      | None \<Rightarrow>
          Inr (map_option (\<lambda>h. \<lparr>hc_id = i, hc_table_id = hd_table_id h, hc_started_at = hd_started_at h,
                 hc_ended_at = hd_ended_at h, hc_log = hd_log h,
                 hc_seats = sort_key hs_seat (map snd (filter (\<lambda>(j, _). j = i) (db_hand_seats (rg_db reg))))\<rparr>)
               (find (\<lambda>h. hd_id h = i) (db_hands (rg_db reg)))))"

definition count_hands :: "string option \<Rightarrow> registry \<Rightarrow> registry_error + nat" where
  "count_hands fault reg =
     (case fault of Some e \<Rightarrow> Inl (Database e) | None \<Rightarrow> Inr (length (db_hands (rg_db reg))))"

end
