(* ===== verification/Session.thy ===== *)
theory Session
  imports Registry Complex_Main
begin

text \<open>
  Sessions of the server, \<open>poker-server/src/session.rs\<close> with the limits of \<open>limits.rs\<close>: the handshake, the
  reader loop with its handlers, and what opening and closing a session does to tables and registry.

  A handler is one step on the state of the server: the tables, the registry and the store of connections.
  Reading is split off: \<open>inbound\<close> is what a read returned.  \<open>out_tx.send(..).await\<close> waits for room in the
  queue, so it appends whenever the writer lives.  \<open>TokenBucket\<close> computes in \<open>f64\<close>: its operations are
  those on reals followed by the rounding function \<open>rnd\<close>.
\<close>

section \<open>Limits\<close>

record connection_limits =
  cl_idle_timeout_ms :: nat
  cl_rate_burst :: nat
  cl_rate_refill_per_sec :: nat

definition default_limits :: connection_limits where
  "default_limits = \<lparr>cl_idle_timeout_ms = 60000, cl_rate_burst = 30, cl_rate_refill_per_sec = 20\<rparr>"

record token_bucket =
  tk_capacity :: real
  tk_refill_per_sec :: real
  tk_tokens :: real
  tk_last_refill :: nat

definition token_bucket_new :: "connection_limits \<Rightarrow> nat \<Rightarrow> token_bucket" where
  "token_bucket_new limits now =
     \<lparr>tk_capacity = real (cl_rate_burst limits), tk_refill_per_sec = real (cl_rate_refill_per_sec limits),
      tk_tokens = real (cl_rate_burst limits), tk_last_refill = now\<rparr>"

text \<open>Instants are nanoseconds; \<open>as_secs_f64\<close> rounds their difference in seconds.\<close>

definition refill :: "(real \<Rightarrow> real) \<Rightarrow> nat \<Rightarrow> token_bucket \<Rightarrow> token_bucket" where
  "refill rnd now b =
     (let elapsed = rnd (real (now - tk_last_refill b) / 1000000000) in
      if 0 < elapsed
      then b\<lparr>tk_tokens := min (rnd (tk_tokens b + rnd (elapsed * tk_refill_per_sec b))) (tk_capacity b),
             tk_last_refill := now\<rparr>
      else b)"

definition try_consume :: "(real \<Rightarrow> real) \<Rightarrow> nat \<Rightarrow> token_bucket \<Rightarrow> bool \<times> token_bucket" where
  "try_consume rnd now b0 =
     (let b = refill rnd now b0 in
      if 1 \<le> tk_tokens b then (True, b\<lparr>tk_tokens := rnd (tk_tokens b - 1)\<rparr>) else (False, b))"

section \<open>The state of the server\<close>

record server =
  sv_store :: store
  sv_tables :: manager
  sv_registry :: registry

definition player_of :: "nat \<Rightarrow> server \<Rightarrow> player_id" where
  "player_of conn sv = cn_player_id (s_conn (sv_store sv) conn)"

definition send :: "nat \<Rightarrow> server_message \<Rightarrow> server \<Rightarrow> server" where
  "send conn msg sv = sv\<lparr>sv_store := try_send conn msg (sv_store sv)\<rparr>"

definition send_wait :: "nat \<Rightarrow> server_message \<Rightarrow> server \<Rightarrow> server" where
  "send_wait conn msg sv =
     sv\<lparr>sv_store := upd_conn conn (\<lambda>cn. if cn_out_open cn then cn\<lparr>cn_out := cn_out cn @ [msg]\<rparr> else cn) (sv_store sv)\<rparr>"

definition put_table :: "table \<Rightarrow> store \<Rightarrow> server \<Rightarrow> server" where
  "put_table t s sv = sv\<lparr>sv_tables := install t (sv_tables sv), sv_store := s\<rparr>"

section \<open>Handlers\<close>

definition handle_request_replay :: "nat \<Rightarrow> nat \<Rightarrow> server \<Rightarrow> server" where
  "handle_request_replay conn hand_id sv =
     (let reject = send conn (SActionRejected ''not seated at this hand'') sv in
      case current_table (player_of conn sv) (sv_tables sv) of
        None \<Rightarrow> reject
      | Some table_id \<Rightarrow>
          case get_table table_id (sv_tables sv) of
            None \<Rightarrow> reject
          | Some t \<Rightarrow>
              case seat_link_for (player_of conn sv) t of
                None \<Rightarrow> reject
              | Some (_, link) \<Rightarrow>
                  case replay_snapshot link hand_id (sv_store sv) of
                    None \<Rightarrow> reject
                  | Some events \<Rightarrow> send conn (SReplayEvents hand_id events) sv)"

definition no_such_table :: "table_id \<Rightarrow> server_message" where
  "no_such_table table_id = SActionRejected (''no such table: '' @ show_nat table_id)"

definition handle_join :: "nat \<Rightarrow> table_id \<Rightarrow> nat \<Rightarrow> server \<Rightarrow> server option" where
  "handle_join conn table_id buy_in sv =
     (if current_table (player_of conn sv) (sv_tables sv) \<noteq> None
      then Some (send conn (SActionRejected ''already seated at a table'') sv)
      else case get_table table_id (sv_tables sv) of
        None \<Rightarrow> Some (send conn (no_such_table table_id) sv)
      | Some t \<Rightarrow>
          do { (res, t', s) \<leftarrow> sit conn buy_in (t, sv_store sv);
               let sv = put_table t' s sv;
               case res of
                 Inl e \<Rightarrow> Some (send conn (SActionRejected (sit_error_str e)) sv)
               | Inr seat \<Rightarrow>
                   let sv = sv\<lparr>sv_tables := record_join (player_of conn sv) table_id (sv_tables sv)\<rparr>;
                       sv = send conn (SJoinedTable table_id seat (seat_infos_locked t')) sv
                   in Some (sv\<lparr>sv_store := broadcast_table_state (Some (player_of conn sv)) (t', sv_store sv)\<rparr>) })"

definition handle_leave :: "nat \<Rightarrow> table_id \<Rightarrow> server \<Rightarrow> server" where
  "handle_leave conn table_id sv0 =
     (case get_table table_id (sv_tables sv0) of
        None \<Rightarrow> send conn (no_such_table table_id) sv0
      | Some t \<Rightarrow>
          let sv = sv0\<lparr>sv_store := cancel_pending conn (sv_store sv0)\<rparr> in
          case leave (player_of conn sv) t of
            (Inl reason, _) \<Rightarrow> send conn (SActionRejected reason) sv
          | (Inr _, t') \<Rightarrow>
              let sv = put_table t' (sv_store sv) sv;
                  sv = sv\<lparr>sv_tables := snd (record_leave (player_of conn sv) (sv_tables sv))\<rparr>;
                  sv = send conn (SLeftTable table_id) sv
              in sv\<lparr>sv_store := broadcast_table_state (Some (player_of conn sv)) (t', sv_store sv)\<rparr>)"

section \<open>The reader loop\<close>

datatype session_error = Wire wire_error | RegistryFailed registry_error | OutOfOrder string | Disconnected

datatype inbound = Received client_message | ReadFailed wire_error | IdleTimeout

text \<open>\<open>Inl\<close> ends the loop with its result, \<open>Inr\<close> goes round again.\<close>

type_synonym loop_result = "(session_error + unit) + unit"

definition dispatch :: "nat \<Rightarrow> client_message \<Rightarrow> server \<Rightarrow> (loop_result \<times> server) option" where
  "dispatch conn msg sv =
     (case msg of
        CRegister _ _ _ _ _ \<Rightarrow> Some (Inl (Inl (OutOfOrder ''re-handshake'')), sv)
      | CAuthenticate _ _ _ \<Rightarrow> Some (Inl (Inl (OutOfOrder ''re-handshake'')), sv)
      | CHeartbeat \<Rightarrow> Some (Inr (), send conn SHeartbeat sv)
      | CDisconnect \<Rightarrow> Some (Inl (Inr ()), send_wait conn (SGoodbye ''client requested'') sv)
      | CListTables \<Rightarrow> Some (Inr (), send conn (STableList (list_infos (sv_tables sv))) sv)
      | CJoinTable table_id buy_in \<Rightarrow> map_option (Pair (Inr ())) (handle_join conn table_id buy_in sv)
      | CLeaveTable table_id \<Rightarrow> Some (Inr (), handle_leave conn table_id sv)
      | CSubmitAction table_id hand_id action \<Rightarrow>
          let (ok', s) = deliver_action conn table_id hand_id action (sv_store sv); sv = sv\<lparr>sv_store := s\<rparr>
          in Some (Inr (), if ok' then sv else send conn (SActionRejected ''no matching pending action'') sv)
      | CRequestReplay hand_id \<Rightarrow> Some (Inr (), handle_request_replay conn hand_id sv))"

definition reader_step ::
  "(real \<Rightarrow> real) \<Rightarrow> nat \<Rightarrow> nat \<Rightarrow> nat \<Rightarrow> inbound \<Rightarrow> token_bucket \<times> server \<Rightarrow>
     (loop_result \<times> token_bucket \<times> server) option" where
  "reader_step rnd now conn revoked inb = (\<lambda>(bucket, sv).
     case inb of
       ReadFailed Closed \<Rightarrow> Some (Inl (Inr ()), bucket, sv)
     | ReadFailed other \<Rightarrow> Some (Inl (Inl (Wire other)), bucket, sv)
     | IdleTimeout \<Rightarrow> Some (Inl (Inr ()), bucket, send_wait conn (SGoodbye ''idle timeout'') sv)
     | Received msg \<Rightarrow>
         if rg_flags (sv_registry sv) revoked
         then Some (Inl (Inr ()), bucket, send_wait conn (SGoodbye (reject_as_str reject_reason.SessionRevoked)) sv)
         else let (allowed, bucket) = try_consume rnd now bucket in
           if \<not> allowed then Some (Inl (Inr ()), bucket, send_wait conn (SGoodbye ''rate limit exceeded'') sv)
           else do { (r, sv) \<leftarrow> dispatch conn msg sv; Some (r, bucket, sv) })"

section \<open>The handshake\<close>

fun registry_error_to_reason :: "registry_error \<Rightarrow> reject_reason" where
  "registry_error_to_reason InvalidUsername = reject_reason.InvalidUsername"
| "registry_error_to_reason InvalidEmail = reject_reason.InvalidEmail"
| "registry_error_to_reason InvalidPassword = reject_reason.InvalidPassword"
| "registry_error_to_reason UsernameInUse = reject_reason.UsernameInUse"
| "registry_error_to_reason EmailInUse = reject_reason.EmailInUse"
| "registry_error_to_reason BadCredentials = reject_reason.BadCredentials"
| "registry_error_to_reason SessionRevoked = reject_reason.SessionRevoked"
| "registry_error_to_reason UnknownSession = reject_reason.UnknownSession"
| "registry_error_to_reason _ = InternalError"

text \<open>What the platform supplies to one handshake: hashing, random bytes, the clock, and database faults.\<close>

record auth_env =
  ae_hash :: "string \<Rightarrow> string + string"
  ae_verify :: "string \<Rightarrow> string \<Rightarrow> string + bool"
  ae_key_bytes :: "8 word list"
  ae_now :: int
  ae_fault :: "string option"

definition send_rejected :: "(server_message \<Rightarrow> wire_error + unit) \<Rightarrow> reject_reason \<Rightarrow> session_error + unit" where
  "send_rejected write reason =
     (case write (SRejected PROTOCOL_VERSION (reject_as_str reason)) of Inl e \<Rightarrow> Inl (Wire e) | Inr _ \<Rightarrow> Inr ())"

definition handshake_outcome ::
  "auth_env \<Rightarrow> client_message \<Rightarrow> registry \<Rightarrow> (session_error + reject_reason + registry_error + auth_success) \<times> registry" where
  "handshake_outcome env msg reg =
     (case msg of
        CRegister protocol_version email username password device_label \<Rightarrow>
          if protocol_version \<noteq> PROTOCOL_VERSION then (Inr (Inl ProtocolMismatch), reg)
          else apfst (\<lambda>r. Inr (Inr r)) (register (ae_hash env) (ae_key_bytes env) (ae_now env) (ae_fault env)
                 email username password device_label reg)
      | CAuthenticate protocol_version mode device_label \<Rightarrow>
          if protocol_version \<noteq> PROTOCOL_VERSION then (Inr (Inl ProtocolMismatch), reg)
          else (case mode of
              Password ident password \<Rightarrow>
                apfst (\<lambda>r. Inr (Inr r)) (authenticate_password (ae_verify env) (ae_key_bytes env) (ae_now env)
                  (ae_fault env) ident password device_label reg)
            | Session key \<Rightarrow> apfst (\<lambda>r. Inr (Inr r)) (authenticate_session (ae_fault env) key reg))
      | CDisconnect \<Rightarrow> (Inl Disconnected, reg)
      | CHeartbeat \<Rightarrow> (Inl (OutOfOrder ''Heartbeat''), reg)
      | _ \<Rightarrow> (Inl (OutOfOrder ''non-handshake''), reg))"

definition perform_handshake ::
  "auth_env \<Rightarrow> (server_message \<Rightarrow> wire_error + unit) \<Rightarrow> (wire_error + client_message) \<Rightarrow> registry \<Rightarrow>
     (session_error + auth_success option) \<times> registry" where
  "perform_handshake env write first reg =
     (case first of
        Inl Closed \<Rightarrow> (Inl Disconnected, reg)
      | Inl other \<Rightarrow> (Inl (Wire other), reg)
      | Inr msg \<Rightarrow>
          case handshake_outcome env msg reg of
            (Inl e, reg') \<Rightarrow> (Inl e, reg')
          | (Inr (Inl reason), reg') \<Rightarrow>
              (case send_rejected write reason of Inl e \<Rightarrow> (Inl e, reg') | Inr _ \<Rightarrow> (Inr None, reg'))
          | (Inr (Inr (Inl e)), reg') \<Rightarrow>
              (case send_rejected write (registry_error_to_reason e) of
                 Inl e' \<Rightarrow> (Inl e', reg') | Inr _ \<Rightarrow> (Inl (RegistryFailed e), reg'))
          | (Inr (Inr (Inr success)), reg') \<Rightarrow> (Inr (Some success), reg'))"

section \<open>Opening and closing a session\<close>

text \<open>\<open>run_session\<close> from the handshake to the reader loop: \<open>conn\<close> is the address of the new connection.\<close>

definition session_open :: "nat \<Rightarrow> auth_success \<Rightarrow> server \<Rightarrow> server" where
  "session_open conn auth sv0 =
     (let r = as_record auth;
          sv = sv0\<lparr>sv_store := upd_conn conn (\<lambda>_. connection_new (plr_player_id r) (plr_username r) (int (as_session_id auth)))
                 (sv_store sv0)\<rparr>;
          sv = send_wait conn (SWelcome PROTOCOL_VERSION (plr_player_id r) (plr_username r) (as_session_key auth) (plr_stats r)) sv
      in case current_table (plr_player_id r) (sv_tables sv) of
           None \<Rightarrow> sv
         | Some table_id \<Rightarrow>
             case get_table table_id (sv_tables sv) of
               None \<Rightarrow> sv
             | Some t \<Rightarrow> sv\<lparr>sv_store := snd (reconnect_player conn (t, sv_store sv))\<rparr>)"

definition session_close :: "nat \<Rightarrow> auth_success \<Rightarrow> server \<Rightarrow> server" where
  "session_close conn auth sv0 =
     (let p = plr_player_id (as_record auth);
          sv = sv0\<lparr>sv_store := cancel_pending conn (sv_store sv0)\<rparr>;
          superseded = rg_flags (sv_registry sv) (as_revoked auth);
          sv = (if superseded then sv
                else let (left, m) = record_leave p (sv_tables sv); sv = sv\<lparr>sv_tables := m\<rparr> in
                  case left of
                    None \<Rightarrow> sv
                  | Some table_id \<Rightarrow>
                      case get_table table_id (sv_tables sv) of
                        None \<Rightarrow> sv
                      | Some t \<Rightarrow>
                          let (t', s) = force_leave p (Some (int (as_session_id auth))) (t, sv_store sv)
                          in put_table t' s sv)
      in sv\<lparr>sv_registry := logout p (as_session_id auth) (sv_registry sv)\<rparr>)"

end
