(* ===== verification/RegistryInv.thy ===== *)
theory RegistryInv
  imports Registry
begin

text \<open>
  The invariant of the registry and its properties: accounts are unique and kept, a user has at most one
  live session, finished hands are stored whole, and who is told that a session was superseded.
\<close>

section \<open>The invariant\<close>

definition accounts_ok :: "database \<Rightarrow> bool" where
  "accounts_ok db \<longleftrightarrow>
     distinct (map ur_id (db_users db)) \<and> distinct (map ur_username (db_users db)) \<and> distinct (map ur_email (db_users db))
     \<and> (\<forall>u \<in> set (db_users db). ur_id u < db_next_user db \<and> is_valid_username (ur_username u) \<and> is_valid_email (ur_email u))
     \<and> map pr_user_id (db_passwords db) = map ur_id (db_users db) \<and> map fst (db_stats db) = map ur_id (db_users db)"

definition sessions_ok :: "database \<Rightarrow> bool" where
  "sessions_ok db \<longleftrightarrow>
     distinct (map ss_id (db_sessions db)) \<and> distinct (map ss_key (db_sessions db))
     \<and> (\<forall>r \<in> set (db_sessions db). ss_id r < db_next_session db \<and> ss_user_id r \<in> ur_id ` set (db_users db))
     \<and> (\<forall>r \<in> set (db_sessions db). \<forall>r' \<in> set (db_sessions db). ss_revoked_at r = None \<longrightarrow> ss_revoked_at r' = None
          \<longrightarrow> ss_user_id r = ss_user_id r' \<longrightarrow> r = r')"

definition hands_ok :: "database \<Rightarrow> bool" where
  "hands_ok db \<longleftrightarrow> distinct (map hd_id (db_hands db)) \<and> (\<forall>h \<in> set (db_hands db). hd_id h < db_next_hand db)
     \<and> distinct (map (\<lambda>(h, s). (h, hs_seat s)) (db_hand_seats db))
     \<and> (\<forall>(h, s) \<in> set (db_hand_seats db). h < db_next_hand db)"

definition online_ok :: "registry \<Rightarrow> bool" where
  "online_ok reg \<longleftrightarrow> (\<forall>p e. rg_online reg p = Some e \<longrightarrow>
     oe_revoked e < rg_next_flag reg \<and> \<not> rg_flags reg (oe_revoked e)
     \<and> (\<forall>p' e'. rg_online reg p' = Some e' \<longrightarrow> oe_revoked e' = oe_revoked e \<longrightarrow> p' = p))"

definition registry_ok :: "registry \<Rightarrow> bool" where
  "registry_ok reg \<longleftrightarrow> accounts_ok (rg_db reg) \<and> sessions_ok (rg_db reg) \<and> hands_ok (rg_db reg) \<and> online_ok reg"

inductive registry_step :: "registry \<Rightarrow> registry \<Rightarrow> bool" where
  "register hash bytes now fault email username password label reg = (r, reg') \<Longrightarrow> registry_step reg reg'"
| "authenticate_password verify bytes now fault ident password label reg = (r, reg') \<Longrightarrow> registry_step reg reg'"
| "authenticate_session fault key reg = (r, reg') \<Longrightarrow> registry_step reg reg'"
| "registry_step reg (logout player_id session_id reg)"
| "update_stats fault player_id stats reg = (r', reg') \<Longrightarrow> registry_step reg reg'"
| "record_hand fault table_id started ended log seats reg = (r'', reg') \<Longrightarrow> registry_step reg reg'"

lemma registry_ok_open: "registry_ok (registry_open empty_database)"
  by (simp add: registry_ok_def accounts_ok_def sessions_ok_def hands_ok_def online_ok_def registry_open_def empty_database_def)

section \<open>Transactions keep it\<close>

text \<open>What a transaction does to the rows that others rely on.\<close>

definition extends :: "database \<Rightarrow> database \<Rightarrow> bool" where
  "extends db db' \<longleftrightarrow> set (db_users db) \<subseteq> set (db_users db') \<and> set (db_passwords db) \<subseteq> set (db_passwords db')"

lemma extends_refl [simp]: "extends db db"
  by (simp add: extends_def)

lemma extends_trans: "extends db db' \<Longrightarrow> extends db' db'' \<Longrightarrow> extends db db''"
  by (auto simp: extends_def)

lemma revoke_sessions_simps [simp]:
  "db_users (revoke_sessions u now db) = db_users db" "db_passwords (revoke_sessions u now db) = db_passwords db"
  "db_stats (revoke_sessions u now db) = db_stats db" "db_next_user (revoke_sessions u now db) = db_next_user db"
  "db_next_session (revoke_sessions u now db) = db_next_session db" "db_hands (revoke_sessions u now db) = db_hands db"
  "db_hand_seats (revoke_sessions u now db) = db_hand_seats db" "db_next_hand (revoke_sessions u now db) = db_next_hand db"
  by (simp_all add: revoke_sessions_def)

lemma revoke_sessions_rows:
  "map ss_id (db_sessions (revoke_sessions u now db)) = map ss_id (db_sessions db)"
  "map ss_key (db_sessions (revoke_sessions u now db)) = map ss_key (db_sessions db)"
  by (simp_all add: revoke_sessions_def)

lemma revoke_sessions_row:
  assumes "r \<in> set (db_sessions (revoke_sessions u now db))"
  shows "\<exists>r' \<in> set (db_sessions db). ss_id r = ss_id r' \<and> ss_user_id r = ss_user_id r'
     \<and> (ss_revoked_at r = None \<longrightarrow> r = r' \<and> ss_user_id r \<noteq> u)"
  using assms by (auto simp: revoke_sessions_def split: if_splits)

lemma revoke_sessions_ok:
  assumes "sessions_ok db"
  shows "sessions_ok (revoke_sessions u now db)"
  unfolding sessions_ok_def
proof (intro conjI ballI impI)
  show "distinct (map ss_id (db_sessions (revoke_sessions u now db)))"
      "distinct (map ss_key (db_sessions (revoke_sessions u now db)))"
    using assms by (simp_all only: sessions_ok_def revoke_sessions_rows)
  fix r assume "r \<in> set (db_sessions (revoke_sessions u now db))"
  then obtain r0 where r0: "r0 \<in> set (db_sessions db)" "ss_id r = ss_id r0"
      "ss_user_id r = ss_user_id r0" "ss_revoked_at r = None \<longrightarrow> r = r0"
    by (meson revoke_sessions_row)
  then show "ss_id r < db_next_session (revoke_sessions u now db)" "ss_user_id r \<in> ur_id ` set (db_users (revoke_sessions u now db))"
    using assms by (simp_all add: sessions_ok_def)
  fix r' assume "r' \<in> set (db_sessions (revoke_sessions u now db))" and live: "ss_revoked_at r = None" "ss_revoked_at r' = None"
    and same: "ss_user_id r = ss_user_id r'"
  then have "r' \<in> set (db_sessions db)" by (auto dest!: revoke_sessions_row)
  moreover have "r \<in> set (db_sessions db)" using r0(1,4) live(1) by simp
  ultimately show "r = r'" using live same assms by (simp add: sessions_ok_def)
qed

lemma issue_session_ok:
  assumes "sessions_ok db" and "u \<in> ur_id ` set (db_users db)"
    and "issue_session_in_tx bytes u label now db = Inr ((i, key), db')"
  shows "sessions_ok db'" and "db_users db' = db_users db" and "db_passwords db' = db_passwords db"
    and "db_stats db' = db_stats db" and "db_next_user db' = db_next_user db" and "hands_ok db' = hands_ok db"
    and "i = db_next_session db" and "key = new_session_key bytes"
    and "\<forall>r \<in> set (db_sessions db). \<exists>r' \<in> set (db_sessions db'). ss_id r' = ss_id r
           \<and> (ss_user_id r = u \<longrightarrow> ss_revoked_at r' \<noteq> None)"
proof -
  let ?db = "revoke_sessions u now db"
  let ?new = "\<lparr>ss_id = db_next_session db, ss_user_id = u, ss_key = new_session_key bytes, ss_device_label = label,
      ss_created_at = now, ss_revoked_at = None\<rparr>"
  have db': "db' = ?db\<lparr>db_sessions := db_sessions ?db @ [?new], db_next_session := db_next_session db + 1\<rparr>"
      and fresh: "\<forall>r \<in> set (db_sessions ?db). ss_key r \<noteq> new_session_key bytes"
    using assms(3) by (auto simp: issue_session_in_tx_def Let_def list_ex_iff split: if_splits)
  note old = revoke_sessions_ok [OF assms(1), of u now]
  have ids: "ss_id r < db_next_session db" if "r \<in> set (db_sessions ?db)" for r
    using old that by (simp add: sessions_ok_def)
  then have new_id: "db_next_session db \<notin> ss_id ` set (db_sessions ?db)" by force
  have one: "r = r'" if "r \<in> set (db_sessions ?db)" "r' \<in> set (db_sessions ?db)" "ss_revoked_at r = None"
      "ss_revoked_at r' = None" "ss_user_id r = ss_user_id r'" for r r'
    using old that by (simp add: sessions_ok_def)
  show "sessions_ok db'"
    unfolding sessions_ok_def
  proof (intro conjI)
    show "distinct (map ss_id (db_sessions db'))" "distinct (map ss_key (db_sessions db'))"
      using old fresh new_id by (auto simp: db' sessions_ok_def)
    show "\<forall>r \<in> set (db_sessions db'). ss_id r < db_next_session db' \<and> ss_user_id r \<in> ur_id ` set (db_users db')"
      using old assms(2) by (auto simp: db' sessions_ok_def)
    show "\<forall>r \<in> set (db_sessions db'). \<forall>r' \<in> set (db_sessions db'). ss_revoked_at r = None \<longrightarrow> ss_revoked_at r' = None
          \<longrightarrow> ss_user_id r = ss_user_id r' \<longrightarrow> r = r'"
      using one revoke_sessions_row [of _ u now db] by (auto simp: db')
  qed
  show "\<forall>r \<in> set (db_sessions db). \<exists>r' \<in> set (db_sessions db'). ss_id r' = ss_id r
           \<and> (ss_user_id r = u \<longrightarrow> ss_revoked_at r' \<noteq> None)"
  proof
    fix r assume "r \<in> set (db_sessions db)"
    then have "(if ss_user_id r = u \<and> ss_revoked_at r = None then r\<lparr>ss_revoked_at := Some now\<rparr> else r) \<in> set (db_sessions db')"
      by (simp add: db' revoke_sessions_def)
    then show "\<exists>r' \<in> set (db_sessions db'). ss_id r' = ss_id r \<and> (ss_user_id r = u \<longrightarrow> ss_revoked_at r' \<noteq> None)"
      by (rule rev_bexI) simp
  qed
qed (use assms(3) in \<open>auto simp: issue_session_in_tx_def Let_def hands_ok_def split: if_splits\<close>)

lemma issue_session_new:
  assumes "new_session_key bytes \<notin> ss_key ` set (db_sessions db)"
  shows "\<exists>i key db'. issue_session_in_tx bytes u label now db = Inr ((i, key), db')"
proof -
  have "ss_key ` set (db_sessions (revoke_sessions u now db)) = ss_key ` set (db_sessions db)"
    using arg_cong [OF revoke_sessions_rows(2), of set] by simp
  then have "\<not> list_ex (\<lambda>r. ss_key r = new_session_key bytes) (db_sessions (revoke_sessions u now db))"
    using assms unfolding list_ex_iff by (metis image_eqI)
  then show ?thesis by (simp add: issue_session_in_tx_def Let_def)
qed

lemma install_online_ok:
  assumes "online_ok reg" and "install_online p i name reg = (f, reg')"
  shows "online_ok reg'" and "rg_db reg' = rg_db reg" and "f = rg_next_flag reg" and "\<not> rg_flags reg' f"
proof -
  let ?e = "\<lparr>oe_session_id = i, oe_revoked = rg_next_flag reg, oe_username = name\<rparr>"
  have reg': "rg_online reg' = (rg_online reg)(p \<mapsto> ?e)" "rg_next_flag reg' = Suc (rg_next_flag reg)"
      "rg_flags reg' = (case rg_online reg p of None \<Rightarrow> (rg_flags reg)(rg_next_flag reg := False)
         | Some prev \<Rightarrow> (rg_flags reg)(rg_next_flag reg := False, oe_revoked prev := True))"
    and f: "f = rg_next_flag reg" and db: "rg_db reg' = rg_db reg"
    using assms(2) by (auto simp: install_online_def Let_def split: option.splits)
  show "rg_db reg' = rg_db reg" "f = rg_next_flag reg" by (fact db f)+
  have old: "oe_revoked e < rg_next_flag reg" "\<not> rg_flags reg (oe_revoked e)" if "rg_online reg q = Some e" for q e
    using assms(1) that by (auto simp: online_ok_def)
  have other: "oe_revoked e' \<noteq> oe_revoked e" if "rg_online reg q = Some e" "rg_online reg q' = Some e'" "q \<noteq> q'" for q q' e e'
    using assms(1) that unfolding online_ok_def by metis
  show fresh: "\<not> rg_flags reg' f"
    using old(1) [of p] by (auto simp: f reg'(3) split: option.split)
  have kept: "\<not> rg_flags reg' (oe_revoked e)" if "rg_online reg q = Some e" "q \<noteq> p" for q e
    using old [OF that(1)] other [OF _ that(1)] that(2) by (auto simp: reg'(3) split: option.split)
  show "online_ok reg'"
    unfolding online_ok_def
  proof (intro allI impI)
    fix q e assume q: "rg_online reg' q = Some e"
    show "oe_revoked e < rg_next_flag reg' \<and> \<not> rg_flags reg' (oe_revoked e)
        \<and> (\<forall>p' e'. rg_online reg' p' = Some e' \<longrightarrow> oe_revoked e' = oe_revoked e \<longrightarrow> p' = q)"
    proof (cases "q = p")
      case True
      then have "e = ?e" using q by (simp add: reg'(1))
      then show ?thesis
        using fresh True by (auto simp: f reg'(1,2) split: if_splits dest!: old(1))
    next
      case False
      then have e: "rg_online reg q = Some e" using q by (simp add: reg'(1))
      then show ?thesis
        using old(1) [OF e] kept [OF e False] other [OF _ e] by (fastforce simp: reg'(1,2) split: if_splits)
    qed
  qed
qed

lemma log_in_ok:
  assumes "registry_ok reg" and "accounts_ok db" and "sessions_ok db" and "hands_ok db"
    and "log_in u name created stats i key db reg = (r, reg')"
  shows "registry_ok reg'" and "rg_db reg' = db"
    and "\<exists>a. r = Inr a \<and> plr_player_id (as_record a) = u \<and> as_session_id a = i \<and> as_revoked a = rg_next_flag reg"
proof -
  obtain f reg1 where f: "install_online u i name (reg\<lparr>rg_db := db\<rparr>) = (f, reg1)" by fastforce
  then have reg': "reg' = reg1" and r: "\<exists>a. r = Inr a \<and> plr_player_id (as_record a) = u \<and> as_session_id a = i \<and> as_revoked a = f"
    using assms(5) by (auto simp: log_in_def Let_def)
  have "online_ok (reg\<lparr>rg_db := db\<rparr>)" using assms(1) by (simp add: registry_ok_def online_ok_def)
  note on = install_online_ok [OF this f]
  show "registry_ok reg'" using on assms(2-4) by (simp add: reg' registry_ok_def)
  show "rg_db reg' = db" using on(2) by (simp add: reg')
  show "\<exists>a. r = Inr a \<and> plr_player_id (as_record a) = u \<and> as_session_id a = i \<and> as_revoked a = rg_next_flag reg"
    using r on(3) by simp
qed

lemma accounts_ok_same:
  "db_users db' = db_users db \<Longrightarrow> db_passwords db' = db_passwords db \<Longrightarrow> map fst (db_stats db') = map fst (db_stats db)
     \<Longrightarrow> db_next_user db' = db_next_user db \<Longrightarrow> accounts_ok db' = accounts_ok db"
  by (simp add: accounts_ok_def)

lemma account_stats:
  assumes "accounts_ok db" and "u \<in> ur_id ` set (db_users db)"
  shows "\<exists>st. load_stats_in_tx u db = Inr st"
proof -
  have "set (map fst (db_stats db)) = set (map ur_id (db_users db))" using assms(1) by (simp only: accounts_ok_def)
  then have "u \<in> fst ` set (db_stats db)" using assms(2) by simp
  then obtain st where "map_of (db_stats db) u = Some st" by (metis map_of_eq_None_iff not_None_eq)
  then show ?thesis by (simp add: load_stats_in_tx_def)
qed

text \<open>Every operation that logs in either leaves the registry alone or commits and goes online.\<close>

lemma register_ok:
  assumes "registry_ok reg" and "register hash bytes now fault email username password label reg = (r, reg')"
  shows "registry_ok reg' \<and> extends (rg_db reg) (rg_db reg')
     \<and> (\<forall>a. r = Inr a \<longrightarrow> is_valid_email email \<and> is_valid_username username
          \<and> (\<exists>h u p. hash password = Inr h \<and> u \<in> set (db_users (rg_db reg')) \<and> p \<in> set (db_passwords (rg_db reg'))
               \<and> ur_username u = username \<and> ur_email u = email \<and> ur_id u = plr_player_id (as_record a)
               \<and> pr_user_id p = ur_id u \<and> pr_hash p = h))"
proof (cases "\<exists>a. r = Inr a")
  case False
  then have "reg' = reg"
    using assms(2) by (auto simp: register_def log_in_def Let_def split: if_splits sum.splits option.splits prod.splits)
  then show ?thesis using assms(1) False by simp
next
  case True
  let ?db = "rg_db reg"
  let ?u = "\<lparr>ur_id = db_next_user ?db, ur_email = email, ur_username = username, ur_created_at = now\<rparr>"
  obtain h i key db2 where h: "hash password = Inr h" and valid: "is_valid_email email" "is_valid_username username"
    and fresh: "\<not> list_ex (\<lambda>u. ur_username u = username) (db_users ?db)" "\<not> list_ex (\<lambda>u. ur_email u = email) (db_users ?db)"
    and issue: "issue_session_in_tx bytes (db_next_user ?db) label now (?db\<lparr>db_users := db_users ?db @ [?u],
        db_next_user := db_next_user ?db + 1,
        db_passwords := db_passwords ?db @ [\<lparr>pr_user_id = db_next_user ?db, pr_hash = h, pr_updated_at = now\<rparr>],
        db_stats := db_stats ?db @ [(db_next_user ?db, lifetime_stats_default)]\<rparr>) = Inr ((i, key), db2)"
    and login: "log_in (db_next_user ?db) username now lifetime_stats_default i key db2 reg = (r, reg')"
    using assms(2) True by (auto simp: register_def Let_def split: if_splits sum.splits option.splits prod.splits)
  let ?db1 = "?db\<lparr>db_users := db_users ?db @ [?u],
        db_next_user := db_next_user ?db + 1,
        db_passwords := db_passwords ?db @ [\<lparr>pr_user_id = db_next_user ?db, pr_hash = h, pr_updated_at = now\<rparr>],
        db_stats := db_stats ?db @ [(db_next_user ?db, lifetime_stats_default)]\<rparr>"
  have ok: "accounts_ok ?db" "sessions_ok ?db" "hands_ok ?db" using assms(1) by (simp_all add: registry_ok_def)
  have "sessions_ok ?db1" "hands_ok ?db1" using ok by (auto simp: sessions_ok_def hands_ok_def)
  moreover have acc: "accounts_ok ?db1"
    using ok(1) fresh valid by (fastforce simp: accounts_ok_def list_ex_iff)
  moreover have "db_next_user ?db \<in> ur_id ` set (db_users ?db1)" by simp
  ultimately have db2: "sessions_ok db2" "db_users db2 = db_users ?db1" "db_passwords db2 = db_passwords ?db1"
      "db_stats db2 = db_stats ?db1" "db_next_user db2 = db_next_user ?db1" "hands_ok db2"
    using issue_session_ok [OF _ _ issue] by auto
  then have "accounts_ok db2" using acc accounts_ok_same [of db2 ?db1] by simp
  note fin = log_in_ok [OF assms(1) this db2(1,6) login]
  obtain a where a: "r = Inr a" "plr_player_id (as_record a) = db_next_user ?db" using fin(3) by blast
  let ?p = "\<lparr>pr_user_id = db_next_user ?db, pr_hash = h, pr_updated_at = now\<rparr>"
  have rows: "?u \<in> set (db_users (rg_db reg'))" "?p \<in> set (db_passwords (rg_db reg'))" "extends (rg_db reg) (rg_db reg')"
    using db2(2,3) by (auto simp: fin(2) extends_def)
  have "\<exists>h u p. hash password = Inr h \<and> u \<in> set (db_users (rg_db reg')) \<and> p \<in> set (db_passwords (rg_db reg'))
      \<and> ur_username u = username \<and> ur_email u = email \<and> ur_id u = plr_player_id (as_record a)
      \<and> pr_user_id p = ur_id u \<and> pr_hash p = h"
    by (intro exI [of _ h] exI [of _ ?u] exI [of _ ?p]) (use h rows a in simp)
  then show ?thesis using fin(1) rows(3) valid a(1) by simp
qed

lemma find_any: "find (\<lambda>_. True) xs = (case xs of [] \<Rightarrow> None | x # _ \<Rightarrow> Some x)"
  by (cases xs) simp_all

lemma join_password_SomeD:
  "join_password P db = Some (u, h) \<Longrightarrow> u \<in> set (db_users db) \<and> P u
     \<and> (\<exists>p \<in> set (db_passwords db). pr_user_id p = ur_id u \<and> pr_hash p = h)"
  unfolding join_password_def by (drule find_member) auto

lemma join_session_SomeD:
  "join_session key db = Some (r, u) \<Longrightarrow> r \<in> set (db_sessions db) \<and> ss_key r = key \<and> u \<in> set (db_users db)
     \<and> ur_id u = ss_user_id r"
  unfolding join_session_def by (drule find_member) auto

lemma password_login_ok:
  assumes "registry_ok reg" and "authenticate_password verify bytes now fault ident password label reg = (r, reg')"
  shows "registry_ok reg' \<and> extends (rg_db reg) (rg_db reg')"
proof (cases "\<exists>a. r = Inr a")
  case False
  then have "reg' = reg"
    using assms(2) by (auto simp: authenticate_password_def log_in_def Let_def
        split: if_splits sum.splits option.splits prod.splits bool.splits)
  then show ?thesis using assms(1) by simp
next
  case True
  let ?db = "rg_db reg"
  obtain P u h i key db2 st where u: "join_password P ?db = Some (u, h)"
    and issue: "issue_session_in_tx bytes (ur_id u) label now ?db = Inr ((i, key), db2)"
    and login: "log_in (ur_id u) (ur_username u) (ur_created_at u) st i key db2 reg = (r, reg')"
    using assms(2) True by (auto simp: authenticate_password_def Let_def
        split: if_splits sum.splits option.splits prod.splits bool.splits)
  have ok: "accounts_ok ?db" "sessions_ok ?db" "hands_ok ?db" using assms(1) by (simp_all add: registry_ok_def)
  have "ur_id u \<in> ur_id ` set (db_users ?db)" using join_password_SomeD [OF u] by simp
  note db2 = issue_session_ok [OF ok(2) this issue]
  have "accounts_ok db2" using ok(1) db2 accounts_ok_same [of db2 ?db] by simp
  from log_in_ok [OF assms(1) this db2(1) _ login] db2(6) ok(3)
  have "registry_ok reg'" "rg_db reg' = db2" by simp_all
  then show ?thesis using db2(2,3) by (simp add: extends_def)
qed

lemma session_login_ok:
  assumes "registry_ok reg" and "authenticate_session fault key reg = (r, reg')"
  shows "registry_ok reg' \<and> rg_db reg' = rg_db reg"
proof (cases "\<exists>a. r = Inr a")
  case False
  then have "reg' = reg"
    using assms(2) by (auto simp: authenticate_session_def log_in_def Let_def
        split: if_splits sum.splits option.splits prod.splits)
  then show ?thesis using assms(1) by simp
next
  case True
  then obtain u name created st i where login: "log_in u name created st i key (rg_db reg) reg = (r, reg')"
    using assms(2) by (auto simp: authenticate_session_def split: if_splits sum.splits option.splits prod.splits)
  then show ?thesis
    using log_in_ok [OF assms(1) _ _ _ login] assms(1) by (simp add: registry_ok_def)
qed

lemma logout_ok: "registry_ok reg \<Longrightarrow> registry_ok (logout p i reg)"
  by (auto simp: logout_def registry_ok_def online_ok_def split: option.split)

lemma update_stats_ok:
  assumes "registry_ok reg" and "update_stats fault p st reg = (r, reg')"
  shows "registry_ok reg' \<and> extends (rg_db reg) (rg_db reg')"
proof -
  have "fst \<circ> (\<lambda>(i, st'). (i, if i = p then st else st')) = fst"
    by (auto simp: fun_eq_iff)
  then show ?thesis
    using assms by (auto simp: update_stats_def registry_ok_def online_ok_def accounts_ok_def sessions_ok_def
        hands_ok_def extends_def split: if_splits option.splits)
qed

text \<open>Inserting the seats of a hand succeeds exactly when no constraint is violated, and then appends them.\<close>

lemma insert_seats_rows:
  "insert_seats h seats db = Inr db' \<Longrightarrow>
     db' = db\<lparr>db_hand_seats := db_hand_seats db @ map (Pair h) seats\<rparr>
     \<and> distinct (map hs_seat seats) \<and> (\<forall>s \<in> set seats. (h, hs_seat s) \<notin> (\<lambda>(h, s). (h, hs_seat s)) ` set (db_hand_seats db))"
proof (induction seats arbitrary: db)
  case (Cons s seats)
  then obtain db1 where db1: "insert_seat h s db = Inr db1" and rest: "insert_seats h seats db1 = Inr db'"
    by (auto split: sum.splits)
  have "db1 = db\<lparr>db_hand_seats := db_hand_seats db @ [(h, s)]\<rparr>" "(h, hs_seat s) \<notin> (\<lambda>(h, s). (h, hs_seat s)) ` set (db_hand_seats db)"
    using db1 by (auto simp: insert_seat_def list_ex_iff split: if_splits option.splits)
  with Cons.IH [OF rest] show ?case by (auto simp: image_iff)
qed simp

lemma record_hand_rows:
  assumes "registry_ok reg" and "record_hand fault t started ended log seats reg = (r, reg')"
  shows "reg' = reg \<and> (\<exists>e. r = Inl e) \<or> r = Inr (db_next_hand (rg_db reg)) \<and> fault = None
     \<and> reg' = reg\<lparr>rg_db := (rg_db reg)\<lparr>db_hands := db_hands (rg_db reg) @ [\<lparr>hd_id = db_next_hand (rg_db reg), hd_table_id = t,
           hd_started_at = started, hd_ended_at = ended, hd_log = log\<rparr>], db_next_hand := db_next_hand (rg_db reg) + 1,
         db_hand_seats := db_hand_seats (rg_db reg) @ map (Pair (db_next_hand (rg_db reg))) seats\<rparr>\<rparr>
     \<and> distinct (map hs_seat seats)"
  using assms(2) by (auto simp: record_hand_def Let_def split: option.splits sum.splits dest!: insert_seats_rows)

lemma record_hand_ok:
  assumes "registry_ok reg" and "record_hand fault t started ended log seats reg = (r, reg')"
  shows "registry_ok reg' \<and> extends (rg_db reg) (rg_db reg')"
proof -
  let ?h = "db_next_hand (rg_db reg)"
  have old: "hands_ok (rg_db reg)" using assms(1) by (simp add: registry_ok_def)
  have fresh: "(?h, k) \<notin> (\<lambda>(h, s). (h, hs_seat s)) ` set (db_hand_seats (rg_db reg))" for k
    using old by (auto simp: hands_ok_def)
  have new_rows: "distinct (map (\<lambda>(h, s). (h, hs_seat s)) (db_hand_seats (rg_db reg) @ map (Pair ?h) seats))"
    if "distinct (map hs_seat seats)"
    using that old fresh by (auto simp: hands_ok_def o_def distinct_map inj_on_def)
  have new_hand: "?h \<notin> hd_id ` set (db_hands (rg_db reg))" using old by (auto simp: hands_ok_def)
  from record_hand_rows [OF assms] show ?thesis
  proof (elim disjE conjE)
    assume reg': "reg' = reg\<lparr>rg_db := (rg_db reg)\<lparr>db_hands := db_hands (rg_db reg) @ [\<lparr>hd_id = ?h, hd_table_id = t,
           hd_started_at = started, hd_ended_at = ended, hd_log = log\<rparr>], db_next_hand := ?h + 1,
         db_hand_seats := db_hand_seats (rg_db reg) @ map (Pair ?h) seats\<rparr>\<rparr>" and "distinct (map hs_seat seats)"
    then have "hands_ok (rg_db reg')"
      using old new_rows new_hand by (auto simp: hands_ok_def)
    then show ?thesis
      using assms(1) by (simp add: reg' registry_ok_def accounts_ok_def sessions_ok_def online_ok_def extends_def)
  qed (use assms(1) in simp)
qed

lemma registry_step_ok: "registry_step reg reg' \<Longrightarrow> registry_ok reg \<Longrightarrow> registry_ok reg' \<and> extends (rg_db reg) (rg_db reg')"
proof (induction rule: registry_step.induct)
  case (1 hash bytes now fault email username password label reg r reg')
  then show ?case using register_ok [OF 1(2,1)] by blast
next
  case (2 verify bytes now fault ident password label reg r reg')
  then show ?case using password_login_ok [OF 2(2,1)] by blast
next
  case (3 fault key reg r reg')
  then show ?case using session_login_ok [OF 3(2,1)] by simp
next
  case (4 reg player_id session_id)
  then show ?case by (auto simp: logout_ok) (simp add: logout_def split: option.split)
next
  case (5 fault player_id stats reg r' reg')
  then show ?case using update_stats_ok [OF 5(2,1)] by simp
next
  case (6 fault table_id started ended log seats reg r'' reg')
  then show ?case using record_hand_ok [OF 6(2,1)] by simp
qed

lemma registry_run_ok:
  "registry_step\<^sup>*\<^sup>* reg reg' \<Longrightarrow> registry_ok reg \<Longrightarrow> registry_ok reg' \<and> extends (rg_db reg) (rg_db reg')"
  by (induction rule: rtranclp_induct) (auto dest: registry_step_ok intro: extends_trans)

section \<open>Properties\<close>

text \<open>
  (C13) The registry stays consistent.  Whatever logins, logouts, updates and finished hands it serves, with
  whatever faults of the database in between: ids, names and addresses are unique and valid, every
  account has its password and statistics, a user has at most one live session, keys are unique,
  the rows of hands are unique, and players who are online have a revocation flag of their own that is down.
\<close>

theorem registry_reachable_ok:
  assumes "registry_step\<^sup>*\<^sup>* (registry_open empty_database) reg"
  shows "registry_ok reg"
  using registry_run_ok [OF assms registry_ok_open] by simp

lemma email_at:
  assumes "is_valid_email e"
  shows "CHR ''@'' \<in> set e"
proof (cases "position (\<lambda>c. c = CHR ''@'') e")
  case (Some i)
  then show ?thesis using position_SomeD [OF Some] nth_mem [of i e] by simp
qed (use assms in \<open>simp add: is_valid_email_def split: if_splits\<close>)

lemma username_at:
  assumes "is_valid_username n"
  shows "CHR ''@'' \<notin> set n"
proof
  assume "CHR ''@'' \<in> set n"
  then have "is_ascii_alphanumeric (CHR ''@'')"
    using assms by (auto simp: is_valid_username_def list_all_iff split: if_splits)
  then show False by (simp add: is_ascii_alphanumeric_def less_eq_char_def)
qed

text \<open>Names and addresses identify an account, so the join finds it.\<close>

lemma join_password_unique:
  assumes ok: "accounts_ok db" and u: "u \<in> set (db_users db)" "P u" "\<And>u'. u' \<in> set (db_users db) \<Longrightarrow> P u' \<Longrightarrow> u' = u"
    and p: "p \<in> set (db_passwords db)" "pr_user_id p = ur_id u"
  shows "join_password P db = Some (u, pr_hash p)"
proof -
  let ?xs = "[(u, pr_hash p). u \<leftarrow> db_users db, P u, p \<leftarrow> db_passwords db, pr_user_id p = ur_id u]"
  have "distinct (map pr_user_id (db_passwords db))" using ok by (simp add: accounts_ok_def)
  then have one: "p' = p" if "p' \<in> set (db_passwords db)" "pr_user_id p' = ur_id u" for p'
    using that p by (auto simp: distinct_map inj_on_def)
  have "(u, pr_hash p) \<in> set ?xs" using u(1,2) p by auto
  then obtain u' h where join: "join_password P db = Some (u', h)"
    by (cases ?xs) (auto simp: join_password_def find_any)
  from join_password_SomeD [OF this] have "u' = u" "h = pr_hash p" using u(3) one by auto
  then show ?thesis using join by simp
qed

text \<open>
  (C14) An account can always be used again.  After a successful registration, in every later state of
  the registry, the same password logs in under the user name and under the e-mail address, to
  the same player id; \<open>argon2\<close> accepts the password whose hash it made, and the drawn session key is new.
\<close>

theorem register_then_login:
  assumes "registry_ok reg"
    and "register hash bytes now fault email username password label reg = (Inr a, reg1)"
    and "registry_step\<^sup>*\<^sup>* reg1 reg2"
    and "\<And>h. hash password = Inr h \<Longrightarrow> verify password h = Inr True"
    and "new_session_key bytes2 \<notin> ss_key ` set (db_sessions (rg_db reg2))"
    and "ident = username \<or> ident = email"
  shows "\<exists>b. fst (authenticate_password verify bytes2 now2 None ident password label2 reg2) = Inr b
     \<and> plr_player_id (as_record b) = plr_player_id (as_record a)"
proof -
  let ?db = "rg_db reg2"
  note reg = register_ok [OF assms(1,2)]
  note later = registry_run_ok [OF assms(3)]
  obtain h u p where h: "hash password = Inr h" and u: "u \<in> set (db_users (rg_db reg1))" "ur_username u = username"
      "ur_email u = email" "ur_id u = plr_player_id (as_record a)"
    and p: "p \<in> set (db_passwords (rg_db reg1))" "pr_user_id p = ur_id u" "pr_hash p = h"
    and valid: "is_valid_email email" "is_valid_username username"
    using reg by blast
  have ok: "accounts_ok ?db" and mem: "u \<in> set (db_users ?db)" "p \<in> set (db_passwords ?db)"
    using later reg u(1) p(1) by (auto simp: registry_ok_def extends_def)
  let ?P = "\<lambda>u. if CHR ''@'' \<in> set ident then ur_email u = ident else ur_username u = ident"
  have by_email: "CHR ''@'' \<in> set ident \<longleftrightarrow> ident = email"
    using assms(6) email_at [OF valid(1)] username_at [OF valid(2)] by auto
  have P: "?P u" using assms(6) by_email u(2,3) by auto
  have "u' = u" if "u' \<in> set (db_users ?db)" "?P u'" for u'
    using ok that mem(1) P by (auto simp: accounts_ok_def distinct_map inj_on_def split: if_splits)
  from join_password_unique [where P = ?P, OF ok mem(1) P this mem(2) p(2)]
  have join: "join_password ?P ?db = Some (u, h)" using p(3) by simp
  obtain i key db2 where issue: "issue_session_in_tx bytes2 (ur_id u) label2 now2 ?db = Inr ((i, key), db2)"
    using issue_session_new [OF assms(5)] by blast
  have "db_stats db2 = db_stats ?db"
    using issue by (auto simp: issue_session_in_tx_def Let_def split: if_splits)
  moreover obtain st where "load_stats_in_tx (ur_id u) ?db = Inr st"
    using account_stats [OF ok, of "ur_id u"] mem(1) by auto
  ultimately have st: "load_stats_in_tx (ur_id u) db2 = Inr st" by (simp add: load_stats_in_tx_def)
  show ?thesis
    using u(4) by (simp add: authenticate_password_def Let_def join assms(4) [OF h] issue [unfolded u(4)] st [unfolded u(4)]
      log_in_def split_beta)
qed

lemma find_append: "find P (xs @ ys) = (case find P xs of None \<Rightarrow> find P ys | Some x \<Rightarrow> Some x)"
  by (induction xs) auto

text \<open>
  (C15) Finished hands are archived whole.  Recording a hand either fails and leaves the registry exactly as it
  was, or stores the hand under a new id: fetching it gives back its header, its log and its seats,
  and every other hand is fetched as before.
\<close>

theorem hand_archive_roundtrip:
  assumes "registry_ok reg" and "record_hand fault t started ended log seats reg = (r, reg')" and "sorted (map hs_seat seats)"
  shows "(case r of
      Inl e \<Rightarrow> reg' = reg
    | Inr h \<Rightarrow> fetch_hand None h reg' = Inr (Some \<lparr>hc_id = h, hc_table_id = t, hc_started_at = started, hc_ended_at = ended,
          hc_log = log, hc_seats = seats\<rparr>)
        \<and> fetch_hand None h reg = Inr None \<and> (\<forall>h'. h' \<noteq> h \<longrightarrow> fetch_hand None h' reg' = fetch_hand None h' reg))"
proof (cases r)
  case (Inr h)
  let ?db = "rg_db reg"
  have old: "hands_ok ?db" using assms(1) by (simp add: registry_ok_def)
  from record_hand_rows [OF assms(1,2)] Inr
  have h: "h = db_next_hand ?db" and rows: "db_hands (rg_db reg') = db_hands ?db @ [\<lparr>hd_id = h, hd_table_id = t,
      hd_started_at = started, hd_ended_at = ended, hd_log = log\<rparr>]"
    and seats: "db_hand_seats (rg_db reg') = db_hand_seats ?db @ map (Pair h) seats" by auto
  have none: "find (\<lambda>x. hd_id x = h) (db_hands ?db) = None"
    using old by (auto simp: find_None_iff hands_ok_def h)
  have no_seats: "filter (\<lambda>(j, _). j = h) (db_hand_seats ?db) = []"
    using old by (auto simp: filter_empty_conv hands_ok_def h)
  have "filter (\<lambda>(j, _). j = h') (map (Pair h) xs) = (if h' = h then map (Pair h) xs else [])" for h' and xs :: "hand_seat_record list"
    by (induction xs) auto
  moreover have "sort_key hs_seat seats = seats" using assms(3) by (rule sort_key_id_if_sorted)
  ultimately show ?thesis
    using none no_seats by (auto simp: Inr fetch_hand_def rows seats find_append o_def split: option.split)
next
  case (Inl e)
  then show ?thesis using record_hand_rows [OF assms(1,2)] by auto
qed

text \<open>
  A session that was resumed survives the next login.  When a client resumes a session by its key while another
  connection still holds it, the older one is told to go; its logout then takes the newer one off
  the list of who is online, because both have the same session id.  The next login of the
  player revokes the session in the database, but the newer connection is never told and keeps playing next
  to the new login.
\<close>

theorem resumed_session_survives_login:
  assumes "registry_ok reg" and "authenticate_session None key reg = (Inr a, reg1)"
    and "authenticate_session None key reg1 = (Inr b, reg2)"
    and "authenticate_password verify bytes now None ident password label
           (logout (plr_player_id (as_record a)) (as_session_id a) reg2) = (Inr c, reg3)"
    and "plr_player_id (as_record c) = plr_player_id (as_record b)"
  shows "rg_flags reg3 (as_revoked a) \<and> \<not> rg_flags reg3 (as_revoked b) \<and> \<not> rg_flags reg3 (as_revoked c)
     \<and> as_revoked b \<noteq> as_revoked c
     \<and> (\<forall>r \<in> set (db_sessions (rg_db reg3)). ss_id r = as_session_id b \<longrightarrow> ss_revoked_at r \<noteq> None)"
proof -
  let ?p = "plr_player_id (as_record a)" and ?f = "rg_next_flag reg"
  obtain row u where row: "join_session key (rg_db reg) = Some (row, u)"
    using assms(2) by (auto simp: authenticate_session_def split: option.splits)
  have a: "?p = ur_id u" "as_session_id a = ss_id row" "as_revoked a = ?f" "rg_db reg1 = rg_db reg"
      "rg_next_flag reg1 = Suc ?f" "rg_online reg1 = (rg_online reg)(ur_id u \<mapsto>
         \<lparr>oe_session_id = ss_id row, oe_revoked = ?f, oe_username = ur_username u\<rparr>)"
    using assms(2) by (auto simp: authenticate_session_def row log_in_def install_online_def Let_def
        split: if_splits sum.splits option.splits)
  have b: "plr_player_id (as_record b) = ur_id u" "as_session_id b = ss_id row" "as_revoked b = Suc ?f"
      "rg_db reg2 = rg_db reg" "rg_next_flag reg2 = Suc (Suc ?f)" "rg_flags reg2 ?f" "\<not> rg_flags reg2 (Suc ?f)"
      "rg_online reg2 (ur_id u) = Some \<lparr>oe_session_id = ss_id row, oe_revoked = Suc ?f, oe_username = ur_username u\<rparr>"
    using assms(3) by (auto simp: authenticate_session_def a(4-6) row log_in_def install_online_def Let_def
        split: if_splits sum.splits option.splits)
  define out where "out = logout ?p (as_session_id a) reg2"
  have out: "rg_online out (ur_id u) = None" "rg_flags out = rg_flags reg2" "rg_next_flag out = Suc (Suc ?f)" "rg_db out = rg_db reg"
    using b by (simp_all add: out_def logout_def a(1,2))
  obtain v :: user_row and i k db2 st where issue: "issue_session_in_tx bytes (ur_id v) label now (rg_db reg) = Inr ((i, k), db2)"
    and login: "log_in (ur_id v) (ur_username v) (ur_created_at v) st i k db2 out = (Inr c, reg3)"
    using assms(4) by (auto simp: out_def [symmetric] authenticate_password_def Let_def out(4)
        split: sum.splits option.splits prod.splits bool.splits)
  have v: "ur_id v = ur_id u"
    using login assms(5) by (auto simp: log_in_def Let_def b(1) split: prod.splits)
  have c: "as_revoked c = Suc (Suc ?f)" "rg_flags reg3 = (rg_flags reg2)(Suc (Suc ?f) := False)" "rg_db reg3 = db2"
    using login by (auto simp: log_in_def install_online_def Let_def v out)
  have sess: "sessions_ok (rg_db reg)" using assms(1) by (simp add: registry_ok_def)
  note r = join_session_SomeD [OF row]
  have "ur_id v \<in> ur_id ` set (db_users (rg_db reg))" unfolding v using r by (intro imageI) simp
  note db2 = issue_session_ok [OF sess this issue]
  obtain row' where row': "row' \<in> set (db_sessions db2)" "ss_id row' = ss_id row" "ss_revoked_at row' \<noteq> None"
    using db2(9) r v by auto
  have "x = row'" if "x \<in> set (db_sessions db2)" "ss_id x = ss_id row" for x
    using that row' db2(1) by (auto simp: sessions_ok_def distinct_map inj_on_def)
  then have "\<forall>x \<in> set (db_sessions db2). ss_id x = ss_id row \<longrightarrow> ss_revoked_at x \<noteq> None"
    using row'(3) by blast
  then show ?thesis
    using a b c by simp
qed

section \<open>Witnesses\<close>

definition demo_hash :: "string \<Rightarrow> string + string" where
  "demo_hash password = Inr (rev password)"

definition demo_verify :: "string \<Rightarrow> string \<Rightarrow> string + bool" where
  "demo_verify password hash = Inr (hash = rev password)"

definition demo_key :: "8 word \<Rightarrow> 8 word list" where
  "demo_key b = [b, 255]"

definition demo_anna :: "(registry_error + auth_success) \<times> registry" where
  "demo_anna = register demo_hash (demo_key 1) 5 None ''ann@b.co'' ''anna'' ''swordfish'' None (registry_open empty_database)"

lemma demo_email: "is_valid_email ''ann@b.co''"
  by (simp add: is_valid_email_def is_whitespace_def is_control_def Let_def)

lemma demo_names: "is_valid_username ''anna''" "is_valid_password ''swordfish''"
  by (simp_all add: is_valid_username_def is_valid_password_def is_ascii_alphanumeric_def less_eq_char_def)

lemma demo_keys: "new_session_key (demo_key 1) = ''01ff''" "new_session_key (demo_key 2) = ''02ff''"
  by (simp_all add: new_session_key_def hex_digit_def demo_key_def)

lemmas demo_valid = demo_email demo_names demo_keys

definition demo_login :: auth_success where
  "demo_login = \<lparr>as_record = \<lparr>plr_player_id = 1, plr_username = ''anna'', plr_created_unix = 5,
     plr_stats = lifetime_stats_default\<rparr>, as_session_key = ''01ff'', as_session_id = 1, as_revoked = 0\<rparr>"

lemma demo_anna_fst: "fst demo_anna = Inr demo_login"
  by (simp add: demo_anna_def register_def demo_valid demo_hash_def issue_session_in_tx_def revoke_sessions_def
      log_in_def install_online_def registry_open_def empty_database_def Let_def demo_login_def)

lemma demo_anna_db:
  "rg_db (snd demo_anna) = \<lparr>db_users = [\<lparr>ur_id = 1, ur_email = ''ann@b.co'', ur_username = ''anna'', ur_created_at = 5\<rparr>],
     db_passwords = [\<lparr>pr_user_id = 1, pr_hash = rev ''swordfish'', pr_updated_at = 5\<rparr>],
     db_stats = [(1, lifetime_stats_default)],
     db_sessions = [\<lparr>ss_id = 1, ss_user_id = 1, ss_key = ''01ff'', ss_device_label = None, ss_created_at = 5, ss_revoked_at = None\<rparr>],
     db_hands = [], db_hand_seats = [], db_next_user = 2, db_next_session = 2, db_next_hand = 1\<rparr>"
  by (simp add: demo_anna_def register_def demo_valid demo_hash_def issue_session_in_tx_def revoke_sessions_def
      log_in_def install_online_def registry_open_def empty_database_def Let_def)

lemma demo_anna_register:
  "register demo_hash (demo_key 1) 5 None ''ann@b.co'' ''anna'' ''swordfish'' None (registry_open empty_database)
   = (Inr demo_login, snd demo_anna)"
  unfolding demo_anna_def [symmetric] by (simp add: prod_eq_iff demo_anna_fst)

lemma demo_anna_ok: "registry_ok (snd demo_anna)"
  using register_ok [OF registry_ok_open demo_anna_register] by blast

lemma logout_db [simp]: "rg_db (logout p i reg) = rg_db reg"
  by (simp add: logout_def split: option.split)

lemma demo_resume:
  "rg_db reg = rg_db (snd demo_anna) \<Longrightarrow> \<exists>a reg'. authenticate_session None ''01ff'' reg = (Inr a, reg')
     \<and> plr_player_id (as_record a) = 1 \<and> as_session_id a = 1 \<and> rg_db reg' = rg_db (snd demo_anna)"
  by (simp add: authenticate_session_def join_session_def load_stats_in_tx_def log_in_def install_online_def Let_def demo_anna_db)

lemma demo_password:
  "rg_db reg = rg_db (snd demo_anna) \<Longrightarrow> \<exists>c reg'. authenticate_password demo_verify (demo_key 2) 9 None ''anna'' ''swordfish'' None reg
     = (Inr c, reg') \<and> plr_player_id (as_record c) = 1"
  by (simp add: authenticate_password_def join_password_def load_stats_in_tx_def log_in_def install_online_def Let_def
      issue_session_in_tx_def revoke_sessions_def demo_verify_def demo_valid demo_anna_db)

theorem registry_reachable_ok_witness: "registry_ok (snd demo_anna)"
proof (rule registry_reachable_ok)
  show "registry_step\<^sup>*\<^sup>* (registry_open empty_database) (snd demo_anna)"
    by (rule r_into_rtranclp, rule registry_step.intros(1) [OF demo_anna_register])
qed

theorem register_then_login_witness:
  "\<exists>b. fst (authenticate_password demo_verify (demo_key 2) 9 None ''ann@b.co'' ''swordfish'' None
       (logout 1 1 (snd demo_anna))) = Inr b \<and> plr_player_id (as_record b) = 1"
proof -
  have "registry_step\<^sup>*\<^sup>* (snd demo_anna) (logout 1 1 (snd demo_anna))"
    by (rule r_into_rtranclp, rule registry_step.intros(4))
  from register_then_login [OF registry_ok_open demo_anna_register this,
      of demo_verify "demo_key 2" "''ann@b.co''" 9 None]
  show ?thesis
    by (simp add: demo_hash_def demo_verify_def demo_valid demo_anna_db logout_def demo_login_def split: option.split)
qed

theorem hand_archive_roundtrip_witness:
  "let (r, reg') = record_hand None 9 100 130 [1, 2] [\<lparr>hs_seat = 0, hs_player_id = Some 1, hs_chip_delta = 5, hs_sat_out = False\<rparr>,
         \<lparr>hs_seat = 1, hs_player_id = None, hs_chip_delta = -5, hs_sat_out = False\<rparr>] (snd demo_anna)
   in r = Inr 1 \<and> (\<exists>hr. fetch_hand None 1 reg' = Inr (Some hr) \<and> hc_log hr = [1, 2] \<and> map hs_chip_delta (hc_seats hr) = [5, -5])"
proof -
  let ?seats = "[\<lparr>hs_seat = 0, hs_player_id = Some 1, hs_chip_delta = 5, hs_sat_out = False\<rparr>,
         \<lparr>hs_seat = 1, hs_player_id = None, hs_chip_delta = -5, hs_sat_out = False\<rparr>]"
  have r: "fst (record_hand None 9 100 130 [1, 2] ?seats (snd demo_anna)) = Inr 1"
    by (simp add: record_hand_def Let_def insert_seat_def demo_anna_db)
  from hand_archive_roundtrip [OF demo_anna_ok surjective_pairing, of "?seats" None 9 100 130 "[1, 2]"]
  show ?thesis by (simp add: r [simplified] split_beta)
qed

theorem resumed_session_survives_login_witness:
  "let (a, reg1) = authenticate_session None ''01ff'' (logout 1 1 (snd demo_anna));
       (b, reg2) = authenticate_session None ''01ff'' reg1;
       (c, reg3) = authenticate_password demo_verify (demo_key 2) 9 None ''anna'' ''swordfish'' None (logout 1 1 reg2)
   in \<exists>b' c'. b = Inr b' \<and> c = Inr c' \<and> \<not> rg_flags reg3 (as_revoked b') \<and> \<not> rg_flags reg3 (as_revoked c')"
proof -
  let ?r0 = "logout 1 1 (snd demo_anna)"
  obtain a reg1 where a: "authenticate_session None ''01ff'' ?r0 = (Inr a, reg1)" "plr_player_id (as_record a) = 1"
      "as_session_id a = 1" "rg_db reg1 = rg_db (snd demo_anna)"
    using demo_resume [of ?r0] by auto
  obtain b reg2 where b: "authenticate_session None ''01ff'' reg1 = (Inr b, reg2)" "plr_player_id (as_record b) = 1"
      "rg_db reg2 = rg_db (snd demo_anna)"
    using demo_resume [OF a(4)] by auto
  obtain c reg3 where c: "authenticate_password demo_verify (demo_key 2) 9 None ''anna'' ''swordfish'' None (logout 1 1 reg2)
      = (Inr c, reg3)" "plr_player_id (as_record c) = 1"
    using demo_password [of "logout 1 1 reg2"] b(3) by auto
  have "registry_ok ?r0" by (rule logout_ok [OF demo_anna_ok])
  from resumed_session_survives_login [OF this a(1) b(1), of demo_verify "demo_key 2" 9 "''anna''" "''swordfish''" None c reg3]
  show ?thesis using a b c by (simp add: Let_def)
qed

end
