(* ===== verification/ServerInv.thy ===== *)
theory ServerInv
  imports Session TableInv RegistryInv
begin

text \<open>
  The invariant of the whole server, kept by every step of every session and of every table, and what
  sessions do to each other: a handler of \<open>session.rs\<close> is one step, the tasks of the tables take
  the steps of \<open>table_step\<close>, and the two interleave in any order.
\<close>

section \<open>What a step on one table means for the others\<close>

text \<open>New links may appear; the old ones keep their owners.\<close>

definition owners_kept :: "store \<Rightarrow> store \<Rightarrow> bool" where
  "owners_kept s s' \<longleftrightarrow> s_next_link s \<le> s_next_link s'
     \<and> (\<forall>l < s_next_link s. link_player_id l s' = link_player_id l s)"

lemma owners_kept_same: "same_owners s s' \<Longrightarrow> owners_kept s s'"
  by (simp add: same_owners_def owners_kept_def)

lemma owners_kept_refl [simp]: "owners_kept s s"
  by (simp add: owners_kept_def)

lemma owners_kept_trans [trans]: "owners_kept s s' \<Longrightarrow> owners_kept s' s'' \<Longrightarrow> owners_kept s s''"
  by (auto simp: owners_kept_def)

lemma seat_ok_kept: "seat_ok s a \<Longrightarrow> owners_kept s s' \<Longrightarrow> seat_ok s' a"
  by (simp add: seat_ok_def owners_kept_def)

lemma table_ok_kept: "table_ok t s \<Longrightarrow> owners_kept s s' \<Longrightarrow> table_ok t s'"
  unfolding table_ok_def using seat_ok_kept by blast

definition links_of :: "table \<Rightarrow> nat set" where
  "links_of t = {se_link a | a. \<exists>i. seated t i = Some a}"

text \<open>The frame of a step on a table: identity and configuration stay, links are old or new, owners are kept.\<close>

definition table_frame :: "table \<times> store \<Rightarrow> table \<times> store \<Rightarrow> bool" where
  "table_frame = (\<lambda>(t, s) (t', s'). tb_id t' = tb_id t \<and> tb_config t' = tb_config t \<and> owners_kept s s'
     \<and> links_of t' \<subseteq> links_of t \<union> {s_next_link s..<s_next_link s'})"

lemma table_frame_same: "same_owners s s' \<Longrightarrow> table_frame (t, s) (t, s')"
  by (simp add: table_frame_def owners_kept_same)

lemma table_frame_trans: "table_frame ts ts' \<Longrightarrow> table_frame ts' ts'' \<Longrightarrow> table_frame ts ts''"
  by (cases ts; cases ts'; cases ts'') (force simp: table_frame_def owners_kept_def)

lemma links_of_simps [simp]:
  "links_of (t\<lparr>tb_notified := n\<rparr>) = links_of t" "links_of (t\<lparr>tb_hand_in_progress := h\<rparr>) = links_of t"
  "links_of (t\<lparr>tb_next_hand_id := k\<rparr>) = links_of t"
  by (simp_all add: links_of_def)

lemma links_of_bounds: "table_ok t s \<Longrightarrow> l \<in> links_of t \<Longrightarrow> l < s_next_link s"
  by (auto simp: links_of_def table_ok_def seat_ok_def)

lemma links_of_vacate: "i < length (tb_seats t) \<Longrightarrow> links_of (vacate i t) \<subseteq> links_of t"
  by (auto simp: links_of_def vacate_seats split: if_splits)

lemma table_frame_vacate:
  "i < length (tb_seats t) \<Longrightarrow> same_owners s s' \<Longrightarrow> table_frame (t, s) (notify_one (vacate i t), s')"
  using links_of_vacate [of i t]
  by (auto simp: table_frame_def notify_one_def owners_kept_same vacate_def)

lemma table_frame_leave: "table_frame (t, s) (snd (leave p t), s)"
  by (auto simp: leave_def split: option.split dest!: position_SomeD intro!: table_frame_vacate table_frame_same)

lemma table_frame_force: "table_frame (t, s) (force_leave p sid (t, s))"
  by (auto simp: force_leave_def Let_def split: option.split dest!: position_SomeD
      intro!: table_frame_vacate table_frame_same)

lemma table_frame_sit:
  assumes "sit conn buy_in (t, s) = Some (r, t', s')"
  shows "table_frame (t, s) (t', s')"
proof (cases "\<exists>i. r = Inr i")
  case False
  then have "t' = t" "s' = s"
    using assms by (auto simp: sit_def Let_def alloc_link_def split: bind_splits if_splits option.splits)
  then show ?thesis by (simp add: table_frame_same)
next
  case True
  define a where "a = \<lparr>se_player_id = cn_player_id (s_conn s conn), se_username = cn_username (s_conn s conn),
      se_stack = buy_in, se_link = s_next_link s, se_leave_pending = False\<rparr>"
  have link: "se_link a = s_next_link s" by (simp add: a_def)
  obtain i where i: "position (\<lambda>slot. slot = None) (tb_seats t) = Some i"
      and t': "t' = notify_one (t\<lparr>tb_seats := (tb_seats t)[i := Some a]\<rparr>)" and s': "s' = snd (alloc_link conn s)"
    using assms True by (auto simp: sit_def Let_def alloc_link_def a_def split: bind_splits if_splits option.splits)
  have "links_of t' \<subseteq> insert (s_next_link s) (links_of t)"
    using position_SomeD [OF i] link
    by (auto simp: t' notify_one_def links_of_def seated_update split: if_splits)
  moreover have "owners_kept s s'"
    by (auto simp: s' owners_kept_def alloc_link_def upd_link_def link_player_id_def link_current_def)
  ultimately show ?thesis
    by (auto simp: table_frame_def t' s' notify_one_def alloc_link_def upd_link_def)
qed

lemma table_frame_reconnect:
  "table_ok t s \<Longrightarrow> reconnect_player new (t, s) = (r, s') \<Longrightarrow> table_frame (t, s) (t, s')"
  by (blast intro: table_frame_same same_owners_reconnect)

lemma table_frame_settle:
  assumes "table_ok t s"
  shows "table_frame (t, s) (apply_hand_result res (t, s))"
proof -
  obtain t' s' where r: "apply_hand_result res (t, s) = (t', s')" by (cases "apply_hand_result res (t, s)")
  let ?seats = "fold apply_delta (hr_seats res) (tb_seats t)"
  note rel = apply_deltas_restacked [of "tb_seats t" "hr_seats res"]
  have t': "tb_seats t' = map settle_slot ?seats" "tb_config t' = tb_config t" "tb_id t' = tb_id t" and "same_owners s s'"
    using r by (auto simp: apply_hand_result_def Let_def)
  moreover have "links_of t' \<subseteq> links_of t"
  proof
    fix l assume "l \<in> links_of t'"
    then obtain i b where b: "seated t' i = Some b" "l = se_link b" by (auto simp: links_of_def)
    then have i: "i < length (tb_seats t)" "map settle_slot ?seats ! i = Some b"
      using rel by (auto simp: seated_def t'(1) list_all2_lengthD split: if_splits)
    from settled_seat [OF rel this] obtain a where "tb_seats t ! i = Some a" "restacked a b" by blast
    then have "seated t i = Some a" "se_link b = se_link a"
      using i(1) by (cases a; cases b; simp add: seated_def restacked_def)+
    then show "l \<in> links_of t" using b(2) by (auto simp: links_of_def)
  qed
  ultimately show ?thesis by (auto simp: r table_frame_def owners_kept_same)
qed

lemma table_step_frame: "table_step ts ts' \<Longrightarrow> table_ok (fst ts) (snd ts) \<Longrightarrow> table_frame ts ts'"
proof (induction rule: table_step.induct)
  case (sits buy_in conn ts r ts')
  then show ?case by (cases ts; cases ts') (auto intro: table_frame_sit)
next
  case (forced ts p sid)
  then show ?case by (cases ts) (auto intro: table_frame_force)
next
  case (settles ts res)
  then show ?case by (cases ts) (auto intro: table_frame_settle)
next
  case (leaves p t r t' s)
  then show ?case using table_frame_leave [of t s p] by simp
next
  case (prompts ag obs s r s' t)
  then show ?case using same_owners_act_begin [of s ag obs] by (auto intro: table_frame_same)
next
  case (answered ag k s a s' t)
  then show ?case using same_owners_act_end [of s ag k] by (auto intro: table_frame_same)
next
  case (fans to_vec ev bs s bs' s' t)
  then show ?case using same_owners_sink [of s to_vec ev bs] by (auto intro: table_frame_same)
next
  case (reconnects new t s r s')
  then show ?case by (auto intro: table_frame_reconnect)
next
  case (sessions s x t)
  then show ?case by (auto intro: table_frame_same same_owners_plain)
next
  case (announces t s e)
  show ?case by (rule table_frame_same) simp
qed (auto simp: table_frame_def quorum_check_def take_running_snapshot_def Let_def split: if_splits)

section \<open>The invariant of the server\<close>

definition server_ok :: "server \<Rightarrow> bool" where
  "server_ok sv \<longleftrightarrow> registry_ok (sv_registry sv)
     \<and> (\<forall>i t. get_table i (sv_tables sv) = Some t \<longrightarrow>
          tb_id t = i \<and> table_ok t (sv_store sv) \<and> tc_big_blind (tb_config t) * 10 < u32_lim)
     \<and> (\<forall>i j t u. get_table i (sv_tables sv) = Some t \<longrightarrow> get_table j (sv_tables sv) = Some u \<longrightarrow> i \<noteq> j
          \<longrightarrow> links_of t \<inter> links_of u = {})
     \<and> (\<forall>p i. current_table p (sv_tables sv) = Some i \<longrightarrow> get_table i (sv_tables sv) \<noteq> None)"

lemma get_table_install: "get_table i (install t m) = (if i = tb_id t then Some t else get_table i m)"
  by (simp add: get_table_def install_def update_conv')

lemma server_ok_store:
  "server_ok sv \<Longrightarrow> same_owners (sv_store sv) s \<Longrightarrow> server_ok (sv\<lparr>sv_store := s\<rparr>)"
  unfolding server_ok_def by (auto intro: table_ok_owners)

lemma server_ok_registry: "server_ok sv \<Longrightarrow> registry_ok reg \<Longrightarrow> server_ok (sv\<lparr>sv_registry := reg\<rparr>)"
  by (simp add: server_ok_def)

lemma server_ok_put:
  assumes ok: "server_ok sv" and i: "get_table i (sv_tables sv) = Some t"
    and "table_frame (t, sv_store sv) (t', s')" and "table_ok t' s'"
  shows "server_ok (put_table t' s' sv)"
proof -
  have id: "tb_id t = i" and bb: "tc_big_blind (tb_config t) * 10 < u32_lim"
    using ok i unfolding server_ok_def by blast+
  have fr: "tb_id t' = i" "tb_config t' = tb_config t" "owners_kept (sv_store sv) s'"
      "links_of t' \<subseteq> links_of t \<union> {s_next_link (sv_store sv)..}"
    using assms(3) id by (auto simp: table_frame_def)
  have others: "tb_id u = j" "table_ok u s'" "tc_big_blind (tb_config u) * 10 < u32_lim" "links_of t' \<inter> links_of u = {}"
    if "get_table j (sv_tables sv) = Some u" "j \<noteq> i" for j u
  proof -
    have u: "tb_id u = j" "table_ok u (sv_store sv)" "tc_big_blind (tb_config u) * 10 < u32_lim"
        "links_of t \<inter> links_of u = {}"
      using ok i that unfolding server_ok_def by blast+
    show "tb_id u = j" "table_ok u s'" "tc_big_blind (tb_config u) * 10 < u32_lim"
      using u fr(3) by (auto intro: table_ok_kept)
    show "links_of t' \<inter> links_of u = {}"
    proof (rule equals0I)
      fix l assume l: "l \<in> links_of t' \<inter> links_of u"
      then have "l < s_next_link (sv_store sv)" using links_of_bounds [OF u(2)] by simp
      moreover have "l \<in> links_of t \<union> {s_next_link (sv_store sv)..}" using fr(4) l by blast
      ultimately show False using u(4) l by auto
    qed
  qed
  have apart: "links_of u \<inter> links_of v = {}"
    if "get_table j (sv_tables sv) = Some u" "get_table k (sv_tables sv) = Some v" "j \<noteq> k" for j k u v
    using ok that unfolding server_ok_def by blast
  have known: "get_table j (sv_tables sv) \<noteq> None" if "current_table p (sv_tables sv) = Some j" for p j
    using ok that unfolding server_ok_def by blast
  have "registry_ok (sv_registry sv)" using ok by (simp add: server_ok_def)
  then show ?thesis
    using others apart known bb fr(1,2) assms(4)
    unfolding server_ok_def put_table_def
    by (simp add: get_table_install current_table_def) (auto simp: install_def Int_commute)
qed

section \<open>Every handler keeps it\<close>

lemma same_owners_send_wait: "same_owners (sv_store sv) (sv_store (send_wait c m sv))"
  unfolding send_wait_def by (auto intro: same_owners_upd_conn)

lemma server_ok_send: "server_ok sv \<Longrightarrow> server_ok (send c m sv)"
  by (simp add: send_def server_ok_store)

lemma server_ok_send_wait: "server_ok sv \<Longrightarrow> server_ok (send_wait c m sv)"
  using server_ok_store [OF _ same_owners_send_wait] by (simp add: send_wait_def)

lemma record_tables [simp]:
  "get_table i (record_join p j m) = get_table i m" "get_table i (snd (record_leave p m)) = get_table i m"
  "current_table q (record_join p j m) = (if q = p then Some j else current_table q m)"
  "current_table q (snd (record_leave p m)) = (if q = p then None else current_table q m)"
  by (simp_all add: get_table_def current_table_def record_join_def record_leave_def)

lemma server_ok_join_record:
  "server_ok sv \<Longrightarrow> get_table i (sv_tables sv) \<noteq> None \<Longrightarrow>
    server_ok (sv\<lparr>sv_tables := record_join p i (sv_tables sv)\<rparr>)"
  unfolding server_ok_def by simp

lemma server_ok_leave_record: "server_ok sv \<Longrightarrow> server_ok (sv\<lparr>sv_tables := snd (record_leave p (sv_tables sv))\<rparr>)"
  unfolding server_ok_def by simp

lemma server_ok_table:
  assumes "server_ok sv" and "get_table i (sv_tables sv) = Some t"
  shows "tb_id t = i" and "table_ok t (sv_store sv)" and "tc_big_blind (tb_config t) * 10 < u32_lim"
  using assms unfolding server_ok_def by blast+

lemma put_table_simps [simp]:
  "sv_store (put_table t s sv) = s" "sv_registry (put_table t s sv) = sv_registry sv"
  "get_table (tb_id t) (sv_tables (put_table t s sv)) = Some t"
  "current_table p (sv_tables (put_table t s sv)) = current_table p (sv_tables sv)"
  by (simp_all add: put_table_def get_table_install) (simp add: current_table_def install_def)

lemma server_ok_join:
  assumes ok: "server_ok sv" and "buy_in < u32_lim" and join: "handle_join conn i buy_in sv = Some sv'"
  shows "server_ok sv'"
proof (cases "current_table (player_of conn sv) (sv_tables sv) \<noteq> None \<or> get_table i (sv_tables sv) = None")
  case True
  then show ?thesis using join ok by (auto simp: handle_join_def intro: server_ok_send split: option.splits if_splits)
next
  case False
  then obtain t where t: "get_table i (sv_tables sv) = Some t" by blast
  then obtain r t' s where sit: "sit conn buy_in (t, sv_store sv) = Some (r, t', s)"
    using join False by (auto simp: handle_join_def split: bind_splits)
  define sv1 where "sv1 = put_table t' s sv"
  have fr: "table_frame (t, sv_store sv) (t', s)" by (rule table_frame_sit [OF sit])
  then have id: "tb_id t' = i" using server_ok_table(1) [OF ok t] by (simp add: table_frame_def)
  have ok1: "server_ok sv1"
    unfolding sv1_def by (rule server_ok_put [OF ok t fr table_ok_sit [OF server_ok_table(2) [OF ok t] assms(2) sit]])
  show ?thesis
  proof (cases r)
    case (Inl e)
    then show ?thesis
      using join False t sit ok1 by (auto simp: handle_join_def Let_def sv1_def server_ok_send)
  next
    case (Inr seat)
    define sv2 where "sv2 = sv1\<lparr>sv_tables := record_join (player_of conn sv1) i (sv_tables sv1)\<rparr>"
    define sv3 where "sv3 = send conn (SJoinedTable i seat (seat_infos_locked t')) sv2"
    have "get_table i (sv_tables sv1) \<noteq> None" using id by (auto simp: sv1_def)
    then have "server_ok sv2" unfolding sv2_def by (rule server_ok_join_record [OF ok1])
    then have "server_ok sv3" unfolding sv3_def by (rule server_ok_send)
    moreover have "sv' = sv3\<lparr>sv_store := broadcast_table_state (Some (player_of conn sv3)) (t', sv_store sv3)\<rparr>"
      using join False t sit Inr by (simp add: handle_join_def Let_def sv1_def sv2_def sv3_def)
    ultimately show ?thesis by (simp add: server_ok_store)
  qed
qed

lemma server_ok_leave:
  assumes ok: "server_ok sv"
  shows "server_ok (handle_leave conn i sv)"
proof (cases "get_table i (sv_tables sv)")
  case None
  then show ?thesis using ok by (simp add: handle_leave_def server_ok_send)
next
  case (Some t)
  define sv1 where "sv1 = sv\<lparr>sv_store := cancel_pending conn (sv_store sv)\<rparr>"
  have ok1: "server_ok sv1" unfolding sv1_def by (rule server_ok_store [OF ok]) simp
  have t: "get_table i (sv_tables sv1) = Some t" using Some by (simp add: sv1_def)
  obtain r t' where l: "leave (player_of conn sv1) t = (r, t')" by (cases "leave (player_of conn sv1) t")
  define sv2 where "sv2 = put_table t' (sv_store sv1) sv1"
  have "server_ok sv2"
    unfolding sv2_def
    using server_ok_put [OF ok1 t] table_frame_leave [of t "sv_store sv1" "player_of conn sv1"]
      table_ok_leave [OF server_ok_table(2) [OF ok1 t], of "player_of conn sv1"] l by simp
  then have "server_ok (send conn (SLeftTable i) (sv2\<lparr>sv_tables := snd (record_leave p (sv_tables sv2))\<rparr>))" for p
    by (intro server_ok_send server_ok_leave_record)
  then show ?thesis
    using l ok1 Some
    by (cases r) (simp_all add: handle_leave_def Let_def sv1_def [symmetric] sv2_def [symmetric]
        server_ok_send server_ok_store)
qed

lemma server_ok_replay: "server_ok sv \<Longrightarrow> server_ok (handle_request_replay conn h sv)"
  by (auto simp: handle_request_replay_def Let_def server_ok_send split: option.split)

text \<open>A message as the decoder delivers it: \<open>buy_in\<close> is a \<open>u32\<close>.\<close>

fun decoded :: "client_message \<Rightarrow> bool" where
  "decoded (CJoinTable _ buy_in) \<longleftrightarrow> buy_in < u32_lim"
| "decoded _ \<longleftrightarrow> True"

lemma server_ok_dispatch:
  assumes "server_ok sv" and "decoded msg" and "dispatch conn msg sv = Some (r, sv')"
  shows "server_ok sv'"
proof (cases msg)
  case (CJoinTable i b)
  then show ?thesis using assms by (auto simp: dispatch_def intro: server_ok_join)
next
  case (CSubmitAction i h a)
  have "server_ok (sv\<lparr>sv_store := snd (deliver_action conn i h a (sv_store sv))\<rparr>)"
    by (rule server_ok_store [OF assms(1)]) simp
  then show ?thesis
    using assms(3) CSubmitAction by (auto simp: dispatch_def Let_def server_ok_send split: prod.splits if_splits)
qed (use assms in \<open>auto simp: dispatch_def server_ok_send server_ok_send_wait server_ok_leave server_ok_replay\<close>)

lemma server_ok_read:
  assumes "server_ok sv" and "\<forall>msg. inb = Received msg \<longrightarrow> decoded msg"
    and "reader_step rnd now conn revoked inb (bucket, sv) = Some (r, bucket', sv')"
  shows "server_ok sv'"
  using assms
  by (auto simp: reader_step_def Let_def server_ok_send_wait intro: server_ok_dispatch
      split: inbound.splits wire_error.splits if_splits prod.splits bind_splits)

lemma registry_ok_handshake:
  assumes "registry_ok reg"
  shows "registry_ok (snd (perform_handshake env wr first reg))"
proof -
  have "registry_ok (snd (handshake_outcome env msg reg))" for msg
  proof -
    have step: "registry_ok reg'" if "registry_step reg reg'" for reg'
      by (rule conjunct1 [OF registry_step_ok [OF that assms]])
    show ?thesis
      using assms unfolding handshake_outcome_def
      by (auto simp: apfst_def map_prod_def split: client_message.split auth_mode.split prod.split intro!: step
          intro: registry_step.intros)
  qed
  moreover have "snd (perform_handshake env wr first reg) =
      (case first of Inl _ \<Rightarrow> reg | Inr msg \<Rightarrow> snd (handshake_outcome env msg reg))"
    by (simp add: perform_handshake_def split: sum.split wire_error.split prod.split)
  ultimately show ?thesis using assms by (simp split: sum.split)
qed

lemma server_ok_open:
  assumes ok: "server_ok sv" and fresh: "\<forall>l. link_current l (sv_store sv) \<noteq> conn"
  shows "server_ok (session_open conn auth sv)"
proof -
  let ?r = "as_record auth"
  let ?cn = "connection_new (plr_player_id ?r) (plr_username ?r) (int (as_session_id auth))"
  define sv1 where "sv1 = sv\<lparr>sv_store := upd_conn conn (\<lambda>_. ?cn) (sv_store sv)\<rparr>"
  define sv2 where "sv2 = send_wait conn (SWelcome PROTOCOL_VERSION (plr_player_id ?r) (plr_username ?r)
      (as_session_key auth) (plr_stats ?r)) sv1"
  have "same_owners (sv_store sv) (upd_conn conn (\<lambda>_. ?cn) (sv_store sv))"
    using fresh by (simp add: same_owners_def upd_conn_def link_player_id_def link_current_def)
  then have "server_ok sv1" unfolding sv1_def by (rule server_ok_store [OF ok])
  then have ok2: "server_ok sv2" unfolding sv2_def by (rule server_ok_send_wait)
  have seats: "server_ok (sv2\<lparr>sv_store := snd (reconnect_player conn (t, sv_store sv2))\<rparr>)"
    if "get_table i (sv_tables sv2) = Some t" for i t
    using same_owners_reconnect [OF server_ok_table(2) [OF ok2 that]]
    by (intro server_ok_store [OF ok2]) (metis prod.collapse)
  have "session_open conn auth sv = (case current_table (plr_player_id ?r) (sv_tables sv2) of
      None \<Rightarrow> sv2 | Some i \<Rightarrow> (case get_table i (sv_tables sv2) of None \<Rightarrow> sv2
        | Some t \<Rightarrow> sv2\<lparr>sv_store := snd (reconnect_player conn (t, sv_store sv2))\<rparr>))"
    by (simp only: session_open_def Let_def sv1_def sv2_def)
  then show ?thesis using ok2 seats by (auto split: option.split)
qed

lemma server_ok_close:
  assumes ok: "server_ok sv"
  shows "server_ok (session_close conn auth sv)"
proof -
  let ?p = "plr_player_id (as_record auth)"
  define sv1 where "sv1 = sv\<lparr>sv_store := cancel_pending conn (sv_store sv)\<rparr>"
  obtain left m where rl: "record_leave ?p (sv_tables sv1) = (left, m)" by (cases "record_leave ?p (sv_tables sv1)")
  define sv2 where "sv2 = sv1\<lparr>sv_tables := m\<rparr>"
  have ok1: "server_ok sv1" unfolding sv1_def by (rule server_ok_store [OF ok]) simp
  then have ok2: "server_ok sv2" using server_ok_leave_record [of sv1 ?p] by (simp add: sv2_def rl)
  have gone: "server_ok (put_table t' s sv2)"
    if "get_table i (sv_tables sv2) = Some t" "force_leave ?p sid (t, sv_store sv2) = (t', s)" for i t t' s sid
    using server_ok_put [OF ok2 that(1)] table_frame_force [of t "sv_store sv2" ?p sid] that(2)
      table_ok_force_leave [OF server_ok_table(2) [OF ok2 that(1)] that(2)] by simp
  have out: "server_ok (sv'\<lparr>sv_registry := logout ?p (as_session_id auth) (sv_registry sv')\<rparr>)" if "server_ok sv'" for sv'
    using that by (intro server_ok_registry conjunct1 [OF registry_step_ok [OF registry_step.intros(4)]]) (auto simp: server_ok_def)
  show ?thesis
    unfolding session_close_def Let_def sv1_def [symmetric]
    by (rule out) (auto simp: rl sv2_def [symmetric] ok1 gone ok2 split: option.split prod.split)
qed

section \<open>Every state of the server\<close>

text \<open>
  A handshake that fails leaves at most the registry changed.  A new connection is a fresh object.  The tasks of
  the tables, the agents and the writers take the steps of \<open>table_step\<close>.
\<close>

inductive server_step :: "server \<Rightarrow> server \<Rightarrow> bool" where
  refused: "perform_handshake env wr first (sv_registry sv) = (r, reg) \<Longrightarrow> r = Inl e \<or> r = Inr None \<Longrightarrow>
    server_step sv (sv\<lparr>sv_registry := reg\<rparr>)"
| opens: "perform_handshake env wr first (sv_registry sv) = (Inr (Some auth), reg) \<Longrightarrow>
    \<forall>l. link_current l (sv_store sv) \<noteq> conn \<Longrightarrow> server_step sv (session_open conn auth (sv\<lparr>sv_registry := reg\<rparr>))"
| reads: "reader_step rnd now conn revoked inb (bucket, sv) = Some (lr, bucket', sv') \<Longrightarrow>
    \<forall>msg. inb = Received msg \<longrightarrow> decoded msg \<Longrightarrow> server_step sv sv'"
| closes: "server_step sv (session_close conn auth sv)"
| plays: "get_table i (sv_tables sv) = Some t \<Longrightarrow> table_step (t, sv_store sv) (t', s') \<Longrightarrow>
    server_step sv (put_table t' s' sv)"
| records: "registry_step (sv_registry sv) reg \<Longrightarrow> server_step sv (sv\<lparr>sv_registry := reg\<rparr>)"

definition server_start :: "(table_id \<times> table_config) list \<Rightarrow> store \<Rightarrow> registry \<Rightarrow> server" where
  "server_start configs s reg =
     \<lparr>sv_store = s, sv_tables = fold (\<lambda>(i, config). install (table_new i config)) configs manager_new, sv_registry = reg\<rparr>"

lemma server_ok_step: "server_step sv sv' \<Longrightarrow> server_ok sv \<Longrightarrow> server_ok sv'"
proof (induction rule: server_step.induct)
  case (refused env wr first sv r reg e)
  then show ?case
    using registry_ok_handshake [of "sv_registry sv" env wr first] by (simp add: server_ok_def)
next
  case (opens env wr first sv auth reg conn)
  then have "server_ok (sv\<lparr>sv_registry := reg\<rparr>)"
    using registry_ok_handshake [of "sv_registry sv" env wr first] by (simp add: server_ok_def)
  then show ?case using opens.hyps(2) by (intro server_ok_open) simp_all
next
  case (reads rnd now conn revoked inb bucket sv lr bucket' sv')
  then show ?case by (blast intro: server_ok_read)
next
  case (closes sv conn auth)
  then show ?case by (rule server_ok_close)
next
  case (plays i sv t t' s')
  note ok = server_ok_table(2) [OF plays.prems plays.hyps(1)]
  show ?case
    using server_ok_put [OF plays.prems plays.hyps(1)] table_step_frame [OF plays.hyps(2)]
      table_ok_step [OF plays.hyps(2)] ok by simp
next
  case (records sv reg)
  then show ?case using registry_step_ok [OF records.hyps] by (simp add: server_ok_def)
qed

lemma server_ok_run: "server_step\<^sup>*\<^sup>* sv sv' \<Longrightarrow> server_ok sv \<Longrightarrow> server_ok sv'"
  by (induction rule: rtranclp_induct) (auto intro: server_ok_step)

definition playable_config :: "table_config \<Rightarrow> bool" where
  "playable_config config \<longleftrightarrow> 0 < tc_big_blind config \<and> tc_big_blind config * 10 < u32_lim"

lemma server_ok_start:
  assumes "list_all (playable_config \<circ> snd) configs" and "registry_ok reg"
  shows "server_ok (server_start configs s reg)"
proof -
  have "get_table i (fold (\<lambda>(i, config). install (table_new i config)) configs m) = Some t \<Longrightarrow>
      get_table i m = Some t \<or> (\<exists>config. playable_config config \<and> t = table_new i config)" for m i t
    using assms(1)
    by (induction configs arbitrary: m) (fastforce simp: get_table_install table_new_def split: if_splits)+
  then have new: "\<exists>config. playable_config config \<and> t = table_new i config"
    if "get_table i (sv_tables (server_start configs s reg)) = Some t" for i t
    using that by (fastforce simp: server_start_def manager_new_def get_table_def)
  have nobody: "current_table p (sv_tables (server_start configs s reg)) = None" for p
  proof -
    have "current_table p (fold (\<lambda>(i, config). install (table_new i config)) configs m) = current_table p m" for m
      by (induction configs arbitrary: m) (auto simp: current_table_def install_def)
    then show ?thesis by (simp add: server_start_def manager_new_def current_table_def)
  qed
  have "tb_id t = i \<and> table_ok t s \<and> tc_big_blind (tb_config t) * 10 < u32_lim \<and> links_of t = {}"
    if "get_table i (sv_tables (server_start configs s reg)) = Some t" for i t
    using new [OF that] table_ok_new
    by (fastforce simp: playable_config_def table_new_def links_of_def seated_def split: if_splits)
  then show ?thesis
    using nobody assms(2) unfolding server_ok_def by (auto simp: server_start_def)
qed

section \<open>The property\<close>


text \<open>A server with two tables, on which a player registers and joins one of them.\<close>

definition demo_server :: server where
  "demo_server = server_start [(8, default_table_config), (9, default_table_config)]
     (demo_store\<lparr>s_link := \<lambda>_. seat_link_new 1\<rparr>) (registry_open empty_database)"

lemma demo_server_ok: "server_ok demo_server"
  unfolding demo_server_def
  by (rule server_ok_start) (simp_all add: registry_ok_open playable_config_def default_table_config_def)

definition demo_env :: auth_env where
  "demo_env = \<lparr>ae_hash = demo_hash, ae_verify = demo_verify, ae_key_bytes = demo_key 1, ae_now = 5, ae_fault = None\<rparr>"


end
