(* ===== verification/SessionProps.thy ===== *)
theory SessionProps
  imports ServerInv
begin

text \<open>
  What clients can and cannot do to the server by their messages: the properties of sessions.  Three of
  them are about behaviour that hurts a player: leaving for good, being locked out, and a seat
  that nobody can leave any more.
\<close>

section \<open>Messages of any client\<close>

inductive message_step :: "server \<Rightarrow> server \<Rightarrow> bool" where
  "reader_step rnd now conn revoked inb (bucket, sv) = Some (lr, bucket', sv') \<Longrightarrow> message_step sv sv'"

text \<open>All that a message does to the store unless the client joins or leaves a table.\<close>

inductive sends :: "server \<Rightarrow> server \<Rightarrow> bool" where
  nothing: "sends sv sv"
| message: "sends sv (send c m sv)"
| waits: "sends sv (send_wait c m sv)"
| delivers: "sends sv (sv\<lparr>sv_store := snd (deliver_action c t h a (sv_store sv))\<rparr>)"
| refuses: "sends sv (send c m (sv\<lparr>sv_store := snd (deliver_action c t h a (sv_store sv))\<rparr>))"

lemma message_step_cases:
  assumes "message_step sv sv'"
  shows "sends sv sv' \<or> (\<exists>conn i buy_in. handle_join conn i buy_in sv = Some sv') \<or> (\<exists>conn i. sv' = handle_leave conn i sv)"
proof -
  obtain rnd now conn revoked inb bucket lr bucket'
    where r: "reader_step rnd now conn revoked inb (bucket, sv) = Some (lr, bucket', sv')"
    using assms by (cases rule: message_step.cases) blast
  have "sv' = sv \<or> (\<exists>m. sv' = send_wait conn m sv) \<or> (\<exists>msg lr. dispatch conn msg sv = Some (lr, sv'))"
    using r by (auto simp: reader_step_def Let_def split: inbound.splits wire_error.splits if_splits prod.splits bind_splits)
  moreover have "sends sv sv' \<or> (\<exists>conn i buy_in. handle_join conn i buy_in sv = Some sv') \<or> (\<exists>conn i. sv' = handle_leave conn i sv)"
    if d: "dispatch conn msg sv = Some (lr, sv')" for msg lr
  proof (cases msg)
    case (CSubmitAction t h a)
    then show ?thesis
      using d delivers [of sv conn t h a] refuses [of sv conn _ t h a]
      by (auto simp: dispatch_def Let_def split: prod.splits if_splits)
  next
    case (CRequestReplay h)
    then show ?thesis
      using d by (auto simp: dispatch_def handle_request_replay_def Let_def sends.intros split: option.split)
  qed (use d in \<open>auto simp: dispatch_def sends.intros\<close>)
  ultimately show ?thesis using sends.intros by blast
qed

section \<open>What messages leave alone in the store\<close>

text \<open>Messages rename no connection, rebind no link, and never take back that a connection departed.\<close>

definition quiet :: "store \<Rightarrow> store \<Rightarrow> bool" where
  "quiet s s' \<longleftrightarrow> s_next_link s \<le> s_next_link s'
     \<and> (\<forall>c. cn_player_id (s_conn s' c) = cn_player_id (s_conn s c) \<and> (cn_departed (s_conn s c) \<longrightarrow> cn_departed (s_conn s' c)))
     \<and> (\<forall>l < s_next_link s. link_current l s' = link_current l s)"

lemma quiet_refl [simp]: "quiet s s"
  by (simp add: quiet_def)

lemma quiet_trans: "quiet s s' \<Longrightarrow> quiet s' s'' \<Longrightarrow> quiet s s''"
  by (auto simp: quiet_def)

lemma quiet_folds: "(\<And>x s. quiet s (f x s)) \<Longrightarrow> quiet s (fold f xs s)"
  by (induction xs arbitrary: s) (auto intro: quiet_trans)

lemma quiet_upd_conn:
  assumes "cn_player_id (f (s_conn s c)) = cn_player_id (s_conn s c)"
    and "cn_departed (s_conn s c) \<longrightarrow> cn_departed (f (s_conn s c))"
  shows "quiet s (upd_conn c f s)"
  using assms by (simp add: quiet_def upd_conn_def link_current_def)

lemma quiet_chan: "quiet s (s\<lparr>s_chan := f\<rparr>)"
  by (simp add: quiet_def link_current_def)

lemma quiet_send [simp]: "quiet s (try_send c m s)"
  unfolding try_send_def by (rule quiet_upd_conn) simp_all

lemma quiet_no_prompt: "quiet s (upd_conn c (\<lambda>cn. cn\<lparr>cn_pending := None\<rparr>) s)"
  by (rule quiet_upd_conn) simp_all

lemma quiet_cancel [simp]: "quiet s (cancel_pending c s)"
proof -
  have "quiet s (drop_pending c s)" for s
    by (auto simp: drop_pending_def drop_sender_def split: option.split intro: quiet_trans [OF quiet_no_prompt quiet_chan] quiet_no_prompt)
  moreover have "quiet s (upd_conn c (\<lambda>cn. cn\<lparr>cn_departed := True\<rparr>) s)" by (rule quiet_upd_conn) simp_all
  ultimately show ?thesis unfolding cancel_pending_def by (rule quiet_trans [rotated])
qed

lemma quiet_deliver [simp]: "quiet s (snd (deliver_action c t h a s))"
  by (auto simp: deliver_action_def oneshot_send_def split: option.split
      intro: quiet_trans [OF quiet_no_prompt quiet_chan] quiet_no_prompt)

lemma quiet_alloc: "quiet s (snd (alloc_link c s))"
  by (simp add: quiet_def alloc_link_def upd_link_def link_current_def)

lemma quiet_links [simp]: "quiet s (send_links ls m s)" "quiet s (broadcast_table_state e (t, s))"
  unfolding broadcast_table_state_def send_links_def by (simp_all add: quiet_folds)

lemma quiet_thenI:
  "quiet s s' \<Longrightarrow> quiet s (try_send c m s')" "quiet s s' \<Longrightarrow> quiet s (broadcast_table_state e (t, s'))"
  "quiet s s' \<Longrightarrow> quiet s (snd (deliver_action c i h a s'))"
  by (blast intro: quiet_trans quiet_send quiet_links quiet_deliver)+

lemma quiet_sit: "sit conn buy_in (t, s) = Some (r, t', s') \<Longrightarrow> quiet s s'"
  using quiet_alloc [of s conn]
  by (auto simp: sit_def Let_def alloc_link_def split: bind_splits if_splits option.splits)

lemma quiet_join: "handle_join conn i buy_in sv = Some sv' \<Longrightarrow> quiet (sv_store sv) (sv_store sv')"
  by (auto simp: handle_join_def Let_def send_def no_such_table_def split: bind_splits if_splits option.splits sum.splits
      intro!: quiet_thenI dest!: quiet_sit)

lemma quiet_leave: "quiet (sv_store sv) (sv_store (handle_leave conn i sv))"
  by (auto simp: handle_leave_def Let_def send_def no_such_table_def put_table_def split: option.split sum.split prod.split
      intro!: quiet_thenI)

lemma quiet_message: "message_step sv sv' \<Longrightarrow> quiet (sv_store sv) (sv_store sv')"
proof -
  assume "message_step sv sv'"
  moreover have "quiet (sv_store sv) (sv_store sv')" if "sends sv sv'"
    using that
  proof cases
    case (waits c m)
    then show ?thesis by (auto simp: send_wait_def intro: quiet_upd_conn)
  qed (auto simp: send_def intro!: quiet_thenI)
  ultimately show ?thesis using message_step_cases [of sv sv'] by (auto intro: quiet_join quiet_leave)
qed

lemma quiet_messages: "message_step\<^sup>*\<^sup>* sv sv' \<Longrightarrow> quiet (sv_store sv) (sv_store sv')"
  by (induction rule: rtranclp_induct) (auto intro: quiet_trans quiet_message)

section \<open>Leaving is for good\<close>

lemma cancel_departs: "cn_departed (s_conn (cancel_pending c s) c)"
  by (auto simp: cancel_pending_def drop_pending_def drop_sender_def upd_conn_def split: option.split)


section \<open>Locked out\<close>

definition sits_nowhere :: "player_id \<Rightarrow> manager \<Rightarrow> bool" where
  "sits_nowhere p m \<longleftrightarrow> (\<forall>i t. get_table i m = Some t \<longrightarrow> \<not> list_ex (seated_as p) (tb_seats t))"

lemma position_seated: "position (seated_as p) seats = None \<longleftrightarrow> \<not> list_ex (seated_as p) seats"
  by (simp add: position_None list_ex_iff)

lemma get_table_put: "get_table i (sv_tables (put_table t s sv)) = (if i = tb_id t then Some t else get_table i (sv_tables sv))"
  by (simp add: put_table_def get_table_install)

lemma sits_nowhere_put:
  "sits_nowhere p (sv_tables sv) \<Longrightarrow> \<not> list_ex (seated_as p) (tb_seats t) \<Longrightarrow> sits_nowhere p (sv_tables (put_table t s sv))"
  by (simp add: sits_nowhere_def put_table_def get_table_install)

lemma sits_nowhere_simps [simp]:
  "sits_nowhere p (record_join q i m) = sits_nowhere p m" "sits_nowhere p (snd (record_leave q m)) = sits_nowhere p m"
  by (simp_all add: sits_nowhere_def)

lemma seated_update_cases: "list_ex P (xs[i := x]) \<Longrightarrow> list_ex P xs \<or> P x"
  by (auto simp: list_ex_iff dest: set_update_subset_insert [THEN subsetD])

lemma not_seated_vacate:
  assumes "\<not> list_ex (seated_as p) (tb_seats t)" and "i < length (tb_seats t)"
  shows "\<not> list_ex (seated_as p) (tb_seats (vacate i t))"
proof -
  have "\<not> seated_as p (tb_seats t ! i)" using assms by (auto simp: list_ex_iff)
  then have "\<not> seated_as p (map_option (\<lambda>a. a\<lparr>se_leave_pending := True\<rparr>) (tb_seats t ! i))" "\<not> seated_as p None"
    by (cases "tb_seats t ! i"; simp add: seated_as_def)+
  then show ?thesis using assms(1) by (auto simp: vacate_def dest: seated_update_cases)
qed

lemma not_seated_leave: "\<not> list_ex (seated_as p) (tb_seats t) \<Longrightarrow> \<not> list_ex (seated_as p) (tb_seats (snd (leave q t)))"
  by (auto simp: leave_def notify_one_def not_seated_vacate split: option.split dest!: position_SomeD)

lemma not_seated_sit:
  "sit conn buy_in (t, s) = Some (r, t', s') \<Longrightarrow> \<not> list_ex (seated_as p) (tb_seats t) \<Longrightarrow> cn_player_id (s_conn s conn) \<noteq> p
    \<Longrightarrow> \<not> list_ex (seated_as p) (tb_seats t')"
  by (auto simp: sit_def Let_def alloc_link_def notify_one_def seated_as_def [of p "Some _"] split: bind_splits if_splits option.splits
      dest!: seated_update_cases)

text \<open>A player whom the manager has at a table although the player sits nowhere.\<close>

definition locked_out :: "player_id \<Rightarrow> table_id \<Rightarrow> server \<Rightarrow> bool" where
  "locked_out p i sv \<longleftrightarrow> current_table p (sv_tables sv) = Some i \<and> sits_nowhere p (sv_tables sv)"

lemma locked_out_join:
  assumes "locked_out p i sv" and "handle_join conn j buy_in sv = Some sv'"
  shows "locked_out p i sv'"
proof (cases "player_of conn sv = p")
  case True
  then show ?thesis using assms by (auto simp: handle_join_def locked_out_def send_def)
next
  case False
  have "sits_nowhere p (sv_tables (put_table t' s sv))"
    if "get_table j (sv_tables sv) = Some t" "sit conn buy_in (t, sv_store sv) = Some (r, t', s)" for t t' s r
    using assms(1) not_seated_sit [OF that(2)] that(1) False
    by (intro sits_nowhere_put) (auto simp: locked_out_def sits_nowhere_def player_of_def)
  moreover have "player_of conn (put_table t' s sv) = player_of conn sv"
    if "sit conn buy_in (t, sv_store sv) = Some (r, t', s)" for t t' s r
    using quiet_sit [OF that] by (simp add: player_of_def put_table_def quiet_def)
  ultimately show ?thesis
    using assms False
    by (auto simp: handle_join_def Let_def send_def locked_out_def split: bind_splits if_splits option.splits sum.splits)
qed

lemma locked_out_leave:
  assumes "locked_out p i sv"
  shows "locked_out p i (handle_leave conn j sv)"
proof (cases "get_table j (sv_tables sv)")
  case None
  then show ?thesis using assms by (simp add: handle_leave_def locked_out_def send_def)
next
  case (Some t)
  define sv1 where "sv1 = sv\<lparr>sv_store := cancel_pending conn (sv_store sv)\<rparr>"
  have sv1: "locked_out p i sv1" "sits_nowhere p (sv_tables sv1)" using assms by (simp_all add: sv1_def locked_out_def)
  have out: "\<not> list_ex (seated_as p) (tb_seats t)" using assms Some by (auto simp: locked_out_def sits_nowhere_def)
  obtain r t' where l: "leave (player_of conn sv1) t = (r, t')" by (cases "leave (player_of conn sv1) t")
  have t': "\<not> list_ex (seated_as p) (tb_seats t')" using not_seated_leave [OF out, of "player_of conn sv1"] l by simp
  have other: "player_of conn sv1 \<noteq> p" if "r = Inr u" for u
    using l out that position_seated [of p "tb_seats t"] by (auto simp: leave_def split: option.splits)
  have "locked_out p i (put_table t' (sv_store sv1) sv1)"
    using sv1 sits_nowhere_put [OF sv1(2) t', of "sv_store sv1"] by (simp add: locked_out_def)
  moreover have "player_of conn (put_table t' (sv_store sv1) sv1) = player_of conn sv1" by (simp add: player_of_def)
  ultimately show ?thesis
    using l other sv1(1) Some
    by (cases r) (simp_all add: handle_leave_def Let_def sv1_def [symmetric] send_def locked_out_def)
qed

lemma locked_out_message: "message_step sv sv' \<Longrightarrow> locked_out p i sv \<Longrightarrow> locked_out p i sv'"
proof -
  assume "message_step sv sv'" and locked: "locked_out p i sv"
  moreover have "locked_out p i sv'" if "sends sv sv'"
    using that locked by cases (simp_all add: locked_out_def send_def send_wait_def)
  ultimately show ?thesis using message_step_cases [of sv sv'] by (auto intro: locked_out_join locked_out_leave)
qed

lemma locked_out_messages: "message_step\<^sup>*\<^sup>* sv sv' \<Longrightarrow> locked_out p i sv \<Longrightarrow> locked_out p i sv'"
  by (induction rule: rtranclp_induct) (auto intro: locked_out_message)


section \<open>A seat that nobody leaves\<close>

lemma second_leave:
  assumes "server_ok sv" and "player_of conn sv = p" and "current_table p (sv_tables sv) = Some j"
    and "get_table i (sv_tables sv) = Some t" and "i \<noteq> j" and "list_ex (seated_as p) (tb_seats t)"
    and "get_table j (sv_tables sv) = Some u" and "plr_player_id (as_record auth) = p"
  shows "current_table p (sv_tables (handle_leave conn i sv)) = None
     \<and> get_table j (sv_tables (handle_leave conn i sv)) = Some u
     \<and> get_table j (sv_tables (session_close conn auth (handle_leave conn i sv))) = Some u"
proof -
  define s1 where "s1 = cancel_pending conn (sv_store sv)"
  have p: "player_of conn (sv\<lparr>sv_store := s1\<rparr>) = p"
    using quiet_cancel [of "sv_store sv" conn] assms(2) by (simp add: player_of_def quiet_def s1_def)
  obtain k where k: "position (seated_as p) (tb_seats t) = Some k"
    using assms(6) position_seated [of p "tb_seats t"] by auto
  define t' where "t' = notify_one (vacate k t)"
  have id: "tb_id t' = i"
    using server_ok_table(1) [OF assms(1,4)] by (simp add: t'_def notify_one_def vacate_def)
  let ?m = "snd (record_leave p (sv_tables (put_table t' s1 (sv\<lparr>sv_store := s1\<rparr>))))"
  have tables: "sv_tables (handle_leave conn i sv) = ?m"
    using k p assms(4) by (simp add: handle_leave_def leave_def Let_def s1_def [symmetric] t'_def [symmetric] send_def
        player_of_def)
  then have "current_table p (sv_tables (handle_leave conn i sv)) = None"
      "get_table j (sv_tables (handle_leave conn i sv)) = Some u"
    using assms(5,7) id by (simp_all add: get_table_put)
  then show ?thesis
    using assms(8) by (simp add: session_close_def Let_def record_leave_def current_table_def get_table_def)
qed

lemma sit_seated:
  assumes "sit conn buy_in (t, s) = Some (Inr k, t', s')"
  shows "list_ex (seated_as (cn_player_id (s_conn s conn))) (tb_seats t')"
proof -
  obtain a where "k < length (tb_seats t)" "tb_seats t' = (tb_seats t)[k := Some a]" "se_player_id a = cn_player_id (s_conn s conn)"
    using assms by (auto simp: sit_def Let_def alloc_link_def notify_one_def split: bind_splits if_splits option.splits
        dest!: position_SomeD)
  then show ?thesis by (auto simp: list_ex_iff seated_as_def intro!: bexI [of _ "Some a"] set_update_memI)
qed

lemma join_seats:
  assumes "server_ok sv" and "handle_join conn j buy_in sv = Some sv'" and "player_of conn sv = p"
    and "current_table p (sv_tables sv) = None" and "current_table p (sv_tables sv') = Some j"
  shows "\<exists>u. get_table j (sv_tables sv') = Some u \<and> list_ex (seated_as p) (tb_seats u)"
    and "i \<noteq> j \<Longrightarrow> get_table i (sv_tables sv') = get_table i (sv_tables sv)"
proof -
  obtain t k t' s where t: "get_table j (sv_tables sv) = Some t" "sit conn buy_in (t, sv_store sv) = Some (Inr k, t', s)"
      and m: "sv_tables sv' = record_join (player_of conn (put_table t' s sv)) j (sv_tables (put_table t' s sv))"
    using assms by (auto simp: handle_join_def Let_def send_def no_such_table_def
        split: bind_splits if_splits option.splits sum.splits)
  have id: "tb_id t' = j"
    using table_frame_sit [OF t(2)] server_ok_table(1) [OF assms(1) t(1)] by (simp add: table_frame_def)
  show "\<exists>u. get_table j (sv_tables sv') = Some u \<and> list_ex (seated_as p) (tb_seats u)"
    using sit_seated [OF t(2)] assms(3) id by (simp add: m get_table_put player_of_def)
  show "i \<noteq> j \<Longrightarrow> get_table i (sv_tables sv') = get_table i (sv_tables sv)"
    using id by (simp add: m get_table_put)
qed

lemma leave_mid_hand:
  assumes "server_ok sv" and "player_of conn sv = p" and "get_table i (sv_tables sv) = Some t"
    and "list_ex (seated_as p) (tb_seats t)" and "tb_hand_in_progress t"
  shows "current_table p (sv_tables (handle_leave conn i sv)) = None"
    and "\<exists>t'. get_table i (sv_tables (handle_leave conn i sv)) = Some t' \<and> list_ex (seated_as p) (tb_seats t')"
proof -
  define s1 where "s1 = cancel_pending conn (sv_store sv)"
  have p: "player_of conn (sv\<lparr>sv_store := s1\<rparr>) = p"
    using quiet_cancel [of "sv_store sv" conn] assms(2) by (simp add: player_of_def quiet_def s1_def)
  obtain k where k: "position (seated_as p) (tb_seats t) = Some k"
    using assms(4) position_seated [of p "tb_seats t"] by auto
  obtain a where a: "k < length (tb_seats t)" "tb_seats t ! k = Some a" "se_player_id a = p"
    using position_SomeD [OF k] by (auto simp: seated_as_def split: option.splits)
  define t' where "t' = notify_one (vacate k t)"
  have id: "tb_id t' = i"
    using server_ok_table(1) [OF assms(1,3)] by (simp add: t'_def notify_one_def vacate_def)
  have "Some (a\<lparr>se_leave_pending := True\<rparr>) \<in> set (tb_seats t')"
    using a assms(5) by (simp add: t'_def notify_one_def vacate_def set_update_memI)
  then have seated: "list_ex (seated_as p) (tb_seats t')" using a(3) by (force simp: list_ex_iff seated_as_def)
  have tables: "sv_tables (handle_leave conn i sv) = snd (record_leave p (sv_tables (put_table t' s1 (sv\<lparr>sv_store := s1\<rparr>))))"
    using k p assms(3) by (simp add: handle_leave_def leave_def Let_def s1_def [symmetric] t'_def [symmetric] send_def
        player_of_def)
  show "current_table p (sv_tables (handle_leave conn i sv)) = None"
      "\<exists>t'. get_table i (sv_tables (handle_leave conn i sv)) = Some t' \<and> list_ex (seated_as p) (tb_seats t')"
    using seated id by (simp_all add: tables get_table_put)
qed

text \<open>
  Leaving twice leaves a seat behind.  A player leaves table \<open>i\<close> in the middle of a hand, sits down at table
  \<open>j\<close> before that hand is settled, and sends \<open>LeaveTable\<close> for table \<open>i\<close> once more.  Then the manager
  forgets that the player is at table \<open>j\<close>; the seat there stays taken, and closing the session does not
  give it up either.
\<close>

theorem second_leave_keeps_seat:
  assumes "server_ok sv" and "player_of conn sv = p" and "get_table i (sv_tables sv) = Some t"
    and "list_ex (seated_as p) (tb_seats t)" and "tb_hand_in_progress t" and "i \<noteq> j" and "buy_in < u32_lim"
    and "handle_join conn j buy_in (handle_leave conn i sv) = Some sv'" and "current_table p (sv_tables sv') = Some j"
    and "plr_player_id (as_record auth) = p"
  shows "\<exists>u. list_ex (seated_as p) (tb_seats u)
     \<and> current_table p (sv_tables (handle_leave conn i sv')) = None
     \<and> get_table j (sv_tables (handle_leave conn i sv')) = Some u
     \<and> get_table j (sv_tables (session_close conn auth (handle_leave conn i sv'))) = Some u"
proof -
  let ?sv1 = "handle_leave conn i sv"
  have ok1: "server_ok ?sv1" by (rule server_ok_leave [OF assms(1)])
  have p: "player_of conn ?sv1 = p" using quiet_leave [of sv conn i] assms(2) by (simp add: player_of_def quiet_def)
  note left = leave_mid_hand [OF assms(1-5)]
  obtain u where u: "get_table j (sv_tables sv') = Some u" "list_ex (seated_as p) (tb_seats u)"
    using join_seats(1) [OF ok1 assms(8) p left(1) assms(9)] by blast
  obtain t' where t': "get_table i (sv_tables sv') = Some t'" "list_ex (seated_as p) (tb_seats t')"
    using left(2) join_seats(2) [OF ok1 assms(8) p left(1) assms(9,6)] by auto
  have "player_of conn sv' = p" using quiet_join [OF assms(8)] p by (simp add: player_of_def quiet_def)
  from second_leave [OF server_ok_join [OF ok1 assms(7,8)] this assms(9) t'(1) assms(6) t'(2) u(1) assms(10)] u(2)
  show ?thesis by blast
qed

section \<open>The reader loop\<close>

fun stays :: "client_message \<Rightarrow> bool" where
  "stays (CRegister _ _ _ _ _) = False"
| "stays (CAuthenticate _ _ _) = False"
| "stays CDisconnect = False"
| "stays _ = True"

lemma join_total:
  assumes "server_ok sv"
  shows "\<exists>sv'. handle_join conn i buy_in sv = Some sv'"
proof (cases "get_table i (sv_tables sv)")
  case (Some t)
  then have "tc_big_blind (tb_config t) * 10 < u32_lim" using server_ok_table(3) [OF assms] by blast
  then have "\<exists>r t' s. sit conn buy_in (t, sv_store sv) = Some (r, t', s)"
    by (auto simp: sit_def mul_u32_def Let_def split: option.split prod.split)
  then show ?thesis using Some by (auto simp: handle_join_def Let_def split: sum.split)
qed (simp add: handle_join_def)

lemma same_registry:
  "sv_registry (send c m sv) = sv_registry sv" "sv_registry (send_wait c m sv) = sv_registry sv"
  "sv_registry (handle_leave conn i sv) = sv_registry sv" "sv_registry (handle_request_replay conn h sv) = sv_registry sv"
  "handle_join conn i buy_in sv = Some sv' \<Longrightarrow> sv_registry sv' = sv_registry sv"
  by (auto simp: send_def send_wait_def handle_leave_def handle_request_replay_def handle_join_def Let_def put_table_def
      split: option.splits sum.splits prod.splits bind_splits if_splits)

lemma dispatch_outcome:
  assumes "server_ok sv"
  shows "\<exists>lr sv'. dispatch conn msg sv = Some (lr, sv') \<and> (lr = Inr () \<longleftrightarrow> stays msg)
     \<and> (lr \<noteq> Inr () \<longrightarrow> sv_tables sv' = sv_tables sv) \<and> sv_registry sv' = sv_registry sv"
proof (cases msg)
  case (CJoinTable i buy_in)
  obtain sv' where "handle_join conn i buy_in sv = Some sv'" using join_total [OF assms] by blast
  then show ?thesis using CJoinTable same_registry(5) by (auto simp: dispatch_def)
qed (auto simp: dispatch_def same_registry Let_def send_wait_def split: prod.split)

text \<open>
  (C9) No message breaks the server or its reader loop.  In a consistent server every read is handled
  without panic and leaves the server consistent.  The loop goes round exactly when a message arrived, the session was not
  revoked, the rate limit allows it, and it is neither a handshake nor \<open>Disconnect\<close>; otherwise it ends, with
  all tables as they were.  No message changes the accounts.
\<close>

theorem reader_step_outcome:
  assumes "server_ok sv" and "\<And>msg. inb = Received msg \<Longrightarrow> decoded msg"
  shows "\<exists>lr bucket' sv'. reader_step rnd now conn revoked inb (bucket, sv) = Some (lr, bucket', sv') \<and> server_ok sv'
     \<and> (lr = Inr () \<longleftrightarrow> (\<exists>msg. inb = Received msg \<and> \<not> rg_flags (sv_registry sv) revoked
          \<and> fst (try_consume rnd now bucket) \<and> stays msg))
     \<and> (lr \<noteq> Inr () \<longrightarrow> sv_tables sv' = sv_tables sv) \<and> sv_registry sv' = sv_registry sv"
proof -
  have "\<exists>lr bucket' sv'. reader_step rnd now conn revoked inb (bucket, sv) = Some (lr, bucket', sv')
     \<and> (lr = Inr () \<longleftrightarrow> (\<exists>msg. inb = Received msg \<and> \<not> rg_flags (sv_registry sv) revoked
          \<and> fst (try_consume rnd now bucket) \<and> stays msg))
     \<and> (lr \<noteq> Inr () \<longrightarrow> sv_tables sv' = sv_tables sv) \<and> sv_registry sv' = sv_registry sv"
  proof (cases inb)
    case (Received msg)
    obtain lr sv' where "dispatch conn msg sv = Some (lr, sv')" "lr = Inr () \<longleftrightarrow> stays msg"
        "lr \<noteq> Inr () \<longrightarrow> sv_tables sv' = sv_tables sv" "sv_registry sv' = sv_registry sv"
      using dispatch_outcome [OF assms(1)] by blast
    then show ?thesis
      by (auto simp: reader_step_def Received Let_def send_wait_def split: prod.split)
  qed (auto simp: reader_step_def send_wait_def split: wire_error.split)
  moreover have "server_ok sv'" if "reader_step rnd now conn revoked inb (bucket, sv) = Some (lr, bucket', sv')" for lr bucket' sv'
    using server_ok_read [OF assms(1) _ that] assms(2) by blast
  ultimately show ?thesis by blast
qed

section \<open>Examples\<close>

text \<open>The player of connection 1 in the middle of a hand at table 9.\<close>

definition demo_seats :: table where
  "demo_seats = (table_new 9 default_table_config)\<lparr>tb_seats := [Some (demo_seat 1 200 10), None], tb_hand_in_progress := True\<rparr>"

definition demo_playing :: server where
  "demo_playing = put_table demo_seats ((sv_store demo_server)\<lparr>s_next_link := 11\<rparr>)
     (demo_server\<lparr>sv_tables := record_join 1 9 (sv_tables demo_server)\<rparr>)"

lemma demo_tables:
  "get_table 9 (sv_tables demo_server) = Some (table_new 9 default_table_config)"
  "get_table 8 (sv_tables demo_server) = Some (table_new 8 default_table_config)"
  "get_table 9 (sv_tables demo_playing) = Some demo_seats" "get_table 8 (sv_tables demo_playing) = Some (table_new 8 default_table_config)"
  "current_table 1 (sv_tables demo_playing) = Some 9" "player_of 1 demo_playing = 1"
  by (simp_all add: demo_playing_def demo_server_def server_start_def get_table_install table_new_def get_table_put
      demo_seats_def player_of_def demo_store_def quiet_conn_def connection_new_def)

lemmas demo_store_simps = demo_seat_def demo_seats_def demo_server_def server_start_def demo_store_def
  link_player_id_def link_current_def seat_link_new_def quiet_conn_def connection_new_def table_new_def default_table_config_def

lemma demo_playing_ok: "server_ok demo_playing"
  unfolding demo_playing_def
proof (rule server_ok_put [where i = 9])
  show "server_ok (demo_server\<lparr>sv_tables := record_join 1 9 (sv_tables demo_server)\<rparr>)"
    by (rule server_ok_join_record [OF demo_server_ok]) (simp add: demo_tables)
  show "table_frame (table_new 9 default_table_config, sv_store (demo_server\<lparr>sv_tables := record_join 1 9 (sv_tables demo_server)\<rparr>))
     (demo_seats, (sv_store demo_server)\<lparr>s_next_link := 11\<rparr>)"
    by (auto simp: table_frame_def links_of_def seated_def owners_kept_def demo_store_simps less_Suc_eq split: if_splits)
  show "table_ok demo_seats ((sv_store demo_server)\<lparr>s_next_link := 11\<rparr>)"
    by (auto simp: table_ok_def seated_def seat_ok_def demo_store_simps less_Suc_eq split: if_splits)
qed (simp add: demo_tables)

lemma demo_seated: "list_ex (seated_as 1) (tb_seats demo_seats)" "tb_hand_in_progress demo_seats"
  by (simp_all add: demo_seats_def demo_seat_def seated_as_def)

theorem reader_step_outcome_witness:
  "\<exists>bucket' sv'. reader_step id 0 1 0 (Received (CLeaveTable 9)) (token_bucket_new default_limits 0, demo_playing)
     = Some (Inr (), bucket', sv') \<and> server_ok sv'"
proof -
  have "\<not> rg_flags (sv_registry demo_playing) 0"
    by (simp add: demo_playing_def put_table_def demo_server_def server_start_def registry_open_def)
  moreover have "fst (try_consume id 0 (token_bucket_new default_limits 0))"
    by (simp add: try_consume_def refill_def token_bucket_new_def default_limits_def)
  ultimately show ?thesis
    using reader_step_outcome [OF demo_playing_ok, of "Received (CLeaveTable 9)" id 0 1 0 "token_bucket_new default_limits 0"]
    by auto
qed


theorem second_leave_keeps_seat_witness:
  "\<exists>sv' u. handle_join 1 8 200 (handle_leave 1 9 demo_playing) = Some sv' \<and> list_ex (seated_as 1) (tb_seats u)
     \<and> current_table 1 (sv_tables (handle_leave 1 9 sv')) = None
     \<and> get_table 8 (sv_tables (session_close 1 demo_login (handle_leave 1 9 sv'))) = Some u"
proof -
  let ?sv = "handle_leave 1 9 demo_playing"
  have p: "player_of 1 ?sv = 1" "player_of 1 (send 1 m ?sv) = 1" for m
    using quiet_leave [of demo_playing 1 9] quiet_send [of "sv_store ?sv" 1 m] demo_tables(6)
    by (simp_all add: player_of_def quiet_def send_def)
  have free: "current_table 1 (sv_tables ?sv) = None"
    by (rule leave_mid_hand(1) [OF demo_playing_ok demo_tables(6,3) demo_seated])
  have eight: "get_table 8 (sv_tables ?sv) = Some (table_new 8 default_table_config)"
    using demo_tables(3,4,6)
    by (simp add: handle_leave_def Let_def leave_def get_table_put send_def player_of_def vacate_def notify_one_def
        demo_seats_def table_new_def split: option.split)
  have sits: "\<exists>t' s'. sit 1 200 (table_new 8 default_table_config, s) = Some (Inr 0, t', s')" for s
    by (simp add: sit_def table_new_def default_table_config_def mul_u32_def seated_as_def Let_def alloc_link_def numeral_2_eq_2)
  then obtain t' s' where sit: "sit 1 200 (table_new 8 default_table_config, sv_store ?sv) = Some (Inr 0, t', s')" by blast
  have "player_of 1 (put_table t' s' ?sv) = 1" using quiet_sit [OF sit] p(1) by (simp add: player_of_def quiet_def)
  then obtain sv' where join: "handle_join 1 8 200 ?sv = Some sv'" "current_table 1 (sv_tables sv') = Some 8"
    using free eight sit p(1) by (simp add: handle_join_def Let_def send_def)
  from second_leave_keeps_seat [OF demo_playing_ok demo_tables(6,3) demo_seated _ _ this, of demo_login]
  show ?thesis using join(1) by (auto simp: demo_login_def)
qed

definition demo_bust :: hand_result where
  "demo_bust = \<lparr>hr_hand_id = 1, hr_board = [],
     hr_seats = [\<lparr>so_seat = 0, so_hole_cards = None, so_chip_delta = -200, so_sat_out = False\<rparr>]\<rparr>"


end
