(* ===== verification/ClientCore.thy ===== *)
theory ClientCore
  imports Protocol
begin

text \<open>
  The client's state machine, crate \<open>poker-client-core\<close>: the view the host renders (\<open>view.rs\<close>), what the
  host may ask for (\<open>intent.rs\<close>), what it is asked to do (\<open>effect.rs\<close>) and the machine (\<open>core.rs\<close>).

  A method with \<open>&mut self\<close> that pushes effects is a function from the old core to the new core and
  the effects in the order they are pushed.  Intents carry the letter \<open>I\<close>, log levels the letter \<open>L\<close>.
\<close>

section \<open>Values as text\<close>

fun digit_char :: "nat \<Rightarrow> char" where
  "digit_char n = char_of (48 + n)"

function to_string :: "nat \<Rightarrow> string" where
  "to_string n = (if n < 10 then [digit_char n] else to_string (n div 10) @ [digit_char (n mod 10)])"
  by pat_completeness auto

termination to_string
  by (relation "measure id") auto

declare to_string.simps [simp del]

fun debug_action :: "action \<Rightarrow> string" where
  "debug_action Fold = ''Fold''"
| "debug_action Check = ''Check''"
| "debug_action Call = ''Call''"
| "debug_action (Raise n) = ''Raise('' @ to_string n @ '')''"
| "debug_action AllIn = ''AllIn''"

fun debug_street :: "street \<Rightarrow> string" where
  "debug_street Preflop = ''Preflop''"
| "debug_street Flop = ''Flop''"
| "debug_street Turn = ''Turn''"
| "debug_street River = ''River''"
| "debug_street Showdown = ''Showdown''"

section \<open>The view\<close>

datatype phase =
  Disconnected | Connecting | Authenticating | Lobby | Seated table_id nat | Ended string

record current_hand =
  ch_hand_id :: nat
  ch_dealer :: nat
  ch_street :: street
  ch_hole_cards :: "(8 word \<times> 8 word) option"
  ch_board :: "8 word list"
  ch_pot_total :: nat
  ch_folded_seats :: "nat list"
  ch_all_in_seats :: "nat list"
  ch_awaiting_action :: bool
  ch_legal_actions :: "legal_actions option"
  ch_action_deadline_ms :: "nat option"
  ch_bet_this_street :: "(nat \<times> nat) list"

record client_view =
  v_phase :: phase
  v_player_id :: "player_id option"
  v_username :: "string option"
  v_lifetime_stats :: "lifetime_stats option"
  v_tables :: "table_info list"
  v_seats :: "seat_info list"
  v_button :: "nat option"
  v_current_hand :: "current_hand option"
  v_last_action_rejection :: "string option"

definition empty_view :: client_view where
  "empty_view =
     \<lparr>v_phase = Disconnected, v_player_id = None, v_username = None, v_lifetime_stats = None,
      v_tables = [], v_seats = [], v_button = None, v_current_hand = None,
      v_last_action_rejection = None\<rparr>"

definition our_seat :: "client_view \<Rightarrow> nat option" where
  "our_seat v = (case v_phase v of Seated _ seat \<Rightarrow> Some seat | _ \<Rightarrow> None)"

definition started :: "nat \<Rightarrow> nat \<Rightarrow> current_hand" where
  "started hand_id dealer =
     \<lparr>ch_hand_id = hand_id, ch_dealer = dealer, ch_street = Preflop, ch_hole_cards = None,
      ch_board = [], ch_pot_total = 0, ch_folded_seats = [], ch_all_in_seats = [],
      ch_awaiting_action = False, ch_legal_actions = None, ch_action_deadline_ms = None,
      ch_bet_this_street = []\<rparr>"

section \<open>Intents and effects\<close>

datatype intent =
  IConnect string
| IConnectionOpened
| IRegister string string string "string option"
| IAuthenticatePassword string string "string option"
| IAuthenticateSession string "string option"
| IListTables
| IJoinTable table_id nat
| ILeaveTable table_id
| ISubmitAction action
| IHeartbeat
| IDisconnect
| IConnectionLost string

datatype schedule_kind = HeartbeatTick | PromptDeadline

datatype log_level = LTrace | LDebug | LInfo | LWarn | LError

datatype effect =
  OpenConnection string
| CloseConnection
| Send client_message
| PersistSessionKey "string option"
| Schedule schedule_kind nat
| Log log_level string "(string \<times> string) list"

section \<open>The machine\<close>

record active_prompt =
  ap_table_id :: table_id
  ap_hand_id :: nat
  ap_seat :: nat
  ap_legal :: legal_actions

record client_core =
  cc_view :: client_view
  cc_session_key :: "string option"
  cc_connection_open :: bool
  cc_pending_handshake :: "client_message option"
  cc_active_prompt :: "active_prompt option"

type_synonym transition = "client_core \<Rightarrow> client_core \<times> effect list"

definition core_new :: "string option \<Rightarrow> client_core" where
  "core_new initial_session_key =
     \<lparr>cc_view = empty_view, cc_session_key = initial_session_key, cc_connection_open = False,
      cc_pending_handshake = None, cc_active_prompt = None\<rparr>"

definition snapshot :: "client_core \<Rightarrow> client_view" where
  "snapshot c = cc_view c"

text \<open>Field updates below the view: \<open>self.view.phase = p\<close> and \<open>if let Some(h) = self.view.current_hand.as_mut()\<close>.\<close>

definition upd_view :: "(client_view \<Rightarrow> client_view) \<Rightarrow> client_core \<Rightarrow> client_core" where
  "upd_view f c = c\<lparr>cc_view := f (cc_view c)\<rparr>"

definition set_phase :: "phase \<Rightarrow> client_core \<Rightarrow> client_core" where
  "set_phase p = upd_view (\<lambda>v. v\<lparr>v_phase := p\<rparr>)"

definition upd_hand :: "(current_hand \<Rightarrow> current_hand) \<Rightarrow> client_core \<Rightarrow> client_core" where
  "upd_hand f = upd_view (\<lambda>v. v\<lparr>v_current_hand := map_option f (v_current_hand v)\<rparr>)"

fun kind_of_client_message :: "client_message \<Rightarrow> string" where
  "kind_of_client_message (CRegister _ _ _ _ _) = ''Register''"
| "kind_of_client_message (CAuthenticate _ _ _) = ''Authenticate''"
| "kind_of_client_message CListTables = ''ListTables''"
| "kind_of_client_message (CJoinTable _ _) = ''JoinTable''"
| "kind_of_client_message (CLeaveTable _) = ''LeaveTable''"
| "kind_of_client_message (CSubmitAction _ _ _) = ''SubmitAction''"
| "kind_of_client_message (CRequestReplay _) = ''RequestReplay''"
| "kind_of_client_message CHeartbeat = ''Heartbeat''"
| "kind_of_client_message CDisconnect = ''Disconnect''"

definition reset_to_disconnected :: "client_core \<Rightarrow> client_core" where
  "reset_to_disconnected c =
     c\<lparr>cc_view := empty_view, cc_connection_open := False, cc_pending_handshake := None,
       cc_active_prompt := None\<rparr>"

definition reset_to_ended :: "string \<Rightarrow> client_core \<Rightarrow> client_core" where
  "reset_to_ended reason c =
     c\<lparr>cc_view := empty_view\<lparr>v_phase := Ended reason\<rparr>, cc_connection_open := False,
       cc_pending_handshake := None, cc_active_prompt := None\<rparr>"

subsection \<open>Intents\<close>

definition queue_or_send_handshake :: "client_message \<Rightarrow> transition" where
  "queue_or_send_handshake msg c =
     (if cc_connection_open c then (set_phase Authenticating c, [Send msg])
      else (c\<lparr>cc_pending_handshake := Some msg\<rparr>,
            [Log LDebug ''core: connection not yet open, queued handshake'' []]))"

definition still_awaiting :: "client_core \<Rightarrow> bool" where
  "still_awaiting c =
     (case v_current_hand (cc_view c) of None \<Rightarrow> False | Some h \<Rightarrow> ch_awaiting_action h)"

definition handle_submit_action :: "action \<Rightarrow> transition" where
  "handle_submit_action action c =
     (if \<not> still_awaiting c then
        (c, [Log LWarn ''core: SubmitAction with no live prompt; ignoring''
               [(''action'', debug_action action)]])
      else case cc_active_prompt c of
        None \<Rightarrow>
          (c, [Log LWarn ''core: SubmitAction with no active prompt record; ignoring''
                 [(''action'', debug_action action)]])
      | Some prompt \<Rightarrow>
          if \<not> is_legal (ap_legal prompt) action then
            (c, [Log LWarn ''core: SubmitAction failed local legality check; ignoring''
                   [(''action'', debug_action action)]])
          else
            (upd_hand (\<lambda>h. h\<lparr>ch_awaiting_action := False, ch_legal_actions := None,
                             ch_action_deadline_ms := None\<rparr>) c,
             [Send (CSubmitAction (ap_table_id prompt) (ap_hand_id prompt) action),
              Log LInfo ''core: submitted action'' [(''action'', debug_action action)]]))"

fun handle_intent :: "intent \<Rightarrow> transition" where
  "handle_intent (IConnect addr) c =
     (set_phase Connecting c,
      [OpenConnection addr, Log LInfo ''core: opening connection'' [(''addr'', addr)]])"
| "handle_intent IConnectionOpened c =
     (case cc_pending_handshake c of
        Some msg \<Rightarrow>
          (set_phase Authenticating (c\<lparr>cc_connection_open := True, cc_pending_handshake := None\<rparr>),
           [Log LDebug ''core: connection opened, flushing pending handshake''
              [(''msg'', kind_of_client_message msg)], Send msg])
      | None \<Rightarrow>
          (c\<lparr>cc_connection_open := True\<rparr>,
           [Log LDebug ''core: connection opened, awaiting handshake intent'' []]))"
| "handle_intent (IRegister email username password device_label) c =
     queue_or_send_handshake (CRegister PROTOCOL_VERSION email username password device_label) c"
| "handle_intent (IAuthenticatePassword ident password device_label) c =
     queue_or_send_handshake
       (CAuthenticate PROTOCOL_VERSION (Password ident password) device_label) c"
| "handle_intent (IAuthenticateSession key device_label) c =
     queue_or_send_handshake (CAuthenticate PROTOCOL_VERSION (Session key) device_label)
       (c\<lparr>cc_session_key := Some key\<rparr>)"
| "handle_intent IListTables c = (c, [Send CListTables])"
| "handle_intent (IJoinTable table_id buy_in) c = (c, [Send (CJoinTable table_id buy_in)])"
| "handle_intent (ILeaveTable table_id) c = (c, [Send (CLeaveTable table_id)])"
| "handle_intent (ISubmitAction action) c = handle_submit_action action c"
| "handle_intent IHeartbeat c = (c, [Send CHeartbeat])"
| "handle_intent IDisconnect c = (reset_to_disconnected c, [Send CDisconnect, CloseConnection])"
| "handle_intent (IConnectionLost reason) c =
     (reset_to_ended reason c, [Log LWarn ''core: connection lost'' [(''reason'', reason)]])"

subsection \<open>Engine events\<close>

definition update_bet :: "(nat \<times> nat) list \<Rightarrow> nat \<Rightarrow> nat \<Rightarrow> (nat \<times> nat) list" where
  "update_bet bets seat amount =
     (case position (\<lambda>(s, _). s = seat) bets of
        Some k \<Rightarrow> bets[k := (seat, amount)]
      | None \<Rightarrow> bets @ [(seat, amount)])"

definition max_bet :: "(nat \<times> nat) list \<Rightarrow> nat" where
  "max_bet bets = foldr max (map snd bets) 0"

definition push_new :: "nat \<Rightarrow> nat list \<Rightarrow> nat list" where
  "push_new seat seats = (if seat \<in> set seats then seats else seats @ [seat])"

definition card_as_u8 :: "card \<Rightarrow> 8 word" where
  "card_as_u8 c = of_nat (card_index c)"

definition action_taken :: "nat \<Rightarrow> action \<Rightarrow> nat \<Rightarrow> current_hand \<Rightarrow> current_hand" where
  "action_taken seat action pot h =
     (let h = h\<lparr>ch_pot_total := pot\<rparr>;
          h = (if action = Fold then h\<lparr>ch_folded_seats := push_new seat (ch_folded_seats h)\<rparr> else h);
          bets = ch_bet_this_street h
      in case action of
           Fold \<Rightarrow> h
         | Check \<Rightarrow> h\<lparr>ch_bet_this_street := update_bet bets seat (max_bet bets)\<rparr>
         | Call \<Rightarrow> h\<lparr>ch_bet_this_street := update_bet bets seat (max_bet bets)\<rparr>
         | Raise amount \<Rightarrow> h\<lparr>ch_bet_this_street := update_bet bets seat amount\<rparr>
         | AllIn \<Rightarrow> h)"

definition seated_at :: "table_id \<Rightarrow> client_view \<Rightarrow> bool" where
  "seated_at table_id v = (case v_phase v of Seated t _ \<Rightarrow> t = table_id | _ \<Rightarrow> False)"

fun project_event :: "engine_event \<Rightarrow> transition" where
  "project_event (HandStarted hand_id dealer deck_seed) c =
     ((upd_view (\<lambda>v. v\<lparr>v_current_hand := Some (started hand_id dealer),
                        v_last_action_rejection := None\<rparr>) c)\<lparr>cc_active_prompt := None\<rparr>,
      [Log LInfo ''core: hand started''
         [(''hand_id'', to_string hand_id), (''dealer'', to_string dealer),
          (''deck_seed'', to_string (unat deck_seed))]])"
| "project_event (HoleCardsDealt seat cards) c =
     (if our_seat (cc_view c) = Some seat then
        (upd_hand (\<lambda>h. h\<lparr>ch_hole_cards := Some (card_as_u8 (fst cards), card_as_u8 (snd cards))\<rparr>) c,
         [Log LDebug ''core: hole cards dealt to us'' []])
      else
        (c, [Log LTrace ''core: HoleCardsDealt for another seat (unexpected; server should mask)''
               [(''seat'', to_string seat)]]))"
| "project_event (BoardDealt street cards) c =
     (upd_hand (\<lambda>h. h\<lparr>ch_street := street, ch_board := ch_board h @ map card_as_u8 cards,
                      ch_bet_this_street := []\<rparr>) c,
      if v_current_hand (cc_view c) = None then []
      else [Log LDebug ''core: board dealt''
              [(''street'', debug_street street), (''cards'', to_string (length cards))]])"
| "project_event (ActionTaken seat action pot) c =
     (upd_hand (action_taken seat action pot) c,
      [Log LDebug ''core: action taken''
         [(''seat'', to_string seat), (''action'', debug_action action),
          (''pot_total'', to_string pot)]])"
| "project_event (PlayerAllIn seat total_committed) c =
     (upd_hand (\<lambda>h. h\<lparr>ch_all_in_seats := push_new seat (ch_all_in_seats h),
                      ch_bet_this_street := update_bet (ch_bet_this_street h) seat total_committed\<rparr>) c,
      [Log LDebug ''core: player all-in''
         [(''seat'', to_string seat), (''total_committed'', to_string total_committed)]])"
| "project_event (HandEnded hand_id result) c =
     ((upd_view (\<lambda>v. v\<lparr>v_current_hand := None\<rparr>)
        (upd_hand (\<lambda>h. if 5 \<le> length (ch_board h) then h\<lparr>ch_street := Showdown\<rparr> else h) c))
        \<lparr>cc_active_prompt := None\<rparr>,
      [Log LInfo ''core: hand ended'' [(''hand_id'', to_string hand_id)]])"

definition project_engine_event :: "table_id \<Rightarrow> engine_event \<Rightarrow> transition" where
  "project_engine_event table_id event c =
     (if \<not> seated_at table_id (cc_view c) then
        (c, [Log LWarn ''core: TableEvent for non-current table; ignoring''
               [(''table_id'', to_string table_id)]])
      else project_event event c)"

subsection \<open>Inbound messages\<close>

fun handle_inbound :: "server_message \<Rightarrow> transition" and replay_loop :: "server_message list \<Rightarrow> transition"
where
  "handle_inbound (SWelcome _ player_id username session_key stats) c =
     ((upd_view (\<lambda>v. v\<lparr>v_phase := Lobby, v_player_id := Some player_id,
                        v_username := Some username, v_lifetime_stats := Some stats\<rparr>) c)
        \<lparr>cc_session_key := Some session_key\<rparr>,
      [PersistSessionKey (Some session_key),
       Log LInfo ''core: welcomed''
         [(''username'', username), (''player_id'', to_string player_id)]])"
| "handle_inbound (SRejected _ reason) c =
     (set_phase (Ended reason) c,
      [CloseConnection, Log LWarn ''core: handshake rejected'' [(''reason'', reason)]])"
| "handle_inbound (SGoodbye reason) c =
     (reset_to_ended reason c,
      [CloseConnection, Log LInfo ''core: goodbye'' [(''reason'', reason)]])"
| "handle_inbound SHeartbeat c = (c, [])"
| "handle_inbound (STableList tables) c =
     (upd_view (\<lambda>v. v\<lparr>v_tables := tables\<rparr>) c,
      [Log LDebug ''core: table list updated'' [(''count'', to_string (length tables))]])"
| "handle_inbound (SJoinedTable table_id seat seats) c =
     ((upd_view (\<lambda>v. v\<lparr>v_phase := Seated table_id seat, v_seats := seats, v_button := None,
                        v_current_hand := None, v_last_action_rejection := None\<rparr>) c)
        \<lparr>cc_active_prompt := None\<rparr>,
      [Log LInfo ''core: seated''
         [(''table_id'', to_string table_id), (''seat'', to_string seat)]])"
| "handle_inbound (SLeftTable table_id) c =
     ((upd_view (\<lambda>v. v\<lparr>v_phase := Lobby, v_seats := [], v_button := None,
                        v_current_hand := None\<rparr>) c)\<lparr>cc_active_prompt := None\<rparr>,
      [Log LInfo ''core: left table'' [(''table_id'', to_string table_id)]])"
| "handle_inbound (STableState table_id seats button) c =
     (if seated_at table_id (cc_view c) then
        (upd_view (\<lambda>v. v\<lparr>v_seats := seats, v_button := Some button\<rparr>) c,
         [Log LDebug ''core: table state updated''
            [(''table_id'', to_string table_id), (''button'', to_string button)]])
      else
        (c, [Log LWarn ''core: TableState for non-current table; ignoring''
               [(''table_id'', to_string table_id)]]))"
| "handle_inbound (STableEvent table_id event) c = project_engine_event table_id event c"
| "handle_inbound (SPrompt table_id hand_id seat legal deadline_ms) c =
     (upd_view (\<lambda>v. v\<lparr>v_last_action_rejection := None\<rparr>)
        (upd_hand (\<lambda>h. h\<lparr>ch_awaiting_action := True, ch_legal_actions := Some legal,
                         ch_action_deadline_ms := Some deadline_ms\<rparr>)
          (c\<lparr>cc_active_prompt := Some \<lparr>ap_table_id = table_id, ap_hand_id = hand_id,
                                       ap_seat = seat, ap_legal = legal\<rparr>\<rparr>)),
      [Log LInfo ''core: prompt received''
         [(''hand_id'', to_string hand_id), (''seat'', to_string seat),
          (''deadline_ms'', to_string deadline_ms)]])"
| "handle_inbound (SActionRejected reason) c =
     (upd_view (\<lambda>v. v\<lparr>v_last_action_rejection := Some reason\<rparr>)
        (case cc_active_prompt c of
           Some prompt \<Rightarrow>
             upd_hand (\<lambda>h. h\<lparr>ch_awaiting_action := True,
                             ch_legal_actions := Some (ap_legal prompt)\<rparr>) c
         | None \<Rightarrow> c),
      [Log LWarn ''core: action rejected'' [(''reason'', reason)]])"
| "handle_inbound (SReplayEvents hand_id events) c =
     (let n = length events; (c', nested) = replay_loop events c in
      (c', Log LInfo ''core: replay begin''
             [(''hand_id'', to_string hand_id), (''events'', to_string n)]
           # nested
           @ [Log LInfo ''core: replay end''
                [(''hand_id'', to_string hand_id), (''events'', to_string n)]]))"
| "replay_loop [] c = (c, [])"
| "replay_loop (event # events) c =
     (let (c', out1) = handle_inbound event c; (c'', out2) = replay_loop events c' in
      (c'', out1 @ out2))"

section \<open>The invariant\<close>

definition is_handshake :: "client_message \<Rightarrow> bool" where
  "is_handshake m = (case m of CRegister _ _ _ _ _ \<Rightarrow> True | CAuthenticate _ _ _ \<Rightarrow> True | _ \<Rightarrow> False)"

text \<open>
  The hand on screen: it waits for an action exactly when it offers legal actions, those are the ones
  of the prompt on record, and each seat has at most one entry in each of its lists.
\<close>

definition hand_inv :: "active_prompt option \<Rightarrow> current_hand \<Rightarrow> bool" where
  "hand_inv prompt h \<longleftrightarrow>
     (if ch_awaiting_action h
      then prompt \<noteq> None \<and> ch_legal_actions h = map_option ap_legal prompt
      else ch_legal_actions h = None \<and> ch_action_deadline_ms h = None)
     \<and> distinct (ch_folded_seats h) \<and> distinct (ch_all_in_seats h)
     \<and> distinct (map fst (ch_bet_this_street h))"

definition identity_inv :: "client_view \<Rightarrow> bool" where
  "identity_inv v \<longleftrightarrow> (v_player_id v = None \<longleftrightarrow> v_username v = None)
     \<and> (v_player_id v = None \<longleftrightarrow> v_lifetime_stats v = None)"

definition client_inv :: "client_core \<Rightarrow> bool" where
  "client_inv c \<longleftrightarrow>
     pred_option (hand_inv (cc_active_prompt c)) (v_current_hand (cc_view c))
     \<and> pred_option (\<lambda>m. \<not> cc_connection_open c \<and> is_handshake m) (cc_pending_handshake c)
     \<and> identity_inv (cc_view c)"

lemmas update_defs = upd_view_def upd_hand_def set_phase_def reset_to_ended_def
  reset_to_disconnected_def empty_view_def

lemma distinct_push_new [simp]: "distinct xs \<Longrightarrow> distinct (push_new x xs)"
  by (simp add: push_new_def)

lemma set_push_new [simp]: "set (push_new x xs) = insert x (set xs)"
  by (auto simp: push_new_def)

lemma update_bet_seats: "map fst (update_bet bets seat n) = push_new seat (map fst bets)"
proof (cases "position (\<lambda>(s, _). s = seat) bets")
  case None
  then have "seat \<notin> set (map fst bets)" by (force simp: position_None)
  then show ?thesis by (simp add: None update_bet_def push_new_def)
next
  case (Some k)
  then have k: "k < length bets" "fst (bets ! k) = seat"
    using position_SomeD [OF Some] by (auto simp: split_beta)
  then have "seat \<in> set (map fst bets)"
    by (metis length_map nth_map nth_mem)
  moreover have "(map fst bets)[k := seat] = map fst bets"
    using k by (metis list_update_id nth_map)
  ultimately show ?thesis
    by (simp add: Some update_bet_def push_new_def map_update)
qed

lemma pred_option_map: "pred_option P (map_option f x) = pred_option (\<lambda>y. P (f y)) x"
  by (cases x) auto

lemma hand_inv_started: "hand_inv None (started hand_id dealer)"
  by (simp add: hand_inv_def started_def)

lemma hand_inv_action_taken: "hand_inv p h \<Longrightarrow> hand_inv p (action_taken seat a pot h)"
  by (cases a) (simp_all add: hand_inv_def action_taken_def Let_def update_bet_seats)

lemma client_inv_new: "client_inv (core_new k)"
  by (simp add: client_inv_def core_new_def empty_view_def identity_inv_def)

lemma client_inv_upd_hand:
  assumes "client_inv c" and "\<And>h. hand_inv (cc_active_prompt c) h \<Longrightarrow> hand_inv (cc_active_prompt c) (f h)"
  shows "client_inv (upd_hand f c)"
  using assms by (auto simp: client_inv_def update_defs pred_option_map identity_inv_def elim: option.pred_mono_strong)

lemma client_inv_handshake:
  "client_inv c \<Longrightarrow> is_handshake m \<Longrightarrow> client_inv (fst (queue_or_send_handshake m c))"
  by (auto simp: queue_or_send_handshake_def client_inv_def update_defs identity_inv_def
      elim: option.pred_mono_strong)

lemma client_inv_submit: "client_inv c \<Longrightarrow> client_inv (fst (handle_submit_action a c))"
  by (auto simp: handle_submit_action_def hand_inv_def split: option.split intro!: client_inv_upd_hand)

lemma client_inv_intent:
  assumes "client_inv c"
  shows "client_inv (fst (handle_intent i c))"
proof (cases i)
  case IConnectionOpened
  then show ?thesis
    using assms by (auto simp: client_inv_def update_defs identity_inv_def split: option.split)
next
  case (IRegister e u p l)
  then show ?thesis using assms by (simp add: client_inv_handshake is_handshake_def)
next
  case (IAuthenticatePassword u p l)
  then show ?thesis using assms by (simp add: client_inv_handshake is_handshake_def)
next
  case (IAuthenticateSession key label)
  have "client_inv (c\<lparr>cc_session_key := Some key\<rparr>)"
    using assms by (simp add: client_inv_def)
  then show ?thesis
    by (simp add: IAuthenticateSession client_inv_handshake is_handshake_def)
next
  case (ISubmitAction a)
  then show ?thesis using assms by (simp add: client_inv_submit)
qed (use assms in \<open>auto simp: client_inv_def update_defs identity_inv_def\<close>)

lemma client_inv_event: "client_inv c \<Longrightarrow> client_inv (fst (project_event e c))"
proof (cases e)
  case (HandStarted hand_id dealer seed)
  moreover assume "client_inv c"
  ultimately show ?thesis
    by (auto simp: client_inv_def update_defs identity_inv_def hand_inv_started)
next
  case (HandEnded hand_id r)
  moreover assume "client_inv c"
  ultimately show ?thesis by (auto simp: client_inv_def update_defs identity_inv_def)
next
  case (ActionTaken seat a pot)
  moreover assume "client_inv c"
  ultimately show ?thesis by (auto intro!: client_inv_upd_hand hand_inv_action_taken)
qed (auto simp: hand_inv_def update_bet_seats intro!: client_inv_upd_hand)

lemma client_inv_inbound:
  "client_inv c \<Longrightarrow> client_inv (fst (handle_inbound m c))"
  "client_inv c \<Longrightarrow> client_inv (fst (replay_loop ms c))"
proof (induction m c and ms c rule: handle_inbound_replay_loop.induct)
  case (9 t e c)
  then show ?case by (simp add: project_engine_event_def client_inv_event)
next
  case (10 t h s l d c)
  then show ?case
    by (auto simp: client_inv_def hand_inv_def update_defs pred_option_map identity_inv_def
        elim: option.pred_mono_strong)
next
  case (11 r c)
  then show ?case
    by (auto simp: client_inv_def hand_inv_def update_defs pred_option_map identity_inv_def
        split: option.split elim: option.pred_mono_strong)
next
  case (12 h es c)
  then show ?case by (auto simp: Let_def split: prod.split)
next
  case (14 e es c)
  then show ?case by (auto simp: Let_def split: prod.split)
qed (auto simp: client_inv_def update_defs identity_inv_def)

section \<open>Runs\<close>

datatype input = FromHost intent | FromServer server_message

fun core_handle :: "input \<Rightarrow> transition" where
  "core_handle (FromHost i) c = handle_intent i c"
| "core_handle (FromServer m) c = handle_inbound m c"

inductive client_step :: "client_core \<Rightarrow> input \<Rightarrow> effect list \<Rightarrow> client_core \<Rightarrow> bool" where
  step: "core_handle i c = (c', out) \<Longrightarrow> client_step c i out c'"

inductive client_run :: "client_core \<Rightarrow> input list \<Rightarrow> effect list \<Rightarrow> client_core \<Rightarrow> bool" where
  run_nil: "client_run c [] [] c"
| run_cons: "client_step c i out1 c' \<Longrightarrow> client_run c' is out2 c'' \<Longrightarrow> client_run c (i # is) (out1 @ out2) c''"

inductive_simps client_step_simps: "client_step c i out c'"
inductive_cases client_run_consE: "client_run c (i # is) out c''"

code_pred (modes: i \<Rightarrow> i \<Rightarrow> o \<Rightarrow> o \<Rightarrow> bool) client_run .

lemma client_inv_step:
  assumes "client_step c i out c'" "client_inv c"
  shows "client_inv c'"
proof -
  have "client_inv (fst (core_handle i c))"
    using assms(2) by (cases i) (simp_all add: client_inv_intent client_inv_inbound)
  then show ?thesis using assms(1) by (simp add: client_step_simps)
qed

lemma client_inv_run: "client_run c is out c' \<Longrightarrow> client_inv c \<Longrightarrow> client_inv c'"
  by (induction rule: client_run.induct) (auto dest: client_inv_step)

text \<open>
  (C20) Whatever the host and the server do, in every state the client reaches from a fresh start: an
  action is awaited exactly when legal actions are on screen, and they are those of the prompt on
  record; no deadline outlives its prompt; a handshake is held back only while the connection is
  closed; every seat is listed once; and the identity fields are set together.
\<close>

theorem client_reachable_inv:
  assumes "client_run (core_new k) is out c"
  shows "client_inv c"
  using client_inv_run [OF assms client_inv_new] .

section \<open>Submitting actions\<close>

fun submissions :: "effect list \<Rightarrow> nat" where
  "submissions [] = 0"
| "submissions (Send (CSubmitAction _ _ _) # es) = Suc (submissions es)"
| "submissions (_ # es) = submissions es"

text \<open>How often a message lets the client answer: a replay counts what it carries.\<close>

fun licences :: "server_message \<Rightarrow> nat" where
  "licences (SPrompt _ _ _ _ _) = 1"
| "licences (SActionRejected _) = 1"
| "licences (SReplayEvents _ es) = sum_list (map licences es)"
| "licences _ = 0"

fun input_licences :: "input \<Rightarrow> nat" where
  "input_licences (FromServer m) = licences m"
| "input_licences (FromHost _) = 0"

abbreviation awaiting :: "client_core \<Rightarrow> nat" where
  "awaiting c \<equiv> of_bool (still_awaiting c)"

lemma submissions_append [simp]: "submissions (xs @ ys) = submissions xs + submissions ys"
  by (induction xs rule: submissions.induct) auto

lemma still_awaiting_upd_hand:
  "still_awaiting (upd_hand f c) =
     (case v_current_hand (cc_view c) of None \<Rightarrow> False | Some h \<Rightarrow> ch_awaiting_action (f h))"
  by (simp add: still_awaiting_def update_defs split: option.split)

lemma still_awaiting_action_taken [simp]:
  "ch_awaiting_action (action_taken seat a pot h) = ch_awaiting_action h"
  by (cases a) (simp_all add: action_taken_def Let_def)

lemma awaiting_event:
  "submissions (snd (project_event e c)) + awaiting (fst (project_event e c)) \<le> awaiting c"
  by (cases e) (auto simp: still_awaiting_def update_defs started_def split: option.split)

lemma awaiting_inbound:
  "submissions (snd (handle_inbound m c)) + awaiting (fst (handle_inbound m c)) \<le> awaiting c + licences m"
  "submissions (snd (replay_loop ms c)) + awaiting (fst (replay_loop ms c))
     \<le> awaiting c + sum_list (map licences ms)"
proof (induction m c and ms c rule: handle_inbound_replay_loop.induct)
  case (9 t e c)
  then show ?case using awaiting_event [of e c] by (simp add: project_engine_event_def)
next
  case (12 h es c)
  then show ?case by (auto simp: Let_def split: prod.split)
next
  case (14 e es c)
  then show ?case by (fastforce simp: Let_def split: prod.split)
qed (auto simp: still_awaiting_def update_defs split: option.split)

lemma handshake_no_submission: "is_handshake m \<Longrightarrow> submissions [Send m] = 0"
  by (cases m) (simp_all add: is_handshake_def)

lemma awaiting_intent:
  assumes "client_inv c"
  shows "submissions (snd (handle_intent i c)) + awaiting (fst (handle_intent i c)) \<le> awaiting c"
proof (cases i)
  case IConnectionOpened
  then show ?thesis
    using assms by (auto simp: client_inv_def handshake_no_submission still_awaiting_def update_defs
        split: option.split)
qed (auto simp: handle_submit_action_def queue_or_send_handshake_def still_awaiting_def
    update_defs split: option.split)

lemma awaiting_step:
  assumes "client_step c i out c'" "client_inv c"
  shows "submissions out + awaiting c' \<le> awaiting c + input_licences i"
proof (cases i)
  case (FromHost x)
  with assms show ?thesis using awaiting_intent [OF assms(2), of x] by (simp add: client_step_simps)
next
  case (FromServer m)
  with assms show ?thesis using awaiting_inbound(1) [of m c] by (simp add: client_step_simps)
qed

lemma awaiting_run:
  "client_run c is out c' \<Longrightarrow> client_inv c
   \<Longrightarrow> submissions out + awaiting c' \<le> awaiting c + sum_list (map input_licences is)"
proof (induction rule: client_run.induct)
  case (run_cons c i out1 c' "is" out2 c'')
  then have "submissions out2 + awaiting c'' \<le> awaiting c' + sum_list (map input_licences is)"
    using client_inv_step by blast
  with awaiting_step [OF run_cons.hyps(1) run_cons.prems] show ?case by simp
qed simp


text \<open>
  What \<open>SubmitAction\<close> sends, on every branch: a message leaves exactly when an action is awaited
  and the chosen one is among the legal actions on screen; it then carries the table and hand of the
  prompt, and nothing is awaited afterwards.  Otherwise the core is unchanged and only a warning
  is logged.
\<close>

theorem submit_action_sound:
  assumes "client_inv c"
  shows "(case v_current_hand (cc_view c) of
            Some h \<Rightarrow>
              (case ch_legal_actions h of
                 Some legal \<Rightarrow>
                   (\<exists>p. cc_active_prompt c = Some p \<and> ap_legal p = legal
                     \<and> (if is_legal legal a
                        then hd (snd (handle_intent (ISubmitAction a) c))
                               = Send (CSubmitAction (ap_table_id p) (ap_hand_id p) a)
                             \<and> submissions (snd (handle_intent (ISubmitAction a) c)) = 1
                             \<and> \<not> still_awaiting (fst (handle_intent (ISubmitAction a) c))
                        else fst (handle_intent (ISubmitAction a) c) = c
                             \<and> submissions (snd (handle_intent (ISubmitAction a) c)) = 0))
               | None \<Rightarrow> fst (handle_intent (ISubmitAction a) c) = c
                         \<and> submissions (snd (handle_intent (ISubmitAction a) c)) = 0)
          | None \<Rightarrow> fst (handle_intent (ISubmitAction a) c) = c
                    \<and> submissions (snd (handle_intent (ISubmitAction a) c)) = 0)"
  using assms
  by (auto simp: client_inv_def hand_inv_def handle_submit_action_def still_awaiting_def update_defs
      split: option.split if_splits)

section \<open>Tables and seats\<close>

text \<open>
  Messages about another table change nothing: an event or a table state for a table the client
  is not seated at leaves the whole core as it was and sends nothing.
\<close>

theorem other_tables_ignored:
  assumes "\<not> seated_at t (cc_view c)"
  shows "fst (handle_inbound (STableEvent t e) c) = c \<and> fst (handle_inbound (STableState t seats b) c) = c
    \<and> (\<exists>m fs. snd (handle_inbound (STableEvent t e) c) = [Log LWarn m fs])
    \<and> (\<exists>m fs. snd (handle_inbound (STableState t seats b) c) = [Log LWarn m fs])"
  using assms by (simp add: project_engine_event_def)

text \<open>What arrives during a hand, and what of the core a hand never touches.\<close>

fun hand_message :: "server_message \<Rightarrow> bool" where
  "hand_message (STableEvent _ _) = True"
| "hand_message (SPrompt _ _ _ _ _) = True"
| "hand_message (SActionRejected _) = True"
| "hand_message SHeartbeat = True"
| "hand_message _ = False"

definition forget_hand :: "client_core \<Rightarrow> client_core" where
  "forget_hand c =
     (upd_view (\<lambda>v. v\<lparr>v_current_hand := None, v_last_action_rejection := None\<rparr>) c)
       \<lparr>cc_active_prompt := None\<rparr>"

lemma forget_hand_event: "forget_hand (fst (project_event e c)) = forget_hand c"
  by (cases e) (simp_all add: forget_hand_def update_defs)

lemma forget_hand_inbound:
  assumes "hand_message m"
  shows "forget_hand (fst (handle_inbound m c)) = forget_hand c"
proof (cases m)
  case (STableEvent t e)
  then show ?thesis by (simp add: project_engine_event_def forget_hand_event)
next
  case (SActionRejected r)
  then show ?thesis by (cases "cc_active_prompt c") (simp_all add: forget_hand_def update_defs)
qed (use assms in \<open>simp_all add: forget_hand_def update_defs\<close>)

lemma forget_hand_replay:
  "list_all hand_message ms \<Longrightarrow> forget_hand (fst (replay_loop ms c)) = forget_hand c"
  by (induction ms arbitrary: c) (simp_all add: forget_hand_inbound split_beta Let_def)

lemma forget_hand_phase: "forget_hand c = forget_hand c' \<Longrightarrow> v_phase (cc_view c) = v_phase (cc_view c')"
  by (auto simp: forget_hand_def update_defs dest: arg_cong [where f = "\<lambda>c. v_phase (cc_view c)"])

lemma seated_at_forget:
  "forget_hand c = forget_hand c' \<Longrightarrow> seated_at t (cc_view c) = seated_at t (cc_view c')"
  by (drule forget_hand_phase) (simp add: seated_at_def)

lemma our_seat_forget:
  "forget_hand c = forget_hand c' \<Longrightarrow> our_seat (cc_view c) = our_seat (cc_view c')"
  by (drule forget_hand_phase) (simp add: our_seat_def)

text \<open>\<open>HandStarted\<close> overwrites all that the hand owns.\<close>

lemma hand_started_forget:
  assumes "forget_hand c = forget_hand c'" and "seated_at t (cc_view c)"
  shows "handle_inbound (STableEvent t (HandStarted h d s)) c
       = handle_inbound (STableEvent t (HandStarted h d s)) c'"
proof -
  have "fst (project_event (HandStarted h d s) x)
      = upd_view (\<lambda>v. v\<lparr>v_current_hand := Some (started h d)\<rparr>) (forget_hand x)" for x
    by (simp add: forget_hand_def update_defs)
  then have "fst (project_event (HandStarted h d s) c) = fst (project_event (HandStarted h d s) c')"
    using assms(1) by metis
  then show ?thesis
    using assms seated_at_forget [OF assms(1)] by (simp add: project_engine_event_def)
qed

lemma replay_append:
  "replay_loop (ms @ ns) c =
     (let (c', o1) = replay_loop ms c; (c'', o2) = replay_loop ns c' in (c'', o1 @ o2))"
  by (induction ms arbitrary: c) (auto simp: Let_def split: prod.split)

text \<open>
  (C22) A replay catches the client up: whatever part of the hand it has already seen, prompts and
  rejections included, a replay that starts at \<open>HandStarted\<close> leaves it in the state of a client
  that saw these messages once, live.  In particular replaying what was already seen changes nothing.
\<close>

theorem replay_catches_up:
  assumes "seated_at t (cc_view c)" and "list_all hand_message seen" and "list_all hand_message ms"
  shows "fst (handle_inbound
            (SReplayEvents h (STableEvent t (HandStarted h d s) # ms)) (fst (replay_loop seen c)))
       = fst (replay_loop (STableEvent t (HandStarted h d s) # ms) c)"
proof -
  let ?c = "fst (replay_loop seen c)" and ?m = "STableEvent t (HandStarted h d s)"
  have "forget_hand c = forget_hand ?c"
    using forget_hand_replay [OF assms(2)] by simp
  then have "handle_inbound ?m ?c = handle_inbound ?m c"
    using hand_started_forget [of c ?c t h d s] assms(1) by metis
  then have "replay_loop (?m # ms) ?c = replay_loop (?m # ms) c"
    by (simp only: replay_loop.simps)
  then show ?thesis
    by (simp add: split_beta Let_def del: replay_loop.simps)
qed

text \<open>Messages a server shows to the seat: of the hole cards only its own.\<close>

fun visible_to :: "nat \<Rightarrow> server_message \<Rightarrow> bool" where
  "visible_to seat (STableEvent _ (HoleCardsDealt s _)) = (s = seat)"
| "visible_to seat _ = True"

lemma invisible_inert:
  assumes "our_seat (cc_view c) = Some seat" "\<not> visible_to seat m"
  shows "fst (handle_inbound m c) = c"
  using assms by (cases "(seat, m)" rule: visible_to.cases) (auto simp: project_engine_event_def)

text \<open>
  The hole cards of the others never reach the view: during a hand the client ends in the same
  state, to the last field, whether or not they were in the stream.
\<close>

theorem hole_cards_private:
  assumes "our_seat (cc_view c) = Some seat" and "list_all hand_message ms"
  shows "fst (replay_loop ms c) = fst (replay_loop (filter (visible_to seat) ms) c)"
  using assms
proof (induction ms arbitrary: c)
  case (Cons m ms)
  let ?c = "fst (handle_inbound m c)"
  have "our_seat (cc_view ?c) = Some seat"
    using our_seat_forget [OF forget_hand_inbound [of m c]] Cons.prems by simp
  then have "fst (replay_loop ms ?c) = fst (replay_loop (filter (visible_to seat) ms) ?c)"
    using Cons by simp
  then show ?case
    using invisible_inert [OF Cons.prems(1), of m] by (auto simp: split_beta Let_def)
qed simp

section \<open>Handshakes\<close>

text \<open>
  A handshake asked for before the socket is up is held back, nothing is sent, and it leaves as
  the only message when the connection opens; a second opening sends nothing.  Asked for later it
  leaves at once.
\<close>

theorem handshake_sent_once:
  assumes "i = IRegister email name pw dl \<or> i = IAuthenticatePassword name pw dl \<or> i = IAuthenticateSession key dl"
  shows "\<exists>m. is_handshake m \<and>
    (let (c1, o1) = handle_intent i c; (c2, o2) = handle_intent IConnectionOpened c1;
         (c3, o3) = handle_intent IConnectionOpened c2
     in if cc_connection_open c then filter (\<lambda>e. e = Send m) o1 = [Send m] \<and> v_phase (cc_view c1) = Authenticating
        else \<not> list_ex (\<lambda>e. case e of Send _ \<Rightarrow> True | _ \<Rightarrow> False) o1
          \<and> filter (\<lambda>e. case e of Send _ \<Rightarrow> True | _ \<Rightarrow> False) o2 = [Send m]
          \<and> \<not> list_ex (\<lambda>e. case e of Send _ \<Rightarrow> True | _ \<Rightarrow> False) o3
          \<and> v_phase (cc_view c2) = Authenticating \<and> cc_connection_open c2)"
  using assms
  by (elim disjE; intro exI conjI)
    (auto simp: queue_or_send_handshake_def is_handshake_def update_defs)

section \<open>A session\<close>

fun run_core :: "input list \<Rightarrow> transition" where
  "run_core [] c = (c, [])"
| "run_core (i # is) c =
     (let (c', o1) = core_handle i c; (c'', o2) = run_core is c' in (c'', o1 @ o2))"

lemma client_run_core: "run_core is c = (c', out) \<Longrightarrow> client_run c is out c'"
  by (induction "is" arbitrary: c c' out)
    (auto simp: Let_def split: prod.splits intro!: client_run.intros step)

definition demo_legal :: legal_actions where
  "demo_legal = \<lparr>la_can_check = True, la_can_call = False, la_call_amount = 0, la_can_raise = True,
     la_min_raise = 4, la_max_raise = 100, la_all_in_amount = 100\<rparr>"

definition demo_stats :: lifetime_stats where
  "demo_stats = \<lparr>ls_hands = 0, ls_voluntary_pf = 0, ls_raised_pf = 0, ls_aggressive_actions = 0,
     ls_passive_actions = 0, ls_showdowns = 0, ls_chip_delta = 0\<rparr>"

definition demo_inputs :: "input list" where
  "demo_inputs =
     [FromHost (IConnect ''host''), FromHost (IRegister ''a@b.c'' ''alice'' ''password'' None),
      FromHost IConnectionOpened, FromServer (SWelcome 5 1 ''alice'' ''key'' demo_stats),
      FromServer (SJoinedTable 1 2 []), FromServer (STableEvent 1 (HandStarted 7 0 0)),
      FromServer (SPrompt 1 7 2 demo_legal 3000)]"

definition demo_core :: client_core where
  "demo_core = fst (run_core demo_inputs (core_new None))"

lemma demo_run: "client_run (core_new None) demo_inputs (snd (run_core demo_inputs (core_new None))) demo_core"
  by (rule client_run_core) (simp add: demo_core_def)

lemmas demo_eval = demo_core_def demo_inputs_def core_new_def update_defs queue_or_send_handshake_def
  PROTOCOL_VERSION_def project_engine_event_def seated_at_def started_def Let_def split_beta our_seat_def
  still_awaiting_def

lemma demo_facts:
  "still_awaiting demo_core" "seated_at 1 (cc_view demo_core)" "our_seat (cc_view demo_core) = Some 2"
  "\<not> seated_at 5 (cc_view demo_core)" "sum_list (map input_licences demo_inputs) = 1"
  by (simp_all add: demo_eval)

theorem client_reachable_inv_witness: "still_awaiting demo_core \<and> client_inv demo_core"
  using client_reachable_inv [OF demo_run] demo_facts by simp


theorem submit_action_sound_witness:
  "hd (snd (handle_intent (ISubmitAction (Raise 10)) demo_core)) = Send (CSubmitAction 1 7 (Raise 10))"
proof -
  have "client_inv demo_core" by (rule client_inv_run [OF demo_run client_inv_new])
  moreover have "v_current_hand (cc_view demo_core) = Some h \<Longrightarrow> ch_legal_actions h = Some demo_legal"
    and "v_current_hand (cc_view demo_core) \<noteq> None"
    and "cc_active_prompt demo_core = Some p \<Longrightarrow> ap_table_id p = 1 \<and> ap_hand_id p = 7" for h p
    by (auto simp: demo_eval)
  moreover have "is_legal demo_legal (Raise 10)" by (simp add: demo_legal_def)
  ultimately show ?thesis
    using submit_action_sound [of demo_core "Raise 10"] by fastforce
qed

theorem other_tables_ignored_witness:
  "\<not> seated_at 5 (cc_view demo_core)
   \<and> fst (handle_inbound (STableEvent 5 (PlayerAllIn 0 10)) demo_core) = demo_core"
  using other_tables_ignored [of 5 demo_core "PlayerAllIn 0 10"] demo_facts by simp

theorem replay_catches_up_witness:
  "fst (handle_inbound
      (SReplayEvents 7 [STableEvent 1 (HandStarted 7 0 0), STableEvent 1 (BoardDealt Flop [])])
      (fst (replay_loop [STableEvent 1 (ActionTaken 0 Fold 3)] demo_core)))
   = fst (replay_loop [STableEvent 1 (HandStarted 7 0 0), STableEvent 1 (BoardDealt Flop [])] demo_core)"
  using replay_catches_up [of 1 demo_core "[STableEvent 1 (ActionTaken 0 Fold 3)]"
      "[STableEvent 1 (BoardDealt Flop [])]" 7 0 0] demo_facts by simp

theorem hole_cards_private_witness:
  "fst (replay_loop [STableEvent 1 (HoleCardsDealt 0 (Card 1, Card 2)), SHeartbeat] demo_core)
   = fst (replay_loop [SHeartbeat] demo_core)"
  using hole_cards_private [of demo_core 2
      "[STableEvent 1 (HoleCardsDealt 0 (Card 1, Card 2)), SHeartbeat]"] demo_facts by simp

theorem handshake_sent_once_witness:
  "\<exists>m. is_handshake m \<and> filter (\<lambda>e. case e of Send _ \<Rightarrow> True | _ \<Rightarrow> False)
      (snd (handle_intent IConnectionOpened
         (fst (handle_intent (IRegister ''a@b.c'' ''alice'' ''password'' None) (core_new None))))) = [Send m]"
  using handshake_sent_once [of "IRegister ''a@b.c'' ''alice'' ''password'' None" "''a@b.c''" "''alice''"
      "''password''" None "[]" "core_new None"]
  by (auto simp: Let_def split_beta core_new_def)

end
