(* ===== verification/Transport.thy ===== *)
theory Transport
  imports ClientCore
begin

text \<open>
  The transports of the client: channels and handles (\<open>poker-client-transport-native/src/transport.rs\<close>), the TCP
  pump (\<open>native.rs\<close>) and the transport in memory of the tests (\<open>poker-client-headless/src/transport.rs\<close>).

  A socket is what it has received and not yet been asked for, how it ended, and what was written to it.  The
  operating system's answers (connecting, write errors) are parameters.  \<open>select!\<close> polls its branches in an
  order that is drawn anew each time: the order is a parameter of every poll.
\<close>

section \<open>Channels\<close>

text \<open>\<open>mpsc::unbounded_channel\<close>: the items in flight, and whether a sender and the receiver are alive.\<close>

record 'a mpsc =
  mq_items :: "'a list"
  mq_tx :: bool
  mq_rx :: bool

datatype 'a polled = Pending | Ready 'a

definition unbounded_channel :: "'a mpsc" where
  "unbounded_channel = \<lparr>mq_items = [], mq_tx = True, mq_rx = True\<rparr>"

definition mpsc_send :: "'a \<Rightarrow> 'a mpsc \<Rightarrow> bool \<times> 'a mpsc" where
  "mpsc_send x q = (if mq_rx q then (True, q\<lparr>mq_items := mq_items q @ [x]\<rparr>) else (False, q))"

definition mpsc_recv :: "'a mpsc \<Rightarrow> 'a option polled \<times> 'a mpsc" where
  "mpsc_recv q =
     (case mq_items q of
        x # xs \<Rightarrow> (Ready (Some x), q\<lparr>mq_items := xs\<rparr>)
      | [] \<Rightarrow> (if mq_tx q then Pending else Ready None, q))"

section \<open>Handles\<close>

datatype transport_in = Connected | Message server_message | Lost string

text \<open>
  A handle, with the state \<open>'c\<close> of whatever serves the other ends of its two channels.
\<close>

record 'c transport_handle =
  th_outbound :: "client_message mpsc"
  th_inbound :: "transport_in mpsc"
  th_peer :: 'c

definition from_channels :: "'c \<Rightarrow> 'c transport_handle" where
  "from_channels peer = \<lparr>th_outbound = unbounded_channel, th_inbound = unbounded_channel, th_peer = peer\<rparr>"

text \<open>\<open>send\<close>; \<open>False\<close> is the error \<open>Closed\<close>.\<close>

definition handle_send :: "client_message \<Rightarrow> 'c transport_handle \<Rightarrow> bool \<times> 'c transport_handle" where
  "handle_send msg h = (case mpsc_send msg (th_outbound h) of (sent, q) \<Rightarrow> (sent, h\<lparr>th_outbound := q\<rparr>))"

definition handle_recv :: "'c transport_handle \<Rightarrow> transport_in option polled \<times> 'c transport_handle" where
  "handle_recv h = (case mpsc_recv (th_inbound h) of (r, q) \<Rightarrow> (r, h\<lparr>th_inbound := q\<rparr>))"

definition handle_try_recv :: "'c transport_handle \<Rightarrow> transport_in option \<times> 'c transport_handle" where
  "handle_try_recv h =
     (case handle_recv h of (Ready r, h') \<Rightarrow> (r, h') | (Pending, h') \<Rightarrow> (None, h'))"

text \<open>Dropping the handle closes the host's ends: what waits in its inbox is gone.\<close>

definition handle_drop :: "'c transport_handle \<Rightarrow> 'c transport_handle" where
  "handle_drop h =
     h\<lparr>th_outbound := (th_outbound h)\<lparr>mq_tx := False\<rparr>, th_inbound := (th_inbound h)\<lparr>mq_rx := False, mq_items := []\<rparr>\<rparr>"

text \<open>What the serving side does to its ends: push an event, and close both.\<close>

definition push_event :: "transport_in \<Rightarrow> 'c transport_handle \<Rightarrow> bool \<times> 'c transport_handle" where
  "push_event ev h = (case mpsc_send ev (th_inbound h) of (sent, q) \<Rightarrow> (sent, h\<lparr>th_inbound := q\<rparr>))"

definition close_ends :: "'c transport_handle \<Rightarrow> 'c transport_handle" where
  "close_ends h =
     h\<lparr>th_outbound := (th_outbound h)\<lparr>mq_rx := False, mq_items := []\<rparr>, th_inbound := (th_inbound h)\<lparr>mq_tx := False\<rparr>\<rparr>"

section \<open>The TCP pump\<close>

datatype native_transport_error = Connect string string | SetNoDelay string

fun show_transport_error :: "native_transport_error \<Rightarrow> string" where
  "show_transport_error (Connect addr source) = ''connect '' @ addr @ '': '' @ source"
| "show_transport_error (SetNoDelay source) = ''set_nodelay: '' @ source"

fun show_frame_error :: "frame_error \<Rightarrow> string" where
  "show_frame_error (TooLarge len) =
     ''frame too large: '' @ to_string len @ '' bytes (max '' @ to_string MAX_FRAME_BYTES @ '')''"
| "show_frame_error (frame_error.Encode e) = ''encode failed: '' @ e"
| "show_frame_error (frame_error.Decode e) = ''decode failed: '' @ e"

text \<open>How a stream ended, with the text of the error that a short read then reports.\<close>

datatype stream_end = Eof string | Broken string

text \<open>
  The pump task: bytes that have arrived, the end of the stream if it came, the bytes written and whether the write
  half is shut; and what the pending call of \<open>read_one\<close> has taken from the stream so far.
\<close>

record pump =
  np_bytes :: "8 word list"
  np_end :: "stream_end option"
  np_written :: "8 word list"
  np_shut :: bool
  np_partial :: "8 word list"

type_synonym native_handle = "pump transport_handle"

text \<open>The task owns the only sender of the inbox: it runs as long as that is alive.\<close>

definition running :: "'c transport_handle \<Rightarrow> bool" where
  "running h = mq_tx (th_inbound h)"

definition upd_pump :: "(pump \<Rightarrow> pump) \<Rightarrow> native_handle \<Rightarrow> native_handle" where
  "upd_pump f h = h\<lparr>th_peer := f (th_peer h)\<rparr>"

text \<open>\<open>open\<close>: what the operating system says to \<open>connect\<close> and \<open>set_nodelay\<close>.\<close>

definition native_open :: "native_transport_error option \<Rightarrow> native_transport_error + native_handle" where
  "native_open os =
     (case os of
        Some e \<Rightarrow> Inl e
      | None \<Rightarrow>
          let h = from_channels \<lparr>np_bytes = [], np_end = None, np_written = [], np_shut = False, np_partial = []\<rparr>
          in Inr (snd (push_event Connected h)))"

datatype write_fault = WriteFails nat string | FlushFails string

definition send_one ::
  "(client_message \<Rightarrow> string + 8 word list) \<Rightarrow> write_fault option \<Rightarrow> client_message \<Rightarrow> pump \<Rightarrow> (string + unit) \<times> pump" where
  "send_one to_vec os msg p =
     (case encode to_vec msg of
        Inl e \<Rightarrow> (Inl (''encode: '' @ show_frame_error e), p)
      | Inr bytes \<Rightarrow>
          case os of
            Some (WriteFails n e) \<Rightarrow> (Inl (''write: '' @ e), p\<lparr>np_written := np_written p @ take n bytes\<rparr>)
          | Some (FlushFails e) \<Rightarrow> (Inl (''flush: '' @ e), p\<lparr>np_written := np_written p @ bytes\<rparr>)
          | None \<Rightarrow> (Inr (), p\<lparr>np_written := np_written p @ bytes\<rparr>))"

text \<open>
  One poll of \<open>read_one\<close>.  The call keeps what it has read; \<open>read_exact\<close> takes from the stream no more than it
  still needs, and waits when that has not arrived.
\<close>

definition fill :: "nat \<Rightarrow> pump \<Rightarrow> pump" where
  "fill n p =
     (let k = n - length (np_partial p)
      in p\<lparr>np_partial := np_partial p @ take k (np_bytes p), np_bytes := drop k (np_bytes p)\<rparr>)"

definition poll_read ::
  "(8 word list \<Rightarrow> string + server_message) \<Rightarrow> pump \<Rightarrow> (string + server_message) polled \<times> pump" where
  "poll_read from_slice p =
     (let p = fill LENGTH_PREFIX_BYTES p in
      if length (np_partial p) < LENGTH_PREFIX_BYTES then
        (case np_end p of
           None \<Rightarrow> Pending
         | Some (Eof _) \<Rightarrow> Ready (Inl ''server closed connection'')
         | Some (Broken e) \<Rightarrow> Ready (Inl (''read: '' @ e)), p)
      else case parse_length_prefix (take LENGTH_PREFIX_BYTES (np_partial p)) of
        Inl e \<Rightarrow> (Ready (Inl (''frame: '' @ show_frame_error e)), p)
      | Inr len \<Rightarrow>
          let p = fill (LENGTH_PREFIX_BYTES + len) p in
          if length (np_partial p) < LENGTH_PREFIX_BYTES + len then
            (case np_end p of
               None \<Rightarrow> Pending
             | Some (Eof e) \<Rightarrow> Ready (Inl (''read payload: '' @ e))
             | Some (Broken e) \<Rightarrow> Ready (Inl (''read payload: '' @ e)), p)
          else
            (Ready (case decode from_slice (drop LENGTH_PREFIX_BYTES (np_partial p)) of
                      Inl e \<Rightarrow> Inl (''decode: '' @ show_frame_error e)
                    | Inr msg \<Rightarrow> Inr msg), p))"

text \<open>The return of \<open>run_pump\<close> drops the socket and its ends of both channels.\<close>

definition pump_return :: "native_handle \<Rightarrow> native_handle" where
  "pump_return h = upd_pump (\<lambda>p. p\<lparr>np_partial := []\<rparr>) (close_ends h)"

definition shut_and_return :: "native_handle \<Rightarrow> native_handle" where
  "shut_and_return h = pump_return (upd_pump (\<lambda>p. p\<lparr>np_shut := True\<rparr>) h)"

definition lose :: "string \<Rightarrow> native_handle \<Rightarrow> native_handle" where
  "lose reason h = pump_return (snd (push_event (Lost reason) h))"

text \<open>
  The branches of the \<open>select!\<close>: the first answer is whether the branch was ready.  The ready branch drops the
  future of the other one: when a message goes out, the pending \<open>read_one\<close> is dropped with all it has read.
\<close>

definition outbound_branch ::
  "(client_message \<Rightarrow> string + 8 word list) \<Rightarrow> write_fault option \<Rightarrow> native_handle \<Rightarrow> bool \<times> native_handle" where
  "outbound_branch to_vec os h =
     (case mpsc_recv (th_outbound h) of
        (Pending, _) \<Rightarrow> (False, h)
      | (Ready None, _) \<Rightarrow> (True, shut_and_return h)
      | (Ready (Some msg), q) \<Rightarrow>
          case send_one to_vec os msg ((th_peer h)\<lparr>np_partial := []\<rparr>) of
            (Inl e, p) \<Rightarrow> (True, lose e (h\<lparr>th_outbound := q, th_peer := p\<rparr>))
          | (Inr (), p) \<Rightarrow> (True, h\<lparr>th_outbound := q, th_peer := p\<rparr>))"

definition inbound_branch ::
  "(8 word list \<Rightarrow> string + server_message) \<Rightarrow> native_handle \<Rightarrow> bool \<times> native_handle" where
  "inbound_branch from_slice h =
     (case poll_read from_slice (th_peer h) of
        (Pending, p) \<Rightarrow> (False, h\<lparr>th_peer := p\<rparr>)
      | (Ready (Inl reason), p) \<Rightarrow> (True, lose reason (h\<lparr>th_peer := p\<rparr>))
      | (Ready (Inr msg), p) \<Rightarrow>
          case push_event (Message msg) (h\<lparr>th_peer := p\<lparr>np_partial := []\<rparr>\<rparr>) of
            (True, h') \<Rightarrow> (True, h')
          | (False, h') \<Rightarrow> (True, shut_and_return h'))"

definition pump_poll ::
  "(client_message \<Rightarrow> string + 8 word list) \<Rightarrow> (8 word list \<Rightarrow> string + server_message) \<Rightarrow> bool \<Rightarrow> write_fault option \<Rightarrow>
     native_handle \<Rightarrow> native_handle" where
  "pump_poll to_vec from_slice outbound_first os h =
     (if \<not> running h then h
      else if outbound_first then
        (case outbound_branch to_vec os h of (True, h') \<Rightarrow> h' | (False, h') \<Rightarrow> snd (inbound_branch from_slice h'))
      else
        (case inbound_branch from_slice h of (True, h') \<Rightarrow> h' | (False, h') \<Rightarrow> snd (outbound_branch to_vec os h')))"

text \<open>What reaches the socket from the network.\<close>

definition bytes_arrive :: "8 word list \<Rightarrow> native_handle \<Rightarrow> native_handle" where
  "bytes_arrive bs h =
     upd_pump (\<lambda>p. if running h \<and> np_end p = None then p\<lparr>np_bytes := np_bytes p @ bs\<rparr> else p) h"

definition stream_ends :: "stream_end \<Rightarrow> native_handle \<Rightarrow> native_handle" where
  "stream_ends e h = upd_pump (\<lambda>p. if running h \<and> np_end p = None then p\<lparr>np_end := Some e\<rparr> else p) h"

datatype network_op = Arrive "8 word list" | Finish stream_end | Poll bool "write_fault option"

fun native_op :: "(client_message \<Rightarrow> string + 8 word list) \<Rightarrow> (8 word list \<Rightarrow> string + server_message) \<Rightarrow> network_op \<Rightarrow>
     native_handle \<Rightarrow> native_handle" where
  "native_op to_vec from_slice (Arrive bs) h = bytes_arrive bs h"
| "native_op to_vec from_slice (Finish e) h = stream_ends e h"
| "native_op to_vec from_slice (Poll first os) h = pump_poll to_vec from_slice first os h"

section \<open>The transport in memory\<close>

text \<open>The listener is alive or dropped; the server side of a connection is the other end of its two channels.\<close>

datatype in_memory_transport_error = ListenerDropped

type_synonym memory_handle = "unit transport_handle"

definition in_memory_open :: "bool \<Rightarrow> in_memory_transport_error + memory_handle" where
  "in_memory_open listening =
     (if listening then Inr (snd (push_event Connected (from_channels ()))) else Inl ListenerDropped)"

definition server_send :: "server_message \<Rightarrow> memory_handle \<Rightarrow> bool \<times> memory_handle" where
  "server_send msg h = push_event (Message msg) h"

definition server_recv :: "memory_handle \<Rightarrow> client_message option polled \<times> memory_handle" where
  "server_recv h = (case mpsc_recv (th_outbound h) of (r, q) \<Rightarrow> (r, h\<lparr>th_outbound := q\<rparr>))"

definition server_drop :: "memory_handle \<Rightarrow> memory_handle" where
  "server_drop h = close_ends h"

definition server_close :: "string \<Rightarrow> memory_handle \<Rightarrow> memory_handle" where
  "server_close reason h = server_drop (snd (push_event (Lost reason) h))"

datatype server_op = ServerSend server_message | ServerRecv | ServerClose string

fun memory_op :: "server_op \<Rightarrow> memory_handle \<Rightarrow> memory_handle" where
  "memory_op (ServerSend msg) h = (if running h then snd (server_send msg h) else h)"
| "memory_op ServerRecv h = (if running h then snd (server_recv h) else h)"
| "memory_op (ServerClose reason) h = (if running h then server_close reason h else h)"

end
