(* ===== verification/StdText.thy ===== *)
theory StdText
  imports ClientCore
begin

text \<open>
  The text functions of Rust's standard library that the programs use: \<open>str::trim\<close>, \<open>split\<close>, \<open>splitn\<close>,
  \<open>strip_prefix\<close>, and \<open>parse\<close> for unsigned integers.  A \<open>str\<close> is the list of its UTF-8 bytes.
\<close>

section \<open>Characters\<close>

text \<open>The characters of a UTF-8 string as the bytes that encode them, by the length the first byte gives.\<close>

definition char_width :: "char \<Rightarrow> nat" where
  "char_width c = (let b = of_char c :: nat in if b < 128 then 1 else if b < 224 then 2 else if b < 240 then 3 else 4)"

function encoded_chars :: "string \<Rightarrow> string list" where
  "encoded_chars [] = []"
| "encoded_chars (c # cs) = take (char_width c) (c # cs) # encoded_chars (drop (char_width c) (c # cs))"
  by pat_completeness auto

termination encoded_chars
  by (relation "measure length") (auto simp: char_width_def Let_def)

definition white :: "string \<Rightarrow> bool" where
  "white ch = list_ex is_whitespace (utf8_chars (map of_char ch))"

definition trim :: "string \<Rightarrow> string" where
  "trim s = concat (rev (dropWhile white (rev (dropWhile white (encoded_chars s)))))"

definition ascii :: "char \<Rightarrow> bool" where
  "ascii c \<longleftrightarrow> (of_char c :: nat) < 128"

lemma encoded_chars_ascii: "list_all ascii s \<Longrightarrow> encoded_chars s = map (\<lambda>c. [c]) s"
  by (induction s) (simp_all add: ascii_def char_width_def)

lemma concat_singletons [simp]: "concat (map (\<lambda>c. [c]) s) = s"
  by (induction s) simp_all

text \<open>Printable text that does not begin or end with a blank is its own trimming.\<close>

lemma trim_id:
  assumes "list_all ascii s" and "s \<noteq> []" and "\<not> white [hd s]" and "\<not> white [last s]"
  shows "trim s = s"
proof -
  have "dropWhile white (map (\<lambda>c. [c]) s) = map (\<lambda>c. [c]) s"
    using assms(2,3) by (cases s) simp_all
  moreover have "dropWhile white (rev (map (\<lambda>c. [c]) s)) = rev (map (\<lambda>c. [c]) s)"
    using assms(2,4) by (cases s rule: rev_cases) simp_all
  ultimately show ?thesis by (simp add: trim_def encoded_chars_ascii [OF assms(1)])
qed

section \<open>Formatting\<close>

definition str_repeat :: "nat \<Rightarrow> string \<Rightarrow> string" where
  "str_repeat n s = concat (replicate n s)"

text \<open>Padding to a width, which counts characters.\<close>

definition pad_right :: "nat \<Rightarrow> string \<Rightarrow> string" where
  "pad_right n s = s @ replicate (n - length (encoded_chars s)) CHR '' ''"

definition pad_left :: "nat \<Rightarrow> string \<Rightarrow> string" where
  "pad_left n s = replicate (n - length (encoded_chars s)) CHR '' '' @ s"

definition quoted :: "string \<Rightarrow> string" where
  "quoted s = [CHR 0x27] @ s @ [CHR 0x27]"

abbreviation newline :: string where "newline \<equiv> [CHR 0x0A]"
abbreviation dash :: string where "dash \<equiv> [CHR 0xE2, CHR 0x94, CHR 0x80]"
abbreviation double_dash :: string where "double_dash \<equiv> [CHR 0xE2, CHR 0x95, CHR 0x90]"
abbreviation en_dash :: string where "en_dash \<equiv> [CHR 0xE2, CHR 0x80, CHR 0x93]"
abbreviation em_dash :: string where "em_dash \<equiv> [CHR 0xE2, CHR 0x80, CHR 0x94]"
abbreviation left_arrow :: string where "left_arrow \<equiv> [CHR 0xE2, CHR 0x86, CHR 0x90]"
abbreviation middle_dot :: string where "middle_dot \<equiv> [CHR 0xC2, CHR 0xB7]"
abbreviation infinity_sign :: string where "infinity_sign \<equiv> [CHR 0xE2, CHR 0x88, CHR 0x9E]"
abbreviation ellipsis :: string where "ellipsis \<equiv> [CHR 0xE2, CHR 0x80, CHR 0xA6]"

section \<open>Splitting\<close>

text \<open>\<open>split(c)\<close>, and \<open>splitn(2, c)\<close> as the part before the first match and what follows it, if there is one.\<close>

fun split_on :: "char \<Rightarrow> string \<Rightarrow> string list" where
  "split_on sep [] = [[]]"
| "split_on sep (c # cs) =
     (if c = sep then [] # split_on sep cs
      else case split_on sep cs of w # ws \<Rightarrow> (c # w) # ws | [] \<Rightarrow> [[c]])"

definition splitn_2 :: "char \<Rightarrow> string \<Rightarrow> string \<times> string option" where
  "splitn_2 sep s =
     (takeWhile (\<lambda>c. c \<noteq> sep) s,
      case dropWhile (\<lambda>c. c \<noteq> sep) s of [] \<Rightarrow> None | _ # rest \<Rightarrow> Some rest)"

definition splitn_2_white :: "string \<Rightarrow> string \<times> string option" where
  "splitn_2_white s =
     (concat (takeWhile (\<lambda>ch. \<not> white ch) (encoded_chars s)),
      case dropWhile (\<lambda>ch. \<not> white ch) (encoded_chars s) of [] \<Rightarrow> None | _ # rest \<Rightarrow> Some (concat rest))"

fun strip_prefix :: "string \<Rightarrow> string \<Rightarrow> string option" where
  "strip_prefix [] s = Some s"
| "strip_prefix (p # ps) (c # cs) = (if p = c then strip_prefix ps cs else None)"
| "strip_prefix (p # ps) [] = None"

text \<open>\<open>slice::join\<close>.\<close>

fun join :: "string \<Rightarrow> string list \<Rightarrow> string" where
  "join sep [] = []"
| "join sep [x] = x"
| "join sep (x # y # xs) = x @ sep @ join sep (y # xs)"

lemma strip_prefix_append [simp]: "strip_prefix p (p @ s) = Some s"
  by (induction p) simp_all

lemma split_on_not_Nil [simp]: "split_on sep s \<noteq> []"
  by (cases s) (auto split: list.split)

section \<open>Numbers\<close>

definition is_digit :: "char \<Rightarrow> bool" where
  "is_digit c \<longleftrightarrow> CHR ''0'' \<le> c \<and> c \<le> CHR ''9''"

text \<open>\<open>str::parse\<close> for an unsigned type with values below \<open>lim\<close>: an optional plus sign, then at least one digit.\<close>

fun digits_from :: "nat \<Rightarrow> nat \<Rightarrow> string \<Rightarrow> nat option" where
  "digits_from lim acc [] = Some acc"
| "digits_from lim acc (c # cs) =
     (if \<not> is_digit c then None
      else let n = acc * 10 + (of_char c - 48) in if n < lim then digits_from lim n cs else None)"

definition parse_unsigned :: "nat \<Rightarrow> string \<Rightarrow> nat option" where
  "parse_unsigned lim s =
     (let ds = (case s of c # cs \<Rightarrow> if c = CHR ''+'' then cs else s | [] \<Rightarrow> s)
      in if ds = [] then None else digits_from lim 0 ds)"

lemma digits_from_append:
  "digits_from lim acc (xs @ ys) = (case digits_from lim acc xs of None \<Rightarrow> None | Some n \<Rightarrow> digits_from lim n ys)"
  by (induction xs arbitrary: acc) (simp_all add: Let_def)

lemma digit_char_simps [simp]:
  assumes "n < 10"
  shows "is_digit (digit_char n)" and "of_char (digit_char n) = 48 + n" and "digit_char n \<noteq> CHR ''+''" and "ascii (digit_char n)"
    and "\<not> white [digit_char n]"
proof -
  have n: "n \<in> {0, 1, 2, 3, 4, 5, 6, 7, 8, 9}" using assms by (simp add: less_Suc_eq numeral_eq_Suc)
  then show "is_digit (digit_char n)" and ch: "of_char (digit_char n) = 48 + n" and "ascii (digit_char n)"
    and "\<not> white [digit_char n]"
    by (auto simp: is_digit_def less_eq_char_def ascii_def white_def is_whitespace_def)
  show "digit_char n \<noteq> CHR ''+''"
  proof
    assume "digit_char n = CHR ''+''"
    then have "48 + n = (of_char (CHR ''+'') :: nat)" using ch by metis
    then show False by simp
  qed
qed

declare digit_char.simps [simp del]

lemma to_string_not_Nil [simp]: "to_string n \<noteq> []"
  by (subst to_string.simps) simp

lemma digits_from_to_string: "n < lim \<Longrightarrow> digits_from lim 0 (to_string n) = Some n"
proof (induction n rule: to_string.induct)
  case (1 n)
  show ?case
  proof (cases "n < 10")
    case True
    then show ?thesis using 1(2) by (subst to_string.simps) simp
  next
    case False
    have "digits_from lim 0 (to_string (n div 10)) = Some (n div 10)"
      using 1(1) [OF False] 1(2) by (metis div_le_dividend le_less_trans)
    then show ?thesis
      using False 1(2) by (subst to_string.simps) (simp add: digits_from_append Let_def)
  qed
qed

lemma to_string_chars: "list_all (\<lambda>c. ascii c \<and> is_digit c \<and> \<not> white [c]) (to_string n)"
proof (induction n rule: to_string.induct)
  case (1 n)
  then show ?case by (subst to_string.simps) simp
qed

lemma hd_to_string: "hd (to_string n) \<noteq> CHR ''+''"
proof -
  have "is_digit (hd (to_string n))" using to_string_chars [of n] by (cases "to_string n") simp_all
  then show ?thesis by (auto simp: is_digit_def less_eq_char_def)
qed

text \<open>A printed number is read back.\<close>

lemma parse_to_string: "n < lim \<Longrightarrow> parse_unsigned lim (to_string n) = Some n"
  using digits_from_to_string [of n lim] hd_to_string [of n]
  by (cases "to_string n") (simp_all add: parse_unsigned_def)

text \<open>Text made of printable characters, and what was joined is split again.\<close>

definition wordy :: "string \<Rightarrow> bool" where
  "wordy s \<longleftrightarrow> list_all (\<lambda>c. ascii c \<and> \<not> white [c]) s"

lemma wordy_simps [simp]:
  "wordy []" "wordy (c # s) \<longleftrightarrow> ascii c \<and> \<not> white [c] \<and> wordy s" "wordy (s @ t) \<longleftrightarrow> wordy s \<and> wordy t"
  "wordy (to_string n)"
  using to_string_chars [of n] by (auto simp: wordy_def list_all_iff)

lemma trim_wordy [simp]:
  assumes "wordy s"
  shows "trim s = s"
proof (cases "s = []")
  case False
  then show ?thesis
    using assms by (intro trim_id) (auto simp: wordy_def list_all_iff)
qed (simp add: trim_def)

lemma split_on_append: "sep \<notin> set w \<Longrightarrow> split_on sep (w @ sep # s) = w # split_on sep s"
  by (induction w) auto

lemma split_on_word: "sep \<notin> set w \<Longrightarrow> split_on sep w = [w]"
  by (induction w) auto

lemma split_on_join:
  "ws \<noteq> [] \<Longrightarrow> \<forall>w \<in> set ws. sep \<notin> set w \<Longrightarrow> split_on sep (join [sep] ws) = ws"
proof (induction "[sep]" ws rule: join.induct)
  case (3 x y xs)
  then show ?case by (simp add: split_on_append)
qed (simp_all add: split_on_word)

lemma splitn_2_join: "sep \<notin> set w \<Longrightarrow> splitn_2 sep (w @ sep # s) = (w, Some s)"
  by (induction w) (auto simp: splitn_2_def)

lemma digits_only: "c \<in> set (to_string n) \<Longrightarrow> is_digit c"
  using to_string_chars [of n] by (auto simp: list_all_iff)

end
