(* ===== verification/NativeClient.thy ===== *)
theory NativeClient
  imports Transport StdText
begin

text \<open>
  The native client, crate \<open>poker-client-transport-native\<close>: the session key on disk (\<open>session.rs\<close>) and the runtime that
  drives the core, a transport and the store (\<open>runtime.rs\<close>).

  A path is the list of its directories and its last component.  The store reads and writes a file system of
  files and directories; its faults are parameters.  The worker loop is a function of one iteration: what the
  transport answers to \<open>open\<close> and the faults of the file system are its surroundings.
\<close>

section \<open>Files\<close>

record path =
  p_parent :: "string list"
  p_name :: string

text \<open>\<open>Path::with_extension\<close>: a name that starts with its only dot, or is \<open>..\<close>, has no extension.\<close>

definition file_stem :: "string \<Rightarrow> string" where
  "file_stem name =
     (let stem = takeWhile (\<lambda>c. c \<noteq> CHR ''.'') (rev name); n = length name - length stem in
      if name = ''..'' \<or> n \<le> 1 then name else take (n - 1) name)"

definition with_extension :: "string \<Rightarrow> path \<Rightarrow> path" where
  "with_extension ext p = p\<lparr>p_name := file_stem (p_name p) @ ''.'' @ ext\<rparr>"

record fs =
  fs_files :: "path \<rightharpoonup> string"
  fs_dirs :: "string list list"

text \<open>The faults of one call: of each system call its error, of a failed write also what it left in the file.\<close>

record io_faults =
  io_read :: "string option"
  io_mkdir :: "string option"
  io_write :: "(string \<times> string) option"
  io_rename :: "string option"
  io_remove :: "string option"

definition no_faults :: io_faults where
  "no_faults = \<lparr>io_read = None, io_mkdir = None, io_write = None, io_rename = None, io_remove = None\<rparr>"

definition dir_exists :: "string list \<Rightarrow> fs \<Rightarrow> bool" where
  "dir_exists d files \<longleftrightarrow> d = [] \<or> d \<in> set (fs_dirs files)"

definition create_dir_all :: "io_faults \<Rightarrow> string list \<Rightarrow> fs \<Rightarrow> (string + unit) \<times> fs" where
  "create_dir_all io d files =
     (case io_mkdir io of
        Some e \<Rightarrow> (Inl e, files)
      | None \<Rightarrow> (Inr (), files\<lparr>fs_dirs := fs_dirs files @ map (\<lambda>n. take n d) [1..<length d + 1]\<rparr>))"

definition write_file :: "io_faults \<Rightarrow> path \<Rightarrow> string \<Rightarrow> fs \<Rightarrow> (string + unit) \<times> fs" where
  "write_file io p text files =
     (if \<not> dir_exists (p_parent p) files then (Inl ''No such file or directory'', files)
      else case io_write io of
        Some (e, left) \<Rightarrow> (Inl e, files\<lparr>fs_files := (fs_files files)(p \<mapsto> left)\<rparr>)
      | None \<Rightarrow> (Inr (), files\<lparr>fs_files := (fs_files files)(p \<mapsto> text)\<rparr>))"

definition rename_file :: "io_faults \<Rightarrow> path \<Rightarrow> path \<Rightarrow> fs \<Rightarrow> (string + unit) \<times> fs" where
  "rename_file io p q files =
     (case io_rename io of
        Some e \<Rightarrow> (Inl e, files)
      | None \<Rightarrow>
          case fs_files files p of
            None \<Rightarrow> (Inl ''No such file or directory'', files)
          | Some text \<Rightarrow> (Inr (), files\<lparr>fs_files := (fs_files files)(p := None, q \<mapsto> text)\<rparr>))"

section \<open>The session store\<close>

definition store_load :: "io_faults \<Rightarrow> path \<Rightarrow> fs \<Rightarrow> string + string option" where
  "store_load io p files =
     (case io_read io of
        Some e \<Rightarrow> Inl e
      | None \<Rightarrow>
          case fs_files files p of
            None \<Rightarrow> Inr None
          | Some s \<Rightarrow> let trimmed = trim s in Inr (if trimmed = [] then None else Some trimmed))"

definition store_save :: "io_faults \<Rightarrow> path \<Rightarrow> string \<Rightarrow> fs \<Rightarrow> (string + unit) \<times> fs" where
  "store_save io p key files =
     (let (made, files) = (if p_parent p \<noteq> [] then create_dir_all io (p_parent p) files else (Inr (), files));
          tmp = with_extension ''tmp'' p
      in case made of
           Inl e \<Rightarrow> (Inl e, files)
         | Inr () \<Rightarrow>
             case write_file io tmp key files of
               (Inl e, files) \<Rightarrow> (Inl e, files)
             | (Inr (), files) \<Rightarrow> rename_file io tmp p files)"

definition store_clear :: "io_faults \<Rightarrow> path \<Rightarrow> fs \<Rightarrow> (string + unit) \<times> fs" where
  "store_clear io p files =
     (case io_remove io of
        Some e \<Rightarrow> (Inl e, files)
      | None \<Rightarrow> (Inr (), files\<lparr>fs_files := (fs_files files)(p := None)\<rparr>))"

section \<open>The runtime\<close>

record log_entry =
  le_level :: log_level
  le_message :: string
  le_fields :: "(string \<times> string) list"

text \<open>
  The facade and its worker: the queue of intents, the published view, the log buffer and the files on the side of the
  host; the core and the handle on the side of the worker.  \<open>nc_working\<close> says that the loop has not returned.
\<close>

record 'c native_client =
  nc_intents :: "intent mpsc"
  nc_view :: client_view
  nc_logs :: "log_entry list"
  nc_files :: fs
  nc_core :: client_core
  nc_handle :: "'c transport_handle option"
  nc_working :: bool

text \<open>What surrounds one iteration: the answer to \<open>open\<close>, and the faults of the store.\<close>

record 'c surroundings =
  su_open :: "string \<Rightarrow> string + 'c transport_handle"
  su_io :: io_faults

definition with_transport :: "io_faults \<Rightarrow> path \<Rightarrow> fs \<Rightarrow> string + 'c native_client" where
  "with_transport io path files =
     (case store_load io path files of
        Inl e \<Rightarrow> Inl e
      | Inr initial_key \<Rightarrow>
          let core = core_new initial_key in
          Inr \<lparr>nc_intents = unbounded_channel, nc_view = snapshot core, nc_logs = [], nc_files = files, nc_core = core,
               nc_handle = None, nc_working = True\<rparr>)"

definition issue :: "intent \<Rightarrow> 'c native_client \<Rightarrow> 'c native_client" where
  "issue i c = c\<lparr>nc_intents := snd (mpsc_send i (nc_intents c))\<rparr>"

definition client_snapshot :: "'c native_client \<Rightarrow> client_view" where
  "client_snapshot c = nc_view c"

definition drain_logs :: "'c native_client \<Rightarrow> log_entry list \<times> 'c native_client" where
  "drain_logs c = (nc_logs c, c\<lparr>nc_logs := []\<rparr>)"

definition session_key :: "io_faults \<Rightarrow> path \<Rightarrow> 'c native_client \<Rightarrow> string option" where
  "session_key io path c = (case store_load io path (nc_files c) of Inl _ \<Rightarrow> None | Inr k \<Rightarrow> k)"

definition clear_session :: "io_faults \<Rightarrow> path \<Rightarrow> 'c native_client \<Rightarrow> (string + unit) \<times> 'c native_client" where
  "clear_session io path c = (case store_clear io path (nc_files c) of (r, files) \<Rightarrow> (r, c\<lparr>nc_files := files\<rparr>))"

text \<open>\<open>drop\<close> closes the queue of intents; the thread is joined when the worker sees that.\<close>

definition client_drop :: "'c native_client \<Rightarrow> 'c native_client" where
  "client_drop c = c\<lparr>nc_intents := (nc_intents c)\<lparr>mq_tx := False\<rparr>\<rparr>"

definition emit_log :: "log_level \<Rightarrow> string \<Rightarrow> (string \<times> string) list \<Rightarrow> 'c native_client \<Rightarrow> 'c native_client" where
  "emit_log level message kvs c =
     c\<lparr>nc_logs := nc_logs c @ [\<lparr>le_level = level, le_message = message, le_fields = kvs\<rparr>]\<rparr>"

definition persist :: "io_faults \<Rightarrow> path \<Rightarrow> string option \<Rightarrow> 'c native_client \<Rightarrow> 'c native_client" where
  "persist io path key c =
     c\<lparr>nc_files := (case key of Some k \<Rightarrow> snd (store_save io path k (nc_files c)) | None \<Rightarrow> snd (store_clear io path (nc_files c)))\<rparr>"

fun apply_inert_effect :: "io_faults \<Rightarrow> path \<Rightarrow> effect \<Rightarrow> 'c native_client \<Rightarrow> 'c native_client" where
  "apply_inert_effect io path (PersistSessionKey key) c = persist io path key c"
| "apply_inert_effect io path (Log level message kvs) c = emit_log level message kvs c"
| "apply_inert_effect io path (OpenConnection _) c = c"
| "apply_inert_effect io path CloseConnection c = c"
| "apply_inert_effect io path (Send _) c = c"
| "apply_inert_effect io path (Schedule _ _) c = c"

text \<open>One effect.  A handle that is replaced or dropped is gone with everything that waits in its inbox.\<close>

definition open_failed :: "io_faults \<Rightarrow> path \<Rightarrow> string \<Rightarrow> 'c native_client \<Rightarrow> 'c native_client" where
  "open_failed io path reason c =
     (case handle_intent (IConnectionLost reason) (nc_core c) of
        (core, tail) \<Rightarrow> fold (apply_inert_effect io path) tail (c\<lparr>nc_core := core\<rparr>))"

fun process_effect :: "'c surroundings \<Rightarrow> path \<Rightarrow> effect \<Rightarrow> 'c native_client \<Rightarrow> 'c native_client" where
  "process_effect su path (OpenConnection addr) c =
     (case su_open su addr of
        Inr h \<Rightarrow> c\<lparr>nc_handle := Some h\<rparr>
      | Inl e \<Rightarrow> open_failed (su_io su) path (''open '' @ addr @ '': '' @ e) (c\<lparr>nc_handle := None\<rparr>))"
| "process_effect su path CloseConnection c = c\<lparr>nc_handle := None\<rparr>"
| "process_effect su path (Send msg) c = c\<lparr>nc_handle := map_option (\<lambda>h. snd (handle_send msg h)) (nc_handle c)\<rparr>"
| "process_effect su path (PersistSessionKey key) c = persist (su_io su) path key c"
| "process_effect su path (Schedule _ _) c = c"
| "process_effect su path (Log level message kvs) c = emit_log level message kvs c"

definition process_effects :: "'c surroundings \<Rightarrow> path \<Rightarrow> effect list \<Rightarrow> 'c native_client \<Rightarrow> 'c native_client" where
  "process_effects su path effects c = fold (process_effect su path) effects c"

text \<open>The core takes an input and its effects are carried out; then the view is published.\<close>

definition feed :: "'c surroundings \<Rightarrow> path \<Rightarrow> input \<Rightarrow> 'c native_client \<Rightarrow> 'c native_client" where
  "feed su path i c =
     (case core_handle i (nc_core c) of (core, effects) \<Rightarrow> process_effects su path effects (c\<lparr>nc_core := core\<rparr>))"

definition publish :: "'c native_client \<Rightarrow> 'c native_client" where
  "publish c = c\<lparr>nc_view := snapshot (nc_core c)\<rparr>"

text \<open>The transport arm of the \<open>select!\<close>, and one iteration: intents come first (\<open>biased\<close>).\<close>

fun worker_event :: "'c surroundings \<Rightarrow> path \<Rightarrow> transport_in option \<Rightarrow> 'c native_client \<Rightarrow> 'c native_client" where
  "worker_event su path (Some Connected) c = feed su path (FromHost IConnectionOpened) c"
| "worker_event su path (Some (Message msg)) c = feed su path (FromServer msg) c"
| "worker_event su path (Some (Lost reason)) c = feed su path (FromHost (IConnectionLost reason)) (c\<lparr>nc_handle := None\<rparr>)"
| "worker_event su path None c = c\<lparr>nc_handle := None\<rparr>"

definition run_loop_step :: "'c surroundings \<Rightarrow> path \<Rightarrow> 'c native_client \<Rightarrow> 'c native_client" where
  "run_loop_step su path c =
     (if \<not> nc_working c then c
      else case mpsc_recv (nc_intents c) of
        (Ready (Some i), q) \<Rightarrow> publish (feed su path (FromHost i) (c\<lparr>nc_intents := q\<rparr>))
      | (Ready None, _) \<Rightarrow> c\<lparr>nc_handle := None, nc_working := False\<rparr>
      | (Pending, _) \<Rightarrow>
          case nc_handle c of
            None \<Rightarrow> c
          | Some h \<Rightarrow>
              case handle_recv h of
                (Pending, _) \<Rightarrow> c
              | (Ready ev, h') \<Rightarrow> publish (worker_event su path ev (c\<lparr>nc_handle := Some h'\<rparr>)))"

end
