(* ===== verification/TransportProps.thy ===== *)
theory TransportProps
  imports Transport
begin

text \<open>
  What the transports promise their host: the contract as the locale \<open>transport\<close> and its extension
  \<open>reporting_transport\<close>, interpreted on the TCP pump and on the transport in memory, and the fate of frames in the pump.
\<close>

section \<open>What a host hears\<close>

text \<open>
  The host holds a handle: it sends, receives, and the other side does what it may.  \<open>talk\<close> collects what was received.
\<close>

inductive talk ::
  "('c transport_handle \<Rightarrow> bool) \<Rightarrow> ('c transport_handle \<Rightarrow> 'c transport_handle \<Rightarrow> bool) \<Rightarrow>
     transport_in list \<Rightarrow> 'c transport_handle \<Rightarrow> bool"
  for opened :: "'c transport_handle \<Rightarrow> bool" and other :: "'c transport_handle \<Rightarrow> 'c transport_handle \<Rightarrow> bool"
where
  talk_open: "opened h \<Longrightarrow> talk opened other [] h"
| talk_other: "talk opened other heard h \<Longrightarrow> other h h' \<Longrightarrow> talk opened other heard h'"
| talk_send: "talk opened other heard h \<Longrightarrow> talk opened other heard (snd (handle_send msg h))"
| talk_recv: "talk opened other heard h \<Longrightarrow> handle_recv h = (Ready (Some ev), h') \<Longrightarrow> talk opened other (heard @ [ev]) h'"

text \<open>A handle in the hands of its host, and what the other side may append to an inbox.\<close>

definition held :: "'c transport_handle \<Rightarrow> bool" where
  "held h \<longleftrightarrow> mq_rx (th_inbound h) \<and> mq_tx (th_outbound h)"

definition appends :: "'c transport_handle \<Rightarrow> 'c transport_handle \<Rightarrow> transport_in list \<Rightarrow> bool" where
  "appends h h' new \<longleftrightarrow>
     mq_items (th_inbound h') = mq_items (th_inbound h) @ new \<and> (running h' \<longrightarrow> running h)
     \<and> (\<exists>ms tail. new = map Message ms @ tail \<and> (tail = [] \<or> \<not> running h' \<and> (\<exists>r. tail = [Lost r])))
     \<and> (\<not> running h \<longrightarrow> new = [])"

lemma handle_send_keeps [simp]:
  "th_inbound (snd (handle_send msg h)) = th_inbound h" "running (snd (handle_send msg h)) = running h"
  "held (snd (handle_send msg h)) = held h" "th_peer (snd (handle_send msg h)) = th_peer h"
  by (simp_all add: handle_send_def mpsc_send_def running_def held_def)

locale transport =
  fixes opened :: "'c transport_handle \<Rightarrow> bool"
    and other :: "'c transport_handle \<Rightarrow> 'c transport_handle \<Rightarrow> bool"
  assumes opened_first: "opened h \<Longrightarrow> held h \<and> running h \<and> mq_items (th_inbound h) = [Connected]"
    and other_held: "other h h' \<Longrightarrow> held h \<Longrightarrow> held h'"
    and other_appends: "other h h' \<Longrightarrow> held h \<Longrightarrow> \<exists>new. appends h h' new"
begin

lemma event_stream:
  assumes "talk opened other heard h"
  shows "held h \<and> (\<exists>ms tail. heard @ mq_items (th_inbound h) = Connected # map Message ms @ tail
     \<and> (tail = [] \<or> \<not> running h \<and> (\<exists>r. tail = [Lost r])))"
  using assms
proof (induction rule: talk.induct)
  case (talk_open h)
  then show ?case using opened_first by fastforce
next
  case (talk_other heard h h')
  then obtain new ms tail where new: "appends h h' new" "held h'"
      and old: "heard @ mq_items (th_inbound h) = Connected # map Message ms @ tail" "tail = [] \<or> \<not> running h"
      "tail = [] \<or> (\<exists>r. tail = [Lost r])"
    using other_held other_appends by blast
  from new(1) obtain ms' tail' where app: "mq_items (th_inbound h') = mq_items (th_inbound h) @ map Message ms' @ tail'"
      "tail' = [] \<or> \<not> running h' \<and> (\<exists>r. tail' = [Lost r])" "\<not> running h \<longrightarrow> ms' = [] \<and> tail' = []" "running h' \<longrightarrow> running h"
    by (auto simp: appends_def)
  show ?case
  proof (cases "tail = []")
    case True
    then have "heard @ mq_items (th_inbound h') = Connected # map Message (ms @ ms') @ tail'"
      using old(1) app(1) by simp
    then show ?thesis using new(2) app(2) by blast
  next
    case False
    then have "\<not> running h" using old(2) by blast
    then have "heard @ mq_items (th_inbound h') = Connected # map Message ms @ tail"
      using old(1) app(1,3) by simp
    then show ?thesis using new(2) \<open>\<not> running h\<close> app(4) old(3) by blast
  qed
next
  case (talk_send heard h msg)
  then show ?case by simp
next
  case (talk_recv heard h ev h')
  then obtain evs where "mq_items (th_inbound h) = ev # evs" "h' = h\<lparr>th_inbound := (th_inbound h)\<lparr>mq_items := evs\<rparr>\<rparr>"
    by (auto simp: handle_recv_def mpsc_recv_def split: list.splits if_splits)
  then have "held h' = held h" "running h' = running h" "heard @ mq_items (th_inbound h) = (heard @ [ev]) @ mq_items (th_inbound h')"
    by (simp_all add: held_def running_def)
  then show ?case using talk_recv.IH by metis
qed

end

text \<open>A transport that says how a connection ended never leaves its host with a silently closed inbox.\<close>

locale reporting_transport = transport +
  assumes other_reports: "other h h' \<Longrightarrow> held h \<Longrightarrow> running h \<Longrightarrow> \<not> running h' \<Longrightarrow>
     \<exists>evs r. mq_items (th_inbound h') = evs @ [Lost r]"
begin

lemma end_is_reported:
  assumes "talk opened other heard h" and "\<not> running h"
  shows "\<exists>evs r. heard @ mq_items (th_inbound h) = evs @ [Lost r]"
  using assms
proof (induction rule: talk.induct)
  case (talk_open h)
  then show ?case using opened_first by blast
next
  case (talk_other heard h h')
  have held: "held h" using event_stream [OF talk_other.hyps(1)] by blast
  show ?case
  proof (cases "running h")
    case True
    then show ?thesis using other_reports [OF talk_other.hyps(2) held] talk_other.prems by (metis append.assoc)
  next
    case False
    then have "mq_items (th_inbound h') = mq_items (th_inbound h)"
      using other_appends [OF talk_other.hyps(2) held] by (auto simp: appends_def)
    then show ?thesis using talk_other.IH False by simp
  qed
next
  case (talk_send heard h msg)
  then show ?case by simp
next
  case (talk_recv heard h ev h')
  then have "mq_items (th_inbound h) = ev # mq_items (th_inbound h')" "running h' = running h"
    by (auto simp: handle_recv_def mpsc_recv_def running_def split: list.splits if_splits)
  then show ?case using talk_recv by simp
qed

lemma silence_follows_lost:
  assumes "talk opened other heard h" and "fst (handle_recv h) = Ready None"
  shows "\<exists>evs r. heard = evs @ [Lost r]"
proof -
  have "mq_items (th_inbound h) = []" "\<not> running h"
    using assms(2) by (auto simp: handle_recv_def mpsc_recv_def running_def split: list.splits if_splits)
  then show ?thesis using end_is_reported [OF assms(1)] by simp
qed

end

subsection \<open>The pump\<close>

definition native_opened :: "native_handle \<Rightarrow> bool" where
  "native_opened h \<longleftrightarrow> native_open None = Inr h"

definition native_other ::
  "(client_message \<Rightarrow> string + 8 word list) \<Rightarrow> (8 word list \<Rightarrow> string + server_message) \<Rightarrow> native_handle \<Rightarrow> native_handle \<Rightarrow> bool" where
  "native_other to_vec from_slice h h' \<longleftrightarrow> (\<exists>op. h' = native_op to_vec from_slice op h)"

lemmas handle_defs = held_def running_def from_channels_def unbounded_channel_def push_event_def mpsc_send_def
  close_ends_def upd_pump_def

lemma appends_none:
  "th_inbound h' = th_inbound h \<Longrightarrow> appends h h' []"
  by (simp add: appends_def running_def)

lemma lose_appends:
  assumes "held h" and "running h"
  shows "appends h (lose r h) [Lost r]" and "held (lose r h)" and "\<not> running (lose r h)"
    and "mq_items (th_inbound (lose r h)) = mq_items (th_inbound h) @ [Lost r]"
  using assms by (auto simp: lose_def pump_return_def handle_defs appends_def)

text \<open>What one branch of the pump may do to a handle its host still holds.\<close>

definition branch_ok :: "native_handle \<Rightarrow> bool \<times> native_handle \<Rightarrow> bool" where
  "branch_ok h res \<longleftrightarrow>
     held (snd res) \<and> (fst res \<or> running (snd res) \<and> th_inbound (snd res) = th_inbound h) \<and> (\<exists>new. appends h (snd res) new)
     \<and> (running (snd res) \<or> (\<exists>evs r. mq_items (th_inbound (snd res)) = evs @ [Lost r]))"

lemma branch_ok_lose:
  assumes "held h" and "running h" and "th_inbound h' = th_inbound h" and "held h'"
  shows "branch_ok h (True, lose r h')"
proof -
  have "running h'" using assms(2,3) by (simp add: running_def)
  then have "appends h (lose r h') [Lost r]"
    using lose_appends(1) [OF assms(4)] assms(3) by (simp add: appends_def running_def)
  then show ?thesis using lose_appends [OF assms(4) \<open>running h'\<close>] by (auto simp: branch_ok_def)
qed

lemma branch_ok_same:
  assumes "running h" and "th_inbound h' = th_inbound h" and "held h'"
  shows "branch_ok h (b, h')"
  using assms appends_none [of h' h] by (auto simp: branch_ok_def running_def)

lemma outbound_branch_ok:
  assumes "held h" and "running h"
  shows "branch_ok h (outbound_branch to_vec os h)"
proof (cases "mq_items (th_outbound h)")
  case Nil
  then have "outbound_branch to_vec os h = (False, h)"
    using assms(1) by (simp add: outbound_branch_def mpsc_recv_def held_def)
  then show ?thesis using branch_ok_same [OF assms(2) refl assms(1)] by simp
next
  case (Cons msg msgs)
  let ?q = "(th_outbound h)\<lparr>mq_items := msgs\<rparr>"
  obtain res p where r: "send_one to_vec os msg ((th_peer h)\<lparr>np_partial := []\<rparr>) = (res, p)" by fastforce
  let ?h = "h\<lparr>th_outbound := ?q, th_peer := p\<rparr>"
  have "outbound_branch to_vec os h = (True, case res of Inl e \<Rightarrow> lose e ?h | Inr _ \<Rightarrow> ?h)"
    using Cons r by (simp add: outbound_branch_def mpsc_recv_def split: sum.split unit.split)
  moreover have "held ?h" using assms(1) by (simp add: held_def)
  ultimately show ?thesis
    using branch_ok_lose [OF assms, of ?h] branch_ok_same [OF assms(2), of ?h] by (simp split: sum.split)
qed

lemma inbound_branch_ok:
  assumes "held h" and "running h"
  shows "branch_ok h (inbound_branch from_slice h)"
proof -
  obtain res p where r: "poll_read from_slice (th_peer h) = (res, p)" by fastforce
  show ?thesis
  proof (cases res)
    case Pending
    then show ?thesis
      using assms r by (auto simp: inbound_branch_def held_def intro!: branch_ok_same)
  next
    case (Ready x)
    show ?thesis
    proof (cases x)
      case (Inl reason)
      then show ?thesis
        using assms r Ready by (auto simp: inbound_branch_def held_def intro!: branch_ok_lose)
    next
      case (Inr msg)
      let ?h = "h\<lparr>th_peer := p\<lparr>np_partial := []\<rparr>, th_inbound := (th_inbound h)\<lparr>mq_items := mq_items (th_inbound h) @ [Message msg]\<rparr>\<rparr>"
      have "inbound_branch from_slice h = (True, ?h)"
        using assms r Ready Inr by (simp add: inbound_branch_def push_event_def mpsc_send_def held_def)
      moreover have "appends h ?h [Message msg]"
        unfolding appends_def using assms(2) by (auto simp: running_def intro!: exI [of _ "[msg]"])
      moreover have "held ?h" "running ?h" using assms by (simp_all add: held_def running_def)
      ultimately show ?thesis by (auto simp: branch_ok_def)
    qed
  qed
qed

lemma appends_after_same:
  assumes "th_inbound h' = th_inbound h" and "appends h' h'' new"
  shows "appends h h'' new"
  using assms by (simp add: appends_def running_def)

lemma branch_ok_second:
  assumes "branch_ok h (False, h')" and "branch_ok h' res"
  shows "branch_ok h res"
  using assms appends_after_same [of h' h] by (auto simp: branch_ok_def)

lemma pump_poll_ok:
  assumes "held h" and "running h"
  shows "branch_ok h (True, pump_poll to_vec from_slice first os h)"
proof -
  have weaken: "branch_ok h' (b, h'') \<Longrightarrow> branch_ok h' (True, h'')" for h' h'' b by (auto simp: branch_ok_def)
  have two: "branch_ok h (True, snd r2)"
    if "branch_ok h (False, h')" "held h' \<Longrightarrow> running h' \<Longrightarrow> branch_ok h' r2" for h' r2
    using that weaken branch_ok_second [OF that(1), of r2] by (cases r2) (auto simp: branch_ok_def)
  show ?thesis
  proof (cases first)
    case True
    obtain b h' where r: "outbound_branch to_vec os h = (b, h')" by fastforce
    then have "branch_ok h (b, h')" using outbound_branch_ok [OF assms] by metis
    then show ?thesis
      using True r assms(2) weaken two [OF _ inbound_branch_ok] by (cases b) (simp_all add: pump_poll_def)
  next
    case False
    obtain b h' where r: "inbound_branch from_slice h = (b, h')" by fastforce
    then have "branch_ok h (b, h')" using inbound_branch_ok [OF assms] by metis
    then show ?thesis
      using False r assms(2) weaken two [OF _ outbound_branch_ok] by (cases b) (simp_all add: pump_poll_def)
  qed
qed

lemma native_op_ok:
  assumes "held h"
  shows "held (native_op to_vec from_slice op h) \<and> (\<exists>new. appends h (native_op to_vec from_slice op h) new)
     \<and> (running h \<longrightarrow> \<not> running (native_op to_vec from_slice op h) \<longrightarrow>
          (\<exists>evs r. mq_items (th_inbound (native_op to_vec from_slice op h)) = evs @ [Lost r]))"
proof (cases op)
  case (Poll first os)
  then show ?thesis
    using assms pump_poll_ok [OF assms, of to_vec from_slice first os] appends_none [of h h]
    by (cases "running h") (auto simp: branch_ok_def pump_poll_def)
next
  case (Arrive bs)
  then have "th_inbound (native_op to_vec from_slice op h) = th_inbound h" "held (native_op to_vec from_slice op h)"
    using assms by (simp_all add: bytes_arrive_def upd_pump_def held_def)
  then show ?thesis using appends_none [of "native_op to_vec from_slice op h" h] by (auto simp: running_def)
next
  case (Finish e)
  then have "th_inbound (native_op to_vec from_slice op h) = th_inbound h" "held (native_op to_vec from_slice op h)"
    using assms by (simp_all add: stream_ends_def upd_pump_def held_def)
  then show ?thesis using appends_none [of "native_op to_vec from_slice op h" h] by (auto simp: running_def)
qed

interpretation tcp: reporting_transport native_opened "native_other to_vec from_slice"
  for to_vec :: "client_message \<Rightarrow> string + 8 word list" and from_slice :: "8 word list \<Rightarrow> string + server_message"
proof
  show "held h \<and> running h \<and> mq_items (th_inbound h) = [Connected]" if "native_opened h" for h
    using that by (auto simp: native_opened_def native_open_def handle_defs)
qed (auto simp: native_other_def native_op_ok)

section \<open>Frames through the pump\<close>

lemma fill_stream [simp]:
  "np_partial (fill n p) @ np_bytes (fill n p) = np_partial p @ np_bytes p"
  by (simp add: fill_def Let_def)

lemma fill_other [simp]:
  "np_end (fill n p) = np_end p" "length (np_partial (fill n p)) = max (length (np_partial p)) (min n (length (np_partial p @ np_bytes p)))"
  by (auto simp: fill_def Let_def)

lemma fill_eq:
  assumes "length (np_partial p) \<le> n"
  shows "fill n p = p\<lparr>np_partial := take n (np_partial p @ np_bytes p), np_bytes := drop n (np_partial p @ np_bytes p)\<rparr>"
  using assms by (simp add: fill_def Let_def)

lemma fill_fill:
  assumes "m \<le> n"
  shows "fill n (fill m p) = fill n p"
proof (cases "length (np_bytes p) \<le> m - length (np_partial p)")
  case False
  have "n - length (np_partial p) = (m - length (np_partial p)) + (n - (length (np_partial p) + (m - length (np_partial p))))"
    using assms by simp
  then show ?thesis using False by (simp add: fill_def Let_def take_add add.commute min_def)
qed (use assms in \<open>simp add: fill_def\<close>)

lemma append_split:
  assumes "xs @ ys = zs @ ts"
  shows "length zs \<le> length xs \<Longrightarrow> \<exists>us. xs = zs @ us \<and> us @ ys = ts"
    and "length xs < length zs \<Longrightarrow> \<exists>us. xs @ us = zs \<and> us \<noteq> [] \<and> ys \<noteq> []"
  using assms by (auto simp: append_eq_append_conv2)

lemma take_partial:
  assumes "length (np_partial p) \<ge> n"
  shows "take n (np_partial p) = take n (np_partial p @ np_bytes p)"
  using assms by simp

text \<open>When a whole frame is there, a poll takes exactly that frame; when less is there, it takes it all and waits.\<close>

lemma poll_read_frame:
  assumes "codec_ok to_vec from_slice" and "encode to_vec v = Inr f"
    and "np_partial p @ np_bytes p = f @ rest" and "length (np_partial p) \<le> length f"
  shows "poll_read from_slice p = (Ready (Inr v), p\<lparr>np_partial := f, np_bytes := rest\<rparr>)"
proof -
  note f = encode_frame [OF assms(1,2)]
  let ?q = "fill LENGTH_PREFIX_BYTES p"
  have len: "LENGTH_PREFIX_BYTES \<le> length (np_partial ?q)" using f(3) assms(3) by simp
  have "take LENGTH_PREFIX_BYTES (np_partial ?q) = take LENGTH_PREFIX_BYTES f"
    using take_partial [OF len] f(3) assms(3) by simp
  moreover have "fill (LENGTH_PREFIX_BYTES + (length f - LENGTH_PREFIX_BYTES)) ?q = p\<lparr>np_partial := f, np_bytes := rest\<rparr>"
    using f(3) fill_fill [of LENGTH_PREFIX_BYTES "length f" p] fill_eq [OF assms(4)] assms(3) by simp
  ultimately show ?thesis
    using len f by (simp add: poll_read_def Let_def)
qed

lemma poll_read_waits:
  assumes "codec_ok to_vec from_slice" and "encode to_vec v = Inr f"
    and "(np_partial p @ np_bytes p) @ g = f" and "g \<noteq> []" and "np_end p = None"
  shows "poll_read from_slice p = (Pending, p\<lparr>np_partial := np_partial p @ np_bytes p, np_bytes := []\<rparr>)"
proof -
  note f = encode_frame [OF assms(1,2)]
  let ?s = "np_partial p @ np_bytes p" and ?q = "fill LENGTH_PREFIX_BYTES p"
  have less: "length ?s < length f" using assms(3,4) by auto
  have all: "fill n p = p\<lparr>np_partial := ?s, np_bytes := []\<rparr>" if "length ?s \<le> n" for n
    using that by (subst fill_eq) simp_all
  show ?thesis
  proof (cases "length ?s < LENGTH_PREFIX_BYTES")
    case True
    then show ?thesis using all [of LENGTH_PREFIX_BYTES] assms(5) by (simp add: poll_read_def Let_def)
  next
    case False
    then have len: "LENGTH_PREFIX_BYTES \<le> length (np_partial ?q)" by simp
    have "take LENGTH_PREFIX_BYTES (np_partial ?q) = take LENGTH_PREFIX_BYTES f"
      using take_partial [OF len] False assms(3) by auto
    moreover have "fill (LENGTH_PREFIX_BYTES + (length f - LENGTH_PREFIX_BYTES)) ?q = p\<lparr>np_partial := ?s, np_bytes := []\<rparr>"
      using f(3) fill_fill [of LENGTH_PREFIX_BYTES "length f" p] all [of "length f"] less by simp
    ultimately show ?thesis
      using len f less assms(5) by (simp add: poll_read_def Let_def)
  qed
qed

lemma poll_read_idle:
  "np_partial p = [] \<Longrightarrow> np_bytes p = [] \<Longrightarrow> np_end p = None \<Longrightarrow> poll_read from_slice p = (Pending, p)"
  by (simp add: poll_read_def fill_def LENGTH_PREFIX_BYTES_def)

text \<open>
  While the host has nothing to send, the pump has delivered the first \<open>k\<close> of the messages, and the bytes it
  holds, those on the socket and those to come are the remaining frames.
\<close>

definition delivered ::
  "server_message list \<Rightarrow> 8 word list list \<Rightarrow> nat \<Rightarrow> 8 word list \<Rightarrow> native_handle \<Rightarrow> bool" where
  "delivered msgs frames k later h \<longleftrightarrow>
     held h \<and> running h \<and> mq_items (th_outbound h) = [] \<and> np_end (th_peer h) = None
     \<and> np_partial (th_peer h) @ np_bytes (th_peer h) @ later = concat (drop k frames)
     \<and> k \<le> length frames \<and> (k < length frames \<longrightarrow> length (np_partial (th_peer h)) < length (frames ! k))
     \<and> mq_items (th_inbound h) = Connected # map Message (take k msgs)"

lemma idle_outbound:
  "held h \<Longrightarrow> mq_items (th_outbound h) = [] \<Longrightarrow> outbound_branch to_vec os h = (False, h)"
  by (simp add: outbound_branch_def mpsc_recv_def held_def)

lemma idle_pump_poll:
  assumes "held h" and "running h" and "mq_items (th_outbound h) = []"
    and "inbound_branch from_slice h = (b, h')" and "held h'" and "mq_items (th_outbound h') = []"
  shows "pump_poll to_vec from_slice first os h = h'"
  using assms by (cases b) (simp_all add: pump_poll_def idle_outbound)

lemma delivered_poll:
  assumes codec: "codec_ok to_vec from_slice" and frames: "list_all2 (\<lambda>v f. encode to_vec v = Inr f) msgs frames"
    and d: "delivered msgs frames k later h"
  shows "\<exists>k' \<ge> k. delivered msgs frames k' later (pump_poll tv from_slice first os h)
     \<and> (later = [] \<longrightarrow> k < length frames \<longrightarrow> k < k')"
proof -
  let ?p = "th_peer h" and ?s = "np_partial (th_peer h) @ np_bytes (th_peer h)"
  have h: "held h" "running h" "mq_items (th_outbound h) = []" "np_end ?p = None" "?s @ later = concat (drop k frames)"
      "k \<le> length frames" "mq_items (th_inbound h) = Connected # map Message (take k msgs)"
    using d by (simp_all add: delivered_def)
  have len: "length msgs = length frames" using frames by (rule list_all2_lengthD)
  show ?thesis
  proof (cases "k < length frames")
    case False
    then have "inbound_branch from_slice h = (False, h)"
      using h by (simp add: inbound_branch_def poll_read_idle)
    then show ?thesis using d idle_pump_poll [OF h(1-3) _ h(1,3)] False by fastforce
  next
    case True
    then have small: "length (np_partial ?p) < length (frames ! k)" using d by (simp add: delivered_def)
    have enc: "encode to_vec (msgs ! k) = Inr (frames ! k)"
      using list_all2_nthD2 [OF frames True] .
    have next_frame: "concat (drop k frames) = frames ! k @ concat (drop (Suc k) frames)"
      using True by (simp add: Cons_nth_drop_Suc [symmetric])
    show ?thesis
    proof (cases "length (frames ! k) \<le> length ?s")
      case whole: True
      then obtain rest where rest: "?s = frames ! k @ rest" "rest @ later = concat (drop (Suc k) frames)"
        using append_split(1) [OF _ whole] h(5) next_frame by metis
      let ?h = "h\<lparr>th_peer := ?p\<lparr>np_partial := [], np_bytes := rest\<rparr>,
                 th_inbound := (th_inbound h)\<lparr>mq_items := mq_items (th_inbound h) @ [Message (msgs ! k)]\<rparr>\<rparr>"
      have "inbound_branch from_slice h = (True, ?h)"
        using poll_read_frame [OF codec enc rest(1)] small h(1)
        by (simp add: inbound_branch_def push_event_def mpsc_send_def held_def)
      moreover have "held ?h" "mq_items (th_outbound ?h) = []" using h by (simp_all add: held_def)
      moreover have "delivered msgs frames (Suc k) later ?h"
      proof -
        have "length (frames ! j) > 0" if "j < length frames" for j
          using encode_frame(3) [OF codec list_all2_nthD2 [OF frames that]] by (auto simp: LENGTH_PREFIX_BYTES_def)
        then show ?thesis
          using h rest(2) True len by (simp add: delivered_def held_def running_def take_Suc_conv_app_nth)
      qed
      ultimately show ?thesis using idle_pump_poll [OF h(1-3)] by (metis le_SucI le_refl lessI)
    next
      case part: False
      then obtain g where g: "?s @ g = frames ! k" "g \<noteq> []" and later: "later \<noteq> []"
        using append_split(2) [of ?s later "frames ! k"] h(5) next_frame by (metis not_le)
      let ?h = "h\<lparr>th_peer := ?p\<lparr>np_partial := ?s, np_bytes := []\<rparr>\<rparr>"
      have "inbound_branch from_slice h = (False, ?h)"
        using poll_read_waits [OF codec enc g h(4)] by (simp add: inbound_branch_def)
      moreover have "held ?h" "mq_items (th_outbound ?h) = []" using h by (simp_all add: held_def)
      moreover have "delivered msgs frames k later ?h"
        using h part by (auto simp: delivered_def held_def running_def not_le)
      ultimately show ?thesis using idle_pump_poll [OF h(1-3)] later by (metis le_refl)
    qed
  qed
qed

fun arriving :: "network_op list \<Rightarrow> 8 word list" where
  "arriving [] = []"
| "arriving (Arrive bs # ops) = bs @ arriving ops"
| "arriving (_ # ops) = arriving ops"

lemma delivered_run:
  assumes codec: "codec_ok to_vec from_slice" and frames: "list_all2 (\<lambda>v f. encode to_vec v = Inr f) msgs frames"
    and "\<forall>e. Finish e \<notin> set ops" and "delivered msgs frames k (arriving ops @ later) h"
  shows "\<exists>k' \<ge> k. delivered msgs frames k' later (fold (native_op tv from_slice) ops h)"
  using assms(3,4)
proof (induction ops arbitrary: k h)
  case (Cons op ops)
  show ?case
  proof (cases op)
    case (Arrive bs)
    then have "delivered msgs frames k (arriving ops @ later) (bytes_arrive bs h)"
      using Cons.prems(2) by (auto simp: delivered_def bytes_arrive_def upd_pump_def held_def running_def)
    then show ?thesis using Cons.IH [of k] Cons.prems(1) Arrive by auto
  next
    case (Poll first os)
    obtain k' where k': "k \<le> k'" "delivered msgs frames k' (arriving ops @ later) (pump_poll tv from_slice first os h)"
      using delivered_poll [OF codec frames, of k _ h] Cons.prems(2) Poll by (metis arriving.simps(4))
    then show ?thesis using Cons.IH [OF _ k'(2)] Cons.prems(1) Poll order_trans by fastforce
  qed (use Cons.prems in auto)
qed auto

lemma delivered_all:
  assumes codec: "codec_ok to_vec from_slice" and frames: "list_all2 (\<lambda>v f. encode to_vec v = Inr f) msgs frames"
    and "delivered msgs frames k [] h" and "length frames \<le> k + n"
  shows "delivered msgs frames (length frames) [] (fold (native_op tv from_slice) (replicate n (Poll first os)) h)"
  using assms(3,4)
proof (induction n arbitrary: k h)
  case 0
  then have "k = length frames" by (simp add: delivered_def)
  then show ?case using 0 by simp
next
  case (Suc n)
  obtain k' where k': "k \<le> k'" "delivered msgs frames k' [] (pump_poll tv from_slice first os h)" "k < length frames \<longrightarrow> k < k'"
    using delivered_poll [OF codec frames Suc.prems(1)] by blast
  then have "length frames \<le> k' + n" using Suc.prems(2) by linarith
  then show ?case using Suc.IH [OF k'(2)] by simp
qed


text \<open>A codec for two messages.\<close>

definition two_to_vec :: "server_message \<Rightarrow> string + 8 word list" where
  "two_to_vec m = (if m = SHeartbeat then Inr [7] else if m = SLeftTable 1 then Inr [255, 255, 255, 255] else Inl ''unsupported'')"

definition two_from_slice :: "8 word list \<Rightarrow> string + server_message" where
  "two_from_slice bs =
     (if bs = [7] then Inr SHeartbeat else if bs = [255, 255, 255, 255] then Inr (SLeftTable 1) else Inl ''not a message'')"

lemma two_codec_ok: "codec_ok two_to_vec two_from_slice"
  by (auto simp: codec_ok_def two_to_vec_def two_from_slice_def split: if_splits)

definition fresh_handle :: native_handle where
  "fresh_handle = snd (push_event Connected (from_channels \<lparr>np_bytes = [], np_end = None, np_written = [], np_shut = False, np_partial = []\<rparr>))"

lemma fresh_opened: "native_open None = Inr fresh_handle"
  by (simp add: native_open_def fresh_handle_def Let_def)


section \<open>A message sent while a frame arrives\<close>

lemma outbound_sends:
  assumes "mq_items (th_outbound h) = msg # msgs" and "encode to_vec msg = Inr bytes"
  shows "outbound_branch to_vec None h =
     (True, h\<lparr>th_outbound := (th_outbound h)\<lparr>mq_items := msgs\<rparr>,
              th_peer := (th_peer h)\<lparr>np_partial := [], np_written := np_written (th_peer h) @ bytes\<rparr>\<rparr>)"
  using assms by (simp add: outbound_branch_def mpsc_recv_def send_one_def split: unit.split)

text \<open>
  (C32) A frame that is interrupted is lost.  Let the host hold a quiet connection, and let only the first bytes of a frame
  have arrived when the pump polls.  If the host then sends a message, the pump drops what it has read of the frame:
  whichever branch it polls first, everything is afterwards as if those bytes had never come, and what follows them is
  taken for the start of a frame.
\<close>

theorem interrupted_frame_lost:
  assumes "codec_ok fv from_slice" and "encode fv v = Inr (begun @ rest)" and "rest \<noteq> []"
    and "held h" and "running h" and "mq_items (th_outbound h) = []" and "mq_rx (th_outbound h)"
    and "np_partial (th_peer h) = []" and "np_bytes (th_peer h) = []" and "np_end (th_peer h) = None"
    and "encode to_vec msg = Inr bytes"
  shows "fold (native_op to_vec from_slice) [Poll b None, Arrive rest]
       (snd (handle_send msg (fold (native_op to_vec from_slice) [Arrive begun, Poll b' None] h)))
     = native_op to_vec from_slice (Arrive rest) (native_op to_vec from_slice (Poll b None) (snd (handle_send msg h)))"
proof -
  let ?read = "\<lambda>part. h\<lparr>th_peer := (th_peer h)\<lparr>np_partial := part\<rparr>\<rparr>"
  let ?sent = "\<lambda>part. h\<lparr>th_outbound := (th_outbound h)\<lparr>mq_items := [msg]\<rparr>, th_peer := (th_peer h)\<lparr>np_partial := part\<rparr>\<rparr>"
  let ?gone = "h\<lparr>th_peer := (th_peer h)\<lparr>np_written := np_written (th_peer h) @ bytes\<rparr>\<rparr>"
  have waits: "inbound_branch from_slice h' = (False, h'\<lparr>th_peer := (th_peer h')\<lparr>np_partial := np_partial (th_peer h') @ np_bytes (th_peer h'), np_bytes := []\<rparr>\<rparr>)"
    if "np_partial (th_peer h') @ np_bytes (th_peer h') = begun \<or> np_partial (th_peer h') @ np_bytes (th_peer h') = []" "np_end (th_peer h') = None" for h'
  proof -
    have "\<exists>g. (np_partial (th_peer h') @ np_bytes (th_peer h')) @ g = begun @ rest \<and> g \<noteq> []"
      using that(1)
    proof
      assume "np_partial (th_peer h') @ np_bytes (th_peer h') = begun"
      then show ?thesis using assms(3) by blast
    next
      assume "np_partial (th_peer h') @ np_bytes (th_peer h') = []"
      then show ?thesis using assms(3) by simp
    qed
    then obtain g where "(np_partial (th_peer h') @ np_bytes (th_peer h')) @ g = begun @ rest" "g \<noteq> []" by blast
    from poll_read_waits [OF assms(1,2) this that(2)] show ?thesis by (simp add: inbound_branch_def)
  qed
  have same: "?read [] = h" using assms(8) by simp
  have "fold (native_op to_vec from_slice) [Arrive begun, Poll b' None] h = ?read begun"
  proof -
    let ?h = "h\<lparr>th_peer := (th_peer h)\<lparr>np_bytes := begun\<rparr>\<rparr>"
    have "bytes_arrive begun h = ?h"
      using assms(5,9,10) by (simp add: bytes_arrive_def upd_pump_def)
    moreover have "inbound_branch from_slice ?h = (False, ?read begun)"
      using waits [of ?h] assms(8,10) assms(9) [symmetric] by simp
    ultimately show ?thesis
      using idle_pump_poll [of ?h from_slice False "?read begun"] assms(4-6) by (simp add: held_def running_def)
  qed
  moreover have "snd (handle_send msg (?read part)) = ?sent part" for part
    using assms(6,7) by (simp add: handle_send_def mpsc_send_def)
  moreover have "pump_poll to_vec from_slice b None (?sent part) = ?gone" if "part = begun \<or> part = []" for part
  proof -
    have out: "outbound_branch to_vec None (?sent part) = (True, ?gone)"
      using outbound_sends [of "?sent part" msg "[]" to_vec bytes] assms(6,8,11) by simp
    moreover have "inbound_branch from_slice (?sent part) = (False, ?sent part)"
      using waits [of "?sent part"] that assms(9,10) by auto
    moreover have "running (?sent part)" using assms(5) by (simp add: running_def)
    ultimately show ?thesis by (cases b) (simp_all add: pump_poll_def)
  qed
  ultimately show ?thesis using same by (metis fold_simps native_op.simps(1,3))
qed

text \<open>Here what follows starts with a length that is refused: the connection is lost although the server did nothing wrong.\<close>

theorem interrupted_frame_lost_witness:
  "mq_items (th_inbound (native_op (\<lambda>_. Inr [9]) two_from_slice (Poll True None)
     (fold (native_op (\<lambda>_. Inr [9]) two_from_slice) [Poll False None, Arrive [255, 255, 255, 255]]
       (snd (handle_send CHeartbeat (fold (native_op (\<lambda>_. Inr [9]) two_from_slice) [Arrive [4, 0, 0, 0], Poll True None] fresh_handle))))))
   = [Connected, Lost ''frame: frame too large: 4294967295 bytes (max 4194304)'']"
proof -
  have "encode two_to_vec (SLeftTable 1) = (Inr ([4, 0, 0, 0] @ [255, 255, 255, 255]) :: frame_error + _)"
    and out: "encode (\<lambda>_. Inr [9]) CHeartbeat = (Inr [1, 0, 0, 0, 9] :: frame_error + _)"
    by (simp_all add: encode_def two_to_vec_def MAX_FRAME_BYTES_def to_le_bytes_eq)
  moreover have "held fresh_handle" "running fresh_handle" "mq_items (th_outbound fresh_handle) = []"
    "mq_rx (th_outbound fresh_handle)" "np_partial (th_peer fresh_handle) = []" "np_bytes (th_peer fresh_handle) = []"
    "np_end (th_peer fresh_handle) = None"
    by (simp_all add: fresh_handle_def handle_defs)
  ultimately have eq: "fold (native_op (\<lambda>_. Inr [9]) two_from_slice) [Poll False None, Arrive [255, 255, 255, 255]]
       (snd (handle_send CHeartbeat (fold (native_op (\<lambda>_. Inr [9]) two_from_slice) [Arrive [4, 0, 0, 0], Poll True None] fresh_handle)))
    = native_op (\<lambda>_. Inr [9]) two_from_slice (Arrive [255, 255, 255, 255])
        (native_op (\<lambda>_. Inr [9]) two_from_slice (Poll False None) (snd (handle_send CHeartbeat fresh_handle)))"
    by (intro interrupted_frame_lost [OF two_codec_ok, where v = "SLeftTable 1" and bytes = "[1, 0, 0, 0, 9]"]) simp_all
  have "inbound_branch two_from_slice (snd (handle_send CHeartbeat fresh_handle)) = (False, snd (handle_send CHeartbeat fresh_handle))"
    by (simp add: inbound_branch_def poll_read_idle fresh_handle_def handle_defs handle_send_def)
  moreover have "outbound_branch (\<lambda>_. Inr [9]) None (snd (handle_send CHeartbeat fresh_handle))
      = (True, fresh_handle\<lparr>th_peer := (th_peer fresh_handle)\<lparr>np_written := [1, 0, 0, 0, 9]\<rparr>\<rparr>)"
    by (subst outbound_sends [OF _ out, where msgs = "[]"]) (simp_all add: fresh_handle_def handle_defs handle_send_def)
  ultimately have "native_op (\<lambda>_. Inr [9]) two_from_slice (Poll False None) (snd (handle_send CHeartbeat fresh_handle))
      = fresh_handle\<lparr>th_peer := (th_peer fresh_handle)\<lparr>np_written := [1, 0, 0, 0, 9]\<rparr>\<rparr>"
    by (simp add: pump_poll_def fresh_handle_def handle_defs)
  note polled = this
  show ?thesis
    unfolding eq polled
    by (simp add: char_of_def bit_0 fresh_handle_def handle_defs pump_poll_def outbound_branch_def mpsc_recv_def
        bytes_arrive_def inbound_branch_def poll_read_def fill_def LENGTH_PREFIX_BYTES_def parse_length_prefix_def
        from_le_bytes_def MAX_FRAME_BYTES_def lose_def pump_return_def to_string.simps upt_rec)
qed

section \<open>The transport in memory is one\<close>

definition memory_opened :: "memory_handle \<Rightarrow> bool" where
  "memory_opened h \<longleftrightarrow> in_memory_open True = Inr h"

definition memory_other :: "memory_handle \<Rightarrow> memory_handle \<Rightarrow> bool" where
  "memory_other h h' \<longleftrightarrow> (\<exists>op. h' = memory_op op h)"

lemma memory_op_ok:
  assumes "held h"
  shows "held (memory_op op h) \<and> (\<exists>new. appends h (memory_op op h) new)
     \<and> (running h \<longrightarrow> \<not> running (memory_op op h) \<longrightarrow> (\<exists>evs r. mq_items (th_inbound (memory_op op h)) = evs @ [Lost r]))"
proof (cases op)
  case (ServerSend msg)
  have "appends h (snd (server_send msg h)) [Message msg]" if "running h"
    unfolding appends_def using assms that by (auto simp: server_send_def handle_defs intro!: exI [of _ "[msg]"])
  then show ?thesis
    using ServerSend assms appends_none [of h h] by (auto simp: server_send_def handle_defs)
next
  case ServerRecv
  then have "th_inbound (memory_op op h) = th_inbound h" "held (memory_op op h)"
    using assms by (auto simp: server_recv_def mpsc_recv_def held_def split: list.split)
  then show ?thesis using appends_none [of "memory_op op h" h] by (auto simp: running_def)
next
  case (ServerClose reason)
  have "appends h (server_close reason h) [Lost reason]" if "running h"
    unfolding appends_def
    using assms that by (auto simp: server_close_def server_drop_def handle_defs intro!: exI [of _ "[] :: server_message list"])
  then show ?thesis
    using ServerClose assms appends_none [of h h] by (auto simp: server_close_def server_drop_def handle_defs)
qed

interpretation memory: reporting_transport memory_opened memory_other
proof
  show "held h \<and> running h \<and> mq_items (th_inbound h) = [Connected]" if "memory_opened h" for h
    using that by (auto simp: memory_opened_def in_memory_open_def handle_defs)
qed (auto simp: memory_other_def memory_op_ok)

text \<open>
  With \<open>server_drop\<close> the transport still keeps the order of events, but no longer reports the end: nothing
  is appended to the inbox, so the host hears \<open>None\<close> without any \<open>Lost\<close>.
\<close>

definition memory_dropping :: "memory_handle \<Rightarrow> memory_handle \<Rightarrow> bool" where
  "memory_dropping h h' \<longleftrightarrow> memory_other h h' \<or> h' = server_drop h"

interpretation dropping: transport memory_opened memory_dropping
proof
  show "held h \<and> running h \<and> mq_items (th_inbound h) = [Connected]" if "memory_opened h" for h
    using that by (rule memory.opened_first)
  show "held h'" if "memory_dropping h h'" "held h" for h h'
  proof -
    have "held (server_drop h)" using that(2) by (simp add: server_drop_def handle_defs)
    then show ?thesis using that memory.other_held by (auto simp: memory_dropping_def)
  qed
  show "\<exists>new. appends h h' new" if "memory_dropping h h'" "held h" for h h'
  proof -
    have "appends h (server_drop h) []" by (simp add: appends_def server_drop_def handle_defs)
    then show ?thesis using that memory.other_appends by (auto simp: memory_dropping_def)
  qed
qed

lemma dropped_server_is_silent:
  "fst (handle_recv (server_drop (snd (handle_recv (snd (push_event Connected (from_channels ()))))))) = Ready None"
  by (simp add: server_drop_def handle_recv_def mpsc_recv_def handle_defs)

text \<open>What a host has heard of a connection, and what waits in its inbox, make sense.\<close>

definition well_told :: "transport_in list \<Rightarrow> 'c transport_handle \<Rightarrow> bool" where
  "well_told heard h \<longleftrightarrow>
     (\<exists>ms tail. heard @ mq_items (th_inbound h) = Connected # map Message ms @ tail
        \<and> (tail = [] \<or> \<not> running h \<and> (\<exists>r. tail = [Lost r])))
     \<and> (fst (handle_recv h) = Ready None \<longrightarrow> (\<exists>evs r. heard = evs @ [Lost r]))"

text \<open>
  What a client hears of a connection, over TCP or in memory, whatever the other side and the network do: first that it
  is up, then messages, then at most one report that it is lost, and nothing after that; and the inbox never closes
  without such a report.
\<close>

theorem transports_report:
  assumes "talk native_opened (native_other to_vec from_slice) heard h" and "talk memory_opened memory_other heard' h'"
  shows "well_told heard h \<and> well_told heard' h'"
  unfolding well_told_def
  using tcp.event_stream [OF assms(1)] tcp.silence_follows_lost [OF assms(1)]
    memory.event_stream [OF assms(2)] memory.silence_follows_lost [OF assms(2)] by blast

theorem transports_report_witness:
  "well_told [Connected] (snd (handle_recv (native_op (\<lambda>_. Inl '''') two_from_slice (Finish (Eof ''eof'')) fresh_handle)))
   \<and> well_told [] (server_close ''bye'' (snd (push_event Connected (from_channels ()))))"
proof -
  have "talk native_opened (native_other (\<lambda>_. Inl '''') two_from_slice) [] fresh_handle"
    by (simp add: talk_open native_opened_def fresh_opened)
  from talk_other [OF this, where h' = "native_op (\<lambda>_. Inl '''') two_from_slice (Finish (Eof ''eof'')) fresh_handle"]
  have 1: "talk native_opened (native_other (\<lambda>_. Inl '''') two_from_slice) []
      (native_op (\<lambda>_. Inl '''') two_from_slice (Finish (Eof ''eof'')) fresh_handle)"
    unfolding native_other_def by blast
  have 2: "talk native_opened (native_other (\<lambda>_. Inl '''') two_from_slice) ([] @ [Connected])
      (snd (handle_recv (native_op (\<lambda>_. Inl '''') two_from_slice (Finish (Eof ''eof'')) fresh_handle)))"
    by (rule talk_recv [OF 1]) (simp add: fresh_handle_def handle_defs stream_ends_def handle_recv_def mpsc_recv_def)
  let ?m = "snd (push_event Connected (from_channels ())) :: memory_handle"
  have "talk memory_opened memory_other [] ?m"
    by (simp add: talk_open memory_opened_def in_memory_open_def)
  moreover have "memory_other ?m (server_close ''bye'' ?m)"
    unfolding memory_other_def by (rule exI [of _ "ServerClose ''bye''"]) (simp add: handle_defs)
  ultimately have 3: "talk memory_opened memory_other [] (server_close ''bye'' ?m)" by (rule talk_other)
  show ?thesis using transports_report [OF 2 3] by simp
qed

end
