(* ===== verification/NativeProps.thy ===== *)
theory NativeProps
  imports NativeClient TransportProps
begin

text \<open>
  The runtime of the native client as a whole: its reachable states, in any interleaving of the host, the worker and
  the other side of the transport; that it runs the core of \<open>ClientCore\<close> and publishes its view; the session key
  across restarts; and the behaviour after a refused handshake.
\<close>

section \<open>Reachable states\<close>

text \<open>
  \<open>drained\<close> collects what the host has drained from the log.  The parameters say which handles \<open>open\<close> may give,
  what their other side may do, which faults of the file system occur and whether the host clears the session.
\<close>

inductive native_reach ::
  "('c transport_handle \<Rightarrow> bool) \<Rightarrow> ('c transport_handle \<Rightarrow> 'c transport_handle \<Rightarrow> bool) \<Rightarrow> (io_faults \<Rightarrow> bool) \<Rightarrow> bool \<Rightarrow>
     path \<Rightarrow> log_entry list \<Rightarrow> 'c native_client \<Rightarrow> bool"
  for opened :: "'c transport_handle \<Rightarrow> bool" and other :: "'c transport_handle \<Rightarrow> 'c transport_handle \<Rightarrow> bool"
    and faults :: "io_faults \<Rightarrow> bool" and clears :: bool and path :: path
where
  reach_new: "faults io \<Longrightarrow> with_transport io path files = Inr c \<Longrightarrow> native_reach opened other faults clears path [] c"
| reach_issue: "native_reach opened other faults clears path drained c \<Longrightarrow> native_reach opened other faults clears path drained (issue i c)"
| reach_drain: "native_reach opened other faults clears path drained c \<Longrightarrow> drain_logs c = (logs, c') \<Longrightarrow>
     native_reach opened other faults clears path (drained @ logs) c'"
| reach_clear: "native_reach opened other faults clears path drained c \<Longrightarrow> clears \<Longrightarrow>
     native_reach opened other faults clears path drained (snd (clear_session io path c))"
| reach_drop: "native_reach opened other faults clears path drained c \<Longrightarrow> native_reach opened other faults clears path drained (client_drop c)"
| reach_loop: "native_reach opened other faults clears path drained c \<Longrightarrow> faults (su_io su) \<Longrightarrow>
     (\<And>addr h. su_open su addr = Inr h \<Longrightarrow> opened h) \<Longrightarrow>
     native_reach opened other faults clears path drained (run_loop_step su path c)"
| reach_other: "native_reach opened other faults clears path drained c \<Longrightarrow> nc_handle c = Some h \<Longrightarrow> other h h' \<Longrightarrow>
     native_reach opened other faults clears path drained (c\<lparr>nc_handle := Some h'\<rparr>)"

section \<open>The runtime runs the core\<close>

lemma client_run_append:
  "client_run c is out c' \<Longrightarrow> client_run c' is' out' c'' \<Longrightarrow> client_run c (is @ is') (out @ out') c''"
  by (induction rule: client_run.induct) (auto simp: append_assoc intro: run_cons)

lemma client_run_one:
  "core_handle i c = (c', out) \<Longrightarrow> client_run c [i] out c'"
  using run_cons [OF step run_nil, of i c c' out] by simp

fun entries :: "effect list \<Rightarrow> log_entry list" where
  "entries [] = []"
| "entries (Log level message kvs # es) = \<lparr>le_level = level, le_message = message, le_fields = kvs\<rparr> # entries es"
| "entries (_ # es) = entries es"

fun is_log :: "effect \<Rightarrow> bool" where
  "is_log (Log _ _ _) = True"
| "is_log _ = False"

text \<open>The key on disk after a list of effects, as a later \<open>load\<close> reads it.\<close>

fun key_after :: "string option \<Rightarrow> effect list \<Rightarrow> string option" where
  "key_after k [] = k"
| "key_after k (PersistSessionKey None # es) = key_after None es"
| "key_after k (PersistSessionKey (Some s) # es) = key_after (if trim s = [] then None else Some (trim s)) es"
| "key_after k (_ # es) = key_after k es"

lemma entries_append [simp]: "entries (xs @ ys) = entries xs @ entries ys"
  by (induction xs rule: entries.induct) simp_all

lemma key_after_append [simp]: "key_after k (xs @ ys) = key_after (key_after k xs) ys"
  by (induction k xs rule: key_after.induct) simp_all

lemma key_after_logs [simp]: "list_all is_log es \<Longrightarrow> key_after k es = k"
proof (induction es)
  case (Cons e es)
  then show ?case by (cases e) simp_all
qed simp

text \<open>The key that the store holds now, without faults.\<close>

definition stored :: "path \<Rightarrow> 'c native_client \<Rightarrow> string option" where
  "stored path c = session_key no_faults path c"

lemma dir_exists_created:
  "d \<noteq> [] \<Longrightarrow> dir_exists d (snd (create_dir_all no_faults d files))"
  by (cases d) (auto simp: dir_exists_def create_dir_all_def no_faults_def intro!: image_eqI [of _ _ "length d"])

text \<open>A saved key is loaded back, whatever directories were missing and whatever the file held.\<close>

lemma save_then_load:
  "fst (store_save no_faults p key files) = Inr ()"
  "store_load no_faults p (snd (store_save no_faults p key files)) = Inr (if trim key = [] then None else Some (trim key))"
proof -
  have "\<exists>files'. (if p_parent p \<noteq> [] then create_dir_all no_faults (p_parent p) files else (Inr (), files)) = (Inr (), files')
      \<and> dir_exists (p_parent p) files'"
    using dir_exists_created [of "p_parent p" files]
    by (auto simp: create_dir_all_def no_faults_def dir_exists_def)
  then obtain files' where f: "(if p_parent p \<noteq> [] then create_dir_all no_faults (p_parent p) files else (Inr (), files)) = (Inr (), files')"
    "dir_exists (p_parent p) files'" by blast
  have "dir_exists (p_parent (with_extension ''tmp'' p)) files'" using f(2) by (simp add: with_extension_def)
  then have "store_save no_faults p key files =
      (Inr (), files'\<lparr>fs_files := (fs_files files')(with_extension ''tmp'' p := None, p \<mapsto> key)\<rparr>)"
    unfolding store_save_def f(1) by (simp add: write_file_def rename_file_def no_faults_def Let_def split: unit.split)
  then show "fst (store_save no_faults p key files) = Inr ()"
    "store_load no_faults p (snd (store_save no_faults p key files)) = Inr (if trim key = [] then None else Some (trim key))"
    by (simp_all add: store_load_def no_faults_def Let_def)
qed

lemma clear_then_load: "store_load no_faults p (snd (store_clear no_faults p files)) = Inr None"
  by (simp add: store_clear_def store_load_def no_faults_def)

lemma stored_persist:
  "stored path (persist no_faults path key c)
     = (case key of None \<Rightarrow> None | Some s \<Rightarrow> if trim s = [] then None else Some (trim s))"
  by (cases key) (simp_all add: stored_def session_key_def persist_def save_then_load clear_then_load)

text \<open>
  What carrying out effects does to the core: at most more inputs, whose effects are log lines only; the log
  lines are appended, in an order of their own; and without faults the store follows the keys.
\<close>

definition carried :: "io_faults \<Rightarrow> path \<Rightarrow> effect list \<Rightarrow> 'c native_client \<Rightarrow> 'c native_client \<Rightarrow> bool" where
  "carried io path es c c' \<longleftrightarrow>
     (\<exists>is out. client_run (nc_core c) is out (nc_core c') \<and> list_all is_log out
        \<and> mset (nc_logs c') = mset (nc_logs c) + mset (entries (es @ out)))
     \<and> (io = no_faults \<longrightarrow> stored path c' = key_after (stored path c) es)"

lemma carried_refl:
  "nc_core c' = nc_core c \<Longrightarrow> nc_logs c' = nc_logs c \<Longrightarrow> nc_files c' = nc_files c \<Longrightarrow>
     entries es = [] \<Longrightarrow> key_after (stored path c) es = stored path c \<Longrightarrow> carried io path es c c'"
  unfolding carried_def
  by (auto simp: stored_def session_key_def intro!: exI [of _ "[]"] run_nil)

lemma carried_trans:
  assumes "carried io path es c c'" and "carried io path es' c' c''"
  shows "carried io path (es @ es') c c''"
proof -
  obtain "is" out is' out' where
    "client_run (nc_core c) is out (nc_core c')" "client_run (nc_core c') is' out' (nc_core c'')"
    "list_all is_log (out @ out')" "mset (nc_logs c'') = mset (nc_logs c) + mset (entries ((es @ es') @ out @ out'))"
    using assms by (auto simp: carried_def ac_simps)
  then show ?thesis
    using assms client_run_append unfolding carried_def by (metis key_after_append)
qed

lemma carried_log: "carried io path [Log level message kvs] c (emit_log level message kvs c)"
  unfolding carried_def emit_log_def
  by (auto simp: stored_def session_key_def intro!: exI [of _ "[]"] run_nil)

lemma carried_open_failed: "carried io path [OpenConnection addr] c (open_failed io path reason c)"
proof -
  let ?l = "Log LWarn ''core: connection lost'' [(''reason'', reason)]"
  have "client_run (nc_core c) [FromHost (IConnectionLost reason)] [?l] (reset_to_ended reason (nc_core c))"
    by (rule client_run_one) simp
  moreover have "list_all is_log [?l]" by simp
  ultimately show ?thesis
    unfolding carried_def by (fastforce simp: open_failed_def emit_log_def stored_def session_key_def)
qed

lemma carried_effect: "carried (su_io su) path [e] c (process_effect su path e c)"
proof (cases e)
  case (OpenConnection addr)
  show ?thesis
  proof (cases "su_open su addr")
    case (Inl err)
    have "carried (su_io su) path [] c (c\<lparr>nc_handle := None\<rparr>)" by (rule carried_refl) simp_all
    from carried_trans [OF this carried_open_failed] show ?thesis by (simp add: OpenConnection Inl)
  qed (auto simp: OpenConnection intro: carried_refl)
next
  case (PersistSessionKey key)
  have "carried (su_io su) path [PersistSessionKey key] c (persist (su_io su) path key c)"
    unfolding carried_def
  proof (intro conjI impI)
    show "\<exists>is out. client_run (nc_core c) is out (nc_core (persist (su_io su) path key c)) \<and> list_all is_log out
        \<and> mset (nc_logs (persist (su_io su) path key c)) = mset (nc_logs c) + mset (entries ([PersistSessionKey key] @ out))"
      by (intro exI [of _ "[]"]) (simp add: persist_def run_nil)
    show "su_io su = no_faults \<Longrightarrow> stored path (persist (su_io su) path key c) = key_after (stored path c) [PersistSessionKey key]"
      by (cases key) (simp_all add: stored_persist)
  qed
  then show ?thesis by (simp add: PersistSessionKey)
qed (auto intro: carried_refl carried_log)

lemma carried_effects: "carried (su_io su) path es c (process_effects su path es c)"
  unfolding process_effects_def
proof (induction es arbitrary: c)
  case Nil
  then show ?case by (auto intro: carried_refl)
next
  case (Cons e es)
  show ?case using carried_trans [OF carried_effect [of su path e c] Cons.IH] by simp
qed

lemma carried_feed:
  fixes c :: "'c native_client"
  shows "\<exists>is out. client_run (nc_core c) is out (nc_core (feed su path i c))
     \<and> mset (nc_logs (feed su path i c)) = mset (nc_logs c) + mset (entries out)
     \<and> (su_io su = no_faults \<longrightarrow> stored path (feed su path i c) = key_after (stored path c) out)"
proof -
  obtain core es where h: "core_handle i (nc_core c) = (core, es)" by fastforce
  let ?c = "c\<lparr>nc_core := core\<rparr>"
  have f: "feed su path i c = process_effects su path es ?c" by (simp add: feed_def h)
  obtain "is" out where more: "client_run core is out (nc_core (feed su path i c))" "list_all is_log out"
      "mset (nc_logs (feed su path i c)) = mset (nc_logs c) + mset (entries (es @ out))"
      "su_io su = no_faults \<longrightarrow> stored path (feed su path i c) = key_after (stored path c) es"
    using carried_effects [of su path es ?c] unfolding carried_def f by (auto simp: stored_def session_key_def)
  have "client_run (nc_core c) ([i] @ is) (es @ out) (nc_core (feed su path i c))"
    using client_run_append [OF client_run_one [OF h] more(1)] .
  then show ?thesis using more(2-4) by (intro exI [of _ "[i] @ is"] exI [of _ "es @ out"]) simp
qed

text \<open>The worker between iterations: what it has fed to the core, what it published and what it logged.\<close>

definition client_ok :: "bool \<Rightarrow> path \<Rightarrow> log_entry list \<Rightarrow> 'c native_client \<Rightarrow> bool" where
  "client_ok faultless path drained c \<longleftrightarrow>
     (\<exists>k is out. client_run (core_new k) is out (nc_core c) \<and> nc_view c = snapshot (nc_core c)
        \<and> mset (drained @ nc_logs c) = mset (entries out)
        \<and> (faultless \<longrightarrow> stored path c = key_after k out))"

lemma client_ok_same:
  "client_ok faultless path drained c \<Longrightarrow> nc_core c' = nc_core c \<Longrightarrow> nc_view c' = nc_view c \<Longrightarrow>
     mset (drained' @ nc_logs c') = mset (drained @ nc_logs c) \<Longrightarrow> (faultless \<Longrightarrow> nc_files c' = nc_files c) \<Longrightarrow>
     client_ok faultless path drained' c'"
  by (simp add: client_ok_def stored_def session_key_def)

lemma client_ok_feed:
  assumes "client_ok faultless path drained c" and "faultless \<longrightarrow> su_io su = no_faults"
  shows "client_ok faultless path drained (publish (feed su path i c))"
proof -
  obtain k "is" out where run: "client_run (core_new k) is out (nc_core c)"
      "mset (drained @ nc_logs c) = mset (entries out)" "faultless \<longrightarrow> stored path c = key_after k out"
    using assms(1) by (auto simp: client_ok_def)
  obtain is' out' where fed: "client_run (nc_core c) is' out' (nc_core (feed su path i c))"
     "mset (nc_logs (feed su path i c)) = mset (nc_logs c) + mset (entries out')"
     "su_io su = no_faults \<longrightarrow> stored path (feed su path i c) = key_after (stored path c) out'"
    using carried_feed [of c su path i] by blast
  have "mset (drained @ nc_logs (feed su path i c)) = mset (entries (out @ out'))"
    using run(2) fed(2) by (simp add: add.assoc [symmetric])
  then show ?thesis
    unfolding client_ok_def publish_def
    using client_run_append [OF run(1) fed(1)] run(3) fed(3) assms(2)
    by (intro exI [of _ k] exI [of _ "is @ is'"] exI [of _ "out @ out'"]) (simp add: stored_def session_key_def)
qed

lemma client_ok_loop:
  assumes "client_ok faultless path drained c" and "faultless \<longrightarrow> su_io su = no_faults"
  shows "client_ok faultless path drained (run_loop_step su path c)"
proof -
  have same: "client_ok faultless path drained c'"
    if "nc_core c' = nc_core c" "nc_view c' = nc_view c" "nc_logs c' = nc_logs c" "nc_files c' = nc_files c" for c'
    using client_ok_same [OF assms(1), of c' drained] that by simp
  have event: "client_ok faultless path drained (publish (worker_event su path ev (c\<lparr>nc_handle := h\<rparr>)))" for ev h
  proof (cases ev)
    case None
    have "nc_view c = snapshot (nc_core c)" using assms(1) by (auto simp: client_ok_def)
    then show ?thesis by (simp add: None same publish_def)
  next
    case (Some x)
    then show ?thesis by (cases x) (simp_all add: client_ok_feed [OF same assms(2)])
  qed
  show ?thesis
  proof (cases "nc_working c")
    case True
    obtain r q where q: "mpsc_recv (nc_intents c) = (r, q)" by fastforce
    show ?thesis
    proof (cases r)
      case Pending
      then show ?thesis
        using True q assms(1) event
        by (auto simp: run_loop_step_def split: option.split prod.split polled.split)
    next
      case (Ready x)
      then show ?thesis
        using True q by (cases x) (simp_all add: run_loop_step_def same client_ok_feed [OF same assms(2)])
    qed
  qed (simp add: run_loop_step_def assms(1))
qed

lemma native_reach_ok:
  "native_reach opened other faults clears path drained c \<Longrightarrow>
     client_ok (faults = (\<lambda>io. io = no_faults) \<and> \<not> clears) path drained c"
proof (induction rule: native_reach.induct)
  case (reach_new io files c)
  then obtain k where k: "store_load io path files = Inr k" "nc_core c = core_new k" "nc_view c = snapshot (core_new k)"
      "nc_logs c = []" "nc_files c = files"
    by (auto simp: with_transport_def Let_def split: sum.splits)
  then show ?case
    unfolding client_ok_def using reach_new(1)
    by (intro exI [of _ k] exI [of _ "[]"]) (auto simp: run_nil stored_def session_key_def)
next
  case (reach_issue drained c i)
  then show ?case by (intro client_ok_same [OF reach_issue.IH]) (simp_all add: issue_def)
next
  case (reach_drain drained c logs c')
  then show ?case by (intro client_ok_same [OF reach_drain.IH]) (auto simp: drain_logs_def)
next
  case (reach_clear drained c io)
  then show ?case by (intro client_ok_same [OF reach_clear.IH]) (auto simp: clear_session_def split: prod.split)
next
  case (reach_drop drained c)
  then show ?case by (intro client_ok_same [OF reach_drop.IH]) (auto simp: client_drop_def)
next
  case (reach_loop drained c su)
  then show ?case by (intro client_ok_loop) auto
next
  case (reach_other drained c h h')
  then show ?case by (intro client_ok_same [OF reach_other.IH]) auto
qed


text \<open>
  (C33) The session key outlives the client.  When the file system has no faults and the host does not clear the session, the key
  on disk is always the last one the core asked to persist, trimmed (and none when that is empty), or the
  one found at the start; and a client started on those files hands it to its core.
\<close>

theorem session_key_survives:
  fixes c :: "'c native_client"
  assumes "native_reach opened other (\<lambda>io. io = no_faults) False path drained c"
  shows "\<exists>k is out (c' :: 'c native_client). client_run (core_new k) is out (nc_core c) \<and> session_key no_faults path c = key_after k out
     \<and> with_transport no_faults path (nc_files c) = Inr c' \<and> cc_session_key (nc_core c') = key_after k out"
proof -
  obtain k "is" out where run: "client_run (core_new k) is out (nc_core c)" "stored path c = key_after k out"
    using native_reach_ok [OF assms] unfolding client_ok_def by blast
  obtain key where key: "store_load no_faults path (nc_files c) = Inr key"
    by (cases "fs_files (nc_files c) path") (auto simp: store_load_def no_faults_def Let_def)
  have "with_transport no_faults path (nc_files c) = Inr c' \<longrightarrow> cc_session_key (nc_core c') = key" for c' :: "'c native_client"
    by (auto simp: with_transport_def key core_new_def Let_def)
  moreover have "\<exists>c' :: 'c native_client. with_transport no_faults path (nc_files c) = Inr c'" by (simp add: with_transport_def key Let_def)
  moreover have "key = key_after k out" using run(2) key by (simp add: stored_def session_key_def)
  ultimately show ?thesis using run by (metis stored_def)
qed

section \<open>Handles\<close>

text \<open>The handle of the worker: opened by the transport, and not yet told that it is lost.\<close>

definition handle_ok ::
  "('c transport_handle \<Rightarrow> bool) \<Rightarrow> ('c transport_handle \<Rightarrow> 'c transport_handle \<Rightarrow> bool) \<Rightarrow> 'c native_client \<Rightarrow> bool" where
  "handle_ok opened other c \<longleftrightarrow>
     (\<forall>h. nc_handle c = Some h \<longrightarrow> (\<exists>heard. talk opened other heard h \<and> (\<forall>r. Lost r \<notin> set heard)))"

lemma inert_handle [simp]:
  "nc_handle (apply_inert_effect io path e c) = nc_handle c" "nc_handle (persist io path key c) = nc_handle c"
  "nc_handle (emit_log l m kvs c) = nc_handle c"
  by (cases e; simp add: persist_def emit_log_def)+

lemma inert_effects_handle [simp]: "nc_handle (fold (apply_inert_effect io path) es c) = nc_handle c"
  by (induction es arbitrary: c) simp_all

lemma handle_ok_effect:
  assumes "handle_ok opened other c" and "\<And>addr h. su_open su addr = Inr h \<Longrightarrow> opened h"
  shows "handle_ok opened other (process_effect su path e c)"
proof (cases e)
  case (OpenConnection addr)
  then show ?thesis
    using assms(2) by (force simp: handle_ok_def open_failed_def split: sum.split intro: talk_open exI [of _ "[]"])
next
  case (Send msg)
  then show ?thesis using assms(1) by (fastforce simp: handle_ok_def intro: talk_send)
qed (use assms(1) in \<open>simp_all add: handle_ok_def\<close>)

lemma handle_ok_feed:
  assumes "handle_ok opened other c" and "\<And>addr h. su_open su addr = Inr h \<Longrightarrow> opened h"
  shows "handle_ok opened other (feed su path i c)"
proof -
  have "handle_ok opened other (fold (process_effect su path) es c')" if "handle_ok opened other c'" for es c'
    using that by (induction es arbitrary: c') (simp_all add: handle_ok_effect assms(2))
  moreover have "handle_ok opened other (c\<lparr>nc_core := core\<rparr>)" for core using assms(1) by (simp add: handle_ok_def)
  ultimately show ?thesis by (simp add: feed_def process_effects_def split: prod.split)
qed

lemma handle_ok_publish [simp]: "handle_ok opened other (publish c) = handle_ok opened other c"
  by (simp add: handle_ok_def publish_def)

lemma handle_ok_loop:
  assumes "handle_ok opened other c" and "\<And>addr h. su_open su addr = Inr h \<Longrightarrow> opened h"
  shows "handle_ok opened other (run_loop_step su path c)"
proof -
  have intent: "handle_ok opened other (feed su path i (c\<lparr>nc_intents := q\<rparr>))" for i q
    by (rule handle_ok_feed) (use assms in \<open>simp_all add: handle_ok_def\<close>)
  have event: "handle_ok opened other (worker_event su path ev (c\<lparr>nc_handle := Some h'\<rparr>))"
    if h: "nc_handle c = Some h" "handle_recv h = (Ready ev, h')" for h ev h'
  proof -
    have none: "handle_ok opened other (c'\<lparr>nc_handle := None\<rparr>)" for c' :: "'a native_client" by (simp add: handle_ok_def)
    obtain heard where t: "talk opened other heard h" "\<forall>r. Lost r \<notin> set heard" using assms(1) h by (auto simp: handle_ok_def)
    have some: "handle_ok opened other (c\<lparr>nc_handle := Some h'\<rparr>)" if "ev = Some x" "\<forall>r. x \<noteq> Lost r" for x
    proof -
      have "talk opened other (heard @ [x]) h'" using talk_recv [OF t(1)] h(2) that(1) by blast
      moreover have "\<forall>r. Lost r \<notin> set (heard @ [x])" using t(2) that(2) by auto
      ultimately show ?thesis unfolding handle_ok_def by force
    qed
    show ?thesis
    proof (cases ev)
      case (Some x)
      show ?thesis
      proof (cases x)
        case Connected
        then show ?thesis using Some some handle_ok_feed [OF _ assms(2)] by simp
      next
        case (Message msg)
        then show ?thesis using Some some handle_ok_feed [OF _ assms(2)] by simp
      next
        case (Lost r)
        then show ?thesis using Some handle_ok_feed [OF none assms(2)] by simp
      qed
    qed (simp add: handle_ok_def)
  qed
  show ?thesis
  proof (cases "nc_working c")
    case True
    obtain r q where q: "mpsc_recv (nc_intents c) = (r, q)" by fastforce
    show ?thesis
    proof (cases r)
      case (Ready x)
      show ?thesis
      proof (cases x)
        case None
        then show ?thesis using True q Ready by (simp add: run_loop_step_def handle_ok_def)
      next
        case (Some i)
        then show ?thesis using True q Ready intent by (simp add: run_loop_step_def)
      qed
    next
      case Pending
      show ?thesis
      proof (cases "nc_handle c")
        case None
        then show ?thesis using True q Pending assms(1) by (simp add: run_loop_step_def)
      next
        case (Some h)
        obtain ev h' where "handle_recv h = (ev, h')" by fastforce
        then show ?thesis using True q Pending Some assms(1) event by (cases ev) (simp_all add: run_loop_step_def)
      qed
    qed
  qed (simp add: run_loop_step_def assms(1))
qed

context reporting_transport begin

lemma worker_handle_ok:
  "native_reach opened other faults clears path drained c \<Longrightarrow> handle_ok opened other c"
proof (induction rule: native_reach.induct)
  case (reach_new io files c)
  then show ?case by (auto simp: with_transport_def handle_ok_def Let_def split: sum.splits)
next
  case (reach_loop drained c su)
  then show ?case by (intro handle_ok_loop) auto
next
  case (reach_other drained c h h')
  then show ?case by (auto simp: handle_ok_def intro: talk_other)
qed (auto simp: handle_ok_def issue_def drain_logs_def clear_session_def client_drop_def split: prod.split)

text \<open>The arm of the loop for an inbox that closed without a report is never taken.\<close>

lemma never_silent:
  assumes "native_reach opened other faults clears path drained c" and "nc_handle c = Some h"
  shows "fst (handle_recv h) \<noteq> Ready None"
proof
  assume silent: "fst (handle_recv h) = Ready None"
  obtain heard where "talk opened other heard h" "\<forall>r. Lost r \<notin> set heard"
    using worker_handle_ok [OF assms(1)] assms(2) by (auto simp: handle_ok_def)
  then show False using silence_follows_lost [of heard h] silent by fastforce
qed

end


section \<open>After a refused handshake\<close>

text \<open>Intents that neither open nor end a connection.\<close>

fun keeps_connection :: "intent \<Rightarrow> bool" where
  "keeps_connection (IConnect _) = False"
| "keeps_connection IConnectionOpened = False"
| "keeps_connection IDisconnect = False"
| "keeps_connection (IConnectionLost _) = False"
| "keeps_connection _ = True"

text \<open>A worker that has no handle although its core takes the connection to be open.\<close>

definition cut_off :: "'c native_client \<Rightarrow> bool" where
  "cut_off c \<longleftrightarrow> nc_working c \<and> nc_intents c = unbounded_channel \<and> nc_handle c = None \<and> cc_connection_open (nc_core c)"

lemma send_effects_no_handle:
  "nc_handle c = None \<Longrightarrow> list_all (\<lambda>e. is_log e \<or> (\<exists>m. e = Send m)) es \<Longrightarrow>
     nc_handle (process_effects su path es c) = None \<and> nc_core (process_effects su path es c) = nc_core c
     \<and> nc_working (process_effects su path es c) = nc_working c \<and> nc_intents (process_effects su path es c) = nc_intents c"
proof (induction es arbitrary: c)
  case (Cons e es)
  then show ?case by (cases e) (auto simp: process_effects_def emit_log_def)
qed (simp add: process_effects_def)

lemma issue_step:
  assumes "nc_working c" and "nc_intents c = unbounded_channel"
  shows "run_loop_step su path (issue i c) = publish (feed su path (FromHost i) c)"
proof -
  have "c\<lparr>nc_intents := unbounded_channel\<rparr> = c" using assms(2) [symmetric] by simp
  then have "feed su path (FromHost i) (c\<lparr>nc_intents := unbounded_channel\<rparr>) = feed su path (FromHost i) c"
    by (rule arg_cong)
  moreover have "mpsc_recv (snd (mpsc_send i unbounded_channel)) = (Ready (Some i), unbounded_channel)"
    by (simp add: mpsc_send_def mpsc_recv_def unbounded_channel_def)
  ultimately show ?thesis using assms by (simp add: run_loop_step_def issue_def)
qed

text \<open>What the core does with such an intent while it takes the connection to be open.\<close>

lemma open_core_intent:
  assumes "handle_intent i core = (core', es)" and "keeps_connection i" and "cc_connection_open core"
  shows "list_all (\<lambda>e. is_log e \<or> (\<exists>m. e = Send m)) es \<and> cc_connection_open core'
     \<and> (v_phase (cc_view core) = Authenticating \<or> (\<exists>key label. i = IAuthenticateSession key label)
          \<longrightarrow> v_phase (cc_view core') = Authenticating)"
proof (cases i)
  case (ISubmitAction a)
  then show ?thesis
    using assms by (auto simp: handle_submit_action_def upd_hand_def upd_view_def split: if_splits option.splits)
qed (use assms in \<open>auto simp: queue_or_send_handshake_def set_phase_def upd_view_def\<close>)

lemma cut_off_intent:
  fixes c :: "'c native_client" and su :: "'c surroundings" and path :: path
  assumes "cut_off c" and "keeps_connection i"
  defines "c' \<equiv> run_loop_step su path (issue i c)"
  shows "cut_off c'" and "client_snapshot c' = cc_view (nc_core c')"
    and "v_phase (cc_view (nc_core c)) = Authenticating \<or> (\<exists>key label. i = IAuthenticateSession key label) \<Longrightarrow>
       v_phase (cc_view (nc_core c')) = Authenticating"
proof -
  obtain core es where h: "handle_intent i (nc_core c) = (core, es)" by fastforce
  let ?d = "process_effects su path es (c\<lparr>nc_core := core\<rparr>)"
  have o: "list_all (\<lambda>e. is_log e \<or> (\<exists>m. e = Send m)) es" "cc_connection_open core"
    and auth: "v_phase (cc_view (nc_core c)) = Authenticating \<or> (\<exists>key label. i = IAuthenticateSession key label) \<Longrightarrow>
       v_phase (cc_view core) = Authenticating"
    using open_core_intent [OF h assms(2)] assms(1) by (auto simp: cut_off_def)
  have step: "c' = publish ?d"
    using assms(1) h by (simp add: c'_def issue_step cut_off_def feed_def)
  have p: "nc_handle ?d = None" "nc_core ?d = core" "nc_working ?d" "nc_intents ?d = unbounded_channel"
    using send_effects_no_handle [OF _ o(1), of "c\<lparr>nc_core := core\<rparr>" su path] assms(1) by (simp_all add: cut_off_def)
  show "cut_off c'" using p o(2) by (simp add: step cut_off_def publish_def)
  show "client_snapshot c' = cc_view (nc_core c')" by (simp add: step publish_def client_snapshot_def snapshot_def)
  show "v_phase (cc_view (nc_core c)) = Authenticating \<or> (\<exists>key label. i = IAuthenticateSession key label) \<Longrightarrow>
       v_phase (cc_view (nc_core c')) = Authenticating"
    using auth p by (simp add: step publish_def)
qed

lemma cut_off_intents:
  assumes "cut_off c" and "v_phase (cc_view (nc_core c)) = Authenticating" and "\<forall>i \<in> set is. keeps_connection i"
  shows "cut_off (fold (\<lambda>i c. run_loop_step su path (issue i c)) is c)
     \<and> v_phase (cc_view (nc_core (fold (\<lambda>i c. run_loop_step su path (issue i c)) is c))) = Authenticating"
  using assms by (induction "is" arbitrary: c) (simp_all add: cut_off_intent)

lemma message_step:
  assumes "nc_working c" and "nc_intents c = unbounded_channel" and "nc_handle c = Some h"
    and "mq_items (th_inbound h) = Message m # rest"
  shows "run_loop_step su path c = publish (feed su path (FromServer m)
     (c\<lparr>nc_handle := Some (h\<lparr>th_inbound := (th_inbound h)\<lparr>mq_items := rest\<rparr>\<rparr>)\<rparr>))"
  using assms by (simp add: run_loop_step_def mpsc_recv_def unbounded_channel_def handle_recv_def)

lemma refusal_cuts_off:
  assumes "nc_working c" and "nc_intents c = unbounded_channel" and "nc_handle c = Some h"
    and "mq_items (th_inbound h) = Message (SRejected v reason) # rest" and "cc_connection_open (nc_core c)"
  shows "cut_off (run_loop_step su path c) \<and> v_phase (client_snapshot (run_loop_step su path c)) = Ended reason"
  using assms
  by (simp add: message_step feed_def process_effects_def emit_log_def publish_def cut_off_def client_snapshot_def snapshot_def set_phase_def upd_view_def)

text \<open>
  A second attempt to log in after a refusal goes nowhere.  When the server refuses the handshake, the client drops
  the connection, but the core still takes it to be open.  If the host then authenticates with another key, the core
  shows \<open>Authenticating\<close> and the message is thrown away; and that stays so, with no connection to hear
  from, whatever the host asks for short of connecting anew or disconnecting.
\<close>

theorem refused_then_stuck:
  assumes "nc_working c" and "nc_intents c = unbounded_channel" and "nc_handle c = Some h"
    and "mq_items (th_inbound h) = Message (SRejected v reason) # rest" and "cc_connection_open (nc_core c)"
    and "\<forall>i \<in> set later. keeps_connection i"
  shows "let refused = run_loop_step su path c;
             retried = run_loop_step su path (issue (IAuthenticateSession key label) refused);
             after = fold (\<lambda>i c. run_loop_step su path (issue i c)) later retried
         in v_phase (client_snapshot refused) = Ended reason \<and> v_phase (client_snapshot retried) = Authenticating
          \<and> v_phase (cc_view (nc_core after)) = Authenticating \<and> nc_handle after = None"
proof -
  have r: "cut_off (run_loop_step su path c)" "v_phase (client_snapshot (run_loop_step su path c)) = Ended reason"
    using refusal_cuts_off [OF assms(1-5)] by blast+
  have t: "cut_off (run_loop_step su path (issue (IAuthenticateSession key label) (run_loop_step su path c)))"
      "v_phase (client_snapshot (run_loop_step su path (issue (IAuthenticateSession key label) (run_loop_step su path c)))) = Authenticating"
      "v_phase (cc_view (nc_core (run_loop_step su path (issue (IAuthenticateSession key label) (run_loop_step su path c))))) = Authenticating"
    using cut_off_intent [OF r(1)] by simp_all
  show ?thesis using r t cut_off_intents [OF t(1,3) assms(6)] by (simp add: Let_def cut_off_def)
qed

section \<open>A client at work\<close>

definition demo_path :: path where
  "demo_path = \<lparr>p_parent = [''cfg''], p_name = ''session.key''\<rparr>"

definition demo_start :: "'c native_client" where
  "demo_start =
     \<lparr>nc_intents = unbounded_channel, nc_view = snapshot (core_new None), nc_logs = [],
      nc_files = \<lparr>fs_files = Map.empty, fs_dirs = []\<rparr>, nc_core = core_new None, nc_handle = None, nc_working = True\<rparr>"

definition demo_around :: "'c transport_handle \<Rightarrow> 'c surroundings" where
  "demo_around h = \<lparr>su_open = (\<lambda>_. Inr h), su_io = no_faults\<rparr>"

definition demo_open :: "'c transport_handle \<Rightarrow> 'c native_client" where
  "demo_open h = run_loop_step (demo_around h) demo_path (run_loop_step (demo_around h) demo_path (issue (IConnect ''a:1'') demo_start))"

definition demo_memory :: memory_handle where
  "demo_memory = snd (push_event Connected (from_channels ()))"

lemma demo_start_reach:
  "native_reach opened other (\<lambda>io. io = no_faults) clears demo_path [] (demo_start :: 'c native_client)"
  by (rule reach_new [OF refl, where files = "\<lparr>fs_files = Map.empty, fs_dirs = []\<rparr>"])
    (simp add: with_transport_def store_load_def no_faults_def demo_start_def Let_def)

lemma demo_open_reach:
  "opened h \<Longrightarrow> native_reach opened other (\<lambda>io. io = no_faults) clears demo_path [] (demo_open h)"
  unfolding demo_open_def by (intro reach_loop reach_issue demo_start_reach) (simp_all add: demo_around_def)

lemmas demo_client_eval = run_loop_step_def mpsc_recv_def mpsc_send_def unbounded_channel_def handle_recv_def feed_def
  process_effects_def emit_log_def publish_def set_phase_def upd_view_def issue_def demo_around_def demo_start_def
  handle_send_def core_new_def

lemma demo_open_eval:
  assumes "mq_items (th_inbound h) = [Connected]"
  shows "nc_working (demo_open h)" and "nc_intents (demo_open h) = unbounded_channel"
    and "nc_handle (demo_open h) = Some (h\<lparr>th_inbound := (th_inbound h)\<lparr>mq_items := []\<rparr>\<rparr>)"
    and "cc_connection_open (nc_core (demo_open h))"
  using assms by (simp_all add: demo_open_def demo_client_eval)

definition demo_told :: "server_message \<Rightarrow> unit native_client" where
  "demo_told m = (demo_open demo_memory)\<lparr>nc_handle := Some (memory_op (ServerSend m) (demo_memory\<lparr>th_inbound := (th_inbound demo_memory)\<lparr>mq_items := []\<rparr>\<rparr>))\<rparr>"

lemma demo_memory_opened: "memory_opened demo_memory" "mq_items (th_inbound demo_memory) = [Connected]"
  by (simp_all add: memory_opened_def in_memory_open_def demo_memory_def handle_defs)

lemma demo_told_reach: "native_reach memory_opened memory_other (\<lambda>io. io = no_faults) clears demo_path [] (demo_told m)"
  unfolding demo_told_def
  by (rule reach_other [OF demo_open_reach [where opened = memory_opened and h = demo_memory, OF demo_memory_opened(1)] demo_open_eval(3) [OF demo_memory_opened(2)]])
    (unfold memory_other_def, rule exI, rule refl)

lemma demo_told_handle:
  "nc_handle (demo_told m) = Some (memory_op (ServerSend m) (demo_memory\<lparr>th_inbound := (th_inbound demo_memory)\<lparr>mq_items := []\<rparr>\<rparr>))"
  "mq_items (th_inbound (memory_op (ServerSend m) (demo_memory\<lparr>th_inbound := (th_inbound demo_memory)\<lparr>mq_items := []\<rparr>\<rparr>))) = [Message m]"
  by (simp_all add: demo_told_def demo_memory_def server_send_def handle_defs)

definition demo_welcomed :: "unit native_client" where
  "demo_welcomed = run_loop_step (demo_around demo_memory) demo_path (demo_told (SWelcome 1 5 ''ann'' '' k7 '' demo_stats))"

lemma demo_welcomed_reach: "native_reach memory_opened memory_other (\<lambda>io. io = no_faults) clears demo_path [] demo_welcomed"
  unfolding demo_welcomed_def
  by (intro reach_loop demo_told_reach) (simp_all add: demo_around_def demo_memory_opened(1))

lemma demo_key: "session_key no_faults demo_path demo_welcomed = Some ''k7''"
proof -
  let ?c = "demo_told (SWelcome 1 5 ''ann'' '' k7 '' demo_stats)"
  have "nc_working ?c" "nc_intents ?c = unbounded_channel"
    using demo_open_eval [OF demo_memory_opened(2)] by (simp_all add: demo_told_def)
  note step = message_step [OF this demo_told_handle]
  have "stored demo_path demo_welcomed = stored demo_path (persist no_faults demo_path (Some '' k7 '') ?c)"
    unfolding demo_welcomed_def step
    by (simp add: feed_def process_effects_def emit_log_def publish_def persist_def stored_def session_key_def demo_around_def)
  also have "... = Some ''k7''"
    by (simp add: stored_persist trim_def char_width_def white_def is_whitespace_def)
  finally show ?thesis by (simp add: stored_def)
qed


theorem session_key_survives_witness:
  "\<exists>k is out (c' :: unit native_client). client_run (core_new k) is out (nc_core demo_welcomed)
     \<and> with_transport no_faults demo_path (nc_files demo_welcomed) = Inr c' \<and> cc_session_key (nc_core c') = Some ''k7''"
proof -
  obtain k "is" out and c' :: "unit native_client" where r: "client_run (core_new k) is out (nc_core demo_welcomed)"
      "session_key no_faults demo_path demo_welcomed = key_after k out"
      "with_transport no_faults demo_path (nc_files demo_welcomed) = Inr c'" "cc_session_key (nc_core c') = key_after k out"
    using session_key_survives [OF demo_welcomed_reach] by blast
  have "key_after k out = Some ''k7''" using r(2) demo_key by simp
  with r(4) have "cc_session_key (nc_core c') = Some ''k7''" by (rule trans)
  with r(1,3) show ?thesis by blast
qed


theorem refused_then_stuck_witness:
  "v_phase (client_snapshot (run_loop_step (demo_around demo_memory) demo_path
      (issue (IAuthenticateSession ''k8'' None) (run_loop_step (demo_around demo_memory) demo_path (demo_told (SRejected 1 ''session expired''))))))
   = Authenticating"
proof -
  have "nc_working (demo_told m)" "nc_intents (demo_told m) = unbounded_channel" "cc_connection_open (nc_core (demo_told m))" for m
    using demo_open_eval [OF demo_memory_opened(2)] by (simp_all add: demo_told_def)
  then show ?thesis
    using refused_then_stuck [OF _ _ demo_told_handle, where later = "[IListTables]"] by (simp add: Let_def)
qed

end
