(* ===== verification/Headless.thy ===== *)
theory Headless
  imports ClientCore
begin

text \<open>
  The scripted client, crate \<open>poker-client-headless\<close>: the harness around the core (\<open>harness.rs\<close>), scripts, their driver
  and their files (\<open>scenario.rs\<close>), and the replay of a file (\<open>main.rs\<close>).

  The JSON codec is a parameter, and so is \<open>dbg\<close>, how \<open>Debug\<close> quotes a string.  A panic is \<open>None\<close>.
\<close>

section \<open>The harness\<close>

record headless_client =
  hc_core :: client_core
  hc_effects :: "effect list"
  hc_snapshots :: "client_view list"

definition headless_new :: "string option \<Rightarrow> headless_client" where
  "headless_new initial_session_key =
     (let core = core_new initial_session_key in
      \<lparr>hc_core = core, hc_effects = [], hc_snapshots = [snapshot core]\<rparr>)"

text \<open>Each call records its effects and the view after it, and returns the effects.\<close>

definition recorded :: "client_core \<times> effect list \<Rightarrow> headless_client \<Rightarrow> effect list \<times> headless_client" where
  "recorded res h =
     (case res of (core, effs) \<Rightarrow>
        (effs, h\<lparr>hc_core := core, hc_effects := hc_effects h @ effs, hc_snapshots := hc_snapshots h @ [snapshot core]\<rparr>))"

definition headless_intent :: "intent \<Rightarrow> headless_client \<Rightarrow> effect list \<times> headless_client" where
  "headless_intent i h = recorded (handle_intent i (hc_core h)) h"

definition headless_inbound :: "server_message \<Rightarrow> headless_client \<Rightarrow> effect list \<times> headless_client" where
  "headless_inbound m h = recorded (handle_inbound m (hc_core h)) h"

definition headless_view :: "headless_client \<Rightarrow> client_view" where
  "headless_view h = snapshot (hc_core h)"

definition assert_phase :: "phase \<Rightarrow> headless_client \<Rightarrow> unit option" where
  "assert_phase expected h = (if v_phase (snapshot (hc_core h)) = expected then Some () else None)"

section \<open>Scripts\<close>

datatype step = Issue intent | Receive server_message | ExpectPhase phase | Expect string "client_view \<Rightarrow> bool"

record driver_result =
  dr_snapshots :: "client_view list"
  dr_failure :: "(nat \<times> string) option"

definition passed :: "driver_result \<Rightarrow> bool" where
  "passed r \<longleftrightarrow> dr_failure r = None"

fun debug_phase :: "(string \<Rightarrow> string) \<Rightarrow> phase \<Rightarrow> string" where
  "debug_phase dbg Disconnected = ''Disconnected''"
| "debug_phase dbg Connecting = ''Connecting''"
| "debug_phase dbg Authenticating = ''Authenticating''"
| "debug_phase dbg Lobby = ''Lobby''"
| "debug_phase dbg (Seated table_id seat) =
     ''Seated { table_id: '' @ to_string table_id @ '', seat: '' @ to_string seat @ '' }''"
| "debug_phase dbg (Ended reason) = ''Ended { reason: '' @ dbg reason @ '' }''"

text \<open>One step: the client after it, and the message of a failed expectation.\<close>

fun run_step :: "(string \<Rightarrow> string) \<Rightarrow> step \<Rightarrow> headless_client \<Rightarrow> string option \<times> headless_client" where
  "run_step dbg (Issue i) h = (None, snd (headless_intent i h))"
| "run_step dbg (Receive m) h = (None, snd (headless_inbound m h))"
| "run_step dbg (ExpectPhase expected) h =
     (if v_phase (headless_view h) \<noteq> expected
      then Some (''ExpectPhase: expected '' @ debug_phase dbg expected @ '', got '' @ debug_phase dbg (v_phase (headless_view h)))
      else None, h)"
| "run_step dbg (Expect label predicate) h =
     (if \<not> predicate (headless_view h) then Some (''Expect '' @ [CHR 39] @ label @ [CHR 39] @ '' failed'') else None, h)"

fun run_from :: "(string \<Rightarrow> string) \<Rightarrow> nat \<Rightarrow> step list \<Rightarrow> client_view list \<Rightarrow> headless_client \<Rightarrow> driver_result \<times> headless_client" where
  "run_from dbg k [] snapshots h = (\<lparr>dr_snapshots = snapshots, dr_failure = None\<rparr>, h)"
| "run_from dbg k (s # script) snapshots h =
     (case run_step dbg s h of
        (Some msg, h') \<Rightarrow> (\<lparr>dr_snapshots = snapshots @ [headless_view h'], dr_failure = Some (k, msg)\<rparr>, h')
      | (None, h') \<Rightarrow> run_from dbg (Suc k) script (snapshots @ [headless_view h']) h')"

definition driver_run :: "(string \<Rightarrow> string) \<Rightarrow> headless_client \<Rightarrow> step list \<Rightarrow> driver_result \<times> headless_client" where
  "driver_run dbg h script = run_from dbg 0 script [] h"

definition run_and_assert :: "(string \<Rightarrow> string) \<Rightarrow> headless_client \<Rightarrow> step list \<Rightarrow> headless_client option" where
  "run_and_assert dbg h script =
     (case driver_run dbg h script of (result, h') \<Rightarrow> (case dr_failure result of Some _ \<Rightarrow> None | None \<Rightarrow> Some h'))"

section \<open>Scripts on disk\<close>

datatype file_step = FileIssue intent | FileReceive server_message

fun into_step :: "file_step \<Rightarrow> step" where
  "into_step (FileIssue i) = Issue i"
| "into_step (FileReceive m) = Receive m"

fun from_step :: "step \<Rightarrow> file_step option" where
  "from_step (Issue i) = Some (FileIssue i)"
| "from_step (Receive m) = Some (FileReceive m)"
| "from_step (ExpectPhase _) = None"
| "from_step (Expect _ _) = None"

text \<open>The text of a file under its path; \<open>io\<close> is the failure of the file system, if any.\<close>

definition load_file_script ::
  "(string \<Rightarrow> string + file_step list) \<Rightarrow> string option \<Rightarrow> 'p \<Rightarrow> ('p \<rightharpoonup> string) \<Rightarrow> string + file_step list" where
  "load_file_script from_str io path files =
     (case io of
        Some e \<Rightarrow> Inl e
      | None \<Rightarrow>
          case files path of
            None \<Rightarrow> Inl ''No such file or directory''
          | Some text \<Rightarrow> (case from_str text of Inl e \<Rightarrow> Inl (''parse: '' @ e) | Inr script \<Rightarrow> Inr script))"

definition save_file_script ::
  "(file_step list \<Rightarrow> string + string) \<Rightarrow> (string \<times> ('p \<rightharpoonup> string)) option \<Rightarrow> 'p \<Rightarrow> file_step list \<Rightarrow> ('p \<rightharpoonup> string) \<Rightarrow>
     (string + unit) \<times> ('p \<rightharpoonup> string)" where
  "save_file_script to_string_pretty io path script files =
     (case to_string_pretty script of
        Inl e \<Rightarrow> (Inl (''encode: '' @ e), files)
      | Inr text \<Rightarrow> (case io of Some (e, files') \<Rightarrow> (Inl e, files') | None \<Rightarrow> (Inr (), files(path \<mapsto> text))))"

text \<open>\<open>main\<close> with one argument: the outcome of the replay, or why the file could not be loaded.\<close>

definition replay_file ::
  "(string \<Rightarrow> string) \<Rightarrow> (string \<Rightarrow> string + file_step list) \<Rightarrow> string option \<Rightarrow> 'p \<Rightarrow> ('p \<rightharpoonup> string) \<Rightarrow>
     string + (driver_result \<times> headless_client)" where
  "replay_file dbg from_str io path files =
     (case load_file_script from_str io path files of
        Inl e \<Rightarrow> Inl e
      | Inr file_script \<Rightarrow> Inr (driver_run dbg (headless_new None) (map into_step file_script)))"

fun discriminant_name :: "server_message \<Rightarrow> string" where
  "discriminant_name (SWelcome _ _ _ _ _) = ''Welcome''"
| "discriminant_name (SRejected _ _) = ''Rejected''"
| "discriminant_name (SGoodbye _) = ''Goodbye''"
| "discriminant_name SHeartbeat = ''Heartbeat''"
| "discriminant_name (STableList _) = ''TableList''"
| "discriminant_name (SJoinedTable _ _ _) = ''JoinedTable''"
| "discriminant_name (SLeftTable _) = ''LeftTable''"
| "discriminant_name (STableState _ _ _) = ''TableState''"
| "discriminant_name (STableEvent _ _) = ''TableEvent''"
| "discriminant_name (SPrompt _ _ _ _ _) = ''Prompt''"
| "discriminant_name (SActionRejected _) = ''ActionRejected''"
| "discriminant_name (SReplayEvents _ _) = ''ReplayEvents''"

fun step_one_line :: "(string \<Rightarrow> string) \<Rightarrow> step \<Rightarrow> string" where
  "step_one_line dbg (Issue (IConnect addr)) = ''Issue Connect('' @ addr @ '')''"
| "step_one_line dbg (Issue (IRegister _ username _ _)) = ''Issue Register(username='' @ username @ '')''"
| "step_one_line dbg (Issue (IAuthenticatePassword ident _ _)) = ''Issue AuthenticatePassword('' @ ident @ '')''"
| "step_one_line dbg (Issue (IAuthenticateSession _ _)) = ''Issue AuthenticateSession''"
| "step_one_line dbg (Issue IListTables) = ''Issue ListTables''"
| "step_one_line dbg (Issue (IJoinTable table_id buy_in)) =
     ''Issue JoinTable('' @ to_string table_id @ '', buy_in='' @ to_string buy_in @ '')''"
| "step_one_line dbg (Issue (ILeaveTable table_id)) = ''Issue LeaveTable('' @ to_string table_id @ '')''"
| "step_one_line dbg (Issue (ISubmitAction action)) = ''Issue SubmitAction('' @ debug_action action @ '')''"
| "step_one_line dbg (Issue IHeartbeat) = ''Issue Heartbeat''"
| "step_one_line dbg (Issue IDisconnect) = ''Issue Disconnect''"
| "step_one_line dbg (Issue IConnectionOpened) = ''Issue ConnectionOpened''"
| "step_one_line dbg (Issue (IConnectionLost reason)) = ''Issue ConnectionLost('' @ reason @ '')''"
| "step_one_line dbg (Receive msg) = ''Receive '' @ dbg (discriminant_name msg)"
| "step_one_line dbg (ExpectPhase p) = ''ExpectPhase('' @ debug_phase dbg p @ '')''"
| "step_one_line dbg (Expect label _) = ''Expect('' @ label @ '')''"

section \<open>What the driver finds\<close>

text \<open>The inputs that the core takes from a script, the core after a prefix of it, and the steps that fail.\<close>

fun inputs :: "step list \<Rightarrow> input list" where
  "inputs [] = []"
| "inputs (Issue i # ss) = FromHost i # inputs ss"
| "inputs (Receive m # ss) = FromServer m # inputs ss"
| "inputs (_ # ss) = inputs ss"

definition core_after :: "client_core \<Rightarrow> step list \<Rightarrow> nat \<Rightarrow> client_core" where
  "core_after c script n = fst (run_core (inputs (take n script)) c)"

fun fails :: "step \<Rightarrow> client_view \<Rightarrow> bool" where
  "fails (ExpectPhase p) v = (v_phase v \<noteq> p)"
| "fails (Expect _ predicate) v = (\<not> predicate v)"
| "fails _ v = False"

definition first_failure :: "client_core \<Rightarrow> step list \<Rightarrow> nat option" where
  "first_failure c script = find (\<lambda>n. fails (script ! n) (snapshot (core_after c script n))) [0..<length script]"

lemma run_step_core:
  "fst (run_step dbg s h) \<noteq> None \<longleftrightarrow> fails s (snapshot (hc_core h))"
  "hc_core (snd (run_step dbg s h)) = fst (run_core (inputs [s]) (hc_core h))"
  "hc_effects (snd (run_step dbg s h)) = hc_effects h @ snd (run_core (inputs [s]) (hc_core h))"
  by (cases s; simp add: headless_view_def headless_intent_def headless_inbound_def recorded_def split: prod.split)+

lemma run_core_append:
  "run_core (xs @ ys) c = (let (c', o1) = run_core xs c; (c'', o2) = run_core ys c' in (c'', o1 @ o2))"
  by (induction xs arbitrary: c) (simp_all add: Let_def split_beta)

lemma inputs_Cons: "inputs (s # ss) = inputs [s] @ inputs ss"
  by (cases s) simp_all

lemma core_after_Suc: "core_after c (s # script) (Suc n) = core_after (fst (run_core (inputs [s]) c)) script n"
  by (simp add: core_after_def inputs_Cons [of s "take n script"] run_core_append Let_def split_beta del: inputs.simps)

lemma find_map: "find P (map f xs) = map_option f (find (P \<circ> f) xs)"
  by (induction xs) simp_all

lemma upt_Suc_map: "[0..<Suc n] = 0 # map Suc [0..<n]"
  by (simp add: map_Suc_upt upt_conv_Cons del: upt_Suc)

lemma first_failure_Cons:
  "first_failure c (s # script) =
     (if fails s (snapshot c) then Some 0 else map_option Suc (first_failure (fst (run_core (inputs [s]) c)) script))"
  by (simp add: first_failure_def upt_Suc_map find_map core_after_Suc comp_def core_after_def [of c "s # script" 0] del: upt_Suc)

text \<open>How far a script runs, and what a run that started with these snapshots ends in.\<close>

definition steps_run :: "client_core \<Rightarrow> step list \<Rightarrow> nat" where
  "steps_run c script = (case first_failure c script of None \<Rightarrow> length script | Some n \<Rightarrow> Suc n)"

lemma run_from_spec:
  assumes "run_from dbg k script snapshots h = (res, h')"
  shows "map_option fst (dr_failure res) = map_option (\<lambda>n. k + n) (first_failure (hc_core h) script)
     \<and> dr_snapshots res = snapshots @ map (\<lambda>n. snapshot (core_after (hc_core h) script (Suc n))) [0..<steps_run (hc_core h) script]
     \<and> hc_core h' = core_after (hc_core h) script (steps_run (hc_core h) script)
     \<and> hc_effects h' = hc_effects h @ snd (run_core (inputs (take (steps_run (hc_core h) script) script)) (hc_core h))"
  using assms
proof (induction script arbitrary: k snapshots h)
  case Nil
  then show ?case by (auto simp: first_failure_def steps_run_def core_after_def)
next
  case (Cons s script)
  obtain f h1 where step: "run_step dbg s h = (f, h1)" by fastforce
  let ?c = "hc_core h" and ?c1 = "hc_core h1"
  have c1: "?c1 = fst (run_core (inputs [s]) ?c)" "hc_effects h1 = hc_effects h @ snd (run_core (inputs [s]) ?c)"
    and f: "f \<noteq> None \<longleftrightarrow> fails s (snapshot ?c)"
    using run_step_core [of dbg s h] step by simp_all
  have one: "core_after ?c (s # script) (Suc 0) = ?c1" using c1(1) by (simp add: core_after_Suc core_after_def)
  show ?case
  proof (cases f)
    case (Some msg)
    then have n: "first_failure ?c (s # script) = Some 0" using f by (simp add: first_failure_Cons)
    then have "steps_run ?c (s # script) = Suc 0" by (simp add: steps_run_def)
    then show ?thesis using Cons.prems step Some n one c1(2) by (auto simp: headless_view_def)
  next
    case None
    then have ok: "\<not> fails s (snapshot ?c)" using f by simp
    have sr: "steps_run ?c (s # script) = Suc (steps_run ?c1 script)"
      using ok c1(1) by (simp add: steps_run_def first_failure_Cons split: option.split)
    have ff: "first_failure ?c (s # script) = map_option Suc (first_failure ?c1 script)"
      using ok c1(1) by (simp add: first_failure_Cons)
    have later: "core_after ?c (s # script) (Suc n) = core_after ?c1 script n" for n
      using c1(1) by (simp add: core_after_Suc)
    have "run_from dbg (Suc k) script (snapshots @ [snapshot ?c1]) h1 = (res, h')"
      using Cons.prems step None by (simp add: headless_view_def)
    note IH = Cons.IH [OF this]
    have snaps: "dr_snapshots res = snapshots @ map (\<lambda>n. snapshot (core_after ?c (s # script) (Suc n))) [0..<steps_run ?c (s # script)]"
      using IH by (simp add: sr later upt_Suc_map core_after_def [of ?c1 script 0] comp_def del: upt_Suc)
    have effs: "hc_effects h' = hc_effects h @ snd (run_core (inputs (take (steps_run ?c (s # script)) (s # script))) ?c)"
    proof -
      have "inputs (take (steps_run ?c (s # script)) (s # script)) = inputs [s] @ inputs (take (steps_run ?c1 script) script)"
        unfolding sr take_Suc_Cons by (rule inputs_Cons)
      then show ?thesis using IH c1 by (simp add: run_core_append Let_def split_beta del: inputs.simps)
    qed
    have "map_option fst (dr_failure res) = map_option (\<lambda>n. k + n) (first_failure ?c (s # script))"
      using IH by (simp add: ff option.map_comp comp_def)
    then show ?thesis using IH snaps effs by (simp add: sr later)
  qed
qed

text \<open>
  The driver reports the first expectation that fails, and shows the client as it was.  On any script, the failure
  carries the index of the first expectation that is false in the state its prefix leads the core to; there is one snapshot for each
  step up to it, that of the core after the step; and the effects recorded are those of the core on the inputs up to it.
\<close>

theorem driver_finds_first_failure:
  assumes "driver_run dbg (headless_new k) script = (res, h)"
  shows "map_option fst (dr_failure res) = first_failure (core_new k) script
     \<and> dr_snapshots res = map (\<lambda>n. snapshot (core_after (core_new k) script (Suc n))) [0..<steps_run (core_new k) script]
     \<and> run_core (inputs (take (steps_run (core_new k) script) script)) (core_new k) = (hc_core h, hc_effects h)"
  using run_from_spec [OF assms [unfolded driver_run_def]]
  by (auto simp: headless_new_def Let_def core_after_def prod_eq_iff option.map_ident)

fun step_of_input :: "input \<Rightarrow> step" where
  "step_of_input (FromHost i) = Issue i"
| "step_of_input (FromServer m) = Receive m"

lemma file_steps: "map_option into_step (from_step (step_of_input i)) = Some (step_of_input i)"
  by (cases i) simp_all

lemma inputs_of_session: "inputs (map step_of_input is) = is"
proof (induction "is")
  case (Cons i "is")
  then show ?case by (cases i) simp_all
qed simp

lemma session_never_fails: "first_failure c (map step_of_input is) = None"
proof -
  have "\<not> fails (step_of_input i) v" for i v by (cases i) simp_all
  then show ?thesis by (simp add: first_failure_def find_None_iff)
qed

text \<open>
  A session saved to a file replays to the same end.  With a codec that reads back what it wrote, the inputs of any session
  saved as a script, loaded and replayed lead the core to the same state with the same effects, and
  no step fails.
\<close>

theorem saved_session_replays:
  assumes "\<And>script t. to_string_pretty script = Inr t \<Longrightarrow> from_str t = Inr script"
    and "save_file_script to_string_pretty None path (map (\<lambda>i. the (from_step (step_of_input i))) is) files = (Inr (), files')"
  shows "\<exists>res h. replay_file dbg from_str None path files' = Inr (res, h) \<and> passed res
     \<and> run_core is (core_new None) = (hc_core h, hc_effects h) \<and> length (dr_snapshots res) = length is"
proof -
  let ?fs = "map (\<lambda>i. the (from_step (step_of_input i))) is"
  obtain t where t: "to_string_pretty ?fs = Inr t" "files' = files(path \<mapsto> t)"
    using assms(2) by (auto simp: save_file_script_def split: sum.splits)
  have steps: "into_step (the (from_step (step_of_input i))) = step_of_input i" for i by (cases i) simp_all
  then have "map into_step ?fs = map step_of_input is" by simp
  then have replay: "replay_file dbg from_str None path files' = Inr (driver_run dbg (headless_new None) (map step_of_input is))"
    using assms(1) [OF t(1)] t(2) by (simp add: replay_file_def load_file_script_def del: map_map)
  obtain res h where run: "driver_run dbg (headless_new None) (map step_of_input is) = (res, h)" by fastforce
  show ?thesis
    using run_from_spec [OF run [unfolded driver_run_def]] replay run
    by (auto simp: headless_new_def Let_def session_never_fails steps_run_def inputs_of_session passed_def core_after_def prod_eq_iff)
qed

section \<open>Two scripts\<close>

definition wrong_script :: "step list" where
  "wrong_script = [Issue (IConnect ''test''), ExpectPhase Lobby, Issue IDisconnect]"

lemma wrong_script_fails: "first_failure (core_new None) wrong_script = Some 1"
  by (simp add: first_failure_def wrong_script_def core_after_def snapshot_def core_new_def set_phase_def upd_view_def
      empty_view_def upt_rec)

theorem driver_finds_first_failure_witness:
  "map_option fst (dr_failure (fst (driver_run id (headless_new None) wrong_script))) = Some 1
   \<and> length (dr_snapshots (fst (driver_run id (headless_new None) wrong_script))) = 2"
proof -
  obtain res h where run: "driver_run id (headless_new None) wrong_script = (res, h)" by fastforce
  show ?thesis
    using driver_finds_first_failure [OF run] run wrong_script_fails by (simp add: steps_run_def)
qed

definition short_session :: "input list" where
  "short_session = [FromHost (IConnect ''addr''), FromServer (SWelcome 1 1 ''alice'' ''abc'' demo_stats)]"

definition one_script :: "file_step list \<Rightarrow> string + string" where
  "one_script script =
     (if script = map (\<lambda>i. the (from_step (step_of_input i))) short_session then Inr ''json'' else Inl ''unsupported'')"

definition one_text :: "string \<Rightarrow> string + file_step list" where
  "one_text t =
     (if t = ''json'' then Inr (map (\<lambda>i. the (from_step (step_of_input i))) short_session) else Inl ''unsupported'')"

theorem saved_session_replays_witness:
  "\<exists>res h. replay_file id one_text None (0 :: nat) [0 \<mapsto> ''json''] = Inr (res, h) \<and> passed res
     \<and> run_core short_session (core_new None) = (hc_core h, hc_effects h) \<and> length (dr_snapshots res) = length short_session"
proof (rule saved_session_replays)
  show "one_script script = Inr t \<Longrightarrow> one_text t = Inr script" for script t
    by (auto simp: one_script_def one_text_def split: if_splits)
  show "save_file_script one_script None 0 (map (\<lambda>i. the (from_step (step_of_input i))) short_session) Map.empty
      = (Inr (), [0 \<mapsto> ''json''])"
    by (simp add: save_file_script_def one_script_def)
qed

end
