(* ===== verification/Human.thy ===== *)
theory Human
  imports StdText
begin

text \<open>
  The interactive agent of \<open>agent/human.rs\<close>: what it prints, how it reads a command, and which action it answers.

  The terminal is what standard input will deliver, and what was printed so far.  A line is what \<open>read_line\<close>
  leaves in the buffer; once the lines are used up the input is at its end, where \<open>read_line\<close> returns
  \<open>Ok(0)\<close> with an empty buffer, again and again.  \<open>to_lowercase\<close> is a parameter: it needs the tables of
  Unicode.  Printing a card whose byte is no card panics, which is \<open>None\<close>.
\<close>

section \<open>The terminal\<close>

record terminal =
  tm_in :: "(string + string) list"
  tm_out :: string

definition read_line :: "terminal \<Rightarrow> (string + string) \<times> terminal" where
  "read_line t = (case tm_in t of [] \<Rightarrow> (Inr [], t) | r # rs \<Rightarrow> (r, t\<lparr>tm_in := rs\<rparr>))"

definition print :: "string \<Rightarrow> terminal \<Rightarrow> terminal" where
  "print s t = t\<lparr>tm_out := tm_out t @ s\<rparr>"

definition println :: "string \<Rightarrow> terminal \<Rightarrow> terminal" where
  "println s = print (s @ [CHR 0x0A])"

definition signed :: "int \<Rightarrow> string" where
  "signed d = (if d < 0 then ''-'' else ''+'') @ to_string (nat \<bar>d\<bar>)"

section \<open>Printing\<close>

record human_agent =
  hm_my_seat :: "nat option"

definition human_new :: human_agent where
  "human_new = \<lparr>hm_my_seat = None\<rparr>"

fun format_action :: "action \<Rightarrow> string" where
  "format_action Fold = ''folds''"
| "format_action Check = ''checks''"
| "format_action Call = ''calls''"
| "format_action (Raise amount) = ''raises to '' @ to_string amount"
| "format_action AllIn = ''goes all-in''"

definition human_on_hand_start :: "nat \<Rightarrow> terminal \<Rightarrow> terminal" where
  "human_on_hand_start hand_id =
     println (newline @ str_repeat 50 double_dash @ newline @ ''  Hand #'' @ to_string hand_id @ newline
       @ str_repeat 50 double_dash)"

fun human_on_event :: "engine_event \<Rightarrow> human_agent \<Rightarrow> terminal \<Rightarrow> terminal option" where
  "human_on_event (BoardDealt street cards) ag t =
     do { cs \<leftarrow> map_opt card_fmt cards;
          Some (println (newline @ ''  ['' @ debug_street street @ ''] Board: '' @ join '' '' cs) t) }"
| "human_on_event (ActionTaken seat action pot) ag t =
     Some (if hm_my_seat ag = Some seat then t
           else println (''  Seat '' @ to_string seat @ '': '' @ format_action action @ ''  (pot: ''
             @ to_string pot @ '')'') t)"
| "human_on_event (HandStarted _ _ _) ag t = Some t"
| "human_on_event (HoleCardsDealt _ _) ag t = Some t"
| "human_on_event (PlayerAllIn _ _) ag t = Some t"
| "human_on_event (HandEnded _ _) ag t = Some t"

definition print_outcome :: "seat_outcome \<Rightarrow> terminal \<Rightarrow> terminal option" where
  "print_outcome out t =
     do { cards \<leftarrow> (case so_hole_cards out of
            Some (c0, c1) \<Rightarrow> do { a \<leftarrow> card_fmt c0; b \<leftarrow> card_fmt c1; Some (''  ['' @ a @ '' '' @ b @ '']'') }
          | None \<Rightarrow> Some ''  [folded]'');
          let colour = (if 0 \<le> so_chip_delta out then ''32'' else ''31'');
          Some (println (''  Seat '' @ to_string (so_seat out) @ cards @ ''  '' @ CHR 0x1B # ''['' @ colour @ ''m''
            @ signed (so_chip_delta out) @ CHR 0x1B # ''[0m'') t) }"

definition human_on_hand_end :: "hand_result \<Rightarrow> terminal \<Rightarrow> terminal option" where
  "human_on_hand_end result t =
     do { let t = println (newline @ str_repeat 2 dash @ '' Result '' @ str_repeat 38 dash) t;
          board \<leftarrow> (if hr_board result = [] then Some [] else map_opt card_fmt (hr_board result));
          let t = (if hr_board result = [] then t else println (''  Board: '' @ join '' '' board) t);
          t \<leftarrow> for_each (hr_seats result) print_outcome t;
          Some (println (str_repeat 50 dash) t) }"

definition print_player :: "observation \<Rightarrow> public_player_state \<Rightarrow> terminal \<Rightarrow> terminal" where
  "print_player obs p =
     println (''  '' @ pad_right 6 (to_string (pp_seat p)) @ '' '' @ pad_left 7 (to_string (pp_stack p)) @ '' ''
       @ pad_left 7 (to_string (pp_bet_this_street p)) @ ''  ''
       @ (if pp_is_folded p then ''folded'' else if pp_is_all_in p then ''all-in'' else ''active'')
       @ (if pp_seat p = o_position obs then '' '' @ left_arrow @ '' you'' else []))"

definition print_actions :: "legal_actions \<Rightarrow> terminal \<Rightarrow> terminal" where
  "print_actions la t =
     (let t = println (newline @ ''  Actions:'') t;
          t = (if la_can_check la then println ''    [c]heck'' t else t);
          t = (if la_can_call la then println (''    [c]all  ('' @ to_string (la_call_amount la) @ '' chips)'') t else t);
          t = (if la_can_raise la
               then println (''    [r]aise <amount>  ('' @ to_string (la_min_raise la) @ '' '' @ en_dash @ '' ''
                      @ to_string (la_max_raise la) @ '' total)'') t
               else t);
          t = (if 0 < la_all_in_amount la
               then println (''    [a]ll-in  ('' @ to_string (la_all_in_amount la) @ '' chips)'') t else t)
      in println ''    [f]old'' t)"

definition print_table_state :: "observation \<Rightarrow> terminal \<Rightarrow> terminal option" where
  "print_table_state obs t =
     do { let t = println (newline @ str_repeat 2 dash @ '' '' @ debug_street (o_street obs) @ '' ''
                    @ str_repeat 41 dash) t;
          board \<leftarrow> (if o_board obs = [] then Some [] else map_opt card_fmt (o_board obs));
          let t = (if o_board obs = [] then t else println (''  Board:  '' @ join '' '' board) t);
          a \<leftarrow> card_fmt (fst (o_hole_cards obs));
          b \<leftarrow> card_fmt (snd (o_hole_cards obs));
          let t = println (''  Your hand:  '' @ a @ '' '' @ b @ ''  (seat '' @ to_string (o_position obs) @ '')'') t;
          let t = println [] t;
          let t = println (''  '' @ pad_right 6 ''Seat'' @ '' '' @ pad_left 7 ''Stack'' @ '' '' @ pad_left 7 ''Bet''
                    @ ''  Status'') t;
          let t = println (''  '' @ str_repeat 34 dash) t;
          let t = fold (print_player obs) (o_players obs) t;
          pot \<leftarrow> pot_total (o_pot obs);
          let t = println (newline @ ''  Pot: '' @ to_string pot) t;
          Some (print_actions (o_legal_actions obs) t) }"

section \<open>Reading a command\<close>

definition parse_input :: "string \<Rightarrow> legal_actions \<Rightarrow> string + action" where
  "parse_input input la =
     (let (first, rest) = splitn_2_white input; cmd = trim first; arg = map_option trim rest;
          bounds = to_string (la_min_raise la) @ '' '' @ en_dash @ '' '' @ to_string (la_max_raise la) in
      if cmd \<in> {''f'', ''fold''} then Inr Fold
      else if cmd \<in> {''c'', ''check''} \<and> la_can_check la then Inr Check
      else if cmd \<in> {''c'', ''call''} \<and> la_can_call la then Inr Call
      else if cmd \<in> {''c'', ''check'', ''call''} then Inl ''neither check nor call is legal here''
      else if cmd \<in> {''a'', ''allin'', ''all-in'', ''all_in''} \<and> 0 < la_all_in_amount la then Inr AllIn
      else if cmd \<in> {''a'', ''allin'', ''all-in'', ''all_in''} then Inl ''you have no chips to go all-in with''
      else if cmd \<in> {''r'', ''raise''} then
        (if \<not> la_can_raise la then Inl ''raise is not legal here''
         else case arg of
           None \<Rightarrow> Inl (''usage: raise <amount>  ('' @ bounds @ '')'')
         | Some amount_str \<Rightarrow>
             case parse_unsigned u32_lim amount_str of
               None \<Rightarrow> Inl ([CHR 0x27] @ amount_str @ [CHR 0x27] @ '' is not a valid chip amount'')
             | Some amount \<Rightarrow>
                 if amount < la_min_raise la \<or> la_max_raise la < amount
                 then Inl (''raise amount must be between '' @ to_string (la_min_raise la) @ '' and ''
                        @ to_string (la_max_raise la) @ '' (got '' @ to_string amount @ '')'')
                 else Inr (Raise amount))
      else Inl (''unknown command '' @ [CHR 0x27] @ cmd @ [CHR 0x27] @ '' '' @ em_dash
             @ '' try: fold, check, call, raise <amount>, allin''))"

text \<open>The loop of \<open>read_action\<close>; going round for ever is \<open>None\<close>.\<close>

partial_function (option) read_action ::
  "(string \<Rightarrow> string) \<Rightarrow> legal_actions \<Rightarrow> terminal \<Rightarrow> (action \<times> terminal) option" where
  "read_action to_lowercase la t =
     (case read_line (print ''> '' t) of
        (Inl e, t') \<Rightarrow> Some (Fold, t')
      | (Inr line, t') \<Rightarrow>
          (case parse_input (to_lowercase (trim line)) la of
             Inr action \<Rightarrow> Some (action, t')
           | Inl msg \<Rightarrow> read_action to_lowercase la (println (''  '' @ msg) t')))"

definition human_act ::
  "(string \<Rightarrow> string) \<Rightarrow> observation \<Rightarrow> human_agent \<times> terminal \<Rightarrow> (action \<times> human_agent \<times> terminal) option" where
  "human_act to_lowercase obs = (\<lambda>(ag, t).
     do { t \<leftarrow> print_table_state obs t;
          (action, t) \<leftarrow> read_action to_lowercase (o_legal_actions obs) t;
          Some (action, ag\<lparr>hm_my_seat := Some (o_position obs)\<rparr>, t) })"

section \<open>The answer\<close>

lemma parse_input_legal: "parse_input s la = Inr a \<Longrightarrow> is_legal la a"
  by (auto simp: parse_input_def Let_def split: prod.splits if_splits option.splits)

text \<open>What one line of the input settles, and the first line that settles something.\<close>

definition answer_of :: "(string \<Rightarrow> string) \<Rightarrow> legal_actions \<Rightarrow> string + string \<Rightarrow> action option" where
  "answer_of to_lowercase la r =
     (case r of Inl _ \<Rightarrow> Some Fold
      | Inr line \<Rightarrow> (case parse_input (to_lowercase (trim line)) la of Inr a \<Rightarrow> Some a | Inl _ \<Rightarrow> None))"

fun first_answer ::
  "(string \<Rightarrow> string) \<Rightarrow> legal_actions \<Rightarrow> (string + string) list \<Rightarrow> (action \<times> (string + string) list) option" where
  "first_answer to_lowercase la [] = None"
| "first_answer to_lowercase la (r # rs) =
     (case answer_of to_lowercase la r of Some a \<Rightarrow> Some (a, rs) | None \<Rightarrow> first_answer to_lowercase la rs)"

lemma print_in [simp]: "tm_in (print s t) = tm_in t" "tm_in (println s t) = tm_in t"
  by (simp_all add: print_def println_def)

lemma trim_Nil [simp]: "trim [] = []"
  by (simp add: trim_def)

lemma parse_input_Nil: "\<exists>msg. parse_input [] la = Inl msg"
  by (simp add: parse_input_def splitn_2_white_def)

lemma read_action_sound:
  assumes "read_action to_lowercase la t = Some y" and "to_lowercase [] = []"
  shows "first_answer to_lowercase la (tm_in t) = Some (fst y, tm_in (snd y))"
proof -
  have "to_lowercase [] = [] \<longrightarrow> first_answer to_lowercase la (tm_in t) = Some (fst y, tm_in (snd y))"
  proof (rule read_action.raw_induct [OF _ assms(1)], intro impI)
    fix go :: "(string \<Rightarrow> string) \<Rightarrow> legal_actions \<Rightarrow> terminal \<Rightarrow> (action \<times> terminal) option"
      and to_lowercase :: "string \<Rightarrow> string" and la t and y :: "action \<times> terminal"
    assume IH: "\<And>to_lowercase la t y. go to_lowercase la t = Some y \<Longrightarrow>
        to_lowercase [] = [] \<longrightarrow> first_answer to_lowercase la (tm_in t) = Some (fst y, tm_in (snd y))"
      and body: "(case read_line (print ''> '' t) of
          (Inl e, t') \<Rightarrow> Some (Fold, t')
        | (Inr line, t') \<Rightarrow>
            (case parse_input (to_lowercase (trim line)) la of
               Inr action \<Rightarrow> Some (action, t')
             | Inl msg \<Rightarrow> go to_lowercase la (println (''  '' @ msg) t'))) = Some y"
      and low: "to_lowercase [] = []"
    obtain msg where msg: "parse_input [] la = Inl msg" using parse_input_Nil by blast
    show "first_answer to_lowercase la (tm_in t) = Some (fst y, tm_in (snd y))"
    proof (cases "tm_in t")
      case Nil
      then have "go to_lowercase la (println (''  '' @ msg) (print ''> '' t)) = Some y"
        using body msg low by (simp add: read_line_def)
      from IH [OF this] Nil low show ?thesis by simp
    next
      case (Cons r rs)
      then show ?thesis
        using body low by (auto simp: read_line_def answer_of_def split: sum.splits dest: IH)
    qed
  qed
  then show ?thesis using assms(2) by blast
qed

lemma read_action_complete:
  "first_answer to_lowercase la (tm_in t) = Some (a, rs) \<Longrightarrow> \<exists>t'. read_action to_lowercase la t = Some (a, t') \<and> tm_in t' = rs"
proof (induction "tm_in t" arbitrary: t)
  case (Cons r rest)
  note [simp] = read_line_def answer_of_def
  show ?case
  proof (cases r)
    case (Inl e)
    then show ?thesis using Cons.hyps(2) Cons.prems by (subst read_action.simps) (auto simp flip: Cons.hyps(2))
  next
    case (Inr line)
    show ?thesis
    proof (cases "parse_input (to_lowercase (trim line)) la")
      case (Inl msg)
      let ?t = "println (''  '' @ msg) (print ''> '' t\<lparr>tm_in := rest\<rparr>)"
      have "read_action to_lowercase la t = read_action to_lowercase la ?t"
        using Inl Inr by (subst read_action.simps) (simp flip: Cons.hyps(2) add: print_def)
      then show ?thesis
        using Cons.hyps(1) [of ?t] Cons.prems Inl Inr by (simp flip: Cons.hyps(2))
    next
      case (Inr a)
      then show ?thesis using \<open>r = Inr line\<close> Cons.prems by (subst read_action.simps) (simp flip: Cons.hyps(2))
    qed
  qed
qed simp

lemma first_answer_Some:
  "first_answer to_lowercase la rs = Some (a, rest) \<Longrightarrow> \<exists>r \<in> set rs. answer_of to_lowercase la r = Some a"
  by (induction rs) (auto split: option.splits)

lemma first_answer_None:
  "first_answer to_lowercase la rs = None \<longleftrightarrow> (\<forall>r \<in> set rs. answer_of to_lowercase la r = None)"
  by (induction rs) (auto split: option.splits)

lemma answer_of_legal: "answer_of to_lowercase la r = Some a \<Longrightarrow> is_legal la a"
  by (auto simp: answer_of_def parse_input_legal split: sum.splits)

text \<open>
  (C35) The person at the terminal answers the action of the first line that names a legal one (or folds at a
  read error), and leaves the lines after it unread; whatever is answered is legal.  When no line does, the agent
  never answers: at the end of the input the prompt comes again for ever, although a comment of
  \<open>read_action\<close> promises a fold.
\<close>

theorem human_answers_first_command:
  assumes "to_lowercase [] = []"
  shows "map_option (\<lambda>(a, t'). (a, tm_in t')) (read_action to_lowercase la t) = first_answer to_lowercase la (tm_in t)
    \<and> (\<forall>a t'. read_action to_lowercase la t = Some (a, t') \<longrightarrow> is_legal la a)
    \<and> (read_action to_lowercase la t = None \<longleftrightarrow> (\<forall>r \<in> set (tm_in t). answer_of to_lowercase la r = None))"
proof (intro conjI allI impI)
  show eq: "map_option (\<lambda>(a, t'). (a, tm_in t')) (read_action to_lowercase la t) = first_answer to_lowercase la (tm_in t)"
  proof (cases "read_action to_lowercase la t")
    case None
    then show ?thesis using read_action_complete by (cases "first_answer to_lowercase la (tm_in t)") fastforce+
  next
    case (Some y)
    then show ?thesis using read_action_sound [OF Some assms] by (simp add: case_prod_unfold)
  qed
  show "is_legal la a" if "read_action to_lowercase la t = Some (a, t')" for a t'
  proof -
    have "first_answer to_lowercase la (tm_in t) = Some (a, tm_in t')" using eq that by simp
    then show ?thesis using first_answer_Some answer_of_legal by blast
  qed
  show "read_action to_lowercase la t = None \<longleftrightarrow> (\<forall>r \<in> set (tm_in t). answer_of to_lowercase la r = None)"
    using eq by (simp flip: first_answer_None) (metis map_option_is_None)
qed

section \<open>Commands\<close>

text \<open>What to type for an action.\<close>

fun command_for :: "action \<Rightarrow> string" where
  "command_for Fold = ''fold''"
| "command_for Check = ''check''"
| "command_for Call = ''call''"
| "command_for (Raise n) = ''raise '' @ to_string n"
| "command_for AllIn = ''allin''"

lemma to_string_printable:
  "list_all ascii (to_string n)" "c \<in> set (to_string n) \<Longrightarrow> \<not> white [c]" "trim (to_string n) = to_string n"
proof -
  have all: "\<forall>c \<in> set (to_string n). ascii c \<and> \<not> white [c]"
    using to_string_chars [of n] by (auto simp: list_all_iff)
  then show ascii: "list_all ascii (to_string n)" and "c \<in> set (to_string n) \<Longrightarrow> \<not> white [c]"
    by (auto simp: list_all_iff)
  show "trim (to_string n) = to_string n"
    by (rule trim_id [OF ascii]) (use all in auto)
qed

lemma splitn_2_white_word:
  assumes "list_all (\<lambda>c. ascii c \<and> \<not> white [c]) w"
  shows "splitn_2_white w = (w, None)"
    and "list_all ascii v \<Longrightarrow> splitn_2_white (w @ CHR '' '' # v) = (w, Some v)"
proof -
  have w: "list_all ascii w" "\<And>c. c \<in> set w \<Longrightarrow> \<not> white [c]" using assms by (auto simp: list_all_iff)
  have blank: "white '' ''" "ascii (CHR '' '')" by (simp_all add: white_def is_whitespace_def ascii_def)
  show "splitn_2_white w = (w, None)"
  proof -
    have tw: "takeWhile (\<lambda>ch. \<not> white ch) (map (\<lambda>c. [c]) w) = map (\<lambda>c. [c]) w"
      and dw: "dropWhile (\<lambda>ch. \<not> white ch) (map (\<lambda>c. [c]) w) = []"
      using w(2) by (auto simp: takeWhile_eq_all_conv dropWhile_eq_Nil_conv)
    show ?thesis unfolding splitn_2_white_def encoded_chars_ascii [OF w(1)] tw dw by simp
  qed
  show "splitn_2_white (w @ CHR '' '' # v) = (w, Some v)" if "list_all ascii v"
  proof -
    have "encoded_chars (w @ CHR '' '' # v) = map (\<lambda>c. [c]) w @ '' '' # map (\<lambda>c. [c]) v"
      using encoded_chars_ascii [of "w @ CHR '' '' # v"] w(1) blank(2) that by simp
    moreover have "takeWhile (\<lambda>ch. \<not> white ch) (map (\<lambda>c. [c]) w @ '' '' # r) = map (\<lambda>c. [c]) w"
      and "dropWhile (\<lambda>ch. \<not> white ch) (map (\<lambda>c. [c]) w @ '' '' # r) = '' '' # r" for r
      using w(2) blank(1) by (induction w) auto
    ultimately show ?thesis by (simp only: splitn_2_white_def list.case concat_singletons)
  qed
qed

lemma trim_line:
  assumes "list_all ascii s" and "s \<noteq> []" and "\<not> white [hd s]" and "\<not> white [last s]"
  shows "trim (s @ newline) = s"
proof -
  have blank: "white newline" "ascii (CHR 0x0A)" by (simp_all add: white_def is_whitespace_def ascii_def)
  have "trim (s @ newline) = trim s"
    using assms blank encoded_chars_ascii [of s] encoded_chars_ascii [of "s @ newline"]
    by (cases s) (simp_all add: trim_def)
  then show ?thesis using trim_id [OF assms] by simp
qed

lemma command_printable:
  "list_all ascii (command_for a)" "command_for a \<noteq> []" "\<not> white [hd (command_for a)]" "\<not> white [last (command_for a)]"
proof -
  have w: "\<not> white [c]" if "c \<in> set (''fold'' @ ''check'' @ ''call'' @ ''allin'' @ ''raise'')" for c
    using that by (auto simp: white_def is_whitespace_def)
  show "list_all ascii (command_for a)" "command_for a \<noteq> []" "\<not> white [hd (command_for a)]"
    by (cases a; simp add: w to_string_printable(1) ascii_def)+
  show "\<not> white [last (command_for a)]"
    by (cases a) (simp_all add: w to_string_printable(2) [OF last_in_set])
qed

lemma parse_command:
  assumes "is_legal la a" and "\<And>n. a = Raise n \<Longrightarrow> n < u32_lim"
  shows "parse_input (command_for a) la = Inr a"
proof -
  have plain: "splitn_2_white w = (w, None) \<and> trim w = w" if "w \<in> {''fold'', ''check'', ''call'', ''allin''}" for w
    using that splitn_2_white_word(1) [of w] trim_id [of w]
    by (auto simp: ascii_def white_def is_whitespace_def)
  show ?thesis
  proof (cases a)
    case (Raise n)
    have "splitn_2_white (''raise'' @ CHR '' '' # to_string n) = (''raise'', Some (to_string n))"
      by (rule splitn_2_white_word(2)) (simp_all add: to_string_printable(1) ascii_def white_def is_whitespace_def)
    moreover have "trim ''raise'' = ''raise''"
      by (rule trim_id) (simp_all add: ascii_def white_def is_whitespace_def)
    ultimately show ?thesis
      using assms Raise by (simp add: parse_input_def to_string_printable(3) parse_to_string)
  qed (use assms(1) plain in \<open>simp_all add: parse_input_def\<close>)
qed

text \<open>
  Every legal action can be typed: its command line, with the newline that ends it, is answered with
  exactly that action, for raises up to the largest \<open>u32\<close>.
\<close>

theorem command_line_roundtrip:
  assumes "is_legal la a" and "\<And>n. a = Raise n \<Longrightarrow> n < u32_lim" and "to_lowercase (command_for a) = command_for a"
  shows "answer_of to_lowercase la (Inr (command_for a @ newline)) = Some a"
  using assms trim_line [OF command_printable] parse_command [OF assms(1,2)] by (simp add: answer_of_def)

text \<open>A refused line, a raise, and a line that stays unread; and an input that ends after the refused line.\<close>

definition demo_terminal :: terminal where
  "demo_terminal = \<lparr>tm_in = [Inr (''bet 20'' @ newline), Inr (command_for (Raise 20) @ newline), Inr ''fold''], tm_out = []\<rparr>"

definition demo_legal :: legal_actions where
  "demo_legal = \<lparr>la_can_check = False, la_can_call = True, la_call_amount = 10, la_can_raise = True,
     la_min_raise = 20, la_max_raise = 200, la_all_in_amount = 200\<rparr>"

lemma demo_refused: "answer_of id demo_legal (Inr (''bet 20'' @ newline)) = None"
proof -
  have "trim (''bet 20'' @ newline) = ''bet 20''"
    by (rule trim_line) (simp_all add: ascii_def white_def is_whitespace_def)
  moreover have "splitn_2_white (''bet'' @ CHR '' '' # ''20'') = (''bet'', Some ''20'')"
    by (rule splitn_2_white_word(2)) (simp_all add: ascii_def white_def is_whitespace_def)
  moreover have "trim ''bet'' = ''bet''"
    by (rule trim_id) (simp_all add: ascii_def white_def is_whitespace_def)
  ultimately show ?thesis by (simp add: answer_of_def parse_input_def)
qed

theorem human_answers_first_command_witness:
  "map_option (\<lambda>(a, t'). (a, tm_in t')) (read_action id demo_legal demo_terminal) = Some (Raise 20, [Inr ''fold''])
   \<and> (read_action id demo_legal \<lparr>tm_in = [Inr (''bet 20'' @ newline)], tm_out = []\<rparr> = None)"
proof
  have "answer_of id demo_legal (Inr (command_for (Raise 20) @ newline)) = Some (Raise 20)"
    by (rule command_line_roundtrip) (simp_all add: demo_legal_def)
  then show "map_option (\<lambda>(a, t'). (a, tm_in t')) (read_action id demo_legal demo_terminal) = Some (Raise 20, [Inr ''fold''])"
    using human_answers_first_command [of id demo_legal demo_terminal] demo_refused
    by (simp add: demo_terminal_def)
  show "read_action id demo_legal \<lparr>tm_in = [Inr (''bet 20'' @ newline)], tm_out = []\<rparr> = None"
    using human_answers_first_command [of id demo_legal "\<lparr>tm_in = [Inr (''bet 20'' @ newline)], tm_out = []\<rparr>"] demo_refused
    by simp
qed

end
