(* ===== verification/Stats.thy ===== *)
theory Stats
  imports Game
begin

text \<open>
  The statistics sink of \<open>stats/mod.rs\<close>: counters per seat, updated by every engine event.  The
  counters are \<open>u64\<close> and the chip total is \<open>i64\<close>; they grow by at most one event or one hand's chips
  at a time and are kept without a bound.  The rates and the printed report are
  in \<open>Report\<close>.
\<close>

record seat_stats =
  ss_hands_dealt :: nat
  ss_hands_won :: nat
  ss_chip_delta_total :: int
  ss_vpip_hands :: nat
  ss_pfr_hands :: nat
  ss_aggressive_actions :: nat
  ss_passive_actions :: nat
  ss_total_pot :: nat

definition seat_stats_default :: seat_stats where
  "seat_stats_default =
     \<lparr>ss_hands_dealt = 0, ss_hands_won = 0, ss_chip_delta_total = 0, ss_vpip_hands = 0,
      ss_pfr_hands = 0, ss_aggressive_actions = 0, ss_passive_actions = 0, ss_total_pot = 0\<rparr>"

record stats_sink =
  st_seats :: "seat_stats list"
  st_current_street :: street
  st_vpip_this_hand :: "bool list"
  st_pfr_this_hand :: "bool list"

definition stats_new :: "nat \<Rightarrow> stats_sink" where
  "stats_new n_seats =
     \<lparr>st_seats = replicate n_seats seat_stats_default, st_current_street = Preflop,
      st_vpip_this_hand = replicate n_seats False, st_pfr_this_hand = replicate n_seats False\<rparr>"

definition n_seats :: "stats_sink \<Rightarrow> nat" where
  "n_seats s = length (st_seats s)"

definition hands_played :: "stats_sink \<Rightarrow> nat" where
  "hands_played s = (case st_seats s of [] \<Rightarrow> 0 | x # _ \<Rightarrow> ss_hands_dealt x)"

section \<open>Events\<close>

definition count_action :: "nat \<Rightarrow> action \<Rightarrow> stats_sink \<Rightarrow> stats_sink" where
  "count_action seat action s =
     (if length (st_seats s) \<le> seat then s
      else
        let x = st_seats s ! seat; preflop = (st_current_street s = Preflop) in
        case action of
          Raise _ \<Rightarrow>
            s\<lparr>st_seats := (st_seats s)[seat := x\<lparr>ss_aggressive_actions := ss_aggressive_actions x + 1\<rparr>],
              st_vpip_this_hand := (if preflop then (st_vpip_this_hand s)[seat := True] else st_vpip_this_hand s),
              st_pfr_this_hand := (if preflop then (st_pfr_this_hand s)[seat := True] else st_pfr_this_hand s)\<rparr>
        | AllIn \<Rightarrow>
            s\<lparr>st_seats := (st_seats s)[seat := x\<lparr>ss_aggressive_actions := ss_aggressive_actions x + 1\<rparr>],
              st_vpip_this_hand := (if preflop then (st_vpip_this_hand s)[seat := True] else st_vpip_this_hand s),
              st_pfr_this_hand := (if preflop then (st_pfr_this_hand s)[seat := True] else st_pfr_this_hand s)\<rparr>
        | Call \<Rightarrow>
            s\<lparr>st_seats := (st_seats s)[seat := x\<lparr>ss_passive_actions := ss_passive_actions x + 1\<rparr>],
              st_vpip_this_hand := (if preflop then (st_vpip_this_hand s)[seat := True] else st_vpip_this_hand s)\<rparr>
        | Fold \<Rightarrow> s
        | Check \<Rightarrow> s)"

definition pot_size :: "hand_result \<Rightarrow> nat" where
  "pot_size result = sum_list (map (nat \<circ> so_chip_delta) (filter (\<lambda>out. 0 < so_chip_delta out) (hr_seats result)))"

definition count_outcome :: "nat \<Rightarrow> seat_outcome \<Rightarrow> stats_sink \<Rightarrow> stats_sink" where
  "count_outcome pot out s =
     (let seat = so_seat out in
      if length (st_seats s) \<le> seat then s
      else if so_sat_out out then s
      else
        let x = st_seats s ! seat in
        s\<lparr>st_seats := (st_seats s)[seat :=
            x\<lparr>ss_hands_dealt := ss_hands_dealt x + 1,
              ss_chip_delta_total := ss_chip_delta_total x + so_chip_delta out,
              ss_hands_won := ss_hands_won x + (if 0 < so_chip_delta out then 1 else 0),
              ss_vpip_hands := ss_vpip_hands x + (if st_vpip_this_hand s ! seat then 1 else 0),
              ss_pfr_hands := ss_pfr_hands x + (if st_pfr_this_hand s ! seat then 1 else 0),
              ss_total_pot := ss_total_pot x + pot\<rparr>]\<rparr>)"

fun stats_on_event :: "engine_event \<Rightarrow> stats_sink \<Rightarrow> stats_sink" where
  "stats_on_event (HandStarted _ _ _) s =
     s\<lparr>st_current_street := Preflop,
       st_vpip_this_hand := map (\<lambda>_. False) (st_vpip_this_hand s),
       st_pfr_this_hand := map (\<lambda>_. False) (st_pfr_this_hand s)\<rparr>"
| "stats_on_event (HoleCardsDealt _ _) s = s"
| "stats_on_event (BoardDealt street _) s = s\<lparr>st_current_street := street\<rparr>"
| "stats_on_event (ActionTaken seat action _) s = count_action seat action s"
| "stats_on_event (HandEnded _ result) s = fold (count_outcome (pot_size result)) (hr_seats result) s"
| "stats_on_event (PlayerAllIn _ _) s = s"

section \<open>The counters\<close>

definition stats_inv :: "stats_sink \<Rightarrow> bool" where
  "stats_inv s \<longleftrightarrow> length (st_vpip_this_hand s) = length (st_seats s)
     \<and> length (st_pfr_this_hand s) = length (st_seats s)
     \<and> (\<forall>i < length (st_seats s). (st_pfr_this_hand s ! i \<longrightarrow> st_vpip_this_hand s ! i)
          \<and> ss_pfr_hands (st_seats s ! i) \<le> ss_vpip_hands (st_seats s ! i)
          \<and> ss_vpip_hands (st_seats s ! i) \<le> ss_hands_dealt (st_seats s ! i)
          \<and> ss_hands_won (st_seats s ! i) \<le> ss_hands_dealt (st_seats s ! i))"

lemma stats_inv_new: "stats_inv (stats_new n)"
  by (simp add: stats_inv_def stats_new_def seat_stats_default_def)

lemma stats_inv_outcome: "stats_inv s \<Longrightarrow> stats_inv (count_outcome pot out s)"
  by (auto simp: stats_inv_def count_outcome_def Let_def nth_list_update le_SucI)

lemma stats_inv_outcomes: "stats_inv s \<Longrightarrow> stats_inv (fold (count_outcome pot) outs s)"
  by (induction outs arbitrary: s) (auto simp: stats_inv_outcome)

lemma stats_inv_event: "stats_inv s \<Longrightarrow> stats_inv (stats_on_event e s)"
proof (cases e)
  case (ActionTaken seat a pot)
  assume "stats_inv s"
  then show ?thesis
    by (cases a) (auto simp: ActionTaken stats_inv_def count_action_def Let_def nth_list_update)
qed (auto simp: stats_inv_outcomes, auto simp: stats_inv_def)

text \<open>Reference: what a list of events says about one seat.\<close>

fun outcomes_of :: "engine_event list \<Rightarrow> seat_outcome list" where
  "outcomes_of [] = []"
| "outcomes_of (HandEnded _ result # es) = hr_seats result @ outcomes_of es"
| "outcomes_of (_ # es) = outcomes_of es"

definition counted :: "nat \<Rightarrow> engine_event list \<Rightarrow> seat_outcome list" where
  "counted i es = filter (\<lambda>out. so_seat out = i \<and> \<not> so_sat_out out) (outcomes_of es)"

definition seat_totals :: "seat_stats \<Rightarrow> nat \<times> nat \<times> int" where
  "seat_totals x = (ss_hands_dealt x, ss_hands_won x, ss_chip_delta_total x)"

definition add_outcomes :: "seat_outcome list \<Rightarrow> nat \<times> nat \<times> int \<Rightarrow> nat \<times> nat \<times> int" where
  "add_outcomes outs = (\<lambda>(dealt, won, chips).
     (dealt + length outs, won + length (filter (\<lambda>out. 0 < so_chip_delta out) outs),
      chips + sum_list (map so_chip_delta outs)))"

lemma add_outcomes_append: "add_outcomes (xs @ ys) t = add_outcomes ys (add_outcomes xs t)"
  by (cases t) (simp add: add_outcomes_def)

lemma length_count_outcome [simp]: "length (st_seats (count_outcome pot out s)) = length (st_seats s)"
  by (simp add: count_outcome_def Let_def)

lemma totals_outcomes:
  assumes "i < length (st_seats s)"
  shows "length (st_seats (fold (count_outcome pot) outs s)) = length (st_seats s)"
    and "seat_totals (st_seats (fold (count_outcome pot) outs s) ! i)
       = add_outcomes (filter (\<lambda>out. so_seat out = i \<and> \<not> so_sat_out out) outs) (seat_totals (st_seats s ! i))"
  using assms
proof (induction outs arbitrary: s)
  case (Cons out outs)
  case 1
  then show ?case using Cons by simp
next
  case (Cons out outs)
  case 2
  have "seat_totals (st_seats (count_outcome pot out s) ! i)
      = (if so_seat out = i \<and> \<not> so_sat_out out then add_outcomes [out] (seat_totals (st_seats s ! i))
         else seat_totals (st_seats s ! i))"
    using 2 by (auto simp: count_outcome_def Let_def seat_totals_def add_outcomes_def nth_list_update)
  then show ?case
    using Cons.IH(2) [of "count_outcome pot out s"] 2 add_outcomes_append [of "[out]"
        "filter (\<lambda>out. so_seat out = i \<and> \<not> so_sat_out out) outs" "seat_totals (st_seats s ! i)"] by auto
qed (simp_all add: add_outcomes_def split: prod.split)

lemma totals_event:
  assumes "i < length (st_seats s)"
  shows "length (st_seats (stats_on_event e s)) = length (st_seats s)"
    and "seat_totals (st_seats (stats_on_event e s) ! i) = add_outcomes (counted i [e]) (seat_totals (st_seats s ! i))"
proof -
  have act: "length (st_seats (count_action seat a s)) = length (st_seats s)
      \<and> seat_totals (st_seats (count_action seat a s) ! i) = seat_totals (st_seats s ! i)" for seat a
    using assms by (cases a) (auto simp: count_action_def Let_def seat_totals_def nth_list_update)
  have none: "add_outcomes [] t = t" for t
    by (simp add: add_outcomes_def split_beta)
  show "length (st_seats (stats_on_event e s)) = length (st_seats s)"
    "seat_totals (st_seats (stats_on_event e s) ! i) = add_outcomes (counted i [e]) (seat_totals (st_seats s ! i))"
    using assms act totals_outcomes [OF assms] by (cases e; simp add: counted_def none)+
qed

lemma counted_Cons: "counted i (e # es) = counted i [e] @ counted i es"
  by (cases e) (simp_all add: counted_def)

lemma totals_run:
  "i < length (st_seats s) \<Longrightarrow>
     seat_totals (st_seats (fold stats_on_event es s) ! i) = add_outcomes (counted i es) (seat_totals (st_seats s ! i))
     \<and> length (st_seats (fold stats_on_event es s)) = length (st_seats s)"
proof (induction es arbitrary: s)
  case Nil
  then show ?case by (simp add: counted_def add_outcomes_def split_beta)
next
  case (Cons e es)
  then show ?case
    using totals_event [OF Cons.prems, of e]
    Cons.IH [of "stats_on_event e s"] Cons.prems
    by (simp add: counted_Cons [of i e es] add_outcomes_append)
qed

lemma stats_inv_run: "stats_inv s \<Longrightarrow> stats_inv (fold stats_on_event es s)"
  by (induction es arbitrary: s) (simp_all add: stats_inv_event)

text \<open>
  The statistics are exact and consistent: after any sequence of events, a seat's hands dealt, hands
  won and chip total are the number, the number of positive ones and the sum of its outcomes in the
  finished hands, the hands it sat out left aside; hands with a preflop raise are among those played
  voluntarily, and these and the hands won are among the hands dealt.
\<close>

theorem stats_exact:
  assumes "i < n"
  shows "let s = fold stats_on_event es (stats_new n); x = st_seats s ! i in
     ss_hands_dealt x = length (counted i es)
     \<and> ss_hands_won x = length (filter (\<lambda>out. 0 < so_chip_delta out) (counted i es))
     \<and> ss_chip_delta_total x = sum_list (map so_chip_delta (counted i es))
     \<and> ss_pfr_hands x \<le> ss_vpip_hands x \<and> ss_vpip_hands x \<le> ss_hands_dealt x \<and> ss_hands_won x \<le> ss_hands_dealt x
     \<and> n_seats s = n"
proof -
  let ?s = "fold stats_on_event es (stats_new n)"
  have i: "i < length (st_seats (stats_new n))" using assms by (simp add: stats_new_def)
  have "seat_totals (st_seats (stats_new n) ! i) = (0, 0, 0)"
    using assms by (simp add: stats_new_def seat_totals_def seat_stats_default_def)
  then have "seat_totals (st_seats ?s ! i) = add_outcomes (counted i es) (0, 0, 0)" "length (st_seats ?s) = n"
    using totals_run [OF i, of es] by (simp_all add: stats_new_def)
  moreover from this(2) have "ss_pfr_hands (st_seats ?s ! i) \<le> ss_vpip_hands (st_seats ?s ! i)"
      "ss_vpip_hands (st_seats ?s ! i) \<le> ss_hands_dealt (st_seats ?s ! i)"
      "ss_hands_won (st_seats ?s ! i) \<le> ss_hands_dealt (st_seats ?s ! i)"
    using stats_inv_run [OF stats_inv_new [of n], of es] assms by (simp_all add: stats_inv_def)
  ultimately show ?thesis
    by (simp add: seat_totals_def add_outcomes_def n_seats_def Let_def)
qed

definition demo_outcome :: "nat \<Rightarrow> int \<Rightarrow> bool \<Rightarrow> seat_outcome" where
  "demo_outcome seat delta out = \<lparr>so_seat = seat, so_hole_cards = None, so_chip_delta = delta, so_sat_out = out\<rparr>"

definition demo_events :: "engine_event list" where
  "demo_events = [HandStarted 1 0 0, ActionTaken 1 (Raise 6) 9,
     HandEnded 1 \<lparr>hr_hand_id = 1, hr_board = [],
       hr_seats = [demo_outcome 0 (-1) True, demo_outcome 1 3 False, demo_outcome 2 (-2) False]\<rparr>]"

theorem stats_exact_witness:
  "ss_hands_dealt (st_seats (fold stats_on_event demo_events (stats_new 3)) ! 1) = 1
   \<and> ss_chip_delta_total (st_seats (fold stats_on_event demo_events (stats_new 3)) ! 1) = 3"
  using stats_exact [of 1 3 demo_events]
  by (simp add: Let_def counted_def demo_events_def demo_outcome_def del: fold_simps)

text \<open>
  The counters of the seats need not agree: \<open>hands_played\<close>, which reads the first seat, is zero after
  a finished hand that the first seat sat out while the others played it.
\<close>

theorem hands_played_ignores_hand:
  "hands_played (fold stats_on_event demo_events (stats_new 3)) = 0
   \<and> ss_hands_dealt (st_seats (fold stats_on_event demo_events (stats_new 3)) ! 1) = 1"
  by (simp add: demo_events_def demo_outcome_def stats_new_def seat_stats_default_def hands_played_def
      count_action_def count_outcome_def Let_def numeral_3_eq_3)

end
