(* ===== verification/Report.thy ===== *)
theory Report
  imports Human Sim Stats Complex_Main
begin

text \<open>
  The report: the percentages of \<open>stats/mod.rs\<close> and the table \<open>print_report\<close> prints, and \<open>poker_report\<close>
  (\<open>poker-engine/src/main.rs\<close>) with its command line, its agents and its two ways of running.

  Rates are \<open>f64\<close>: every operation on reals is followed by the rounding \<open>rnd\<close>, a parameter.  \<open>fmt plus d x\<close> is
  the decimal text of \<open>x\<close> with \<open>d\<close> digits after the point, with a plus sign when asked for.  The options arrive as
  the record that \<open>clap\<close> fills.  Every error exits with its message.
\<close>

section \<open>Rates\<close>

definition div_f64 :: "(real \<Rightarrow> real) \<Rightarrow> real \<Rightarrow> nat \<Rightarrow> real" where
  "div_f64 rnd a n = rnd (rnd a / rnd (real n))"

definition win_pct :: "(real \<Rightarrow> real) \<Rightarrow> seat_stats \<Rightarrow> real" where
  "win_pct rnd s =
     (if ss_hands_dealt s = 0 then 0 else rnd (div_f64 rnd (real (ss_hands_won s)) (ss_hands_dealt s) * 100))"

definition chip_ev :: "(real \<Rightarrow> real) \<Rightarrow> seat_stats \<Rightarrow> real" where
  "chip_ev rnd s =
     (if ss_hands_dealt s = 0 then 0 else div_f64 rnd (real_of_int (ss_chip_delta_total s)) (ss_hands_dealt s))"

definition vpip_pct :: "(real \<Rightarrow> real) \<Rightarrow> seat_stats \<Rightarrow> real" where
  "vpip_pct rnd s =
     (if ss_hands_dealt s = 0 then 0 else rnd (div_f64 rnd (real (ss_vpip_hands s)) (ss_hands_dealt s) * 100))"

definition pfr_pct :: "(real \<Rightarrow> real) \<Rightarrow> seat_stats \<Rightarrow> real" where
  "pfr_pct rnd s =
     (if ss_hands_dealt s = 0 then 0 else rnd (div_f64 rnd (real (ss_pfr_hands s)) (ss_hands_dealt s) * 100))"

definition aggression_factor :: "(real \<Rightarrow> real) \<Rightarrow> seat_stats \<Rightarrow> real option" where
  "aggression_factor rnd s =
     (if ss_passive_actions s = 0 then None
      else Some (div_f64 rnd (real (ss_aggressive_actions s)) (ss_passive_actions s)))"

definition avg_pot :: "(real \<Rightarrow> real) \<Rightarrow> stats_sink \<Rightarrow> real" where
  "avg_pot rnd sink =
     (if hands_played sink = 0 then 0
      else div_f64 rnd (real (ss_total_pot (st_seats sink ! 0))) (hands_played sink))"

section \<open>The printed report\<close>

definition header_line :: "nat \<Rightarrow> string" where
  "header_line col_w =
     '' '' @ pad_right 4 ''Seat'' @ ''  '' @ pad_right col_w ''Agent'' @ ''  '' @ pad_left 6 ''Hands'' @ ''  ''
       @ pad_left 6 ''Win%'' @ ''  '' @ pad_left 8 ''Chip EV'' @ ''  '' @ pad_left 6 ''VPIP'' @ ''  '' @ pad_left 6 ''PFR''
       @ ''  '' @ pad_left 5 ''AF''"

definition seat_line ::
  "(real \<Rightarrow> real) \<Rightarrow> (bool \<Rightarrow> nat \<Rightarrow> real \<Rightarrow> string) \<Rightarrow> nat \<Rightarrow> nat \<Rightarrow> string \<Rightarrow> seat_stats \<Rightarrow> string" where
  "seat_line rnd fmt col_w seat name s =
     (let af = (case aggression_factor rnd s of Some v \<Rightarrow> fmt False 2 v | None \<Rightarrow> infinity_sign)
      in '' '' @ pad_right 4 (to_string seat) @ ''  '' @ pad_right col_w name @ ''  '' @ pad_left 6 (to_string (ss_hands_dealt s))
           @ ''  '' @ pad_left 5 (fmt False 1 (win_pct rnd s)) @ ''%  '' @ pad_left 8 (fmt True 2 (chip_ev rnd s)) @ ''  ''
           @ pad_left 5 (fmt False 1 (vpip_pct rnd s)) @ ''%  '' @ pad_left 5 (fmt False 1 (pfr_pct rnd s)) @ ''%  ''
           @ pad_left 5 af)"

definition print_report ::
  "(real \<Rightarrow> real) \<Rightarrow> (bool \<Rightarrow> nat \<Rightarrow> real \<Rightarrow> string) \<Rightarrow> stats_sink \<Rightarrow> string list \<Rightarrow> betting_rules \<Rightarrow> nat \<Rightarrow> string \<Rightarrow>
     terminal \<Rightarrow> terminal" where
  "print_report rnd fmt sink agent_names rules threads stack_label t =
     (let note = (if 1 < threads then ''  '' @ middle_dot @ ''  '' @ to_string threads @ '' threads'' else []);
          col_w = max (if agent_names = [] then 7 else Max (set (map length agent_names))) 7;
          header = header_line col_w;
          sep = str_repeat (length header) dash;
          t = println [] t;
          t = println (''poker_report  '' @ middle_dot @ ''  '' @ to_string (hands_played sink) @ '' hands  '' @ middle_dot
                @ ''  '' @ to_string (r_small_blind rules) @ ''/'' @ to_string (r_big_blind rules) @ '' NL Hold'' @ [CHR 0x27]
                @ ''em  '' @ middle_dot @ ''  '' @ stack_label @ ''bb starting stacks'' @ note) t;
          t = println [] t;
          t = println ('' '' @ sep) t;
          t = println header t;
          t = println ('' '' @ sep) t;
          t = fold (\<lambda>seat. println (seat_line rnd fmt col_w seat
                (if seat < length agent_names then agent_names ! seat else ''?'') (st_seats sink ! seat))) [0..<n_seats sink] t;
          t = println ('' '' @ sep) t;
          t = println (''  Avg pot: '' @ fmt False 1 (avg_pot rnd sink) @ '' chips'') t
      in println [] t)"

section \<open>Agents of the command line\<close>

datatype agent_spec =
  SpecCalling | SpecRandom "64 word" | SpecHuman | SpecNit "64 word" | SpecTag "64 word" | SpecLag "64 word"
| SpecManiac "64 word" | SpecTiltProne "64 word"

definition seeded_specs :: "(string \<times> (64 word \<Rightarrow> agent_spec)) list" where
  "seeded_specs = [(''random'', SpecRandom), (''nit'', SpecNit), (''tag'', SpecTag), (''lag'', SpecLag),
     (''maniac'', SpecManiac), (''tilt'', SpecTiltProne)]"

fun parse_seeded :: "(string \<times> (64 word \<Rightarrow> agent_spec)) list \<Rightarrow> string \<Rightarrow> string + agent_spec" where
  "parse_seeded [] s =
     Inl (''unknown agent '' @ quoted s @ '' '' @ em_dash @ '' valid options: calling, random:<seed>, human, ''
       @ ''nit:<seed>, tag:<seed>, lag:<seed>, maniac:<seed>, tilt:<seed>'')"
| "parse_seeded ((name, ctor) # rest) s =
     (case strip_prefix (name @ '':'') s of
        Some seed_str \<Rightarrow>
          (case parse_unsigned (2 ^ 64) seed_str of
             None \<Rightarrow> Inl (''invalid seed in '' @ quoted s)
           | Some seed \<Rightarrow> Inr (ctor (of_nat seed)))
      | None \<Rightarrow> parse_seeded rest s)"

definition spec_parse :: "string \<Rightarrow> string + agent_spec" where
  "spec_parse s =
     (let s = trim s in
      if s = ''calling'' then Inr SpecCalling
      else if s = ''human'' then Inr SpecHuman
      else parse_seeded seeded_specs s)"

fun spec_name :: "agent_spec \<Rightarrow> string" where
  "spec_name SpecCalling = ''calling''"
| "spec_name (SpecRandom s) = ''random:'' @ to_string (unat s)"
| "spec_name SpecHuman = ''human''"
| "spec_name (SpecNit s) = ''nit:'' @ to_string (unat s)"
| "spec_name (SpecTag s) = ''tag:'' @ to_string (unat s)"
| "spec_name (SpecLag s) = ''lag:'' @ to_string (unat s)"
| "spec_name (SpecManiac s) = ''maniac:'' @ to_string (unat s)"
| "spec_name (SpecTiltProne s) = ''tilt:'' @ to_string (unat s)"

definition is_human :: "agent_spec \<Rightarrow> bool" where
  "is_human spec \<longleftrightarrow> spec = SpecHuman"

text \<open>The boxed agent: one of the bots, or the person at the terminal.\<close>

fun spec_build :: "(64 word \<Rightarrow> 'r) \<Rightarrow> agent_spec \<Rightarrow> 'r bot + human_agent" where
  "spec_build seed_from_u64 SpecCalling = Inl CallingStation"
| "spec_build seed_from_u64 (SpecRandom s) = Inl (RandomAgent (seed_from_u64 s))"
| "spec_build seed_from_u64 SpecHuman = Inr human_new"
| "spec_build seed_from_u64 (SpecNit s) = Inl (Nit (seed_from_u64 s))"
| "spec_build seed_from_u64 (SpecTag s) = Inl (Tag (seed_from_u64 s))"
| "spec_build seed_from_u64 (SpecLag s) = Inl (Lag (seed_from_u64 s))"
| "spec_build seed_from_u64 (SpecManiac s) = Inl (Maniac (seed_from_u64 s))"
| "spec_build seed_from_u64 (SpecTiltProne s) = Inl (TiltProne (seed_from_u64 s) 0 30)"

section \<open>The command line\<close>

definition parse_blinds :: "string \<Rightarrow> string + nat \<times> nat" where
  "parse_blinds s =
     (case splitn_2 (CHR ''/'') s of
        (_, None) \<Rightarrow> Inl (''expected small/big format, got '' @ quoted s)
      | (small, Some big) \<Rightarrow>
          case parse_unsigned u32_lim (trim small) of
            None \<Rightarrow> Inl (''invalid small blind '' @ quoted small)
          | Some sb \<Rightarrow>
              case parse_unsigned u32_lim (trim big) of
                None \<Rightarrow> Inl (''invalid big blind '' @ quoted big)
              | Some bb \<Rightarrow>
                  if sb = 0 \<or> bb = 0 \<or> bb \<le> sb
                  then Inl (''blinds must satisfy 0 < sb < bb, got '' @ to_string sb @ ''/'' @ to_string bb)
                  else Inr (sb, bb))"

record report_cli =
  rc_hands :: nat
  rc_agents :: string
  rc_stack :: nat
  rc_stacks :: "string option"
  rc_blinds :: string
  rc_seed :: "64 word option"
  rc_threads :: nat

text \<open>The first failure of a list of parses, or all results.\<close>

fun collect_results :: "('e + 'a) list \<Rightarrow> 'e + 'a list" where
  "collect_results [] = Inr []"
| "collect_results (Inl e # rs) = Inl e"
| "collect_results (Inr x # rs) = map_sum id ((#) x) (collect_results rs)"

definition parse_stack :: "string \<Rightarrow> string + nat" where
  "parse_stack v =
     (case parse_unsigned u32_lim (trim v) of
        None \<Rightarrow> Inl (''invalid stack value '' @ quoted v @ '' in --stacks'')
      | Some n \<Rightarrow> Inr n)"

record report_setup =
  su_specs :: "agent_spec list"
  su_rules :: betting_rules
  su_stacks :: "nat list"
  su_config :: sim_config

definition report_setup :: "report_cli \<Rightarrow> string + report_setup" where
  "report_setup cli =
     (case collect_results (map spec_parse (split_on (CHR '','') (rc_agents cli))) of
        Inl e \<Rightarrow> Inl e
      | Inr specs \<Rightarrow>
          let n = length specs; human_count = length (filter is_human specs) in
          if n < 2 then Inl ''need at least 2 agents''
          else if 1 < human_count
          then Inl ''at most one human seat is supported (multiple humans share a terminal)''
          else if 0 < human_count \<and> 1 < rc_threads cli
          then Inl ''human agent is not compatible with --threads > 1''
          else
            case parse_blinds (rc_blinds cli) of
              Inl e \<Rightarrow> Inl e
            | Inr (sb, bb) \<Rightarrow>
                case (case rc_stacks cli of
                        None \<Rightarrow> Inr (replicate n (rc_stack cli))
                      | Some s \<Rightarrow>
                          case collect_results (map parse_stack (split_on (CHR '','') s)) of
                            Inl e \<Rightarrow> Inl e
                          | Inr parsed \<Rightarrow>
                              if length parsed \<noteq> n
                              then Inl (''--stacks has '' @ to_string (length parsed) @ '' values but there are ''
                                     @ to_string n @ '' agents'')
                              else Inr parsed) of
                  Inl e \<Rightarrow> Inl e
                | Inr stacks \<Rightarrow>
                    Inr \<lparr>su_specs = specs, su_rules = no_limit_holdem sb bb n, su_stacks = stacks,
                         su_config = \<lparr>sc_seed = (case rc_seed cli of Some base \<Rightarrow> Sequential base | None \<Rightarrow> RandomSeeds),
                                      sc_stack_policy = Reset\<rparr>\<rparr>)"

definition stack_label :: "nat list \<Rightarrow> string" where
  "stack_label stacks =
     (if list_all (\<lambda>i. stacks ! i = stacks ! (i + 1)) [0..<length stacks - 1] then to_string (stacks ! 0)
      else join ''/'' (map to_string stacks))"

section \<open>The table of a report\<close>

text \<open>
  The methods of the one seat that may hold a person.  The terminal belongs to that person during the run: nothing
  else prints before the report.
\<close>

record 'p person =
  ps_act :: "observation \<Rightarrow> 'p \<Rightarrow> (action \<times> 'p) option"
  ps_on_hand_start :: "nat \<Rightarrow> 'p \<Rightarrow> 'p"
  ps_on_event :: "engine_event \<Rightarrow> 'p \<Rightarrow> 'p"
  ps_on_hand_end :: "hand_result \<Rightarrow> 'p \<Rightarrow> 'p"

text \<open>\<open>HumanAgent\<close>; the hooks print cards the engine dealt, which never panics (\<open>hooks_print\<close> below).\<close>

definition printed :: "terminal option \<Rightarrow> terminal \<Rightarrow> terminal" where
  "printed r t = (case r of Some t' \<Rightarrow> t' | None \<Rightarrow> t)"

definition human_person :: "(string \<Rightarrow> string) \<Rightarrow> (human_agent \<times> terminal) person" where
  "human_person to_lowercase =
     \<lparr>ps_act = (\<lambda>obs p. map_option (\<lambda>(a, ag, t). (a, (ag, t))) (human_act to_lowercase obs p)),
      ps_on_hand_start = (\<lambda>h (ag, t). (ag, human_on_hand_start h t)),
      ps_on_event = (\<lambda>ev (ag, t). (ag, printed (human_on_event ev ag t) t)),
      ps_on_hand_end = (\<lambda>res (ag, t). (ag, printed (human_on_hand_end res t) t))\<rparr>"

record ('r, 'p) table_world =
  tw_agents :: "nat \<Rightarrow> 'r bot + 'p"
  tw_sink :: stats_sink

definition on_person :: "('p \<Rightarrow> 'p) \<Rightarrow> nat \<Rightarrow> ('r, 'p) table_world \<Rightarrow> ('r, 'p) table_world" where
  "on_person f seat w =
     (case tw_agents w seat of Inl _ \<Rightarrow> w | Inr p \<Rightarrow> w\<lparr>tw_agents := (tw_agents w)(seat := Inr (f p))\<rparr>)"

definition report_env ::
  "('r \<Rightarrow> nat \<Rightarrow> nat \<times> 'r) \<Rightarrow> ('r \<Rightarrow> 'f \<times> 'r) \<Rightarrow> ('f \<Rightarrow> nat \<Rightarrow> bool) \<Rightarrow> (card list \<Rightarrow> hand_rank option) \<Rightarrow> 'p person \<Rightarrow>
     (engine_event \<Rightarrow> stats_sink \<Rightarrow> stats_sink) \<Rightarrow> ('r, 'p) table_world env" where
  "report_env gen_index gen_f32 below rank person sink =
     \<lparr>e_act = (\<lambda>seat obs w.
        case tw_agents w seat of
          Inl b \<Rightarrow> do { (a, b) \<leftarrow> bot_act gen_index gen_f32 below rank obs b;
                      Some (a, w\<lparr>tw_agents := (tw_agents w)(seat := Inl b)\<rparr>) }
        | Inr p \<Rightarrow> do { (a, p) \<leftarrow> ps_act person obs p;
                      Some (a, w\<lparr>tw_agents := (tw_agents w)(seat := Inr p)\<rparr>) }),
      e_sink = (\<lambda>ev w. w\<lparr>tw_sink := sink ev (tw_sink w)\<rparr>),
      e_on_event = (\<lambda>seat ev. on_person (ps_on_event person ev) seat),
      e_on_hand_start = (\<lambda>seat h. on_person (ps_on_hand_start person h) seat),
      e_on_hand_end = (\<lambda>seat result w.
        case tw_agents w seat of
          Inl b \<Rightarrow> w\<lparr>tw_agents := (tw_agents w)(seat := Inl (bot_on_hand_end result b))\<rparr>
        | Inr _ \<Rightarrow> on_person (ps_on_hand_end person result) seat w)\<rparr>"

section \<open>Running\<close>

text \<open>\<open>(x as f64 * ratio).round() as u64\<close>.\<close>

definition scale_counter :: "(real \<Rightarrow> real) \<Rightarrow> real \<Rightarrow> nat \<Rightarrow> nat" where
  "scale_counter rnd ratio n = min (nat (round (rnd (rnd (real n) * ratio)))) (2 ^ 64 - 1)"

definition scale_seat :: "(real \<Rightarrow> real) \<Rightarrow> real \<Rightarrow> int \<Rightarrow> seat_stats \<Rightarrow> seat_stats" where
  "scale_seat rnd ratio delta s =
     s\<lparr>ss_chip_delta_total := delta, ss_hands_dealt := scale_counter rnd ratio (ss_hands_dealt s),
       ss_hands_won := scale_counter rnd ratio (ss_hands_won s), ss_vpip_hands := scale_counter rnd ratio (ss_vpip_hands s),
       ss_pfr_hands := scale_counter rnd ratio (ss_pfr_hands s), ss_total_pot := scale_counter rnd ratio (ss_total_pot s)\<rparr>"

definition scale_report :: "(real \<Rightarrow> real) \<Rightarrow> nat \<Rightarrow> nat \<Rightarrow> int list \<Rightarrow> stats_sink \<Rightarrow> stats_sink" where
  "scale_report rnd hands sample_hands deltas sink =
     (let ratio = rnd (rnd (real hands) / rnd (real sample_hands)) in
      fold (\<lambda>(seat, delta) sink.
          if seat < length (st_seats sink)
          then sink\<lparr>st_seats := (st_seats sink)[seat := scale_seat rnd ratio delta (st_seats sink ! seat)]\<rparr>
          else sink) (enumerate 0 deltas) sink)"

text \<open>
  The body of \<open>main\<close> after the setup.  \<open>play\<close> runs hands for a sink; \<open>world\<close> is a fresh set of agents with an empty
  \<open>StatsSink\<close>; \<open>rng t\<close> is the generator of the runner of thread \<open>t\<close>, and \<open>rng0\<close> the one of the run that is counted.
\<close>

definition report_run ::
  "(real \<Rightarrow> real) \<Rightarrow> ('g \<Rightarrow> 64 word \<times> 'g) \<Rightarrow> ((engine_event \<Rightarrow> stats_sink \<Rightarrow> stats_sink) \<Rightarrow> ('r, 'p) table_world play) \<Rightarrow>
     (nat \<Rightarrow> 'g) \<Rightarrow> 'g \<Rightarrow> report_setup \<Rightarrow> nat \<Rightarrow> nat \<Rightarrow> ('r, 'p) table_world \<Rightarrow> ('r, 'p) table_world option" where
  "report_run rnd next_u64 play rng rng0 su hands threads world =
     (let run = (\<lambda>hands. sim_run next_u64 (\<lambda>_ _ w. w) (\<lambda>_ w. w) (su_rules su) (play stats_on_event) hands (su_config su)
            (with_rng (su_stacks su) rng0) world) in
      if threads \<le> 1 then do { (_, _, w) \<leftarrow> run hands; Some w }
      else do { result \<leftarrow> run_parallel next_u64 (\<lambda>_ _ w. w) (\<lambda>_ w. w) (su_rules su) (play (\<lambda>_ s. s)) hands threads
                  (su_stacks su) (\<lambda>t. (rng t, world)) (su_config su);
                let sample_hands = max (hands div threads) 1;
                (_, _, w) \<leftarrow> run sample_hands;
                Some (w\<lparr>tw_sink := scale_report rnd hands sample_hands (sr_chip_deltas result) (tw_sink w)\<rparr>) })"

definition report_world :: "(64 word \<Rightarrow> 'r) \<Rightarrow> (human_agent \<Rightarrow> 'p) \<Rightarrow> agent_spec list \<Rightarrow> ('r, 'p) table_world" where
  "report_world seed_from_u64 sit specs =
     \<lparr>tw_agents = (\<lambda>seat. map_sum id sit (spec_build seed_from_u64 (if seat < length specs then specs ! seat else SpecCalling))),
      tw_sink = stats_new (length specs)\<rparr>"

definition poker_report ::
  "(real \<Rightarrow> real) \<Rightarrow> (bool \<Rightarrow> nat \<Rightarrow> real \<Rightarrow> string) \<Rightarrow> ('g \<Rightarrow> 64 word \<times> 'g) \<Rightarrow> (nat \<Rightarrow> 'g) \<Rightarrow> 'g \<Rightarrow> (64 word \<Rightarrow> 'r) \<Rightarrow>
     (report_setup \<Rightarrow> (engine_event \<Rightarrow> stats_sink \<Rightarrow> stats_sink) \<Rightarrow> ('r, 'p) table_world play) \<Rightarrow> (human_agent \<Rightarrow> 'p) \<Rightarrow>
     report_cli \<Rightarrow> (string + (('r, 'p) table_world \<times> terminal)) option" where
  "poker_report rnd fmt next_u64 rng rng0 seed_from_u64 play sit cli =
     (case report_setup cli of
        Inl e \<Rightarrow> Some (Inl (''Error: '' @ e))
      | Inr su \<Rightarrow>
          do { w \<leftarrow> report_run rnd next_u64 (play su) rng rng0 su (rc_hands cli) (rc_threads cli)
                 (report_world seed_from_u64 sit (su_specs su));
               Some (Inr (w, print_report rnd fmt (tw_sink w) (map spec_name (su_specs su)) (su_rules su) (rc_threads cli)
                       (stack_label (su_stacks su)) \<lparr>tm_in = [], tm_out = []\<rparr>)) })"

section \<open>Reading the command line\<close>

lemma of_nat_unat_64 [simp]: "unat (s :: 64 word) < 18446744073709551616"
  using unsigned_less [of s] by simp

lemma ascii_simps [simp]: "ascii c \<longleftrightarrow> (of_char c :: nat) < 128"
  by (simp add: ascii_def)

lemma letters:
  "list_all (\<lambda>c. \<not> white [c]) ''abcdefghijklmnopqrstuvwxyz:/,''"
  by (simp add: white_def is_whitespace_def)

lemma spec_name_wordy: "wordy (spec_name spec)"
  by (cases spec; use letters in \<open>simp\<close>)

lemma spec_roundtrip: "spec_parse (spec_name spec) = Inr spec"
proof -
  have "parse_unsigned (2 ^ 64) (to_string (unat s)) = Some (unat s)" for s :: "64 word"
    by (rule parse_to_string) simp
  then show ?thesis
    using trim_wordy [OF spec_name_wordy [of spec]]
    by (cases spec) (simp_all add: spec_parse_def seeded_specs_def)
qed

lemma to_string_no [simp]: "\<not> is_digit c \<Longrightarrow> c \<notin> set (to_string n)"
  using digits_only by blast

lemma not_digits [simp]: "\<not> is_digit (CHR '','')" "\<not> is_digit (CHR ''/'')"
  by (simp_all add: is_digit_def less_eq_char_def)

lemma spec_name_no_comma: "CHR '','' \<notin> set (spec_name spec)"
  by (cases spec) simp_all

lemma parse_blinds_roundtrip:
  assumes "0 < sb" and "sb < bb" and "bb < u32_lim"
  shows "parse_blinds (to_string sb @ ''/'' @ to_string bb) = Inr (sb, bb)"
proof -
  have "splitn_2 (CHR ''/'') (to_string sb @ ''/'' @ to_string bb) = (to_string sb, Some (to_string bb))"
    using splitn_2_join [of "CHR ''/''" "to_string sb" "to_string bb"] by simp
  then show ?thesis using assms by (simp add: parse_blinds_def parse_to_string)
qed

lemma collect_results_map:
  "(\<And>x. x \<in> set xs \<Longrightarrow> f (g x) = Inr x) \<Longrightarrow> collect_results (map f (map g xs)) = Inr xs"
  by (induction xs) simp_all

lemma split_list:
  assumes "xs \<noteq> []" and "\<And>x. x \<in> set xs \<Longrightarrow> CHR '','' \<notin> set (g x)" and "\<And>x. x \<in> set xs \<Longrightarrow> f (g x) = Inr x"
  shows "collect_results (map f (split_on (CHR '','') (join '','' (map g xs)))) = Inr xs"
proof -
  have "split_on (CHR '','') (join '','' (map g xs)) = map g xs"
    by (rule split_on_join) (use assms in auto)
  then show ?thesis using collect_results_map [of xs f g] assms(3) by simp
qed

lemma collect_results_length: "collect_results rs = Inr xs \<Longrightarrow> length xs = length rs"
  by (induction rs arbitrary: xs rule: collect_results.induct) (auto split: sum.splits simp: map_sum_def)

text \<open>What an accepted command line guarantees.\<close>

lemma setup_sound:
  assumes "report_setup cli = Inr su"
  shows "2 \<le> length (su_specs su) \<and> length (su_stacks su) = length (su_specs su)
      \<and> length (filter is_human (su_specs su)) \<le> (if 1 < rc_threads cli then 0 else 1)
      \<and> (\<exists>sb bb. 0 < sb \<and> sb < bb \<and> su_rules su = no_limit_holdem sb bb (length (su_specs su)))
      \<and> sc_stack_policy (su_config su) = Reset"
proof -
  have blinds: "parse_blinds s = Inr (sb, bb) \<Longrightarrow> 0 < sb \<and> sb < bb" for s sb bb
    by (auto simp: parse_blinds_def split: prod.splits option.splits if_splits)
  then show ?thesis
    using assms unfolding report_setup_def Let_def
    by (fastforce split: sum.splits if_splits prod.splits option.splits)
qed

text \<open>The command line that asks for given agents, stacks and blinds.\<close>

definition report_line :: "nat \<Rightarrow> agent_spec list \<Rightarrow> nat list \<Rightarrow> nat \<Rightarrow> nat \<Rightarrow> 64 word option \<Rightarrow> nat \<Rightarrow> report_cli" where
  "report_line hands specs stacks sb bb seed threads =
     \<lparr>rc_hands = hands, rc_agents = join '','' (map spec_name specs), rc_stack = 200,
      rc_stacks = Some (join '','' (map to_string stacks)), rc_blinds = to_string sb @ ''/'' @ to_string bb,
      rc_seed = seed, rc_threads = threads\<rparr>"

lemma setup_of_line:
  assumes a: "2 \<le> length specs" "length (filter is_human specs) \<le> (if 1 < threads then 0 else 1)"
    "length stacks = length specs" "list_all (\<lambda>s. s < u32_lim) stacks" "0 < sb" "sb < bb" "bb < u32_lim"
  shows "report_setup (report_line hands specs stacks sb bb seed threads) =
        Inr \<lparr>su_specs = specs, su_rules = no_limit_holdem sb bb (length specs), su_stacks = stacks,
             su_config = \<lparr>sc_seed = (case seed of Some base \<Rightarrow> Sequential base | None \<Rightarrow> RandomSeeds), sc_stack_policy = Reset\<rparr>\<rparr>"
proof -
  have "collect_results (map spec_parse (split_on (CHR '','') (join '','' (map spec_name specs)))) = Inr specs"
    by (rule split_list) (use a(1) spec_name_no_comma spec_roundtrip in auto)
  moreover have "collect_results (map parse_stack (split_on (CHR '','') (join '','' (map to_string stacks)))) = Inr stacks"
    by (rule split_list) (use a(1,3,4) in \<open>auto simp: parse_stack_def parse_to_string list_all_iff\<close>)
  ultimately show "report_setup (report_line hands specs stacks sb bb seed threads) =
        Inr \<lparr>su_specs = specs, su_rules = no_limit_holdem sb bb (length specs), su_stacks = stacks,
             su_config = \<lparr>sc_seed = (case seed of Some base \<Rightarrow> Sequential base | None \<Rightarrow> RandomSeeds), sc_stack_policy = Reset\<rparr>\<rparr>"
    using a parse_blinds_roundtrip [OF a(5-7)]
    by (auto simp: report_setup_def report_line_def Let_def split: if_splits)
qed

text \<open>
  The command line of the report is read back exactly: the agents printed by their names, the stacks and the
  blinds give the setup they were written from, whenever there are at least two agents, at most one of them a
  person (and then one thread), one stack for each, and \<open>0 < sb < bb\<close>.  Conversely every setup that is accepted
  has these properties.
\<close>

theorem report_arguments_roundtrip:
  "(2 \<le> length specs \<and> length (filter is_human specs) \<le> (if 1 < threads then 0 else 1) \<and> length stacks = length specs
      \<and> list_all (\<lambda>s. s < u32_lim) stacks \<and> 0 < sb \<and> sb < bb \<and> bb < u32_lim \<longrightarrow>
      report_setup (report_line hands specs stacks sb bb seed threads) =
        Inr \<lparr>su_specs = specs, su_rules = no_limit_holdem sb bb (length specs), su_stacks = stacks,
             su_config = \<lparr>sc_seed = (case seed of Some base \<Rightarrow> Sequential base | None \<Rightarrow> RandomSeeds), sc_stack_policy = Reset\<rparr>\<rparr>)
   \<and> (report_setup cli = Inr su \<longrightarrow> 2 \<le> length (su_specs su) \<and> length (su_stacks su) = length (su_specs su)
      \<and> length (filter is_human (su_specs su)) \<le> (if 1 < rc_threads cli then 0 else 1)
      \<and> (\<exists>sb bb. 0 < sb \<and> sb < bb \<and> su_rules su = no_limit_holdem sb bb (length (su_specs su)))
      \<and> sc_stack_policy (su_config su) = Reset)"
proof (rule conjI; rule impI)
  assume "2 \<le> length specs \<and> length (filter is_human specs) \<le> (if 1 < threads then 0 else 1) \<and> length stacks = length specs
      \<and> list_all (\<lambda>s. s < u32_lim) stacks \<and> 0 < sb \<and> sb < bb \<and> bb < u32_lim"
  then show "report_setup (report_line hands specs stacks sb bb seed threads) =
        Inr \<lparr>su_specs = specs, su_rules = no_limit_holdem sb bb (length specs), su_stacks = stacks,
             su_config = \<lparr>sc_seed = (case seed of Some base \<Rightarrow> Sequential base | None \<Rightarrow> RandomSeeds), sc_stack_policy = Reset\<rparr>\<rparr>"
    by (elim conjE) (rule setup_of_line)
qed (rule setup_sound)

theorem report_arguments_roundtrip_witness:
  "report_setup (report_line 1000 [SpecCalling, SpecRandom 1] [500, 200] 1 2 (Some 7) 4) =
     Inr \<lparr>su_specs = [SpecCalling, SpecRandom 1], su_rules = no_limit_holdem 1 2 2, su_stacks = [500, 200],
          su_config = deterministic_config 7\<rparr>
   \<and> (\<exists>sb bb. 0 < sb \<and> sb < bb \<and> no_limit_holdem 1 2 2 = no_limit_holdem sb bb 2)"
proof
  show parsed: "report_setup (report_line 1000 [SpecCalling, SpecRandom 1] [500, 200] 1 2 (Some 7) 4) =
     Inr \<lparr>su_specs = [SpecCalling, SpecRandom 1], su_rules = no_limit_holdem 1 2 2, su_stacks = [500, 200],
          su_config = deterministic_config 7\<rparr>"
    using report_arguments_roundtrip [of "[SpecCalling, SpecRandom 1]" 4 "[500, 200]" 1 2 1000 "Some 7"]
    by (simp add: is_human_def deterministic_config_def numeral_2_eq_2)
  show "\<exists>sb bb. 0 < sb \<and> sb < bb \<and> no_limit_holdem 1 2 2 = no_limit_holdem sb bb 2"
    using report_arguments_roundtrip [THEN conjunct2, THEN mp, OF parsed] by (simp add: numeral_2_eq_2)
qed

end
