(* ===== verification/EnvSim.thy ===== *)
theory EnvSim
  imports AgentWorld
begin

text \<open>
  What a hand takes from its environment: two environments whose agents answer alike, over worlds related by \<open>R\<close>,
  make \<open>run_hand\<close> return the same result, whatever their sinks and observers do otherwise.  The relation has to
  survive every call but the final \<open>HandEnded\<close> and \<open>on_hand_end\<close>, which the theorem shows as the last steps.
\<close>

section \<open>Computations that follow each other\<close>

definition leads :: "'a option \<Rightarrow> 'b option \<Rightarrow> ('a \<Rightarrow> 'b \<Rightarrow> bool) \<Rightarrow> bool" where
  "leads x y Q \<longleftrightarrow> (\<forall>a. x = Some a \<longrightarrow> (\<exists>b. y = Some b \<and> Q a b))"

lemma leads_simps [simp]: "leads (Some a) (Some b) Q \<longleftrightarrow> Q a b" "leads None y Q"
  by (simp_all add: leads_def)

lemma leads_same: "leads x x (\<lambda>a b. b = a)"
  by (simp add: leads_def)

lemma leads_bind: "leads x y Q \<Longrightarrow> (\<And>a b. Q a b \<Longrightarrow> leads (f a) (g b) S) \<Longrightarrow> leads (x \<bind> f) (y \<bind> g) S"
  by (cases x; cases y) (auto simp: leads_def)

lemma leads_bind_same: "(\<And>a. x = Some a \<Longrightarrow> leads (f a) (g a) S) \<Longrightarrow> leads (x \<bind> f) (x \<bind> g) S"
  by (cases x) simp_all

lemma leads_mono: "leads x y Q \<Longrightarrow> (\<And>a b. Q a b \<Longrightarrow> S a b) \<Longrightarrow> leads x y S"
  by (auto simp: leads_def)

lemma leads_for_each:
  "I s t \<Longrightarrow> (\<And>x s t. I s t \<Longrightarrow> leads (f x s) (g x t) I) \<Longrightarrow> leads (for_each xs f s) (for_each xs g t) I"
  by (induction xs arbitrary: s t) (simp, simp, blast intro: leads_bind)

lemma fold_related: "R w v \<Longrightarrow> (\<And>x w v. R w v \<Longrightarrow> R (f x w) (g x v)) \<Longrightarrow> R (fold f xs w) (fold g xs v)"
  by (induction xs arbitrary: w v) simp_all

definition final_event :: "engine_event \<Rightarrow> bool" where
  "final_event ev \<longleftrightarrow> (\<exists>h r. ev = HandEnded h r)"

lemma final_event_simps [simp]:
  "\<not> final_event (HandStarted h d s)" "\<not> final_event (HoleCardsDealt i c)" "\<not> final_event (BoardDealt st cs)"
  "\<not> final_event (ActionTaken i a p)" "\<not> final_event (PlayerAllIn i t)" "final_event (HandEnded h r)"
  by (simp_all add: final_event_def)

section \<open>Environments that answer alike\<close>

locale follower =
  fixes env :: "'w env" and env' :: "'v env" and R :: "'w \<Rightarrow> 'v \<Rightarrow> bool"
  assumes act: "R w v \<Longrightarrow> leads (e_act env i obs w) (e_act env' i obs v) (\<lambda>(a, w) (b, v). b = a \<and> R w v)"
    and sink: "R w v \<Longrightarrow> \<not> final_event ev \<Longrightarrow> R (e_sink env ev w) (e_sink env' ev v)"
    and on_event: "R w v \<Longrightarrow> R (e_on_event env i ev w) (e_on_event env' i ev v)"
    and on_hand_start: "R w v \<Longrightarrow> R (e_on_hand_start env i h w) (e_on_hand_start env' i h v)"
begin

text \<open>The same state, seats that sat out as before, and related worlds.\<close>

definition along :: "bool list \<Rightarrow> game_state \<times> 'w \<Rightarrow> game_state \<times> 'v \<Rightarrow> bool" where
  "along so = (\<lambda>(st, w) (st', v). st' = st \<and> g_sat_out st = so \<and> R w v)"

definition along_deck :: "bool list \<Rightarrow> game_state \<times> deck \<times> 'w \<Rightarrow> game_state \<times> deck \<times> 'v \<Rightarrow> bool" where
  "along_deck so = (\<lambda>(st, d, w) (st', d', v). st' = st \<and> d' = d \<and> g_sat_out st = so \<and> R w v)"

definition along_with :: "bool list \<Rightarrow> 'a \<times> game_state \<times> 'w \<Rightarrow> 'a \<times> game_state \<times> 'v \<Rightarrow> bool" where
  "along_with so = (\<lambda>(a, st, w) (a', st', v). a' = a \<and> st' = st \<and> g_sat_out st = so \<and> R w v)"

lemma along_simps [simp]:
  "along so (st, w) (st', v) \<longleftrightarrow> st' = st \<and> g_sat_out st = so \<and> R w v"
  "along_deck so (st, d, w) (st', d', v) \<longleftrightarrow> st' = st \<and> d' = d \<and> g_sat_out st = so \<and> R w v"
  "along_with so (a, st, w) (a', st', v) \<longleftrightarrow> a' = a \<and> st' = st \<and> g_sat_out st = so \<and> R w v"
  by (simp_all add: along_def along_deck_def along_with_def)

lemma sat_out_player [simp]: "g_sat_out (set_player i p st) = g_sat_out st"
  by (simp add: set_player_def)

lemma mark_all_in_along:
  "R w v \<Longrightarrow> fst (mark_all_in env' i p v) = fst (mark_all_in env i p w) \<and> R (snd (mark_all_in env i p w)) (snd (mark_all_in env' i p v))"
  by (simp add: mark_all_in_def sink)

lemma post_along: "along so s t \<Longrightarrow> leads (post env i n s) (post env' i n t) (along so)"
  by (cases s; cases t)
    (auto simp: post_def case_prod_unfold Let_def mark_all_in_along intro!: leads_bind_same)

lemma apply_call_along:
  "R w v \<Longrightarrow> leads (apply_call env i st w) (apply_call env' i st v) (along (g_sat_out st))"
  by (auto simp: apply_call_def case_prod_unfold Let_def mark_all_in_along intro!: leads_bind_same)

lemma raise_all_in_sat_out [simp]: "g_sat_out (snd (raise_all_in i n st)) = g_sat_out st"
  by (simp add: raise_all_in_def Let_def)

lemma apply_all_in_along:
  "R w v \<Longrightarrow> leads (apply_all_in env i st w) (apply_all_in env' i st v) (along_with (g_sat_out st))"
  by (auto simp: apply_all_in_def case_prod_unfold Let_def sink intro!: leads_bind_same)

lemma apply_fold_sat_out: "apply_fold i st = Some st' \<Longrightarrow> g_sat_out st' = g_sat_out st"
  by (auto simp: apply_fold_def split: bind_splits)

lemma apply_raise_sat_out: "apply_raise i n st = Some st' \<Longrightarrow> g_sat_out st' = g_sat_out st"
  by (auto simp: apply_raise_def Let_def split: bind_splits)

lemma apply_action_along:
  assumes "R w v"
  shows "leads (apply_action env i a st w) (apply_action env' i a st v) (along_with (g_sat_out st))"
proof -
  have "leads
      (case a of Fold \<Rightarrow> do { st' \<leftarrow> apply_fold i st; Some (False, st', w) } | Check \<Rightarrow> Some (False, st, w)
       | Call \<Rightarrow> do { (st', w') \<leftarrow> apply_call env i st w; Some (False, st', w') }
       | Raise amount \<Rightarrow> do { st' \<leftarrow> apply_raise i amount st; Some (True, st', w) } | AllIn \<Rightarrow> apply_all_in env i st w)
      (case a of Fold \<Rightarrow> do { st' \<leftarrow> apply_fold i st; Some (False, st', v) } | Check \<Rightarrow> Some (False, st, v)
       | Call \<Rightarrow> do { (st', w') \<leftarrow> apply_call env' i st v; Some (False, st', w') }
       | Raise amount \<Rightarrow> do { st' \<leftarrow> apply_raise i amount st; Some (True, st', v) } | AllIn \<Rightarrow> apply_all_in env' i st v)
      (along_with (g_sat_out st))"
    using assms apply_all_in_along [OF assms]
    by (auto simp: apply_fold_sat_out apply_raise_sat_out intro!: leads_bind_same leads_bind [OF apply_call_along [OF assms]]
        split: action.split)
  then show ?thesis
    unfolding apply_action_def
    by (rule leads_bind) (auto simp: sink intro!: leads_bind_same)
qed

lemma broadcast_along: "R w v \<Longrightarrow> R (broadcast env n ev w) (broadcast env' n ev v)"
  unfolding broadcast_def by (rule fold_related) (simp_all add: on_event)

lemma take_turn_along:
  assumes "R w v"
  shows "leads (take_turn rules env st rs i w) (take_turn rules env' st rs i v) (along_with (g_sat_out st))"
  unfolding take_turn_def Let_def
  apply (intro leads_bind_same)
  apply (rule leads_bind [OF act [OF assms]])
  apply (clarsimp simp del: bind_eq_Some_conv)
  apply (intro leads_bind_same)
  apply (rule leads_bind [OF apply_action_along])
   apply assumption
  apply (auto simp: broadcast_along intro!: leads_bind_same)
  done

lemma betting_loop_step:
  assumes "betting_loop rules env st rs i w = Some y" and "R w v"
  shows "\<exists>y'. betting_loop rules env' st rs i v = Some y' \<and> along_with (g_sat_out st) y y'"
proof -
  have "\<forall>v. R w v \<longrightarrow> (\<exists>y'. betting_loop rules env' st rs i v = Some y' \<and> along_with (g_sat_out st) y y')"
  proof (rule betting_loop.raw_induct [where P = "\<lambda>rules env'' st rs i w y. env'' = env \<longrightarrow> (\<forall>v. R w v \<longrightarrow>
      (\<exists>y'. betting_loop rules env' st rs i v = Some y' \<and> along_with (g_sat_out st) y y'))",
      OF _ assms(1), THEN mp, OF _ refl], intro impI allI)
    fix go rules and env'' :: "'w env" and st rs i w y v
    assume IH: "\<And>rules (env'' :: 'w env) st rs i w y. go rules env'' st rs i w = Some y \<Longrightarrow> env'' = env \<longrightarrow>
        (\<forall>v. R w v \<longrightarrow> (\<exists>y'. betting_loop rules env' st rs i v = Some y' \<and> along_with (g_sat_out st) y y'))"
      and body: "(if list_all (settled st rs) [0..<length (g_players st)]
      then Some (None, st\<lparr>g_action_on := None\<rparr>, w)
      else do { _ \<leftarrow> idx (g_players st) i;
        if settled st rs i
        then go rules env'' st rs ((i + 1) mod length (g_players st)) w
        else do { (was_aggression, st', w') \<leftarrow> take_turn rules env'' st rs i w;
          if players_still_in st' = 1
          then do { winner \<leftarrow> position still_in (g_players st'); Some (Some winner, st', w') }
          else go rules env'' st' (respond i was_aggression rs)
                 ((i + 1) mod length (g_players st')) w' } }) = Some y"
      and env: "env'' = env" and R: "R w v"
    show "\<exists>y'. betting_loop rules env' st rs i v = Some y' \<and> along_with (g_sat_out st) y y'"
    proof (cases "list_all (settled st rs) [0..<length (g_players st)]")
      case True
      then show ?thesis using body R by (subst betting_loop.simps) auto
    next
      case False
      note unsettled = False
      obtain p where p: "idx (g_players st) i = Some p" using body False by (auto split: bind_splits)
      show ?thesis
      proof (cases "settled st rs i")
        case True
        then have "go rules env st rs ((i + 1) mod length (g_players st)) w = Some y"
          using body False p env by simp
        from IH [OF this] R show ?thesis
          using True False p by (subst betting_loop.simps) simp
      next
        case False
        then obtain agg st' w' where t: "take_turn rules env st rs i w = Some (agg, st', w')"
          and rest: "(if players_still_in st' = 1
            then do { winner \<leftarrow> position still_in (g_players st'); Some (Some winner, st', w') }
            else go rules env st' (respond i agg rs) ((i + 1) mod length (g_players st')) w') = Some y"
          using body unsettled p env by (auto split: bind_splits)
        obtain v' where v': "take_turn rules env' st rs i v = Some (agg, st', v')" "g_sat_out st' = g_sat_out st" "R w' v'"
          using take_turn_along [OF R, of rules st rs i] t by (auto simp: leads_def along_with_def)
        show ?thesis
        proof (cases "players_still_in st' = 1")
          case True
          then show ?thesis
            using rest False unsettled p v' by (subst betting_loop.simps) (auto split: bind_splits)
        next
          case still: False
          then have "go rules env st' (respond i agg rs) ((i + 1) mod length (g_players st')) w' = Some y"
            using rest by simp
          from IH [OF this] v'(2,3) still show ?thesis
            using False unsettled p v'(1) by (subst betting_loop.simps) simp
        qed
      qed
    qed
  qed
  then show ?thesis using assms(2) by blast
qed

lemma run_betting_round_along:
  "R w v \<Longrightarrow> leads (run_betting_round rules env st i w) (run_betting_round rules env' st i v) (along_with (g_sat_out st))"
  unfolding run_betting_round_def leads_def using betting_loop_step by blast

lemma deal_board_cards_along:
  "along_deck so s t \<Longrightarrow> leads (deal_board_cards env n street s) (deal_board_cards env' n street t) (along_deck so)"
  by (cases s; cases t) (auto simp: deal_board_cards_def sink intro!: leads_bind_same)

lemma runout_loop_along:
  "along_deck so s t \<Longrightarrow> leads (runout_loop env ks n s) (runout_loop env' ks n t) (along_deck so)"
proof (induction ks arbitrary: n s t)
  case (Cons k ks)
  obtain j street where k: "k = (j, street)" by fastforce
  show ?case
    using Cons unfolding k by (auto simp: Let_def intro!: leads_bind [OF deal_board_cards_along])
qed simp

lemma fill_board_sat_out: "fill_board st d = Some (st', d') \<Longrightarrow> g_sat_out st' = g_sat_out st"
proof (induction st d arbitrary: st' d' rule: fill_board.induct)
  case (1 st d)
  from 1(2) 1(1) show ?case
    unfolding fill_board.simps [of st d] by (auto split: if_splits option.splits)
qed

lemma deal_remaining_board_along:
  "along_deck so s t \<Longrightarrow> leads (deal_remaining_board env s) (deal_remaining_board env' t) (along_deck so)"
  by (cases s; cases t)
    (auto simp: deal_remaining_board_def fill_board_sat_out simp del: runout_loop.simps
      intro!: leads_bind [OF runout_loop_along [where so = so]] leads_bind_same)

lemma street_betting_along:
  "R w v \<Longrightarrow> leads (street_betting rules env st w) (street_betting rules env' st v) (along_with (g_sat_out st))"
  by (auto simp: street_betting_def run_betting_round_along split: option.split)

lemma award_uncontested_sat_out: "award_uncontested i st = Some (ds, st') \<Longrightarrow> g_sat_out st' = g_sat_out st"
  by (auto simp: award_uncontested_def split: bind_splits)

lemma collect_bets_sat_out: "collect_bets st = Some st' \<Longrightarrow> g_sat_out st' = g_sat_out st"
  by (auto simp: collect_bets_def split: bind_splits)

lemma resolve_showdown_sat_out: "resolve_showdown rank st = Some (ds, st') \<Longrightarrow> g_sat_out st' = g_sat_out st"
  by (auto simp: resolve_showdown_def split: bind_splits if_splits)

lemma begin_street_sat_out [simp]: "g_sat_out (begin_street rules s st) = g_sat_out st"
  by (simp add: begin_street_def)

definition along_loop ::
  "bool list \<Rightarrow> 'a \<times> game_state \<times> deck \<times> 'w \<Rightarrow> 'a \<times> game_state \<times> deck \<times> 'v \<Rightarrow> bool" where
  "along_loop so = (\<lambda>(a, st, d, w) (a', st', d', v). a' = a \<and> st' = st \<and> d' = d \<and> g_sat_out st = so \<and> R w v)"

lemma along_loop_simps [simp]:
  "along_loop so (a, st, d, w) (a', st', d', v) \<longleftrightarrow> a' = a \<and> st' = st \<and> d' = d \<and> g_sat_out st = so \<and> R w v"
  by (simp add: along_loop_def)

lemma postflop_loop_along:
  "along_deck so s t \<Longrightarrow> leads (postflop_loop rules env ks s) (postflop_loop rules env' ks t) (along_loop so)"
proof (induction ks arbitrary: s t)
  case Nil
  then show ?case by (cases s; cases t) simp
next
  case (Cons k ks)
  obtain street n where k: "k = (street, n)" by fastforce
  obtain st d w where s: "s = (st, d, w)" by (cases s)
  obtain v where t: "t = (st, d, v)" and R: "R w v" and so: "so = g_sat_out st" using Cons.prems by (cases t) (auto simp: s)
  show ?case
  proof (cases "players_still_in st \<le> 1")
    case True
    then show ?thesis using R by (simp add: k s t so)
  next
    case False
    have deal: "leads (do { (st, d, w) \<leftarrow> deal_board_cards env n street (begin_street rules street st, d, w); f st d w })
        (do { (st, d, v) \<leftarrow> deal_board_cards env' n street (begin_street rules street st, d, v); g st d v }) (along_loop so)"
      if "\<And>st d w v. g_sat_out st = so \<Longrightarrow> R w v \<Longrightarrow> leads (f st d w) (g st d v) (along_loop so)" for f g
      using R so that by (auto intro!: leads_bind [OF deal_board_cards_along [where so = so]])
    have betting: "leads
        (do { (winner, st1, w2) \<leftarrow> street_betting rules env st w;
              case winner of
                Some seat \<Rightarrow> do { (deltas, st2) \<leftarrow> award_uncontested seat st1; Some (Some deltas, st2, d, w2) }
              | None \<Rightarrow> do { st2 \<leftarrow> collect_bets st1; postflop_loop rules env ks (st2, d, w2) } })
        (do { (winner, st1, w2) \<leftarrow> street_betting rules env' st v;
              case winner of
                Some seat \<Rightarrow> do { (deltas, st2) \<leftarrow> award_uncontested seat st1; Some (Some deltas, st2, d, w2) }
              | None \<Rightarrow> do { st2 \<leftarrow> collect_bets st1; postflop_loop rules env' ks (st2, d, w2) } })
        (along_loop so)" if "R w v" and "g_sat_out st = so" for st d w v
      using that Cons.IH
      by (auto simp: award_uncontested_sat_out collect_bets_sat_out split: option.split
          intro!: leads_bind [OF street_betting_along] leads_bind_same)
    show ?thesis
      unfolding k s t postflop_loop.simps Let_def fst_conv snd_conv if_not_P [OF False]
      by (rule deal, rule betting) (simp_all add: broadcast_along)
  qed
qed

lemma run_streets_along:
  assumes "R w v"
  shows "leads (run_streets rank rules env i (st, d, w)) (run_streets rank rules env' i (st, d, v)) (along_with (g_sat_out st))"
proof -
  have postflop: "leads (postflop_loop rules env ks (st', d, w)) (postflop_loop rules env' ks (st', d, v)) (along_loop (g_sat_out st))"
    if "R w v" and "g_sat_out st' = g_sat_out st" for ks st' w v
    using postflop_loop_along [of "g_sat_out st" "(st', d, w)" "(st', d, v)"] that by simp
  have rest: "leads (do { (st4, d4, w4) \<leftarrow> deal_remaining_board env (st3, d3, w); (deltas, st5) \<leftarrow> resolve_showdown rank st4;
          Some (deltas, st5, w4) })
      (do { (st4, d4, w4) \<leftarrow> deal_remaining_board env' (st3, d3, v); (deltas, st5) \<leftarrow> resolve_showdown rank st4;
          Some (deltas, st5, w4) }) (along_with (g_sat_out st))"
    if "R w v" and "g_sat_out st3 = g_sat_out st" for st3 d3 w v
    using that
    by (auto simp: resolve_showdown_sat_out intro!: leads_bind [OF deal_remaining_board_along [where so = "g_sat_out st"]] leads_bind_same)
  show ?thesis
    unfolding run_streets_def
    using assms rest
    by (auto simp: award_uncontested_sat_out collect_bets_sat_out simp del: postflop_loop.simps split: option.split
        intro!: leads_bind [OF run_betting_round_along] leads_bind_same leads_bind [OF postflop])
qed

lemma post_antes_along:
  "along so s t \<Longrightarrow> leads (post_antes rules env s) (post_antes rules env' t) (along so)"
proof -
  assume *: "along so s t"
  then have "length (g_players (fst t)) = length (g_players (fst s))" by (cases s; cases t) simp
  with * show ?thesis
    unfolding post_antes_def
    by (auto simp: post_along intro!: leads_for_each leads_bind_same)
qed

lemma post_blinds_along: "along so s t \<Longrightarrow> leads (post_blinds rules env s) (post_blinds rules env' t) (along so)"
  by (cases s; cases t) (auto simp: post_blinds_def intro!: leads_bind [OF post_along [where so = so]])

lemma deal_hole_cards_along:
  "along_deck so s t \<Longrightarrow> leads (deal_hole_cards env s) (deal_hole_cards env' t) (along_deck so)"
proof -
  assume *: "along_deck so s t"
  then have "length (g_players (fst t)) = length (g_players (fst s))" by (cases s; cases t) simp
  with * show ?thesis
    unfolding deal_hole_cards_def
    by (auto simp: sink intro!: leads_for_each leads_bind_same)
qed

lemma setup_hand_along:
  assumes "R w v"
  shows "leads (setup_hand rules env kinds (st, d, w)) (setup_hand rules env' kinds (st, d, v))
    (\<lambda>(bb, st', d', w') (bb', st'', d'', v'). bb' = bb \<and> st'' = st' \<and> d'' = d' \<and> R w' v'
       \<and> (kinds = None \<longrightarrow> g_sat_out st' = g_sat_out st))"
proof -
  have "leads (if 0 < r_ante rules then post_antes rules env (st, w) else Some (st, w))
      (if 0 < r_ante rules then post_antes rules env' (st, v) else Some (st, v)) (along (g_sat_out st))"
    using assms post_antes_along by simp
  then show ?thesis
    unfolding setup_hand_def
    by (auto simp: Let_def fold_dead_hands_def split: option.split
        intro!: leads_bind [OF post_blinds_along [where so = "g_sat_out st"]]
          leads_bind [OF deal_hole_cards_along [where so = "g_sat_out st"]] leads_bind_same
        elim!: leads_bind)
qed

lemma build_result_sat_out:
  assumes "build_result h st ds = Some res" and "g_sat_out st = replicate n False" and "out \<in> set (hr_seats res)"
  shows "\<not> so_sat_out out"
proof -
  have no: "unwrap_or (idx (replicate n False) i) False = False" for i
    by (simp add: unwrap_or_def idx_def)
  have "map_opt f xs = Some ys \<Longrightarrow> y \<in> set ys \<Longrightarrow> \<exists>x. f x = Some y" for f :: "nat \<times> player_state \<Rightarrow> seat_outcome option" and xs ys y
    by (induction xs arbitrary: ys) (auto split: bind_splits, blast)
  then show ?thesis
    using assms no by (fastforce simp: build_result_def seat_outcomes_def split: bind_splits)
qed

lemma run_hand_along:
  assumes "R w v"
  shows "leads (run_hand gen_range seed_from_u64 rank rules env h s stacks dealer kinds w)
     (run_hand gen_range seed_from_u64 rank rules env' h s stacks dealer kinds v)
     (\<lambda>(res, w1) (res', v1). res' = res \<and> (kinds = None \<longrightarrow> (\<forall>out \<in> set (hr_seats res). \<not> so_sat_out out))
        \<and> (\<exists>w0 v0. R w0 v0
            \<and> w1 = fold (\<lambda>i. e_on_hand_end env i res) [0..<length stacks] (e_sink env (HandEnded h res) w0)
            \<and> v1 = fold (\<lambda>i. e_on_hand_end env' i res) [0..<length stacks] (e_sink env' (HandEnded h res) v0)))"
proof -
  let ?st = "init_state rules h stacks dealer"
  let ?w = "fold (\<lambda>i. e_on_hand_start env i h) [0..<length stacks] (e_sink env (HandStarted h dealer s) w)"
  let ?v = "fold (\<lambda>i. e_on_hand_start env' i h) [0..<length stacks] (e_sink env' (HandStarted h dealer s) v)"
  have start: "R ?w ?v"
    by (rule fold_related) (use assms in \<open>simp_all add: sink on_hand_start\<close>)
  have sat: "g_sat_out ?st = replicate (length stacks) False"
    by (simp add: init_state_def)
  have play: "leads
      (case next_active_after bb (g_players st1) of
         None \<Rightarrow> do { (deltas, st2) \<leftarrow> award_uncontested_and_finish st1; Some (deltas, st2, w) }
       | Some i \<Rightarrow> run_streets rank rules env i (st1, d, w))
      (case next_active_after bb (g_players st1) of
         None \<Rightarrow> do { (deltas, st2) \<leftarrow> award_uncontested_and_finish st1; Some (deltas, st2, v) }
       | Some i \<Rightarrow> run_streets rank rules env' i (st1, d, v)) (along_with (g_sat_out st1))" if "R w v" for bb st1 d w v
    using that run_streets_along
    by (auto simp: award_uncontested_and_finish_def award_uncontested_sat_out split: option.split bind_splits
        intro!: leads_bind_same)
  show ?thesis
    unfolding run_hand_def Let_def
    using build_result_sat_out sat
    by (auto intro!: leads_bind_same leads_bind [OF setup_hand_along [OF start]] leads_bind [OF play]) blast+
qed

end

text \<open>When the last calls keep the relation too, the worlds after the hand are related.\<close>

locale full_follower = follower +
  assumes last_sink: "R w v \<Longrightarrow> R (e_sink env (HandEnded h res) w) (e_sink env' (HandEnded h res) v)"
    and on_hand_end: "R w v \<Longrightarrow> R (e_on_hand_end env i res w) (e_on_hand_end env' i res v)"
begin

lemma run_hand_related:
  assumes "R w v"
  shows "leads (run_hand gen_range seed_from_u64 rank rules env h s stacks dealer kinds w)
     (run_hand gen_range seed_from_u64 rank rules env' h s stacks dealer kinds v)
     (\<lambda>(res, w1) (res', v1). res' = res \<and> R w1 v1)"
  by (rule leads_mono [OF run_hand_along [OF assms]])
    (auto intro!: fold_related [where R = R] on_hand_end last_sink)

end

section \<open>Sinks\<close>

text \<open>\<open>TeeSink\<close>: a second sink, with a state of its own, behind the sink of a run.\<close>

definition tee_env :: "(engine_event \<Rightarrow> 's \<Rightarrow> 's) \<Rightarrow> 'w env \<Rightarrow> ('w \<times> 's) env" where
  "tee_env b env =
     \<lparr>e_act = (\<lambda>i obs (w, s). map_option (\<lambda>(a, w). (a, (w, s))) (e_act env i obs w)),
      e_sink = (\<lambda>ev (w, s). (e_sink env ev w, b ev s)),
      e_on_event = (\<lambda>i ev (w, s). (e_on_event env i ev w, s)),
      e_on_hand_start = (\<lambda>i h (w, s). (e_on_hand_start env i h w, s)),
      e_on_hand_end = (\<lambda>i res (w, s). (e_on_hand_end env i res w, s))\<rparr>"

definition vec_sink :: "engine_event \<Rightarrow> engine_event list \<Rightarrow> engine_event list" where
  "vec_sink ev evs = evs @ [ev]"

interpretation tee_away: full_follower "tee_env b env" env "\<lambda>p v. fst p = v" for b env
  by unfold_locales (auto simp: tee_env_def leads_def)

interpretation tee_added: full_follower env "tee_env b env" "\<lambda>w p. w = fst p" for b env
  by unfold_locales (auto simp: tee_env_def leads_def)

interpretation tee_log: full_follower "tee_env vec_sink env" "tee_env b env"
  "\<lambda>(w, evs) (v, t). v = w \<and> t = fold b evs s" for b env s
  by unfold_locales (auto simp: tee_env_def leads_def vec_sink_def)

lemma tee_result:
  "map_option (\<lambda>(res, w, s). (res, w))
       (run_hand gen_range seed_from_u64 rank rules (tee_env b env) h seed stacks dealer kinds (w, s))
     = run_hand gen_range seed_from_u64 rank rules env h seed stacks dealer kinds w"
proof (cases "run_hand gen_range seed_from_u64 rank rules env h seed stacks dealer kinds w")
  case None
  then show ?thesis
    using tee_away.run_hand_related [where w = "(w, s)" and v = w and b = b and env = env, of gen_range seed_from_u64 rank rules h seed stacks dealer kinds]
    by (cases "run_hand gen_range seed_from_u64 rank rules (tee_env b env) h seed stacks dealer kinds (w, s)") (auto simp: leads_def)
next
  case (Some y)
  then show ?thesis
    using tee_added.run_hand_related [where v = "(w, s)" and w = w and b = b and env = env, of gen_range seed_from_u64 rank rules h seed stacks dealer kinds]
    by (auto simp: leads_def split_beta)
qed


end
