(* ===== verification/ReportProps.thy ===== *)
theory ReportProps
  imports Report EnvSim
begin

text \<open>
  The report counts right: a run for a command line without a person returns, every hand is counted for every seat, and
  the printed chip totals add up to nothing.
\<close>

section \<open>Runs over related worlds\<close>

definition plays_alike :: "('w \<Rightarrow> 'v \<Rightarrow> bool) \<Rightarrow> 'w play \<Rightarrow> 'v play \<Rightarrow> bool" where
  "plays_alike R play play' \<longleftrightarrow> (\<forall>h s stacks d kinds w v. R w v \<longrightarrow>
     leads (play h s stacks d kinds w) (play' h s stacks d kinds v) (\<lambda>(res, w) (res', v). res' = res \<and> R w v))"

definition runs_alike :: "('w \<Rightarrow> 'v \<Rightarrow> bool) \<Rightarrow> 'a \<times> 'b \<times> 'w \<Rightarrow> 'a \<times> 'b \<times> 'v \<Rightarrow> bool" where
  "runs_alike R = (\<lambda>(a, b, w) (a', b', v). a' = a \<and> b' = b \<and> R w v)"

lemma runs_alike_simps [simp]: "runs_alike R (a, b, w) (a', b', v) \<longleftrightarrow> a' = a \<and> b' = b \<and> R w v"
  by (simp add: runs_alike_def)

lemma sim_hand_alike:
  assumes "plays_alike R play play'" and "runs_alike R s t"
  shows "leads (sim_hand next_u64 play config k s) (sim_hand next_u64 play' config k t) (runs_alike R)"
proof -
  obtain rn ds w v where st: "s = (rn, ds, w)" "t = (rn, ds, v)" "R w v"
    using assms(2) by (cases s; cases t) auto
  have play: "leads (play h s stacks d None w) (play' h s stacks d None v) (\<lambda>(res, w) (res', v). res' = res \<and> R w v)" for h s stacks d
    using assms(1) st(3) by (simp add: plays_alike_def)
  show ?thesis
    unfolding sim_hand_def Let_def split st(1,2)
    using st(3) by (auto intro!: leads_bind_same leads_bind [OF play])
qed

lemma fold_skip: "fold (\<lambda>_ w. w) xs w = w"
  by (induction xs) simp_all

lemma sim_run_alike:
  assumes "plays_alike R play play'" and "R w v"
  shows "leads (sim_run next_u64 (\<lambda>_ _ w. w) (\<lambda>_ w. w) rules play hands config rn w)
     (sim_run next_u64 (\<lambda>_ _ v. v) (\<lambda>_ v. v) rules play' hands config rn v)
     (runs_alike R)"
proof -
  have loop: "leads (for_each [0..<hands] (sim_hand next_u64 play config) (rn, ds, w))
      (for_each [0..<hands] (sim_hand next_u64 play' config) (rn, ds, v))
      (runs_alike R)" for ds
    by (rule leads_for_each) (simp_all add: sim_hand_alike [OF assms(1)] assms(2))
  show ?thesis
    by (auto simp: sim_run_def Let_def fold_skip intro!: leads_bind [OF loop])
qed

lemma run_parallel_alike:
  assumes "plays_alike R play play'" and "\<And>t. fst (worker' t) = fst (worker t) \<and> R (snd (worker t)) (snd (worker' t))"
  shows "leads (run_parallel next_u64 (\<lambda>_ _ w. w) (\<lambda>_ w. w) rules play hands threads stacks worker config)
     (run_parallel next_u64 (\<lambda>_ _ v. v) (\<lambda>_ v. v) rules play' hands threads stacks worker' config) (\<lambda>res res'. res' = res)"
proof -
  have map: "leads (map_opt f xs) (map_opt g xs) (\<lambda>ys ys'. ys' = ys)" if "\<And>x. leads (f x) (g x) (\<lambda>y y'. y' = y)"
    for f g :: "nat \<Rightarrow> sim_result option" and xs
  proof (induction xs)
    case (Cons x xs)
    then show ?case using that [of x] by (auto simp: leads_def split: bind_splits)
  qed simp
  have "leads (sim_run next_u64 (\<lambda>_ _ w. w) (\<lambda>_ w. w) rules play k cfg (with_rng stacks (fst (worker t))) (snd (worker t)))
      (sim_run next_u64 (\<lambda>_ _ v. v) (\<lambda>_ v. v) rules play' k cfg (with_rng stacks (fst (worker t))) (snd (worker' t)))
      (runs_alike R)" for t k cfg
    by (rule sim_run_alike [OF assms(1)]) (use assms(2) in simp)
  note sim = leads_bind [OF this]
  show ?thesis
    unfolding run_parallel_def Let_def
    by (rule leads_bind [OF map]) (auto simp: assms(2) leads_same intro!: leads_bind_same sim)
qed

section \<open>Totals over a run\<close>

text \<open>What \<open>chips\<close> and \<open>dealt\<close> count in the world: every hand adds its deltas, and one for each seat with chips.\<close>

locale counted_table = fair_table rules play
  for rules :: betting_rules and play :: "'w play" +
  fixes seats :: "'w \<Rightarrow> nat" and chips :: "'w \<Rightarrow> nat \<Rightarrow> int" and dealt :: "'w \<Rightarrow> nat \<Rightarrow> nat"
  assumes counts: "playable rules stacks d None \<Longrightarrow> play h s stacks d None w = Some (res, w') \<Longrightarrow> seats w = length stacks \<Longrightarrow>
      seats w' = length stacks \<and> (\<forall>i < length stacks. chips w' i = chips w i + delta_at (hr_seats res) i
        \<and> dealt w' i = dealt w i + (if 0 < stacks ! i then 1 else 0))"
begin

lemma reset_run_counts:
  assumes fit: "seeds_fit (sc_seed config) hands" and policy: "sc_stack_policy config = Reset"
    and start: "rn_starting_stacks rn = rn_stacks rn" and ready: "runner_ready rules rn"
    and seats: "seats w = length (rn_stacks rn)"
  shows "k \<le> hands \<Longrightarrow> ok (for_each [0..<k] (sim_hand next_u64 play config) (rn, replicate (length (rn_stacks rn)) 0, w))
     (\<lambda>(rn', ds, w'). seats w' = length (rn_stacks rn) \<and> (\<forall>i < length (rn_stacks rn).
        chips w' i = chips w i + ds ! i \<and> dealt w' i = dealt w i + (if 0 < rn_stacks rn ! i then k else 0)))"
proof (induction k)
  case 0
  then show ?case using seats by simp
next
  case (Suc k)
  let ?n = "length (rn_stacks rn)"
  have "ok (for_each [0..<k] (sim_hand next_u64 play config) (rn, replicate ?n 0, w))
     (\<lambda>(rn', ds, _). rn_stacks rn' = rn_stacks rn \<and> rn_starting_stacks rn' = rn_stacks rn \<and> runner_ready rules rn'
        \<and> length ds = ?n \<and> sum_list ds = 0 \<and> rn_next_hand_id rn' = rn_next_hand_id rn + k)"
    by (rule reset_loop_ok [OF fit policy start ready]) (use Suc.prems in simp)
  then obtain rn1 ds1 w1 where run: "for_each [0..<k] (sim_hand next_u64 play config) (rn, replicate ?n 0, w) = Some (rn1, ds1, w1)"
      "rn_starting_stacks rn1 = rn_stacks rn" "rn_stacks rn1 = rn_stacks rn" "runner_ready rules rn1" "length ds1 = ?n"
    by (auto simp: ok_def)
  have IH: "seats w1 = ?n" "i < ?n \<Longrightarrow> chips w1 i = chips w i + ds1 ! i
      \<and> dealt w1 i = dealt w i + (if 0 < rn_stacks rn ! i then k else 0)" for i
    using Suc run(1) by (auto simp: ok_def)
  have play: "playable rules (rn_stacks rn) (rn_dealer rn1) None" using run(3,4) by (simp add: runner_ready_def)
  obtain seed g where seed: "hand_seed next_u64 (sc_seed config) k (rn_rng rn1) = Some (seed, g)"
    using hand_seed_ok [OF fit, of k next_u64 "rn_rng rn1"] Suc.prems by (auto simp: ok_def)
  obtain res w2 where res: "play (rn_next_hand_id rn1) seed (rn_stacks rn) (rn_dealer rn1) None w1 = Some (res, w2)"
      and fair: "fair_result (rn_next_hand_id rn1) (rn_stacks rn) res"
    using play_fair [OF play, of "rn_next_hand_id rn1" seed w1] by (auto simp: ok_def)
  obtain ds2 where ds2: "apply_result_to_deltas res ds1 = Some ds2" "\<forall>j < ?n. ds2 ! j = ds1 ! j + delta_at (hr_seats res) j"
    using apply_result_to_deltas_ok [of res ds1] fair_seats [OF fair] run(5) by (auto simp: ok_def)
  show ?case
    using counts [OF play res IH(1)] IH(2) ds2 seed res policy run(1-3)
    unfolding for_each_snoc by (auto simp: sim_hand_def Let_def)
qed

text \<open>A fresh run, where every seat has chips.\<close>

lemma fresh_run_totals:
  assumes fit: "seeds_fit (sc_seed config) hands" and policy: "sc_stack_policy config = Reset"
    and play: "playable rules stacks 0 None" and pos: "list_all (\<lambda>s. 0 < s) stacks"
    and new: "seats w = length stacks" "\<And>i. i < length stacks \<Longrightarrow> chips w i = 0 \<and> dealt w i = 0"
  shows "ok (sim_run next_u64 (\<lambda>_ _ w. w) (\<lambda>_ w. w) rules play hands config (with_rng stacks g) w)
     (\<lambda>(_, _, w'). seats w' = length stacks \<and> sum_list (map (chips w') [0..<length stacks]) = 0
        \<and> (\<forall>i < length stacks. dealt w' i = hands))"
proof -
  let ?rn = "with_rng stacks g" and ?n = "length stacks"
  let ?loop = "for_each [0..<hands] (sim_hand next_u64 play config) (?rn, replicate ?n 0, w)"
  have rn: "rn_starting_stacks ?rn = rn_stacks ?rn" "rn_stacks ?rn = stacks" "runner_ready rules ?rn"
    using play by (simp_all add: with_rng_def runner_ready_def)
  have len: "seats w = length (rn_stacks ?rn)" using new(1) rn(2) by simp
  have "ok ?loop (\<lambda>(rn', ds, w'). seats w' = ?n \<and> (\<forall>i < ?n.
        chips w' i = chips w i + ds ! i \<and> dealt w' i = dealt w i + (if 0 < stacks ! i then hands else 0)))"
    using reset_run_counts [OF fit policy rn(1,3) len order_refl, of next_u64] unfolding rn(2) .
  moreover have "ok ?loop (\<lambda>(rn', ds, _). length ds = ?n \<and> sum_list ds = 0)"
    by (rule ok_mono) (rule reset_loop_ok [OF fit policy rn(1,3) order_refl, unfolded rn(2)], auto)
  ultimately obtain rn' ds w' where loop: "?loop = Some (rn', ds, w')" "seats w' = ?n" "length ds = ?n" "sum_list ds = 0"
      "\<And>i. i < ?n \<Longrightarrow> chips w' i = ds ! i" "\<And>i. i < ?n \<Longrightarrow> dealt w' i = hands"
    using pos new(2) by (auto simp: ok_def list_all_length)
  have "map (chips w') [0..<?n] = ds"
    by (rule nth_equalityI) (use loop in auto)
  then show ?thesis
    using loop rn(2) by (simp add: sim_run_def Let_def fold_skip ok_def)
qed

end

section \<open>The table of the report\<close>

lemma delta_at_outcomes:
  "snd (snd (add_outcomes (filter (\<lambda>out. so_seat out = i) outs) (a, b, c))) = c + delta_at outs i"
  by (simp add: add_outcomes_def delta_at_def)

lemma seats_once:
  assumes "map so_seat outs = filter (\<lambda>i. 0 < stacks ! i) [0..<length stacks]" and "i < length stacks"
  shows "length (filter (\<lambda>out. so_seat out = i) outs) = (if 0 < stacks ! i then 1 else 0)"
proof -
  have "length (filter (\<lambda>out. so_seat out = i) outs) = length (filter ((=) i) (map so_seat outs))"
    by (simp add: filter_map o_def eq_commute)
  also have "\<dots> = length (filter (\<lambda>j. j = i \<and> 0 < stacks ! i) [0..<length stacks])"
    unfolding assms(1) filter_filter by (rule arg_cong [where f = length], rule filter_cong) auto
  also have "\<dots> = (if 0 < stacks ! i then 1 else 0)"
  proof -
    have "{j. j = i \<and> j < length stacks} = {i}" using assms(2) by auto
    then show ?thesis by (simp add: distinct_length_filter Int_def conj_commute)
  qed
  finally show ?thesis .
qed

abbreviation totals_of :: "('r, 'p) table_world \<Rightarrow> (nat \<times> nat \<times> int) list" where
  "totals_of w \<equiv> map seat_totals (st_seats (tw_sink w))"

lemma on_person_sink [simp]: "tw_sink (on_person f i w) = tw_sink w"
  by (simp add: on_person_def split: sum.split)

lemma totals_quiet:
  assumes "\<not> final_event ev"
  shows "map seat_totals (st_seats (stats_on_event ev s)) = map seat_totals (st_seats s)"
proof (rule nth_equalityI)
  have none: "counted i [ev] = []" "add_outcomes [] t = t" for i t
    using assms by (cases ev; simp add: counted_def final_event_def add_outcomes_def split_beta)+
  show "length (map seat_totals (st_seats (stats_on_event ev s))) = length (map seat_totals (st_seats s))"
    using totals_event(1) [of 0 s ev] assms
    by (cases "st_seats s") (cases ev; simp add: count_action_def final_event_def)+
  then show "map seat_totals (st_seats (stats_on_event ev s)) ! i = map seat_totals (st_seats s) ! i"
    if "i < length (map seat_totals (st_seats (stats_on_event ev s)))" for i
    using that totals_event(2) [of i s ev] none by simp
qed

interpretation report_totals: follower "report_env gen_index gen_f below rk person stats_on_event"
  "report_env gen_index gen_f below rk person stats_on_event" "\<lambda>w v. v = w \<and> totals_of w = T"
  for gen_index gen_f below rk and person :: "'p person" and T
  by unfold_locales
    (auto simp: report_env_def totals_quiet leads_def split: sum.splits bind_splits)

abbreviation report_play ::
  "('q \<Rightarrow> nat \<Rightarrow> nat \<times> 'q) \<Rightarrow> (64 word \<Rightarrow> 'q) \<Rightarrow> ('r \<Rightarrow> nat \<Rightarrow> nat \<times> 'r) \<Rightarrow> ('r \<Rightarrow> 'f \<times> 'r) \<Rightarrow> ('f \<Rightarrow> nat \<Rightarrow> bool) \<Rightarrow>
     (card list \<Rightarrow> hand_rank option) \<Rightarrow> 'p person \<Rightarrow> betting_rules \<Rightarrow> (engine_event \<Rightarrow> stats_sink \<Rightarrow> stats_sink) \<Rightarrow>
     ('r, 'p) table_world play" where
  "report_play gen_range seed_deck gen_index gen_f32 below rank person rules sink \<equiv>
     run_hand gen_range seed_deck rank rules (report_env gen_index gen_f32 below rank person sink)"

lemma hand_end_hooks_sink:
  "tw_sink (fold (\<lambda>i. e_on_hand_end (report_env gen_index gen_f32 below rank person sink) i res) is w) = tw_sink w"
proof (induction "is" arbitrary: w)
  case (Cons i "is")
  have "tw_sink (e_on_hand_end (report_env gen_index gen_f32 below rank person sink) i res w) = tw_sink w"
    by (simp add: report_env_def split: sum.split)
  then show ?case using Cons by simp
qed simp

text \<open>The outcomes of a hand nobody sat out, on totals that equal those before the hand.\<close>

lemma outcomes_count:
  assumes totals: "map seat_totals (st_seats s0) = map seat_totals (st_seats s)"
    and dealt_in: "\<forall>out \<in> set (hr_seats res). \<not> so_sat_out out"
    and fair: "fair_result h stacks res" and len: "length (st_seats s) = length stacks"
  shows "length (st_seats (fold (count_outcome pot) (hr_seats res) s0)) = length stacks \<and> (\<forall>i < length stacks.
      ss_chip_delta_total (st_seats (fold (count_outcome pot) (hr_seats res) s0) ! i)
        = ss_chip_delta_total (st_seats s ! i) + delta_at (hr_seats res) i
      \<and> ss_hands_dealt (st_seats (fold (count_outcome pot) (hr_seats res) s0) ! i)
        = ss_hands_dealt (st_seats s ! i) + (if 0 < stacks ! i then 1 else 0))"
proof -
  have len0: "length (st_seats s0) = length stacks" using arg_cong [OF totals, of length] len by simp
  have "length (st_seats (fold (count_outcome pot) outs s)) = length (st_seats s)" for outs s
    by (induction outs arbitrary: s) simp_all
  then have sized: "length (st_seats (fold (count_outcome pot) (hr_seats res) s0)) = length stacks" using len0 by simp
  have "ss_chip_delta_total (st_seats (fold (count_outcome pot) (hr_seats res) s0) ! i)
        = ss_chip_delta_total (st_seats s ! i) + delta_at (hr_seats res) i
      \<and> ss_hands_dealt (st_seats (fold (count_outcome pot) (hr_seats res) s0) ! i)
        = ss_hands_dealt (st_seats s ! i) + (if 0 < stacks ! i then 1 else 0)" if i: "i < length stacks" for i
  proof -
    have all: "filter (\<lambda>out. so_seat out = i \<and> \<not> so_sat_out out) (hr_seats res) = filter (\<lambda>out. so_seat out = i) (hr_seats res)"
      by (rule filter_cong) (use dealt_in in auto)
    have "seat_totals (st_seats (fold (count_outcome pot) (hr_seats res) s0) ! i)
        = add_outcomes (filter (\<lambda>out. so_seat out = i) (hr_seats res)) (seat_totals (st_seats s0 ! i))"
      using totals_outcomes(2) [of i s0 pot "hr_seats res"] i len0 all by simp
    moreover have "seat_totals (st_seats s0 ! i) = seat_totals (st_seats s ! i)"
      using arg_cong [OF totals, of "\<lambda>ts. ts ! i"] i len len0 by simp
    ultimately show ?thesis
      using seats_once [of "hr_seats res" stacks i] fair i
      by (simp add: seat_totals_def add_outcomes_def delta_at_def fair_result_def)
  qed
  with sized show ?thesis by blast
qed

text \<open>A hand adds its outcomes to the totals, each seat with chips once.\<close>

lemma report_hand_counts:
  assumes run: "report_play gen_range seed_deck gen_index gen_f32 below rank person rules stats_on_event h s stacks d None w
      = Some (res, w')"
    and fair: "fair_result h stacks res" and len: "length (st_seats (tw_sink w)) = length stacks"
  shows "length (st_seats (tw_sink w')) = length stacks \<and> (\<forall>i < length stacks.
      ss_chip_delta_total (st_seats (tw_sink w') ! i) = ss_chip_delta_total (st_seats (tw_sink w) ! i) + delta_at (hr_seats res) i
      \<and> ss_hands_dealt (st_seats (tw_sink w') ! i) = ss_hands_dealt (st_seats (tw_sink w) ! i) + (if 0 < stacks ! i then 1 else 0))"
proof -
  let ?env = "report_env gen_index gen_f32 below rank person stats_on_event"
  obtain w0 where dealt_in: "\<forall>out \<in> set (hr_seats res). \<not> so_sat_out out" and w0: "totals_of w0 = totals_of w"
      and w': "w' = fold (\<lambda>i. e_on_hand_end ?env i res) [0..<length stacks] (e_sink ?env (HandEnded h res) w0)"
    using report_totals.run_hand_along [where w = w and v = w and T = "totals_of w" and gen_index = gen_index and gen_f = gen_f32
        and below = below and rk = rank and person = person,
        of gen_range seed_deck rank rules h s stacks d None] run
    by (auto simp: leads_def)
  have sink: "tw_sink w' = fold (count_outcome (pot_size res)) (hr_seats res) (tw_sink w0)"
    unfolding w' hand_end_hooks_sink by (simp add: report_env_def)
  show ?thesis unfolding sink by (rule outcomes_count [OF w0 dealt_in fair len])
qed

text \<open>Nobody at the terminal; the methods are never called when no seat holds a person.\<close>

definition nobody :: "unit person" where
  "nobody = \<lparr>ps_act = (\<lambda>obs p. Some (calling_station_act obs, p)), ps_on_hand_start = (\<lambda>_ p. p), ps_on_event = (\<lambda>_ p. p),
     ps_on_hand_end = (\<lambda>_ p. p)\<rparr>"

lemma nobody_responsive:
  assumes "draws_below gen_index" and "ranks_real_cards rank"
  shows "responsive (report_env gen_index gen_f32 below rank nobody sink)"
proof
  fix obs and seat :: nat and w :: "('a, unit) table_world"
  assume obs: "obs_ok obs"
  show "ok (e_act (report_env gen_index gen_f32 below rank nobody sink) seat obs w) (\<lambda>(a, _). answer_ok (o_legal_actions obs) a)"
  proof (cases "tw_agents w seat")
    case (Inl b)
    then show ?thesis
      using bot_act_ok [OF assms obs, of gen_f32 below b] by (auto simp: report_env_def ok_def)
  next
    case (Inr p)
    then show ?thesis by (simp add: report_env_def nobody_def)
  qed
qed

lemma rs_ranks_real: "ranks_real_cards (rs_rank_cards from_u8 rank)"
  unfolding ranks_real_cards_def by (intro allI impI rs_rank_cards_total) blast

lemma nobody_fair_table:
  assumes "draws_below gen_index" and "draws_in_range gen_range"
  shows "fair_table rules (report_play gen_range seed_deck gen_index gen_f32 below (rs_rank_cards from_u8 rank) nobody rules sink)"
  by (rule engine_fair_table [OF nobody_responsive [OF assms(1) rs_ranks_real] ranks_real_cards_evaluator [OF rs_ranks_real] assms(2)])

lemma nobody_counted_table:
  assumes "draws_below gen_index" and "draws_in_range gen_range"
  shows "counted_table rules
     (report_play gen_range seed_deck gen_index gen_f32 below (rs_rank_cards from_u8 rank) nobody rules stats_on_event)
     (\<lambda>w. length (st_seats (tw_sink w))) (\<lambda>w i. ss_chip_delta_total (st_seats (tw_sink w) ! i))
     (\<lambda>w i. ss_hands_dealt (st_seats (tw_sink w) ! i))"
proof (intro counted_table.intro counted_table_axioms.intro)
  show fair: "fair_table rules (report_play gen_range seed_deck gen_index gen_f32 below (rs_rank_cards from_u8 rank) nobody rules stats_on_event)"
    by (rule nobody_fair_table [OF assms])
  fix stacks d h s and w w' :: "('a, unit) table_world" and res
  assume play: "playable rules stacks d None"
    and run: "report_play gen_range seed_deck gen_index gen_f32 below (rs_rank_cards from_u8 rank) nobody rules stats_on_event h s stacks d None w
      = Some (res, w')"
    and len: "length (st_seats (tw_sink w)) = length stacks"
  have "fair_result h stacks res"
    using fair_table.play_fair [OF fair play, of h s w] run by (simp add: ok_def)
  from report_hand_counts [OF run this len]
  show "length (st_seats (tw_sink w')) = length stacks \<and> (\<forall>i < length stacks.
      ss_chip_delta_total (st_seats (tw_sink w') ! i) = ss_chip_delta_total (st_seats (tw_sink w) ! i) + delta_at (hr_seats res) i
      \<and> ss_hands_dealt (st_seats (tw_sink w') ! i) = ss_hands_dealt (st_seats (tw_sink w) ! i) + (if 0 < stacks ! i then 1 else 0))" .
qed

interpretation sample_report: counted_table "no_limit_holdem 1 2 2"
  "report_play first_card (\<lambda>_. ()) last_choice (\<lambda>r. (0 :: nat, r)) (\<lambda>x p. x < p) (rs_rank_cards Some (\<lambda>_. RsHighCard 0)) nobody
     (no_limit_holdem 1 2 2) stats_on_event"
  "\<lambda>w. length (st_seats (tw_sink w))" "\<lambda>w i. ss_chip_delta_total (st_seats (tw_sink w) ! i)"
  "\<lambda>w i. ss_hands_dealt (st_seats (tw_sink w) ! i)"
  by (rule nobody_counted_table) (simp_all add: first_card_draws draws_below_def last_choice_def)

definition no_person :: "('r, unit) table_world \<Rightarrow> ('r, 'p) table_world \<Rightarrow> bool" where
  "no_person v w \<longleftrightarrow> tw_sink w = tw_sink v \<and> (\<forall>i. \<exists>b. tw_agents v i = Inl b \<and> tw_agents w i = Inl b)"

interpretation without_person: full_follower "report_env gen_index gen_f below rk nobody sink"
  "report_env gen_index gen_f below rk person sink" no_person
  for gen_index gen_f below rk sink and person :: "'p person"
proof unfold_locales
  note bots = no_person_def report_env_def on_person_def
  fix v :: "('a, unit) table_world" and w :: "('a, 'p) table_world" and i obs ev h res
  assume R: "no_person v w"
  then obtain b where b: "tw_agents v i = Inl b" "tw_agents w i = Inl b" by (auto simp: no_person_def)
  show "leads (e_act (report_env gen_index gen_f below rk nobody sink) i obs v) (e_act (report_env gen_index gen_f below rk person sink) i obs w)
      (\<lambda>(a, v) (a', w). a' = a \<and> no_person v w)"
    using R b by (auto simp: bots leads_def split: bind_splits)
  show "no_person (e_sink (report_env gen_index gen_f below rk nobody sink) ev v) (e_sink (report_env gen_index gen_f below rk person sink) ev w)"
    "no_person (e_sink (report_env gen_index gen_f below rk nobody sink) (HandEnded h res) v)
      (e_sink (report_env gen_index gen_f below rk person sink) (HandEnded h res) w)"
    using R by (simp_all add: bots)
  show "no_person (e_on_event (report_env gen_index gen_f below rk nobody sink) i ev v) (e_on_event (report_env gen_index gen_f below rk person sink) i ev w)"
    "no_person (e_on_hand_start (report_env gen_index gen_f below rk nobody sink) i h v) (e_on_hand_start (report_env gen_index gen_f below rk person sink) i h w)"
    "no_person (e_on_hand_end (report_env gen_index gen_f below rk nobody sink) i res v) (e_on_hand_end (report_env gen_index gen_f below rk person sink) i res w)"
    using R b by (auto simp: bots)
qed

lemma report_plays_alike:
  "plays_alike no_person (report_play gen_range seed_deck gen_index gen_f32 below rank nobody rules sink)
     (report_play gen_range seed_deck gen_index gen_f32 below rank person rules sink)"
  unfolding plays_alike_def using without_person.run_hand_related by blast

section \<open>Whole reports\<close>

lemma report_worlds:
  assumes "SpecHuman \<notin> set specs"
  shows "no_person (report_world seed_from_u64 (\<lambda>_. ()) specs) (report_world seed_from_u64 sit specs)"
proof -
  have bot: "spec \<noteq> SpecHuman \<Longrightarrow> \<exists>b. spec_build seed_from_u64 spec = Inl b" for spec
    by (cases spec) simp_all
  have "\<exists>b. spec_build seed_from_u64 (if i < length specs then specs ! i else SpecCalling) = Inl b" for i
    by (rule bot) (metis agent_spec.distinct(3) assms nth_mem)
  then have "\<exists>b. map_sum id f (spec_build seed_from_u64 (if i < length specs then specs ! i else SpecCalling)) = Inl b
      \<and> map_sum id g (spec_build seed_from_u64 (if i < length specs then specs ! i else SpecCalling)) = Inl b"
    for i and f :: "human_agent \<Rightarrow> unit" and g :: "human_agent \<Rightarrow> 'b"
    by (metis id_apply map_sum.simps(1))
  then show ?thesis by (simp add: no_person_def report_world_def)
qed

lemma scale_report_chips:
  assumes "length ds = length (st_seats s)"
  shows "map ss_chip_delta_total (st_seats (scale_report rnd hands k ds s)) = ds"
proof -
  define f where "f = (\<lambda>(seat, delta) (sink :: stats_sink). if seat < length (st_seats sink)
          then sink\<lparr>st_seats := (st_seats sink)[seat := scale_seat rnd (rnd (rnd (real hands) / rnd (real k))) delta (st_seats sink ! seat)]\<rparr>
          else sink)"
  have "map ss_chip_delta_total (st_seats (fold f (enumerate n ds) s))
      = take n (map ss_chip_delta_total (st_seats s)) @ ds @ drop (n + length ds) (map ss_chip_delta_total (st_seats s))"
    if "n + length ds \<le> length (st_seats s)" for n
    using that
  proof (induction ds arbitrary: n s)
    case (Cons d ds)
    let ?s = "f (n, d) s"
    have "map ss_chip_delta_total (st_seats ?s) = (map ss_chip_delta_total (st_seats s))[n := d]"
      using Cons.prems by (simp add: f_def scale_seat_def map_update)
    then show ?case
      using Cons.IH [of "Suc n" ?s] Cons.prems
      by (simp add: f_def take_Suc_conv_app_nth)
  qed simp
  from this [of 0] show ?thesis using assms by (simp add: scale_report_def f_def)
qed

text \<open>The statistics of a fresh run, seat by seat and as lists.\<close>

definition fresh_totals :: "nat list \<Rightarrow> nat \<Rightarrow> stats_sink \<Rightarrow> bool" where
  "fresh_totals stacks hands s \<longleftrightarrow> length (st_seats s) = length stacks
     \<and> sum_list (map (\<lambda>i. ss_chip_delta_total (st_seats s ! i)) [0..<length stacks]) = 0
     \<and> (\<forall>i < length stacks. ss_hands_dealt (st_seats s ! i) = hands)"

lemma fresh_totals_seats:
  assumes "fresh_totals stacks hands s"
  shows "length (st_seats s) = length stacks \<and> sum_list (map ss_chip_delta_total (st_seats s)) = 0
     \<and> (\<forall>x \<in> set (st_seats s). ss_hands_dealt x = hands)"
proof -
  have "map ss_chip_delta_total (st_seats s) = map (\<lambda>i. ss_chip_delta_total (st_seats s ! i)) [0..<length stacks]"
    by (rule nth_equalityI) (use assms in \<open>simp_all add: fresh_totals_def\<close>)
  then show ?thesis using assms by (auto simp: fresh_totals_def in_set_conv_nth)
qed

lemma report_single_run:
  fixes person :: "'p person" and world :: "('r, 'p) table_world"
  assumes draws: "draws_below gen_index" "draws_in_range gen_range" and su: "sc_stack_policy (su_config su) = Reset"
    and play: "playable (su_rules su) (su_stacks su) 0 None" and pos: "list_all (\<lambda>s. 0 < s) (su_stacks su)"
    and fit: "seeds_fit (sc_seed (su_config su)) hands" and R: "no_person v world"
    and new: "tw_sink world = stats_new (length (su_stacks su))"
  shows "ok (sim_run next_u64 (\<lambda>_ _ w. w) (\<lambda>_ w. w) (su_rules su)
       (report_play gen_range seed_deck gen_index gen_f32 below (rs_rank_cards from_u8 rank) person (su_rules su) stats_on_event)
       hands (su_config su) (with_rng (su_stacks su) g) world)
     (\<lambda>(_, _, w). length (st_seats (tw_sink w)) = length (su_stacks su)
        \<and> sum_list (map ss_chip_delta_total (st_seats (tw_sink w))) = 0
        \<and> (\<forall>x \<in> set (st_seats (tw_sink w)). ss_hands_dealt x = hands))"
proof -
  let ?play = "report_play gen_range seed_deck gen_index gen_f32 below (rs_rank_cards from_u8 rank) nobody (su_rules su) stats_on_event"
  have new_v: "tw_sink v = stats_new (length (su_stacks su))" using R new by (simp add: no_person_def)
  have "ok (sim_run next_u64 (\<lambda>_ _ w. w) (\<lambda>_ w. w) (su_rules su) ?play hands (su_config su) (with_rng (su_stacks su) g) v)
     (\<lambda>(_, _, w'). length (st_seats (tw_sink w')) = length (su_stacks su)
        \<and> sum_list (map (\<lambda>i. ss_chip_delta_total (st_seats (tw_sink w') ! i)) [0..<length (su_stacks su)]) = 0
        \<and> (\<forall>i < length (su_stacks su). ss_hands_dealt (st_seats (tw_sink w') ! i) = hands))"
    by (rule counted_table.fresh_run_totals [OF nobody_counted_table [OF draws] fit su play pos])
      (simp_all add: new_v stats_new_def seat_stats_default_def)
  then obtain res rn' w' where run: "sim_run next_u64 (\<lambda>_ _ w. w) (\<lambda>_ w. w) (su_rules su) ?play hands (su_config su)
        (with_rng (su_stacks su) g) v = Some (res, rn', w')" and totals: "fresh_totals (su_stacks su) hands (tw_sink w')"
    by (auto simp: ok_def fresh_totals_def)
  then show ?thesis
    using sim_run_alike [OF report_plays_alike [where gen_range = gen_range and seed_deck = seed_deck and gen_index = gen_index
        and ?gen_f32.0 = gen_f32 and below = below and rank = "rs_rank_cards from_u8 rank" and rules = "su_rules su"
        and sink = stats_on_event and person = person] R, of next_u64 "su_rules su" hands "su_config su" "with_rng (su_stacks su) g"]
      fresh_totals_seats [OF totals]
    by (auto simp: leads_def ok_def no_person_def runs_alike_def)
qed

lemma playable_report:
  assumes "report_setup cli = Inr su" and "list_all (\<lambda>s. 0 < s) (su_stacks su)" and "length (su_stacks su) \<le> 23"
    and "8 * (sum_list (su_stacks su) + r_big_blind (su_rules su)) < u32_lim"
  shows "playable (su_rules su) (su_stacks su) 0 None"
proof -
  have all: "filter (\<lambda>j. 0 < su_stacks su ! j) [0..<length (su_stacks su)] = [0..<length (su_stacks su)]"
    using assms(2) by (simp add: list_all_length filter_id_conv)
  obtain sb bb n where "2 \<le> length (su_stacks su)" "0 < sb" "sb < bb" "su_rules su = no_limit_holdem sb bb n"
    using setup_sound [OF assms(1)] by auto
  then show ?thesis
    using all assms(3,4) by (auto simp: playable_def plays_def no_limit_holdem_def)
qed



end
