(* ===== verification/EventLog.thy ===== *)
theory EventLog
  imports Protocol
begin

text \<open>
  Event logs on disk (\<open>game/event.rs\<close>): the \<open>FileSink\<close> that appends every event of a run behind a
  \<open>BufWriter\<close>, and \<open>read_event_log\<close>; and what a log is worth when the disk fills up on the way.

  A sink is the file, the buffer in front of it, and how many bytes the disk still takes; \<open>cap\<close> is the capacity
  of the buffer.  MessagePack is the parameter \<open>to_vec\<close> and \<open>from_slice\<close>.  \<open>None\<close> is the panic of the
  \<open>expect\<close> on an event that does not serialize.  The buffer for a frame that is read is taken to be allocated.
\<close>

section \<open>The sink\<close>

record file_sink =
  fk_file :: "8 word list"
  fk_buffer :: "8 word list"
  fk_room :: nat

definition file_sink_create :: "nat \<Rightarrow> file_sink" where
  "file_sink_create room = \<lparr>fk_file = [], fk_buffer = [], fk_room = room\<rparr>"

text \<open>\<open>write_all\<close> on the file, \<open>flush\<close> and \<open>write_all\<close> on the buffer; the flag says that no error came back.\<close>

definition file_write_all :: "8 word list \<Rightarrow> file_sink \<Rightarrow> bool \<times> file_sink" where
  "file_write_all bs s =
     (let n = min (fk_room s) (length bs)
      in (n = length bs, s\<lparr>fk_file := fk_file s @ take n bs, fk_room := fk_room s - n\<rparr>))"

definition flush_buf :: "file_sink \<Rightarrow> bool \<times> file_sink" where
  "flush_buf s =
     (let n = min (fk_room s) (length (fk_buffer s)); (done, s') = file_write_all (fk_buffer s) s
      in (done, s'\<lparr>fk_buffer := drop n (fk_buffer s)\<rparr>))"

definition buf_write_all :: "nat \<Rightarrow> 8 word list \<Rightarrow> file_sink \<Rightarrow> bool \<times> file_sink" where
  "buf_write_all cap bs s =
     (if length (fk_buffer s) + length bs < cap then (True, s\<lparr>fk_buffer := fk_buffer s @ bs\<rparr>)
      else
        let (flushed, s) = (if cap < length (fk_buffer s) + length bs then flush_buf s else (True, s)) in
        if \<not> flushed then (False, s)
        else if cap \<le> length bs then file_write_all bs s
        else (True, s\<lparr>fk_buffer := fk_buffer s @ bs\<rparr>))"

definition log_frame :: "8 word list \<Rightarrow> 8 word list" where
  "log_frame bytes = to_le_bytes (of_nat (length bytes)) @ bytes"

text \<open>Both results are dropped: an event that could not be written is lost without a trace.\<close>

definition file_sink_on_event ::
  "('e \<Rightarrow> string + 8 word list) \<Rightarrow> nat \<Rightarrow> 'e \<Rightarrow> file_sink \<Rightarrow> file_sink option" where
  "file_sink_on_event to_vec cap event s =
     (case to_vec event of
        Inl _ \<Rightarrow> None
      | Inr bytes \<Rightarrow>
          let (_, s) = buf_write_all cap (to_le_bytes (of_nat (length bytes))) s;
              (_, s) = buf_write_all cap bytes s
          in Some s)"

definition file_sink_flush :: "file_sink \<Rightarrow> bool \<times> file_sink" where
  "file_sink_flush = flush_buf"

definition file_sink_drop :: "file_sink \<Rightarrow> 8 word list" where
  "file_sink_drop s = fk_file (snd (file_sink_flush s))"

section \<open>Reading a log\<close>

function read_event_log :: "(8 word list \<Rightarrow> string + 'e) \<Rightarrow> reader \<Rightarrow> io_error + 'e list" where
  "read_event_log from_slice r =
     (case read_exact 4 r of
        Inl UnexpectedEof \<Rightarrow> Inr []
      | Inl e \<Rightarrow> Inl e
      | Inr (len_buf, r') \<Rightarrow>
          case read_exact (unat (from_le_bytes len_buf)) r' of
            Inl e \<Rightarrow> Inl e
          | Inr (frame, r'') \<Rightarrow>
              case from_slice frame of
                Inl e \<Rightarrow> Inl (OtherIo e)
              | Inr event \<Rightarrow>
                  case read_event_log from_slice r'' of
                    Inl e \<Rightarrow> Inl e
                  | Inr events \<Rightarrow> Inr (event # events))"
  by pat_completeness auto

termination read_event_log
  by (relation "measure (\<lambda>(_, r). length (rd_bytes r))") (auto dest!: read_exact_shrinks)

declare read_event_log.simps [simp del]

section \<open>What reaches the disk\<close>

text \<open>Of the bytes \<open>T\<close> written so far either all are in the file and its buffer, or the disk is full of the first of them.\<close>

definition holds :: "nat \<Rightarrow> 8 word list \<Rightarrow> file_sink \<Rightarrow> bool" where
  "holds k T s \<longleftrightarrow>
     fk_file s @ fk_buffer s = T \<and> length (fk_file s) + fk_room s = k
     \<or> fk_room s = 0 \<and> fk_file s = take k T \<and> k \<le> length T"

lemma holds_create: "holds k [] (file_sink_create k)"
  by (simp add: holds_def file_sink_create_def)

lemma flush_simps [simp]:
  "fst (flush_buf s) = (length (fk_buffer s) \<le> fk_room s)"
  "fk_file (snd (flush_buf s)) = fk_file s @ take (fk_room s) (fk_buffer s)"
  "fk_buffer (snd (flush_buf s)) = drop (fk_room s) (fk_buffer s)"
  "fk_room (snd (flush_buf s)) = fk_room s - length (fk_buffer s)"
  by (auto simp: flush_buf_def file_write_all_def Let_def min_def)

lemma file_write_simps [simp]:
  "fk_file (snd (file_write_all bs s)) = fk_file s @ take (fk_room s) bs"
  "fk_buffer (snd (file_write_all bs s)) = fk_buffer s"
  "fk_room (snd (file_write_all bs s)) = fk_room s - length bs"
  by (auto simp: file_write_all_def Let_def min_def)

lemma holds_flush:
  assumes "holds k T s"
  shows "holds k T (snd (flush_buf s))"
    and "fst (flush_buf s) \<Longrightarrow> fk_buffer (snd (flush_buf s)) = []"
    and "\<not> fst (flush_buf s) \<Longrightarrow> fk_room (snd (flush_buf s)) = 0 \<and> fk_file (snd (flush_buf s)) = take k T \<and> k \<le> length T"
  using assms by (auto simp: holds_def)

lemma holds_write_file:
  assumes "holds k T s" and "fk_buffer s = []"
  shows "holds k (T @ bs) (snd (file_write_all bs s))"
  using assms by (auto simp: holds_def)

lemma holds_full: "fk_room s = 0 \<Longrightarrow> fk_file s = take k T \<Longrightarrow> k \<le> length T \<Longrightarrow> holds k (T @ bs) s"
  by (simp add: holds_def)

lemma holds_buffer: "holds k T s \<Longrightarrow> holds k (T @ bs) (s\<lparr>fk_buffer := fk_buffer s @ bs\<rparr>)"
  by (auto simp: holds_def)

lemma holds_write:
  assumes "holds k T s"
  shows "holds k (T @ bs) (snd (buf_write_all cap bs s))"
proof -
  consider "length (fk_buffer s) + length bs < cap" | "length (fk_buffer s) + length bs = cap" | "cap < length (fk_buffer s) + length bs"
    by linarith
  then show ?thesis
  proof cases
    case 1
    then show ?thesis using holds_buffer [OF assms] by (simp add: buf_write_all_def)
  next
    case 2
    then show ?thesis
      using holds_buffer [OF assms, of bs] holds_write_file [OF assms, of bs] by (auto simp: buf_write_all_def)
  next
    case 3
    note f = holds_flush [OF assms]
    show ?thesis
    proof (cases "flush_buf s")
      case (Pair flushed s')
      then show ?thesis
        using 3 f holds_full [of s' k T bs] holds_buffer [of k T s' bs] holds_write_file [of k T s' bs]
        by (auto simp: buf_write_all_def)
    qed
  qed
qed

lemma holds_event:
  assumes "holds k T s" and "to_vec e = Inr bytes"
  shows "\<exists>s'. file_sink_on_event to_vec cap e s = Some s' \<and> holds k (T @ log_frame bytes) s'"
proof -
  let ?len = "to_le_bytes (of_nat (length bytes))"
  let ?s = "snd (buf_write_all cap ?len s)"
  have "holds k ((T @ ?len) @ bytes) (snd (buf_write_all cap bytes ?s))"
    by (intro holds_write assms(1))
  then show ?thesis
    by (simp add: file_sink_on_event_def assms(2) log_frame_def case_prod_unfold Let_def)
qed

text \<open>The bytes of a list of events.\<close>

definition encodable :: "('e \<Rightarrow> string + 8 word list) \<Rightarrow> 'e \<Rightarrow> bool" where
  "encodable to_vec e = (case to_vec e of Inl _ \<Rightarrow> False | Inr bytes \<Rightarrow> length bytes < 2 ^ 32)"

definition serializes :: "('e \<Rightarrow> string + 8 word list) \<Rightarrow> 'e \<Rightarrow> bool" where
  "serializes to_vec e \<longleftrightarrow> (\<exists>bytes. to_vec e = Inr bytes)"

lemma encodable_serializes: "list_all (encodable to_vec) es \<Longrightarrow> list_all (serializes to_vec) es"
  by (induction es) (auto simp: encodable_def serializes_def split: sum.splits)

definition event_bytes :: "('e \<Rightarrow> string + 8 word list) \<Rightarrow> 'e \<Rightarrow> 8 word list" where
  "event_bytes to_vec e = (case to_vec e of Inl _ \<Rightarrow> [] | Inr bytes \<Rightarrow> bytes)"

definition log_bytes :: "('e \<Rightarrow> string + 8 word list) \<Rightarrow> 'e list \<Rightarrow> 8 word list" where
  "log_bytes to_vec es = concat (map (\<lambda>e. log_frame (event_bytes to_vec e)) es)"

lemma holds_events:
  assumes "holds k T s" and "list_all (serializes to_vec) es"
  shows "\<exists>s'. for_each es (file_sink_on_event to_vec cap) s = Some s' \<and> holds k (T @ log_bytes to_vec es) s'"
  using assms
proof (induction es arbitrary: s T)
  case (Cons e es)
  obtain bytes where b: "to_vec e = Inr bytes" using Cons.prems(2) by (auto simp: serializes_def)
  obtain s' where s': "file_sink_on_event to_vec cap e s = Some s'" "holds k (T @ log_frame bytes) s'"
    using holds_event [where to_vec = to_vec and e = e, OF Cons.prems(1) b] by blast
  then show ?case
    using Cons.IH [OF s'(2)] Cons.prems(2) b by (simp add: log_bytes_def event_bytes_def)
qed (simp add: log_bytes_def)

lemma dropped_file: "holds k T s \<Longrightarrow> file_sink_drop s = take k T"
  by (auto simp: file_sink_drop_def file_sink_flush_def holds_def)

section \<open>Reading what is left\<close>

text \<open>What a log that was cut off after \<open>k\<close> bytes yields.\<close>

fun cut_log :: "('e \<Rightarrow> string + 8 word list) \<Rightarrow> nat \<Rightarrow> 'e list \<Rightarrow> io_error + 'e list" where
  "cut_log to_vec k [] = Inr []"
| "cut_log to_vec k (e # es) =
     (let n = 4 + length (event_bytes to_vec e) in
      if n \<le> k then map_sum id ((#) e) (cut_log to_vec (k - n) es)
      else if k < 4 then Inr [] else Inl UnexpectedEof)"

lemma read_frame:
  assumes "length bytes < 2 ^ 32"
  shows "read_exact 4 \<lparr>rd_bytes = log_frame bytes @ rest, rd_end = None\<rparr>
      = Inr (to_le_bytes (of_nat (length bytes)), \<lparr>rd_bytes = bytes @ rest, rd_end = None\<rparr>)"
    and "unat (of_nat (length bytes) :: 32 word) = length bytes"
    and "read_exact (length bytes) \<lparr>rd_bytes = bytes @ rest, rd_end = None\<rparr> = Inr (bytes, \<lparr>rd_bytes = rest, rd_end = None\<rparr>)"
  using assms by (simp_all add: read_exact_def log_frame_def unat_of_nat take_bit_nat_eq_self)

lemma read_cut_log:
  assumes "codec_ok to_vec from_slice" and "list_all (encodable to_vec) es"
  shows "read_event_log from_slice \<lparr>rd_bytes = take k (log_bytes to_vec es), rd_end = None\<rparr> = cut_log to_vec k es"
  using assms(2)
proof (induction es arbitrary: k)
  case Nil
  then show ?case by (subst read_event_log.simps) (simp add: log_bytes_def read_exact_def)
next
  case (Cons e es)
  obtain bytes where b: "to_vec e = Inr bytes" "length bytes < 2 ^ 32" "from_slice bytes = Inr e"
    using Cons.prems assms(1) by (auto simp: encodable_def codec_ok_def split: sum.splits)
  have log: "log_bytes to_vec (e # es) = log_frame bytes @ log_bytes to_vec es"
    by (simp add: log_bytes_def event_bytes_def b(1))
  have len: "length (log_frame bytes) = 4 + length bytes" by (simp add: log_frame_def)
  show ?case
  proof (cases "4 + length bytes \<le> k")
    case True
    then have "take k (log_bytes to_vec (e # es)) = log_frame bytes @ take (k - (4 + length bytes)) (log_bytes to_vec es)"
      by (simp add: log len)
    then show ?thesis
      using True Cons b
      by (subst read_event_log.simps)
        (simp add: read_frame event_bytes_def map_sum_def split: sum.split)
  next
    case False
    then have cut: "take k (log_bytes to_vec (e # es)) = take k (log_frame bytes)"
      by (simp add: log len)
    show ?thesis
    proof (cases "k < 4")
      case True
      then show ?thesis
        using False by (subst read_event_log.simps) (simp add: cut read_exact_def len event_bytes_def b(1) Let_def)
    next
      case False
      then have part: "length bytes > k - 4" using \<open>\<not> 4 + length bytes \<le> k\<close> by simp
      from False have "take k (log_frame bytes) = to_le_bytes (of_nat (length bytes)) @ take (k - 4) bytes"
        by (simp add: log_frame_def)
      then show ?thesis
        using False part \<open>\<not> 4 + length bytes \<le> k\<close> read_frame(2) [OF b(2)]
        by (subst read_event_log.simps) (simp add: cut read_exact_def event_bytes_def b(1) Let_def)
    qed
  qed
qed

lemma whole_log: "length (log_bytes to_vec es) \<le> k \<Longrightarrow> cut_log to_vec k es = Inr es"
  by (induction es arbitrary: k) (simp_all add: log_bytes_def log_frame_def Let_def)



end
