(* ===== verification/Dataset.thy ===== *)
theory Dataset
  imports Stats StdText Complex_Main "HOL-Library.List_Lexorder" "HOL-Library.Char_ord" "HOL-Library.Product_Lexorder"
begin

text \<open>
  The dataset of \<open>poker-trainer/src/dataset/mod.rs\<close>: rows per hand and seat out of an event log, rolled up by
  class or by windows of hands; and that its rows add up to the counters of the statistics sink.

  A \<open>BTreeMap\<close> is a map.  Rates are \<open>f64\<close>: every operation on reals is followed by the rounding \<open>rnd\<close>, a
  parameter.  \<open>None\<close> is a panic: an assertion that fails or a \<open>u64\<close> that overflows.
\<close>

section \<open>Rows\<close>

record hand_stats =
  hx_hand_id :: nat
  hx_seat :: nat
  hx_own_class :: string
  hx_opponents_sig :: string
  hx_voluntary_pf :: bool
  hx_raised_pf :: bool
  hx_aggressive_actions :: nat
  hx_passive_actions :: nat
  hx_saw_showdown :: bool
  hx_chip_delta :: int

record builder =
  bd_voluntary_pf :: bool
  bd_raised_pf :: bool
  bd_aggressive_actions :: nat
  bd_passive_actions :: nat
  bd_folded :: bool

definition builder_default :: builder where
  "builder_default = \<lparr>bd_voluntary_pf = False, bd_raised_pf = False, bd_aggressive_actions = 0,
     bd_passive_actions = 0, bd_folded = False\<rparr>"

definition opponents_signature :: "string list \<Rightarrow> nat \<Rightarrow> string" where
  "opponents_signature seat_class own =
     join ''+'' (sort (map snd (filter (\<lambda>(i, _). i \<noteq> own) (enumerate 0 seat_class))))"

record extractor =
  ex_out :: "hand_stats list"
  ex_hand_id :: nat
  ex_street :: street
  ex_per_seat :: "nat \<rightharpoonup> builder"

definition extractor_new :: extractor where
  "extractor_new = \<lparr>ex_out = [], ex_hand_id = 0, ex_street = Preflop, ex_per_seat = Map.empty\<rparr>"

definition or_default :: "builder option \<Rightarrow> builder" where
  "or_default b = (case b of None \<Rightarrow> builder_default | Some b \<Rightarrow> b)"

definition build_action :: "street \<Rightarrow> action \<Rightarrow> builder \<Rightarrow> builder" where
  "build_action street action b =
     (let raised = b\<lparr>bd_aggressive_actions := bd_aggressive_actions b + 1\<rparr> in
      case action of
        Raise _ \<Rightarrow> if street = Preflop then raised\<lparr>bd_voluntary_pf := True, bd_raised_pf := True\<rparr> else raised
      | AllIn \<Rightarrow> if street = Preflop then raised\<lparr>bd_voluntary_pf := True, bd_raised_pf := True\<rparr> else raised
      | Call \<Rightarrow>
          let called = b\<lparr>bd_passive_actions := bd_passive_actions b + 1\<rparr>
          in if street = Preflop then called\<lparr>bd_voluntary_pf := True\<rparr> else called
      | Fold \<Rightarrow> b\<lparr>bd_folded := True\<rparr>
      | Check \<Rightarrow> b)"

definition extract_outcome :: "string list \<Rightarrow> seat_outcome \<Rightarrow> extractor \<Rightarrow> extractor" where
  "extract_outcome seat_class outcome x =
     (if so_sat_out outcome then x
      else let seat = so_seat outcome in
        if length seat_class \<le> seat then x
        else let b = or_default (ex_per_seat x seat) in
          x\<lparr>ex_per_seat := (ex_per_seat x)(seat := None),
            ex_out := ex_out x @ [\<lparr>hx_hand_id = ex_hand_id x, hx_seat = seat, hx_own_class = seat_class ! seat,
              hx_opponents_sig = opponents_signature seat_class seat, hx_voluntary_pf = bd_voluntary_pf b,
              hx_raised_pf = bd_raised_pf b, hx_aggressive_actions = bd_aggressive_actions b,
              hx_passive_actions = bd_passive_actions b, hx_saw_showdown = (\<not> bd_folded b),
              hx_chip_delta = so_chip_delta outcome\<rparr>]\<rparr>)"

fun extract_event :: "string list \<Rightarrow> engine_event \<Rightarrow> extractor \<Rightarrow> extractor" where
  "extract_event seat_class (HandStarted hid _ _) x =
     x\<lparr>ex_hand_id := hid, ex_street := Preflop, ex_per_seat := Map.empty\<rparr>"
| "extract_event seat_class (BoardDealt street _) x = x\<lparr>ex_street := street\<rparr>"
| "extract_event seat_class (ActionTaken seat action _) x =
     x\<lparr>ex_per_seat := (ex_per_seat x)(seat \<mapsto> build_action (ex_street x) action (or_default (ex_per_seat x seat)))\<rparr>"
| "extract_event seat_class (HandEnded _ result) x =
     (fold (extract_outcome seat_class) (hr_seats result) x)\<lparr>ex_per_seat := Map.empty\<rparr>"
| "extract_event seat_class (HoleCardsDealt _ _) x = x"
| "extract_event seat_class (PlayerAllIn _ _) x = x"

definition extract_hand_stats :: "engine_event list \<Rightarrow> string list \<Rightarrow> hand_stats list" where
  "extract_hand_stats events seat_class = ex_out (fold (extract_event seat_class) events extractor_new)"

section \<open>Roll-ups\<close>

record stat_rollup =
  rl_hands :: nat
  rl_vpip_pct :: real
  rl_pfr_pct :: real
  rl_aggression_factor :: "real option"
  rl_showdown_pct :: real
  rl_chip_ev :: real

definition stat_rollup_from_rows :: "(real \<Rightarrow> real) \<Rightarrow> hand_stats list \<Rightarrow> stat_rollup" where
  "stat_rollup_from_rows rnd rows =
     (let hands = length rows;
          vpip = length (filter hx_voluntary_pf rows);
          pfr = length (filter hx_raised_pf rows);
          showdown = length (filter hx_saw_showdown rows);
          chips = sum_list (map hx_chip_delta rows);
          aggressive = sum_list (map hx_aggressive_actions rows);
          passive = sum_list (map hx_passive_actions rows);
          ratio = (\<lambda>a n. rnd (rnd a / rnd (real n)));
          pct = (\<lambda>n. if hands = 0 then 0 else rnd (ratio (real n) hands * 100))
      in \<lparr>rl_hands = hands, rl_vpip_pct = pct vpip, rl_pfr_pct = pct pfr,
          rl_aggression_factor = (if passive = 0 then None else Some (ratio (real aggressive) passive)),
          rl_showdown_pct = pct showdown,
          rl_chip_ev = (if hands = 0 then 0 else ratio (real_of_int chips) hands)\<rparr>)"

definition add_to_group ::
  "hand_stats \<Rightarrow> (string \<times> string \<rightharpoonup> hand_stats list) \<Rightarrow> (string \<times> string \<rightharpoonup> hand_stats list)" where
  "add_to_group row groups =
     (let k = (hx_own_class row, hx_opponents_sig row)
      in groups(k \<mapsto> (case groups k of None \<Rightarrow> [] | Some rs \<Rightarrow> rs) @ [row]))"

definition class_conditional :: "(real \<Rightarrow> real) \<Rightarrow> hand_stats list \<Rightarrow> (string \<times> string \<rightharpoonup> stat_rollup)" where
  "class_conditional rnd rows = (\<lambda>k. map_option (stat_rollup_from_rows rnd) (fold add_to_group rows Map.empty k))"

record window_row =
  wr_window_start :: nat
  wr_window_end :: nat
  wr_seat :: nat
  wr_class :: string
  wr_stats :: stat_rollup

definition in_window :: "nat \<Rightarrow> string \<Rightarrow> nat \<Rightarrow> nat \<Rightarrow> hand_stats \<Rightarrow> bool" where
  "in_window seat klass start stop r \<longleftrightarrow>
     hx_seat r = seat \<and> hx_own_class r = klass \<and> start \<le> hx_hand_id r \<and> hx_hand_id r < stop"

definition window_rows ::
  "(real \<Rightarrow> real) \<Rightarrow> hand_stats list \<Rightarrow> (nat \<times> string) list \<Rightarrow> nat \<Rightarrow> nat \<Rightarrow> window_row list" where
  "window_rows rnd rows keys start stop =
     List.map_filter (\<lambda>(seat, klass).
       let sel = filter (in_window seat klass start stop) rows in
       if sel = [] then None
       else Some \<lparr>wr_window_start = start, wr_window_end = stop, wr_seat = seat, wr_class = klass,
                 wr_stats = stat_rollup_from_rows rnd sel\<rparr>) keys"

definition plus_u64 :: "nat \<Rightarrow> nat \<Rightarrow> nat option" where
  "plus_u64 a b = (if a + b < 2 ^ 64 then Some (a + b) else None)"

partial_function (option) windows_from ::
  "(real \<Rightarrow> real) \<Rightarrow> nat \<Rightarrow> nat \<Rightarrow> hand_stats list \<Rightarrow> (nat \<times> string) list \<Rightarrow> nat \<Rightarrow> nat \<Rightarrow> window_row list option" where
  "windows_from rnd window step rows keys max_hand start =
     (if start \<le> max_hand
      then do { stop \<leftarrow> plus_u64 start window;
                start' \<leftarrow> plus_u64 start step;
                rest \<leftarrow> windows_from rnd window step rows keys max_hand start';
                Some (window_rows rnd rows keys start stop @ rest) }
      else Some [])"

definition windowed :: "(real \<Rightarrow> real) \<Rightarrow> hand_stats list \<Rightarrow> nat \<Rightarrow> nat \<Rightarrow> window_row list option" where
  "windowed rnd rows window step =
     (if window = 0 \<or> step = 0 then None
      else if rows = [] then Some []
      else let min_hand = Min (set (map hx_hand_id rows)); max_hand = Max (set (map hx_hand_id rows));
               keys = remdups_adj (sort (map (\<lambda>r. (hx_seat r, hx_own_class r)) rows))
           in windows_from rnd window step rows keys max_hand min_hand)"

section \<open>The rows add up to the statistics\<close>

text \<open>The log of one complete hand: seats are listed once, and whoever acted was dealt in.\<close>

definition hand_log :: "engine_event list \<Rightarrow> bool" where
  "hand_log es \<longleftrightarrow> (\<exists>h d s body h' r. es = HandStarted h d s # body @ [HandEnded h' r]
     \<and> list_all (\<lambda>e. (\<forall>h d s. e \<noteq> HandStarted h d s) \<and> (\<forall>h r. e \<noteq> HandEnded h r)) body
     \<and> distinct (map so_seat (hr_seats r))
     \<and> (\<forall>seat a p. ActionTaken seat a p \<in> set body \<longrightarrow> (\<exists>out \<in> set (hr_seats r). so_seat out = seat \<and> \<not> so_sat_out out)))"

definition rows_of :: "nat \<Rightarrow> extractor \<Rightarrow> hand_stats list" where
  "rows_of i x = filter (\<lambda>r. hx_seat r = i) (ex_out x)"

text \<open>The counters of seat \<open>i\<close> are the sums over its rows and the row under construction.\<close>

definition tallied :: "seat_stats \<Rightarrow> hand_stats list \<Rightarrow> builder \<Rightarrow> bool" where
  "tallied c rows b \<longleftrightarrow>
     ss_hands_dealt c = length rows \<and> ss_hands_won c = length (filter (\<lambda>r. 0 < hx_chip_delta r) rows)
     \<and> ss_chip_delta_total c = sum_list (map hx_chip_delta rows)
     \<and> ss_vpip_hands c = length (filter hx_voluntary_pf rows) \<and> ss_pfr_hands c = length (filter hx_raised_pf rows)
     \<and> ss_aggressive_actions c = sum_list (map hx_aggressive_actions rows) + bd_aggressive_actions b
     \<and> ss_passive_actions c = sum_list (map hx_passive_actions rows) + bd_passive_actions b"

definition sized :: "nat \<Rightarrow> stats_sink \<Rightarrow> bool" where
  "sized n s \<longleftrightarrow> length (st_seats s) = n \<and> length (st_vpip_this_hand s) = n \<and> length (st_pfr_this_hand s) = n"

definition in_step :: "nat \<Rightarrow> stats_sink \<Rightarrow> extractor \<Rightarrow> bool" where
  "in_step i s x \<longleftrightarrow> (let b = or_default (ex_per_seat x i) in
     st_current_street s = ex_street x \<and> tallied (st_seats s ! i) (rows_of i x) b
     \<and> st_vpip_this_hand s ! i = bd_voluntary_pf b \<and> st_pfr_this_hand s ! i = bd_raised_pf b)"

lemma or_default_simps [simp]: "or_default None = builder_default" "or_default (Some b) = b"
  by (simp_all add: or_default_def)

lemma builder_default_simps [simp]:
  "bd_voluntary_pf builder_default = False" "bd_raised_pf builder_default = False"
  "bd_aggressive_actions builder_default = 0" "bd_passive_actions builder_default = 0" "bd_folded builder_default = False"
  by (simp_all add: builder_default_def)

lemma sized_event: "sized n s \<Longrightarrow> sized n (stats_on_event e s)"
proof (cases e)
  case (HandEnded h r)
  assume "sized n s"
  moreover have "sized n s \<Longrightarrow> sized n (fold (count_outcome pot) outs s)" for pot outs s
    by (induction outs arbitrary: s) (auto simp: sized_def count_outcome_def Let_def)
  ultimately show ?thesis by (simp add: HandEnded)
next
  case (ActionTaken seat a p)
  assume "sized n s"
  then show ?thesis by (cases a) (auto simp: ActionTaken sized_def count_action_def Let_def)
qed (simp_all add: sized_def)

lemma sized_events: "sized n s \<Longrightarrow> sized n (fold stats_on_event es s)"
  by (induction es arbitrary: s) (auto intro: sized_event)

lemma in_step_action:
  assumes "in_step i s x" and "sized n s" and "i < n"
  shows "in_step i (count_action seat a s) (extract_event classes (ActionTaken seat a p) x)"
proof (cases "seat = i")
  case False
  then have "st_seats (count_action seat a s) ! i = st_seats s ! i"
      "st_vpip_this_hand (count_action seat a s) ! i = st_vpip_this_hand s ! i"
      "st_pfr_this_hand (count_action seat a s) ! i = st_pfr_this_hand s ! i"
      "st_current_street (count_action seat a s) = st_current_street s"
    by (cases a; simp add: count_action_def Let_def)+
  then show ?thesis using assms(1) False by (simp add: in_step_def rows_of_def)
next
  case True
  then show ?thesis
    using assms by (cases a) (auto simp: in_step_def tallied_def count_action_def build_action_def rows_of_def sized_def Let_def)
qed

lemma in_step_body:
  assumes "list_all (\<lambda>e. (\<forall>h d s. e \<noteq> HandStarted h d s) \<and> (\<forall>h r. e \<noteq> HandEnded h r)) body"
    and "in_step i s x" and "sized n s" and "i < n"
  shows "in_step i (fold stats_on_event body s) (fold (extract_event classes) body x)"
  using assms
proof (induction body arbitrary: s x)
  case (Cons e body)
  have "in_step i (stats_on_event e s) (extract_event classes e x)"
    using Cons.prems in_step_action [OF Cons.prems(2-4)]
    by (cases e) (auto simp: in_step_def rows_of_def Let_def)
  then show ?case using Cons sized_event [OF Cons.prems(3), of e] by simp
qed simp

lemma idle_body:
  assumes "\<And>a p. ActionTaken i a p \<notin> set body"
    and "list_all (\<lambda>e. (\<forall>h d s. e \<noteq> HandStarted h d s) \<and> (\<forall>h r. e \<noteq> HandEnded h r)) body"
  shows "ex_per_seat (fold (extract_event classes) body x) i = ex_per_seat x i"
  using assms
proof (induction body arbitrary: x)
  case (Cons e body)
  then show ?case by (cases e) (auto simp: Cons.IH)
qed simp

text \<open>At the end of the hand each seat that was dealt in gets its row.\<close>

definition closed :: "nat \<Rightarrow> stats_sink \<Rightarrow> extractor \<Rightarrow> bool" where
  "closed i s x \<longleftrightarrow> tallied (st_seats s ! i) (rows_of i x) builder_default"

lemma outcome_other:
  assumes "so_seat out \<noteq> i \<or> so_sat_out out"
  shows "st_seats (count_outcome pot out s) ! i = st_seats s ! i"
    and "rows_of i (extract_outcome classes out x) = rows_of i x"
    and "so_seat out \<noteq> i \<Longrightarrow> ex_per_seat (extract_outcome classes out x) i = ex_per_seat x i"
  using assms by (auto simp: count_outcome_def extract_outcome_def rows_of_def Let_def)

lemma outcome_flags:
  "st_vpip_this_hand (count_outcome pot out s) = st_vpip_this_hand s" "st_pfr_this_hand (count_outcome pot out s) = st_pfr_this_hand s"
  "st_current_street (count_outcome pot out s) = st_current_street s" "ex_street (extract_outcome classes out x) = ex_street x"
  "sized n s \<Longrightarrow> sized n (count_outcome pot out s)"
  by (auto simp: count_outcome_def extract_outcome_def Let_def sized_def)

lemma outcome_own:
  assumes "in_step i s x" and "sized n s" and "i < n" and "length classes = n" and "so_seat out = i" and "\<not> so_sat_out out"
  shows "closed i (count_outcome pot out s) (extract_outcome classes out x)"
  using assms by (auto simp: in_step_def closed_def tallied_def count_outcome_def extract_outcome_def rows_of_def sized_def Let_def)

lemma outcomes_other:
  assumes "i \<notin> so_seat ` set outs"
  shows "closed i (fold (count_outcome pot) outs s) (fold (extract_outcome classes) outs x) = closed i s x"
  using assms
proof (induction outs arbitrary: s x)
  case (Cons out outs)
  then show ?case using outcome_other [of out i] by (simp add: closed_def)
qed simp

lemma outcomes_own:
  assumes "in_step i s x" and "sized n s" and "i < n" and "length classes = n" and "distinct (map so_seat outs)"
    and "out \<in> set outs" and "so_seat out = i" and "\<not> so_sat_out out"
  shows "closed i (fold (count_outcome pot) outs s) (fold (extract_outcome classes) outs x)"
  using assms
proof (induction outs arbitrary: s x)
  case (Cons o' outs)
  show ?case
  proof (cases "o' = out")
    case True
    then have "i \<notin> so_seat ` set outs" using Cons.prems(5,7) by auto
    then show ?thesis using outcomes_other [of i outs] outcome_own [OF Cons.prems(1-4,7,8)] True by simp
  next
    case False
    then have out: "out \<in> set outs" "so_seat o' \<noteq> i" using Cons.prems(5-7) by auto
    have "in_step i (count_outcome pot o' s) (extract_outcome classes o' x)"
      using Cons.prems(1) outcome_other [of o' i] outcome_flags out(2) by (simp add: in_step_def)
    then show ?thesis
      using Cons.IH [OF _ outcome_flags(5) [OF Cons.prems(2)] Cons.prems(3,4)] Cons.prems out by simp
  qed
qed simp

lemma in_step_closed: "in_step i s x \<Longrightarrow> bd_aggressive_actions (or_default (ex_per_seat x i)) = 0 \<Longrightarrow>
    bd_passive_actions (or_default (ex_per_seat x i)) = 0 \<Longrightarrow> closed i s x"
  by (simp add: in_step_def closed_def tallied_def Let_def)

lemma outcomes_sat_out:
  assumes "\<And>out. out \<in> set outs \<Longrightarrow> so_seat out = i \<Longrightarrow> so_sat_out out"
  shows "closed i (fold (count_outcome pot) outs s) (fold (extract_outcome classes) outs x) = closed i s x"
  using assms
proof (induction outs arbitrary: s x)
  case (Cons out outs)
  then show ?case using outcome_other(1,2) [of out i] by (auto simp: closed_def)
qed simp

lemma closed_hand:
  assumes "hand_log es" and "closed i s x" and "sized n s" and "i < n" and "length classes = n"
  shows "closed i (fold stats_on_event es s) (fold (extract_event classes) es x)"
proof -
  obtain h d sd body h' r where es: "es = HandStarted h d sd # body @ [HandEnded h' r]"
      and body: "list_all (\<lambda>e. (\<forall>h d s. e \<noteq> HandStarted h d s) \<and> (\<forall>h r. e \<noteq> HandEnded h r)) body"
      and seats: "distinct (map so_seat (hr_seats r))"
      and acted: "\<forall>seat a p. ActionTaken seat a p \<in> set body \<longrightarrow> (\<exists>out \<in> set (hr_seats r). so_seat out = seat \<and> \<not> so_sat_out out)"
    using assms(1) unfolding hand_log_def by blast
  define s1 where "s1 = stats_on_event (HandStarted h d sd) s"
  define x1 where "x1 = extract_event classes (HandStarted h d sd) x"
  have size1: "sized n s1" unfolding s1_def by (rule sized_event [OF assms(3)])
  have "in_step i s1 x1"
    using assms(2-4) by (simp add: s1_def x1_def in_step_def closed_def sized_def rows_of_def Let_def)
  from in_step_body [OF body this size1 assms(4)]
  have step: "in_step i (fold stats_on_event body s1) (fold (extract_event classes) body x1)" .
  have size2: "sized n (fold stats_on_event body s1)" by (rule sized_events [OF size1])
  have "closed i (fold (count_outcome (pot_size r)) (hr_seats r) (fold stats_on_event body s1))
      (fold (extract_outcome classes) (hr_seats r) (fold (extract_event classes) body x1))"
  proof (cases "\<exists>out \<in> set (hr_seats r). so_seat out = i \<and> \<not> so_sat_out out")
    case True
    then show ?thesis using outcomes_own [OF step size2 assms(4,5) seats] by blast
  next
    case False
    then have "ActionTaken i a p \<notin> set body" for a p using acted by blast
    from idle_body [OF this body] have "ex_per_seat (fold (extract_event classes) body x1) i = None"
      by (simp add: x1_def)
    then have "closed i (fold stats_on_event body s1) (fold (extract_event classes) body x1)"
      by (intro in_step_closed [OF step]) simp_all
    then show ?thesis using outcomes_sat_out [of "hr_seats r" i] False by blast
  qed
  then show ?thesis
    by (simp add: es s1_def x1_def closed_def rows_of_def)
qed

lemma closed_hands:
  assumes "list_all hand_log hands" and "closed i s x" and "sized n s" and "i < n" and "length classes = n"
  shows "closed i (fold stats_on_event (concat hands) s) (fold (extract_event classes) (concat hands) x)"
  using assms
proof (induction hands arbitrary: s x)
  case (Cons es hands)
  then have "closed i (fold stats_on_event es s) (fold (extract_event classes) es x)" by (intro closed_hand) simp_all
  then show ?case using Cons sized_events [OF Cons.prems(3), of es] by simp
qed simp

text \<open>
  (C29) The rows of the dataset and the live statistics agree.  On the log of any number of complete
  hands, every counter that the statistics sink keeps for a seat is the sum of what the rows extracted from the
  same log say about that seat: hands, hands won, chips, voluntary and raised hands, and both kinds of actions.
\<close>

theorem rows_match_statistics:
  assumes "list_all hand_log hands" and "i < length classes"
  shows "let c = st_seats (fold stats_on_event (concat hands) (stats_new (length classes))) ! i;
             rows = filter (\<lambda>r. hx_seat r = i) (extract_hand_stats (concat hands) classes)
         in ss_hands_dealt c = length rows \<and> ss_hands_won c = length (filter (\<lambda>r. 0 < hx_chip_delta r) rows)
          \<and> ss_chip_delta_total c = sum_list (map hx_chip_delta rows)
          \<and> ss_vpip_hands c = length (filter hx_voluntary_pf rows) \<and> ss_pfr_hands c = length (filter hx_raised_pf rows)
          \<and> ss_aggressive_actions c = sum_list (map hx_aggressive_actions rows)
          \<and> ss_passive_actions c = sum_list (map hx_passive_actions rows)"
proof -
  have "closed i (stats_new (length classes)) extractor_new" "sized (length classes) (stats_new (length classes))"
    using assms(2) by (simp_all add: closed_def tallied_def stats_new_def seat_stats_default_def extractor_new_def rows_of_def sized_def)
  from closed_hands [OF assms(1) this assms(2) refl] show ?thesis
    by (simp add: closed_def tallied_def rows_of_def extract_hand_stats_def Let_def)
qed

definition demo_hand :: "engine_event list" where
  "demo_hand = [HandStarted 1 0 0, ActionTaken 0 (Raise 6) 6, ActionTaken 1 Call 12, BoardDealt Flop [], ActionTaken 0 (Raise 4) 16,
     ActionTaken 1 Fold 16, HandEnded 1 \<lparr>hr_hand_id = 1, hr_board = [],
       hr_seats = [\<lparr>so_seat = 0, so_hole_cards = None, so_chip_delta = 6, so_sat_out = False\<rparr>,
                   \<lparr>so_seat = 1, so_hole_cards = None, so_chip_delta = -6, so_sat_out = False\<rparr>]\<rparr>]"

lemma demo_hand_log: "hand_log demo_hand"
  unfolding hand_log_def demo_hand_def by fastforce

theorem rows_match_statistics_witness:
  "ss_aggressive_actions (st_seats (fold stats_on_event (concat [demo_hand, demo_hand]) (stats_new 2)) ! 0) = 4
   \<and> ss_chip_delta_total (st_seats (fold stats_on_event (concat [demo_hand, demo_hand]) (stats_new 2)) ! 0) = 12"
proof -
  have rows: "map hx_aggressive_actions (filter (\<lambda>r. hx_seat r = 0) (extract_hand_stats (concat [demo_hand, demo_hand]) [''lag'', ''nit''])) = [2, 2]"
      "map hx_chip_delta (filter (\<lambda>r. hx_seat r = 0) (extract_hand_stats (concat [demo_hand, demo_hand]) [''lag'', ''nit''])) = [6, 6]"
    by (simp_all add: extract_hand_stats_def demo_hand_def extractor_new_def build_action_def extract_outcome_def Let_def)
  show ?thesis
    using rows_match_statistics [of "[demo_hand, demo_hand]" 0 "[''lag'', ''nit'']"] demo_hand_log
    by (simp add: rows [simplified] Let_def numeral_2_eq_2)
qed

section \<open>Groups and windows lose no row\<close>

text \<open>The group of a key is the rows of that key, in order.\<close>

lemma groups_filter:
  "fold add_to_group rows groups k =
     (let sel = filter (\<lambda>r. (hx_own_class r, hx_opponents_sig r) = k) rows in
      if sel = [] then groups k else Some ((case groups k of None \<Rightarrow> [] | Some rs \<Rightarrow> rs) @ sel))"
  by (induction rows arbitrary: groups) (auto simp: add_to_group_def Let_def split: option.split)

lemma class_conditional_filter:
  "class_conditional rnd rows k =
     (let sel = filter (\<lambda>r. (hx_own_class r, hx_opponents_sig r) = k) rows in
      if sel = [] then None else Some (stat_rollup_from_rows rnd sel))"
  by (simp add: class_conditional_def groups_filter Let_def)

definition hands_in :: "nat \<Rightarrow> string \<Rightarrow> window_row list \<Rightarrow> nat" where
  "hands_in seat klass ws =
     sum_list (map (rl_hands \<circ> wr_stats) (filter (\<lambda>w. wr_seat w = seat \<and> wr_class w = klass) ws))"

lemma hands_in_append: "hands_in seat klass (ws @ ws') = hands_in seat klass ws + hands_in seat klass ws'"
  by (simp add: hands_in_def)

lemma hands_in_window:
  assumes "distinct keys"
  shows "hands_in seat klass (window_rows rnd rows keys start stop) =
     (if (seat, klass) \<in> set keys then length (filter (in_window seat klass start stop) rows) else 0)"
  using assms
  by (induction keys)
     (auto simp: hands_in_def window_rows_def List.map_filter_simps stat_rollup_from_rows_def Let_def split: if_splits)

lemma filter_split_window:
  assumes "start' = start + k"
  shows "length (filter (\<lambda>r. hx_seat r = seat \<and> hx_own_class r = klass \<and> start \<le> hx_hand_id r) rows)
     = length (filter (in_window seat klass start start') rows)
     + length (filter (\<lambda>r. hx_seat r = seat \<and> hx_own_class r = klass \<and> start' \<le> hx_hand_id r) rows)"
  using assms by (induction rows) (auto simp: in_window_def)

lemma distinct_dedup: "sorted xs \<Longrightarrow> distinct (remdups_adj xs)"
  by (induction xs rule: remdups_adj.induct) (auto simp: order.antisym)

lemma windows_cover:
  assumes "0 < k" and "max_hand + k < 2 ^ 64" and "distinct keys"
    and "\<And>r. r \<in> set rows \<Longrightarrow> (hx_seat r, hx_own_class r) \<in> set keys \<and> hx_hand_id r \<le> max_hand"
  shows "\<exists>ws. windows_from rnd k k rows keys max_hand start = Some ws
     \<and> hands_in seat klass ws = length (filter (\<lambda>r. hx_seat r = seat \<and> hx_own_class r = klass \<and> start \<le> hx_hand_id r) rows)"
proof (induction "max_hand + 1 - start" arbitrary: start rule: less_induct)
  case less
  show ?case
  proof (cases "start \<le> max_hand")
    case False
    then have "filter (\<lambda>r. hx_seat r = seat \<and> hx_own_class r = klass \<and> start \<le> hx_hand_id r) rows = []"
      using assms(4) by (force simp: filter_empty_conv)
    then show ?thesis using False by (simp add: windows_from.simps hands_in_def)
  next
    case True
    then have add: "plus_u64 start k = Some (start + k)" using assms(2) by (simp add: plus_u64_def)
    have "max_hand + 1 - (start + k) < max_hand + 1 - start" using True assms(1) by simp
    from less [OF this] obtain ws where ws: "windows_from rnd k k rows keys max_hand (start + k) = Some ws"
        "hands_in seat klass ws = length (filter (\<lambda>r. hx_seat r = seat \<and> hx_own_class r = klass \<and> start + k \<le> hx_hand_id r) rows)"
      by blast
    have "(seat, klass) \<notin> set keys \<Longrightarrow> filter (in_window seat klass start (start + k)) rows = []"
      using assms(4) by (auto simp: filter_empty_conv in_window_def)
    then have "hands_in seat klass (window_rows rnd rows keys start (start + k)) =
        length (filter (in_window seat klass start (start + k)) rows)"
      by (simp add: hands_in_window [OF assms(3)])
    then show ?thesis
      using ws filter_split_window [OF refl, of seat klass start rows k] True
      by (subst windows_from.simps) (simp add: add hands_in_append)
  qed
qed

text \<open>
  Windows that follow each other without a gap (\<open>step = window\<close>) count every row once: the hands of all windows of a
  seat and class are the rows of that seat and class.
\<close>

lemma windowed_partition:
  assumes "0 < k" and "\<And>r. r \<in> set rows \<Longrightarrow> hx_hand_id r + k < 2 ^ 64"
  shows "\<exists>ws. windowed rnd rows k k = Some ws
     \<and> (\<forall>seat klass. hands_in seat klass ws = length (filter (\<lambda>r. hx_seat r = seat \<and> hx_own_class r = klass) rows))"
proof (cases "rows = []")
  case True
  then show ?thesis using assms(1) by (simp add: windowed_def hands_in_def)
next
  case False
  let ?ids = "set (map hx_hand_id rows)"
  let ?keys = "remdups_adj (sort (map (\<lambda>r. (hx_seat r, hx_own_class r)) rows))"
  have ne: "?ids \<noteq> {}" "finite ?ids" using False by auto
  obtain r where "r \<in> set rows" "hx_hand_id r = Max ?ids" using Max_in [OF ne(2,1)] by auto
  then have lim: "Max ?ids + k < 2 ^ 64" using assms(2) [of r] by simp
  have keys: "distinct ?keys" by (rule distinct_dedup) simp
  have bounds: "(hx_seat r, hx_own_class r) \<in> set ?keys \<and> hx_hand_id r \<le> Max ?ids" if "r \<in> set rows" for r
    using that ne(2) by auto
  have low: "Min ?ids \<le> hx_hand_id r" if "r \<in> set rows" for r using that ne(2) by auto
  have "filter (\<lambda>r. hx_seat r = seat \<and> hx_own_class r = klass \<and> Min ?ids \<le> hx_hand_id r) rows
      = filter (\<lambda>r. hx_seat r = seat \<and> hx_own_class r = klass) rows" for seat klass
    using low by (intro filter_cong) auto
  then have *: "\<exists>ws. windowed rnd rows k k = Some ws \<and> hands_in seat klass ws = length (filter (\<lambda>r. hx_seat r = seat \<and> hx_own_class r = klass) rows)"
    for seat klass
    using windows_cover [where rows = rows and rnd = rnd and start = "Min ?ids" and seat = seat and klass = klass, OF assms(1) lim keys bounds] assms(1) False
    by (simp add: windowed_def Let_def)
  then show ?thesis by (metis option.inject)
qed

end
