(* ===== verification/Matchups.thy ===== *)
theory Matchups
  imports Report EventLog EnvSim Dataset
begin

text \<open>
  The dataset generator, \<open>poker-trainer/src/bin/poker_dataset.rs\<close>: every persona heads-up against every other, the
  rows of all matchups, the event logs on disk, and how the windowed view pools its rows.

  \<open>debug_str\<close> is the \<open>Debug\<close> text of a string, a parameter; \<open>create\<close> is what \<open>FileSink::create\<close> does for a path: an
  error, or a file on a disk that takes so many bytes.  \<open>fmt\<close> prints decimals, as in \<open>Report\<close>.
\<close>

section \<open>Options\<close>

text \<open>The parser three programs share; \<open>sep\<close> is what follows \<open>bad small blind\<close> in its message.\<close>

definition parse_blind_pair :: "(string \<Rightarrow> string) \<Rightarrow> string \<Rightarrow> string \<Rightarrow> string + nat \<times> nat" where
  "parse_blind_pair debug_str sep s =
     (case map trim (split_on (CHR ''/'') s) of
        [small, big] \<Rightarrow>
          (case parse_unsigned u32_lim small of
             None \<Rightarrow> Inl (''bad small blind'' @ sep @ debug_str small)
           | Some sb \<Rightarrow>
               case parse_unsigned u32_lim big of
                 None \<Rightarrow> Inl (''bad big blind'' @ sep @ debug_str big)
               | Some bb \<Rightarrow> Inr (sb, bb))
      | _ \<Rightarrow> Inl (''blinds must look like SMALL/BIG, got '' @ debug_str s))"

definition dataset_parse_blinds :: "(string \<Rightarrow> string) \<Rightarrow> string \<Rightarrow> string + nat \<times> nat" where
  "dataset_parse_blinds debug_str = parse_blind_pair debug_str '' ''"

definition parse_personas :: "string \<Rightarrow> string list" where
  "parse_personas s = filter (\<lambda>p. p \<noteq> []) (map trim (split_on (CHR '','') s))"

definition build_agent :: "(string \<Rightarrow> string) \<Rightarrow> (64 word \<Rightarrow> 'r) \<Rightarrow> string \<Rightarrow> 64 word \<Rightarrow> string + 'r bot" where
  "build_agent debug_str seed_from_u64 name seed =
     (if name = ''nit'' then Inr (Nit (seed_from_u64 seed))
      else if name = ''tag'' then Inr (Tag (seed_from_u64 seed))
      else if name = ''lag'' then Inr (Lag (seed_from_u64 seed))
      else if name = ''maniac'' then Inr (Maniac (seed_from_u64 seed))
      else if name = ''tilt'' then Inr (TiltProne (seed_from_u64 seed) 0 30)
      else Inl (''unknown persona '' @ debug_str name))"

section \<open>A matchup\<close>

text \<open>\<open>FileSink\<close> as the second sink of a \<open>TeeSink\<close>; \<open>None\<close> is its panic.\<close>

definition file_sink_step ::
  "(engine_event \<Rightarrow> string + 8 word list) \<Rightarrow> nat \<Rightarrow> engine_event \<Rightarrow> file_sink option \<Rightarrow> file_sink option" where
  "file_sink_step to_vec cap ev s = do { s \<leftarrow> s; file_sink_on_event to_vec cap ev s }"

text \<open>
  What the programs of the trainer run on: the generators of the deck, of the agents and of the runner, the evaluator, and
  the texts, codecs and files around them.
\<close>

record ('q, 'r, 'f, 'g) machine =
  mc_gen_range :: "'q \<Rightarrow> nat \<Rightarrow> nat \<times> 'q"
  mc_seed_deck :: "64 word \<Rightarrow> 'q"
  mc_seed_agent :: "64 word \<Rightarrow> 'r"
  mc_gen_index :: "'r \<Rightarrow> nat \<Rightarrow> nat \<times> 'r"
  mc_gen_f32 :: "'r \<Rightarrow> 'f \<times> 'r"
  mc_below :: "'f \<Rightarrow> nat \<Rightarrow> bool"
  mc_rank :: "card list \<Rightarrow> hand_rank option"
  mc_next_u64 :: "'g \<Rightarrow> 64 word \<times> 'g"
  mc_rng :: 'g
  mc_debug_str :: "string \<Rightarrow> string"
  mc_to_vec :: "engine_event \<Rightarrow> string + 8 word list"
  mc_cap :: nat
  mc_mkdir :: "string \<Rightarrow> string option"
  mc_create :: "string \<Rightarrow> string + nat"

definition machine_env :: "('q, 'r, 'f, 'g) machine \<Rightarrow> 'r bot_world env" where
  "machine_env m = bot_env (mc_gen_index m) (mc_gen_f32 m) (mc_below m) (mc_rank m)"

text \<open>\<open>runner.run\<close> of a fresh runner, and the world after it.\<close>

definition matchup_run ::
  "('q, 'r, 'f, 'g) machine \<Rightarrow> betting_rules \<Rightarrow> nat \<Rightarrow> 64 word \<Rightarrow> nat \<Rightarrow> 'w env \<Rightarrow> 'w \<Rightarrow> 'w option" where
  "matchup_run m rules hands seed stack env w =
     map_option (snd \<circ> snd)
       (sim_run (mc_next_u64 m) (\<lambda>_ _ w. w) (\<lambda>_ w. w) rules
          (run_hand (mc_gen_range m) (mc_seed_deck m) (mc_rank m) rules env) hands
          \<lparr>sc_seed = Sequential seed, sc_stack_policy = Reset\<rparr> (with_rng [stack, stack] (mc_rng m)) w)"

definition matchup_world :: "'r bot \<Rightarrow> 'r bot \<Rightarrow> 'r bot_world" where
  "matchup_world a b = \<lparr>bw_bots = (\<lambda>i. if i = 0 then a else b), bw_events = []\<rparr>"

type_synonym disk = "string \<rightharpoonup> 8 word list"

definition log_path :: "string \<Rightarrow> string \<Rightarrow> string \<Rightarrow> string" where
  "log_path dir a b = dir @ ''/'' @ a @ ''_vs_'' @ b @ ''.mp''"

definition run_matchup ::
  "('q, 'r, 'f, 'g) machine \<Rightarrow> nat \<Rightarrow> nat \<Rightarrow> betting_rules \<Rightarrow> string option \<Rightarrow> string \<Rightarrow> string \<Rightarrow> 64 word \<Rightarrow>
     hand_stats list \<times> disk \<Rightarrow> (string + hand_stats list \<times> disk) option" where
  "run_matchup m hands stack rules out_dir a b seed = (\<lambda>(rows, files).
     case build_agent (mc_debug_str m) (mc_seed_agent m) a (seed * 31 + 0) of
       Inl e \<Rightarrow> Some (Inl e)
     | Inr agent_a \<Rightarrow>
         case build_agent (mc_debug_str m) (mc_seed_agent m) b (seed * 31 + 1) of
           Inl e \<Rightarrow> Some (Inl e)
         | Inr agent_b \<Rightarrow>
             let world = matchup_world agent_a agent_b; env = machine_env m in
             case out_dir of
               Some dir \<Rightarrow>
                 (let path = log_path dir a b in
                  case mc_create m path of
                    Inl e \<Rightarrow> Some (Inl (''creating '' @ path @ '': '' @ e))
                  | Inr room \<Rightarrow>
                      do { (w, sink) \<leftarrow> matchup_run m rules hands seed stack
                             (tee_env (file_sink_step (mc_to_vec m) (mc_cap m)) env) (world, Some (file_sink_create room));
                           s \<leftarrow> sink;
                           Some (Inr (rows @ extract_hand_stats (bw_events w) [a, b], files(path \<mapsto> file_sink_drop s))) })
             | None \<Rightarrow>
                 do { w \<leftarrow> matchup_run m rules hands seed stack env world;
                      Some (Inr (rows @ extract_hand_stats (bw_events w) [a, b], files)) })"

section \<open>The round robin\<close>

definition matchup_pairs :: "nat \<Rightarrow> (nat \<times> nat) list" where
  "matchup_pairs n = concat (map (\<lambda>i. map (\<lambda>j. (i, j)) [i + 1..<n]) [0..<n])"

text \<open>The product is \<open>u64\<close> arithmetic on a count of personas, far from overflow; the sum wraps.\<close>

definition matchup_seed :: "64 word \<Rightarrow> nat \<Rightarrow> nat \<times> nat \<Rightarrow> 64 word" where
  "matchup_seed base n = (\<lambda>(i, j). base + of_nat (i * n + j) * 1009)"

fun round_robin ::
  "('q, 'r, 'f, 'g) machine \<Rightarrow> nat \<Rightarrow> nat \<Rightarrow> betting_rules \<Rightarrow> string option \<Rightarrow> string list \<Rightarrow> 64 word \<Rightarrow> (nat \<times> nat) list \<Rightarrow>
     hand_stats list \<times> disk \<Rightarrow> (string + hand_stats list \<times> disk) option" where
  "round_robin m hands stack rules out_dir personas base [] rf = Some (Inr rf)"
| "round_robin m hands stack rules out_dir personas base (p # ps) rf =
     do { r \<leftarrow> run_matchup m hands stack rules out_dir (personas ! fst p) (personas ! snd p)
            (matchup_seed base (length personas) p) rf;
          case r of
            Inl e \<Rightarrow> Some (Inl e)
          | Inr rf' \<Rightarrow> round_robin m hands stack rules out_dir personas base ps rf' }"

record dataset_cli =
  dc_personas :: string
  dc_hands :: nat
  dc_window :: nat
  dc_step :: "nat option"
  dc_seed :: "64 word"
  dc_stack :: nat
  dc_blinds :: string
  dc_out :: "string option"

section \<open>The tables\<close>

definition fmt_af :: "(bool \<Rightarrow> nat \<Rightarrow> real \<Rightarrow> string) \<Rightarrow> real option \<Rightarrow> string" where
  "fmt_af fmt af = (case af of Some v \<Rightarrow> pad_left 6 (fmt False 2 v) | None \<Rightarrow> ''    '' @ em_dash)"

definition print_per_persona_summary ::
  "(real \<Rightarrow> real) \<Rightarrow> (bool \<Rightarrow> nat \<Rightarrow> real \<Rightarrow> string) \<Rightarrow> hand_stats list \<Rightarrow> string list \<Rightarrow> terminal \<Rightarrow> terminal" where
  "print_per_persona_summary rnd fmt rows personas t =
     (let t = println [] t;
          t = println ''Per-persona summary (over all matchups)'' t;
          t = println [] t;
          t = println ('' '' @ pad_right 8 ''persona'' @ ''  '' @ pad_left 6 ''hands'' @ ''  '' @ pad_left 6 ''VPIP%'' @ ''  ''
                @ pad_left 6 ''PFR%'' @ ''  '' @ pad_left 6 ''AF'' @ ''  '' @ pad_left 6 ''WTSD%'' @ ''  '' @ pad_left 8 ''Chip EV'') t;
          t = println ('' '' @ str_repeat 60 dash) t
      in fold (\<lambda>p. let s = stat_rollup_from_rows rnd (filter (\<lambda>r. hx_own_class r = p) rows) in
           println ('' '' @ pad_right 8 p @ ''  '' @ pad_left 6 (to_string (rl_hands s)) @ ''  '' @ pad_left 5 (fmt False 1 (rl_vpip_pct s))
             @ ''  '' @ pad_left 5 (fmt False 1 (rl_pfr_pct s)) @ ''  '' @ fmt_af fmt (rl_aggression_factor s) @ ''  ''
             @ pad_left 5 (fmt False 1 (rl_showdown_pct s)) @ ''  '' @ pad_left 8 (fmt True 2 (rl_chip_ev s)))) personas t)"

definition class_line :: "(bool \<Rightarrow> nat \<Rightarrow> real \<Rightarrow> string) \<Rightarrow> string \<Rightarrow> string \<Rightarrow> stat_rollup \<Rightarrow> string" where
  "class_line fmt own opp r =
     '' '' @ pad_right 8 own @ ''  '' @ pad_right 8 opp @ ''  '' @ pad_left 6 (to_string (rl_hands r)) @ ''  ''
       @ pad_left 5 (fmt False 1 (rl_vpip_pct r)) @ ''  '' @ pad_left 5 (fmt False 1 (rl_pfr_pct r)) @ ''  ''
       @ fmt_af fmt (rl_aggression_factor r) @ ''  '' @ pad_left 5 (fmt False 1 (rl_showdown_pct r)) @ ''  ''
       @ pad_left 8 (fmt True 2 (rl_chip_ev r))"

definition print_class_conditional ::
  "(real \<Rightarrow> real) \<Rightarrow> (bool \<Rightarrow> nat \<Rightarrow> real \<Rightarrow> string) \<Rightarrow> hand_stats list \<Rightarrow> string list \<Rightarrow> terminal \<Rightarrow> terminal" where
  "print_class_conditional rnd fmt rows personas t =
     (let cc = class_conditional rnd rows;
          t = println [] t;
          t = println (''Class-conditional profile  '' @ middle_dot @ ''  '' @ to_string (length personas * (length personas - 1) div 2)
                @ '' matchups  '' @ middle_dot @ ''  '' @ to_string (length rows) @ '' rows'') t;
          t = println [] t;
          t = println ('' '' @ pad_right 8 ''own'' @ ''  '' @ pad_right 8 ''vs'' @ ''  '' @ pad_left 6 ''hands'' @ ''  ''
                @ pad_left 6 ''VPIP%'' @ ''  '' @ pad_left 6 ''PFR%'' @ ''  '' @ pad_left 6 ''AF'' @ ''  '' @ pad_left 6 ''WTSD%''
                @ ''  '' @ pad_left 8 ''Chip EV'') t;
          t = println ('' '' @ str_repeat 72 dash) t
      in fold (\<lambda>own. fold (\<lambda>opp t.
           if own = opp then t
           else case cc (own, opp) of None \<Rightarrow> t | Some r \<Rightarrow> println (class_line fmt own opp r) t) personas) personas t)"

text \<open>The rows \<open>print_windowed\<close> pools for a persona and a start: once for every window of that persona that starts there.\<close>

definition pooled_rows :: "hand_stats list \<Rightarrow> nat \<Rightarrow> string \<Rightarrow> window_row list \<Rightarrow> nat \<Rightarrow> hand_stats list" where
  "pooled_rows rows window p series start =
     concat (map (\<lambda>_. filter (\<lambda>r. hx_own_class r = p \<and> start \<le> hx_hand_id r \<and> hx_hand_id r < start + window) rows)
       (filter (\<lambda>win. wr_window_start win = start) series))"

definition window_line :: "(bool \<Rightarrow> nat \<Rightarrow> real \<Rightarrow> string) \<Rightarrow> nat \<Rightarrow> nat \<Rightarrow> stat_rollup \<Rightarrow> string" where
  "window_line fmt window start r =
     ''    '' @ pad_left 5 (to_string start) @ ''-'' @ pad_right 8 (to_string (start + window)) @ ''  ''
       @ pad_left 6 (to_string (rl_hands r)) @ ''  '' @ pad_left 5 (fmt False 1 (rl_vpip_pct r)) @ ''  ''
       @ pad_left 5 (fmt False 1 (rl_pfr_pct r)) @ ''  '' @ fmt_af fmt (rl_aggression_factor r) @ ''  ''
       @ pad_left 8 (fmt True 2 (rl_chip_ev r))"

definition print_windowed ::
  "(real \<Rightarrow> real) \<Rightarrow> (bool \<Rightarrow> nat \<Rightarrow> real \<Rightarrow> string) \<Rightarrow> hand_stats list \<Rightarrow> string list \<Rightarrow> nat \<Rightarrow> nat \<Rightarrow> terminal \<Rightarrow> terminal option" where
  "print_windowed rnd fmt rows personas window step t =
     do { w \<leftarrow> windowed rnd rows window step;
          Some (if w = [] then t
            else
              let t = println [] t;
                  t = println (''Windowed stats  '' @ middle_dot @ ''  window='' @ to_string window @ '' hands  '' @ middle_dot @ ''  step=''
                        @ to_string step @ '' hands'') t
              in fold (\<lambda>p t.
                   let series = filter (\<lambda>r. wr_class r = p) w in
                   if series = [] then t
                   else
                     let starts = remdups_adj (sort (map wr_window_start series));
                         t = println [] t;
                         t = println (''  '' @ p) t;
                         t = println (''    '' @ pad_right 14 ''hands'' @ ''  '' @ pad_left 6 ''n'' @ ''  '' @ pad_left 6 ''VPIP%'' @ ''  ''
                               @ pad_left 6 ''PFR%'' @ ''  '' @ pad_left 6 ''AF'' @ ''  '' @ pad_left 8 ''Chip EV'') t
                     in fold (\<lambda>start. println (window_line fmt window start
                          (stat_rollup_from_rows rnd (pooled_rows rows window p series start)))) starts t) personas t) }"

section \<open>The program\<close>

text \<open>
  \<open>main\<close>: an error with its message, or the rows, what is printed and the files.  What an aborted run had printed
  or written is not kept.  \<open>None\<close> is a panic: the windows assert a positive width and step.
\<close>

definition poker_dataset ::
  "(real \<Rightarrow> real) \<Rightarrow> (bool \<Rightarrow> nat \<Rightarrow> real \<Rightarrow> string) \<Rightarrow> ('q, 'r, 'f, 'g) machine \<Rightarrow> dataset_cli \<Rightarrow> disk \<Rightarrow> terminal \<Rightarrow>
     (string + hand_stats list \<times> terminal \<times> disk) option" where
  "poker_dataset rnd fmt m cli files t =
     (let personas = parse_personas (dc_personas cli) in
      if length personas < 2 then Some (Inl ''error: need at least 2 personas'')
      else
        case dataset_parse_blinds (mc_debug_str m) (dc_blinds cli) of
          Inl e \<Rightarrow> Some (Inl (''error: '' @ e))
        | Inr (sb, bb) \<Rightarrow>
            case (case dc_out cli of Some dir \<Rightarrow> map_option (\<lambda>e. (dir, e)) (mc_mkdir m dir) | None \<Rightarrow> None) of
              Some (dir, e) \<Rightarrow> Some (Inl (''error creating '' @ dir @ '': '' @ e))
            | None \<Rightarrow>
                let step = (case dc_step cli of Some n \<Rightarrow> n | None \<Rightarrow> dc_window cli);
                    total_matchups = length personas * (length personas - 1) div 2;
                    pairs = matchup_pairs (length personas);
                    t = println (''round-robin: '' @ to_string (length personas) @ '' personas, '' @ to_string total_matchups
                          @ '' matchups, '' @ to_string (dc_hands cli) @ '' hands each ('' @ to_string (total_matchups * dc_hands cli)
                          @ '' total hands)'') t in
                do { r \<leftarrow> round_robin m (dc_hands cli) (dc_stack cli) (no_limit_holdem sb bb 2) (dc_out cli) personas (dc_seed cli)
                       pairs ([], files);
                     case r of
                       Inl e \<Rightarrow> Some (Inl (''error: '' @ e))
                     | Inr (rows, files) \<Rightarrow>
                         let t = fold (\<lambda>(i, j). println (''  '' @ personas ! i @ '' vs '' @ personas ! j @ '' '' @ ellipsis @ '' done'')) pairs t;
                             t = print_per_persona_summary rnd fmt rows personas t;
                             t = print_class_conditional rnd fmt rows personas t in
                         do { t \<leftarrow> print_windowed rnd fmt rows personas (dc_window cli) step t;
                              Some (Inr (rows, t, files)) } })"

end
