(* ===== verification/Solver.thy ===== *)
theory Solver
  imports AgentWorld Complex_Main
begin

text \<open>
  The solver's policies, \<open>poker-trainer/src/solver\<close>: abstract actions (\<open>action.rs\<close>), information sets
  (\<open>info_set.rs\<close>), distributions, concretization and the agent adapter (\<open>strategy.rs\<close>), regret tables and the
  blueprint (\<open>regret.rs\<close>), and the file format (\<open>persistence.rs\<close>).

  \<open>f32\<close> values are reals, and every operation on them is followed by the rounding \<open>rnd\<close>, a parameter; infinities and
  NaN are not modelled.  A \<open>HashMap\<close> is a map.  The generator is a parameter, as in the agents of the engine.
\<close>

section \<open>Abstract actions\<close>

datatype abstract_action = AFold | ACall | ARaise | AAllIn

fun action_index :: "abstract_action \<Rightarrow> nat" where
  "action_index AFold = 0" | "action_index ACall = 1" | "action_index ARaise = 2" | "action_index AAllIn = 3"

definition COUNT :: nat where
  "COUNT = 4"

definition all_actions :: "abstract_action list" where
  "all_actions = [AFold, ACall, ARaise, AAllIn]"

definition from_index :: "nat \<Rightarrow> abstract_action option" where
  "from_index i = idx all_actions i"

fun from_action :: "action \<Rightarrow> abstract_action" where
  "from_action Fold = AFold"
| "from_action Check = ACall"
| "from_action Call = ACall"
| "from_action (Raise _) = ARaise"
| "from_action AllIn = AAllIn"

section \<open>Information sets\<close>

record info_set =
  is_street :: street
  is_position :: nat
  is_bucket :: nat
  is_history :: "abstract_action list"

text \<open>\<open>((seat + n - dealer) % n) as u8\<close>; the assertion of debug builds is the first test.\<close>

definition relative_position :: "nat \<Rightarrow> nat \<Rightarrow> nat \<Rightarrow> nat option" where
  "relative_position seat dealer n =
     (if 0 < n \<and> seat < n \<and> dealer < n then Some ((seat + n - dealer) mod n mod 256) else None)"

definition from_observation :: "observation \<Rightarrow> abstract_action list \<Rightarrow> info_set option" where
  "from_observation obs history =
     do { position \<leftarrow> relative_position (o_position obs) (o_dealer obs) (length (o_players obs));
          bucket \<leftarrow> (if o_street obs = Preflop
                     then do { c \<leftarrow> from_hole (o_hole_cards obs); preflop_index c } else Some 0);
          Some \<lparr>is_street = o_street obs, is_position = position, is_bucket = bucket, is_history = history\<rparr> }"

section \<open>Distributions\<close>

type_synonym action_probs = "real list"

definition probs_zero :: action_probs where
  "probs_zero = replicate COUNT 0"

definition set_all :: "real \<Rightarrow> abstract_action list \<Rightarrow> action_probs \<Rightarrow> action_probs" where
  "set_all p legal probs = fold (\<lambda>a ps. ps[action_index a := p]) legal probs"

definition uniform_over :: "(real \<Rightarrow> real) \<Rightarrow> abstract_action list \<Rightarrow> action_probs" where
  "uniform_over rnd legal = set_all (rnd (1 / rnd (real (length legal)))) legal probs_zero"

text \<open>The loop over \<open>ALL\<close>: the first action whose cumulated probability reaches the draw.\<close>

fun sample_from :: "(real \<Rightarrow> real) \<Rightarrow> action_probs \<Rightarrow> real \<Rightarrow> real \<Rightarrow> abstract_action list \<Rightarrow> abstract_action option" where
  "sample_from rnd probs r acc [] = None"
| "sample_from rnd probs r acc (a # as) =
     (let acc' = rnd (acc + probs ! action_index a) in
      if r \<le> acc' then Some a else sample_from rnd probs r acc' as)"

definition sample :: "(real \<Rightarrow> real) \<Rightarrow> action_probs \<Rightarrow> real \<Rightarrow> abstract_action option" where
  "sample rnd probs r =
     (case sample_from rnd probs r 0 all_actions of
        Some a \<Rightarrow> Some a
      | None \<Rightarrow> find (\<lambda>a. 0 < probs ! action_index a) (rev all_actions))"

definition legal_abstract_actions :: "legal_actions \<Rightarrow> abstract_action list" where
  "legal_abstract_actions la =
     (if \<not> la_can_check la then [AFold] else []) @ (if la_can_check la \<or> la_can_call la then [ACall] else [])
     @ (if la_can_raise la then [ARaise] else []) @ (if 0 < la_all_in_amount la then [AAllIn] else [])"

definition concretize :: "abstract_action \<Rightarrow> observation \<Rightarrow> action option" where
  "concretize action obs =
     (let legal = o_legal_actions obs; fallback = (if la_can_check legal then Check else Call) in
      case action of
        AFold \<Rightarrow> Some (if la_can_check legal then Check else Fold)
      | ACall \<Rightarrow> Some fallback
      | ARaise \<Rightarrow>
          if \<not> la_can_raise legal then Some fallback
          else do {
            street_bets \<leftarrow> sum_u32 (map pp_bet_this_street (o_players obs));
            tot \<leftarrow> pot_total (o_pot obs);
            pot_after_call \<leftarrow> add_u32 tot street_bets;
            Some (Raise (max (min (saturating_add_u32 (la_min_raise legal) pot_after_call) (la_max_raise legal))
                           (la_min_raise legal))) }
      | AAllIn \<Rightarrow> Some (if 0 < la_all_in_amount legal then AllIn else fallback))"

section \<open>Strategies as agents\<close>

text \<open>\<open>StrategyAgent\<close> is a function of the information set and the legal actions.\<close>

type_synonym strategy = "info_set \<Rightarrow> legal_actions \<Rightarrow> action_probs"

definition uniform_random_strategy :: "(real \<Rightarrow> real) \<Rightarrow> strategy" where
  "uniform_random_strategy rnd info legal = uniform_over rnd (legal_abstract_actions legal)"

text \<open>The adapter; its field \<open>strategy\<close>, which never changes, is a parameter.\<close>

record 'r strategy_adapter =
  sa_rng :: 'r
  sa_history :: "abstract_action list"

definition strategy_adapter_new :: "('s \<Rightarrow> 'r) \<Rightarrow> 's \<Rightarrow> 'r strategy_adapter" where
  "strategy_adapter_new seed_from seed = \<lparr>sa_rng = seed_from seed, sa_history = []\<rparr>"

definition adapter_act ::
  "(real \<Rightarrow> real) \<Rightarrow> ('r \<Rightarrow> real \<times> 'r) \<Rightarrow> strategy \<Rightarrow> observation \<Rightarrow> 'r strategy_adapter \<Rightarrow>
     (action \<times> 'r strategy_adapter) option" where
  "adapter_act rnd gen strategy obs ad =
     do { info \<leftarrow> from_observation obs (sa_history ad);
          let (r, rng) = gen (sa_rng ad);
          abstract \<leftarrow> sample rnd (strategy info (o_legal_actions obs)) r;
          a \<leftarrow> concretize abstract obs;
          Some (a, ad\<lparr>sa_rng := rng\<rparr>) }"

definition adapter_on_hand_start :: "nat \<Rightarrow> 'r strategy_adapter \<Rightarrow> 'r strategy_adapter" where
  "adapter_on_hand_start hand_id ad = ad\<lparr>sa_history := []\<rparr>"

definition adapter_on_event :: "engine_event \<Rightarrow> 'r strategy_adapter \<Rightarrow> 'r strategy_adapter" where
  "adapter_on_event ev ad =
     (case ev of ActionTaken _ a _ \<Rightarrow> ad\<lparr>sa_history := sa_history ad @ [from_action a]\<rparr> | _ \<Rightarrow> ad)"

text \<open>A table of adapters; the sink is \<open>NullSink\<close>.\<close>

definition adapter_env ::
  "(real \<Rightarrow> real) \<Rightarrow> ('r \<Rightarrow> real \<times> 'r) \<Rightarrow> (nat \<Rightarrow> strategy) \<Rightarrow> (nat \<Rightarrow> 'r strategy_adapter) env" where
  "adapter_env rnd gen strategies =
     \<lparr>e_act = (\<lambda>seat obs w. map_option (\<lambda>(a, ad). (a, w(seat := ad))) (adapter_act rnd gen (strategies seat) obs (w seat))),
      e_sink = (\<lambda>_ w. w),
      e_on_event = (\<lambda>seat ev w. w(seat := adapter_on_event ev (w seat))),
      e_on_hand_start = (\<lambda>seat h w. w(seat := adapter_on_hand_start h (w seat))),
      e_on_hand_end = (\<lambda>_ _ w. w)\<rparr>"

section \<open>Regret tables\<close>

record regret_entry =
  re_regret :: "real list"
  re_strategy_sum :: "real list"
  re_visits :: nat

definition regret_entry_default :: regret_entry where
  "regret_entry_default = \<lparr>re_regret = replicate COUNT 0, re_strategy_sum = replicate COUNT 0, re_visits = 0\<rparr>"

type_synonym regret_table = "info_set \<rightharpoonup> regret_entry"

definition regret_table_new :: regret_table where
  "regret_table_new = Map.empty"

text \<open>\<open>entry_mut\<close> and the write through the reference it returns.\<close>

definition entry_mut :: "info_set \<Rightarrow> (regret_entry \<Rightarrow> regret_entry) \<Rightarrow> regret_table \<Rightarrow> regret_table" where
  "entry_mut info f table =
     table(info \<mapsto> f (case table info of None \<Rightarrow> regret_entry_default | Some e \<Rightarrow> e))"

fun positive_sum :: "(real \<Rightarrow> real) \<Rightarrow> real list \<Rightarrow> abstract_action list \<Rightarrow> action_probs \<times> real \<Rightarrow> action_probs \<times> real" where
  "positive_sum rnd regrets [] acc = acc"
| "positive_sum rnd regrets (a # as) (pos, tot) =
     (let r = max (regrets ! action_index a) 0
      in positive_sum rnd regrets as (pos[action_index a := r], rnd (tot + r)))"

definition regret_matching :: "(real \<Rightarrow> real) \<Rightarrow> real list \<Rightarrow> abstract_action list \<Rightarrow> action_probs" where
  "regret_matching rnd regrets legal =
     (let (pos, tot) = positive_sum rnd regrets legal (probs_zero, 0) in
      if 0 < tot
      then fold (\<lambda>a ps. ps[action_index a := rnd (pos ! action_index a / tot)]) legal probs_zero
      else uniform_over rnd legal)"

definition average_strategy :: "(real \<Rightarrow> real) \<Rightarrow> regret_table \<Rightarrow> info_set \<Rightarrow> abstract_action list \<Rightarrow> action_probs" where
  "average_strategy rnd table info legal =
     (case table info of
        None \<Rightarrow> uniform_over rnd legal
      | Some entry \<Rightarrow>
          let tot = foldl (\<lambda>acc a. rnd (acc + re_strategy_sum entry ! action_index a)) 0 legal in
          if tot \<le> 0 then uniform_over rnd legal
          else fold (\<lambda>a ps. ps[action_index a := rnd (re_strategy_sum entry ! action_index a / tot)]) legal probs_zero)"

definition blueprint_strategy :: "(real \<Rightarrow> real) \<Rightarrow> regret_table \<Rightarrow> strategy" where
  "blueprint_strategy rnd table info legal = average_strategy rnd table info (legal_abstract_actions legal)"

section \<open>Files\<close>

definition BLUEPRINT_SCHEMA_VERSION :: nat where
  "BLUEPRINT_SCHEMA_VERSION = 1"

definition ABSTRACTION_TAG :: string where
  "ABSTRACTION_TAG = ''preflop169.postflop1.actions4.raise=pot.v1''"

record blueprint_file =
  bf_schema_version :: nat
  bf_abstraction_tag :: string
  bf_table :: regret_table

datatype blueprint_load_error =
  LoadIo string | Decode string | SchemaMismatch nat nat | AbstractionMismatch string string

datatype blueprint_save_error = SaveIo string | Encode string

text \<open>
  The codec is a parameter; a file is the bytes stored under its path, and \<open>io\<close> is the failure of
  the file system, if any, with the files it leaves (created, truncated or written in part).
\<close>

definition save_blueprint ::
  "(blueprint_file \<Rightarrow> string + 8 word list) \<Rightarrow> (string \<times> ('p \<rightharpoonup> 8 word list)) option \<Rightarrow>
     regret_table \<Rightarrow> 'p \<Rightarrow> ('p \<rightharpoonup> 8 word list) \<Rightarrow>
     (blueprint_save_error + unit) \<times> ('p \<rightharpoonup> 8 word list)" where
  "save_blueprint to_vec io table path files =
     (case to_vec \<lparr>bf_schema_version = BLUEPRINT_SCHEMA_VERSION, bf_abstraction_tag = ABSTRACTION_TAG, bf_table = table\<rparr> of
        Inl e \<Rightarrow> (Inl (Encode e), files)
      | Inr bytes \<Rightarrow> (case io of Some (e, files') \<Rightarrow> (Inl (SaveIo e), files') | None \<Rightarrow> (Inr (), files(path \<mapsto> bytes))))"

definition load_blueprint ::
  "(8 word list \<Rightarrow> string + blueprint_file) \<Rightarrow> 'p \<Rightarrow> ('p \<rightharpoonup> 8 word list) \<Rightarrow> blueprint_load_error + regret_table" where
  "load_blueprint from_slice path files =
     (case files path of
        None \<Rightarrow> Inl (LoadIo ''No such file or directory'')
      | Some bytes \<Rightarrow>
          case from_slice bytes of
            Inl e \<Rightarrow> Inl (Decode e)
          | Inr envelope \<Rightarrow>
              if bf_schema_version envelope \<noteq> BLUEPRINT_SCHEMA_VERSION
              then Inl (SchemaMismatch BLUEPRINT_SCHEMA_VERSION (bf_schema_version envelope))
              else if bf_abstraction_tag envelope \<noteq> ABSTRACTION_TAG
              then Inl (AbstractionMismatch ABSTRACTION_TAG (bf_abstraction_tag envelope))
              else Inr (bf_table envelope))"

section \<open>Arrays indexed by action\<close>

lemma action_index_less [simp]: "action_index a < 4"
  by (cases a) simp_all

lemma action_index_inj [simp]: "action_index a = action_index b \<longleftrightarrow> a = b"
  by (cases a; cases b) simp_all

lemma all_actions_complete [simp]: "a \<in> set all_actions"
  by (cases a) (simp_all add: all_actions_def)

lemma fill_length [simp]: "length (fold (\<lambda>a ps. ps[action_index a := f a]) legal ps) = length ps"
  by (induction legal arbitrary: ps) simp_all

lemma fill_nth:
  assumes "length ps = 4"
  shows "fold (\<lambda>a ps. ps[action_index a := f a]) legal ps ! action_index b = (if b \<in> set legal then f b else ps ! action_index b)"
  using assms by (induction legal arbitrary: ps) (auto simp: nth_list_update)

lemma probs_zero_simps [simp]: "length probs_zero = 4" "probs_zero ! action_index a = 0"
  by (simp_all add: probs_zero_def COUNT_def)

lemma uniform_over_nth:
  "uniform_over rnd legal ! action_index a = (if a \<in> set legal then rnd (1 / rnd (real (length legal))) else 0)"
  by (simp add: uniform_over_def set_all_def fill_nth)

lemma legal_abstract_distinct: "distinct (legal_abstract_actions la)"
  by (auto simp: legal_abstract_actions_def)

lemma legal_abstract_some: "0 < la_all_in_amount la \<Longrightarrow> legal_abstract_actions la \<noteq> []"
  by (simp add: legal_abstract_actions_def)

section \<open>Regret matching\<close>

lemma positive_sum_exact:
  assumes "distinct legal" and "length pos = 4"
  shows "positive_sum id regrets legal (pos, tot) =
    (fold (\<lambda>a ps. ps[action_index a := max (regrets ! action_index a) 0]) legal pos,
     tot + sum_list (map (\<lambda>a. max (regrets ! action_index a) 0) legal))"
  using assms by (induction legal arbitrary: pos tot) (simp_all add: Let_def algebra_simps)

text \<open>
  Regret matching yields a strategy.  In exact arithmetic, over any non-empty list of legal actions without
  repetition: probabilities are not negative, only legal actions have one, they sum to one, and whenever some legal action
  has positive regret they are proportional to the positive parts of the regrets.
\<close>

theorem regret_matching_distribution:
  assumes "distinct legal" and "legal \<noteq> []"
  shows "let p = (\<lambda>a. regret_matching id regrets legal ! action_index a);
             pos = (\<lambda>a. max (regrets ! action_index a) 0)
         in (\<forall>a. 0 \<le> p a) \<and> (\<forall>a. a \<notin> set legal \<longrightarrow> p a = 0) \<and> (\<Sum>a\<leftarrow>legal. p a) = 1
          \<and> (\<forall>a \<in> set legal. 0 < (\<Sum>b\<leftarrow>legal. pos b) \<longrightarrow> p a * (\<Sum>b\<leftarrow>legal. pos b) = pos a)"
proof -
  define pos where "pos a = max (regrets ! action_index a) 0" for a
  define tot where "tot = (\<Sum>b\<leftarrow>legal. pos b)"
  have nonneg: "0 \<le> pos a" for a by (simp add: pos_def)
  then have tot: "0 \<le> tot" unfolding tot_def by (intro sum_list_nonneg) auto
  have p: "regret_matching id regrets legal ! action_index a =
      (if a \<in> set legal then if 0 < tot then pos a / tot else 1 / real (length legal) else 0)" for a
    using positive_sum_exact [OF assms(1), of probs_zero regrets 0]
    by (simp add: regret_matching_def Let_def fill_nth uniform_over_nth pos_def tot_def)
  have "(\<Sum>a\<leftarrow>legal. regret_matching id regrets legal ! action_index a) = 1"
  proof (cases "0 < tot")
    case True
    then have "(\<Sum>a\<leftarrow>legal. regret_matching id regrets legal ! action_index a) = (\<Sum>a\<leftarrow>legal. pos a / tot)"
      by (intro arg_cong [where f = sum_list] map_cong) (simp_all add: p)
    also have "\<dots> = tot / tot" unfolding tot_def by (simp add: divide_inverse sum_list_mult_const)
    finally show ?thesis using True by simp
  next
    case False
    then have "(\<Sum>a\<leftarrow>legal. regret_matching id regrets legal ! action_index a) = (\<Sum>a\<leftarrow>legal. 1 / real (length legal))"
      by (intro arg_cong [where f = sum_list] map_cong) (simp_all add: p)
    then show ?thesis using assms(2) by (simp add: sum_list_triv)
  qed
  then show ?thesis
    using nonneg tot unfolding Let_def by (auto simp: p pos_def [symmetric] tot_def [symmetric])
qed

theorem regret_matching_distribution_witness:
  "regret_matching id [0, 3, 1, -2] [ACall, ARaise] ! action_index ACall * 4 = 3
   \<and> regret_matching id [0, 3, 1, -2] [ACall, ARaise] ! action_index AFold = 0"
proof -
  have "\<forall>a. a \<notin> set [ACall, ARaise] \<longrightarrow> regret_matching id [0, 3, 1, -2] [ACall, ARaise] ! action_index a = 0"
      "regret_matching id [0, 3, 1, -2] [ACall, ARaise] ! action_index ACall * 4 = 3"
    using regret_matching_distribution [of "[ACall, ARaise]" "[0, 3, 1, -2]"] by (simp_all add: Let_def)
  then show ?thesis by (auto dest: spec [of _ AFold])
qed

section \<open>Adapters play fair hands\<close>

lemma sample_total:
  assumes "0 < probs ! action_index a"
  shows "\<exists>b. sample rnd probs r = Some b"
proof -
  have "\<exists>b. find (\<lambda>a. 0 < probs ! action_index a) (rev all_actions) = Some b"
    using assms by (cases "find (\<lambda>a. 0 < probs ! action_index a) (rev all_actions)") (auto simp: find_None_iff)
  then show ?thesis by (simp add: sample_def split: option.split)
qed

lemma concretize_ok:
  assumes "obs_ok obs"
  shows "ok (concretize a obs) (answer_ok (o_legal_actions obs))"
proof -
  obtain pt where pt: "pot_total (o_pot obs) = Some pt" "pt + sum_list (map pp_bet_this_street (o_players obs)) < u32_lim"
    using assms by (auto simp: obs_ok_def)
  then have "sum_u32 (map pp_bet_this_street (o_players obs)) = Some (sum_list (map pp_bet_this_street (o_players obs)))"
    by (simp add: sum_u32_def sum_u32_from_eq)
  then show ?thesis
    using pt by (cases a) (simp_all add: concretize_def Let_def ok_def answer_ok_def add_u32_def)
qed

lemma from_observation_ok:
  assumes "obs_ok obs"
  shows "\<exists>info. from_observation obs history = Some info"
proof -
  obtain h1 h2 where h: "o_hole_cards obs = (h1, h2)" by fastforce
  obtain c i where "from_hole (h1, h2) = Some c" "preflop_index c = Some i"
    using preflop_index_total [of h1 h2] obs_cards [OF assms] h by auto
  then show ?thesis
    using assms by (auto simp: from_observation_def relative_position_def obs_ok_def h)
qed

text \<open>What the adapter needs of a strategy: some action has a positive probability.\<close>

definition plays_something :: "strategy \<Rightarrow> bool" where
  "plays_something strategy \<longleftrightarrow>
     (\<forall>info la. 0 < la_all_in_amount la \<longrightarrow> (\<exists>a. 0 < strategy info la ! action_index a))"

lemma adapters_responsive:
  fixes gen :: "'r \<Rightarrow> real \<times> 'r"
  assumes "\<And>seat. plays_something (strategies seat)"
  shows "responsive (adapter_env rnd gen strategies)"
proof
  fix obs and seat :: nat and w :: "nat \<Rightarrow> 'r strategy_adapter"
  assume obs: "obs_ok obs"
  obtain info where info: "from_observation obs (sa_history (w seat)) = Some info"
    using from_observation_ok [OF obs] by blast
  obtain a where "0 < strategies seat info (o_legal_actions obs) ! action_index a"
    using assms [of seat] obs unfolding plays_something_def obs_ok_def by blast
  then obtain b where b: "sample rnd (strategies seat info (o_legal_actions obs)) (fst (gen (sa_rng (w seat)))) = Some b"
    using sample_total by blast
  obtain c where "concretize b obs = Some c" "answer_ok (o_legal_actions obs) c"
    using concretize_ok [OF obs, of b] by (auto simp: ok_def)
  then show "ok (e_act (adapter_env rnd gen strategies) seat obs w) (\<lambda>(a, _). answer_ok (o_legal_actions obs) a)"
    using info b by (simp add: adapter_env_def adapter_act_def ok_def case_prod_unfold)
qed

text \<open>What rounding to \<open>f32\<close> does to reals: monotone, exact on small integers and powers of two, and never above twice the value.\<close>

definition f32_rounding :: "(real \<Rightarrow> real) \<Rightarrow> bool" where
  "f32_rounding rnd \<longleftrightarrow> mono rnd \<and> (\<forall>n \<le> 2 ^ 24. rnd (real n) = real n) \<and> (\<forall>k \<le> 126. rnd (1 / 2 ^ k) = 1 / 2 ^ k)
     \<and> (\<forall>x \<ge> 0. rnd x \<le> 2 * x)"

lemma f32_rounding_id: "f32_rounding id"
  by (simp add: f32_rounding_def mono_def)

lemma rounded:
  assumes "f32_rounding rnd"
  shows "rnd 0 = 0" and "0 \<le> x \<Longrightarrow> 0 \<le> rnd x" and "1 / 2 ^ 7 \<le> x \<Longrightarrow> 0 < rnd x" and "0 \<le> x \<Longrightarrow> rnd x \<le> 2 * x"
    and "n \<le> 4 \<Longrightarrow> rnd (real n) = real n"
proof -
  have m: "mono rnd" "\<forall>n \<le> 2 ^ 24. rnd (real n) = real n" and k: "\<forall>k \<le> 126. rnd (1 / 2 ^ k) = 1 / 2 ^ k"
    using assms unfolding f32_rounding_def by blast+
  show zero: "rnd 0 = 0" using m(2) [rule_format, of 0] by simp
  show "0 \<le> x \<Longrightarrow> 0 \<le> rnd x" using monoD [OF m(1), of 0 x] zero by simp
  show "1 / 2 ^ 7 \<le> x \<Longrightarrow> 0 < rnd x" using monoD [OF m(1), of "1 / 2 ^ 7" x] k [rule_format, of 7] by simp
  show "0 \<le> x \<Longrightarrow> rnd x \<le> 2 * x" using assms by (simp add: f32_rounding_def)
  show "n \<le> 4 \<Longrightarrow> rnd (real n) = real n" using m(2) by simp
qed

lemma legal_abstract_length: "length (legal_abstract_actions la) \<le> 4"
  by (simp add: legal_abstract_actions_def)

lemma uniform_positive:
  assumes rnd: "f32_rounding rnd" and "0 < la_all_in_amount la"
  shows "\<exists>a. 0 < uniform_over rnd (legal_abstract_actions la) ! action_index a"
proof -
  let ?n = "length (legal_abstract_actions la)"
  have n: "0 < ?n" "?n \<le> 4" using legal_abstract_some [OF assms(2)] legal_abstract_length by auto
  then have "1 / 2 ^ 7 \<le> 1 / rnd (real ?n)" using rounded(5) [OF rnd, of ?n] by (simp add: field_simps)
  then have "0 < rnd (1 / rnd (real ?n))" by (rule rounded(3) [OF rnd])
  moreover obtain a where "a \<in> set (legal_abstract_actions la)" using n(1) by (cases "legal_abstract_actions la") auto
  ultimately show ?thesis by (auto simp: uniform_over_nth)
qed

lemma uniform_plays: "f32_rounding rnd \<Longrightarrow> plays_something (uniform_random_strategy rnd)"
  using uniform_positive by (simp add: plays_something_def uniform_random_strategy_def)

text \<open>A table whose strategy sums are not negative, as training leaves them.\<close>

definition sums_ok :: "regret_table \<Rightarrow> bool" where
  "sums_ok table \<longleftrightarrow> (\<forall>info e a. table info = Some e \<longrightarrow> 0 \<le> re_strategy_sum e ! action_index a)"

lemma rounded_sum_bound:
  assumes rnd: "f32_rounding rnd" and "\<And>a. a \<in> set as \<Longrightarrow> 0 \<le> f a \<and> f a \<le> m" and "0 \<le> acc"
  shows "0 \<le> foldl (\<lambda>acc a. rnd (acc + f a)) acc as
     \<and> foldl (\<lambda>acc a. rnd (acc + f a)) acc as \<le> 2 ^ length as * acc + (2 ^ (length as + 1) - 2) * m"
  using assms(2,3)
proof (induction as arbitrary: acc)
  case (Cons a as)
  have a: "0 \<le> f a" "f a \<le> m" using Cons.prems(1) by simp_all
  then have acc: "0 \<le> rnd (acc + f a)" "rnd (acc + f a) \<le> 2 * (acc + m)"
    using rounded(2,4) [OF rnd, of "acc + f a"] Cons.prems(2) by simp_all
  have "2 ^ length as * rnd (acc + f a) \<le> 2 ^ length as * (2 * (acc + m))"
    using acc(2) by (intro mult_left_mono) simp_all
  then show ?case using Cons.IH [OF _ acc(1)] Cons.prems(1) by (simp add: algebra_simps)
qed simp

lemma blueprint_plays:
  assumes rnd: "f32_rounding rnd" and sums: "sums_ok table"
  shows "plays_something (blueprint_strategy rnd table)"
  unfolding plays_something_def
proof (intro allI impI)
  fix info la assume la: "0 < la_all_in_amount (la :: legal_actions)"
  let ?legal = "legal_abstract_actions la"
  show "\<exists>a. 0 < blueprint_strategy rnd table info la ! action_index a"
  proof (cases "table info")
    case None
    then show ?thesis using uniform_positive [OF rnd la] by (simp add: blueprint_strategy_def average_strategy_def)
  next
    case (Some e)
    let ?f = "\<lambda>a. re_strategy_sum e ! action_index a"
    define tot where "tot = foldl (\<lambda>acc a. rnd (acc + ?f a)) 0 ?legal"
    have "Max (?f ` set ?legal) \<in> ?f ` set ?legal"
      using legal_abstract_some [OF la] by (intro Max_in) simp_all
    then obtain a where a: "a \<in> set ?legal" "?f a = Max (?f ` set ?legal)" by force
    then have max: "?f b \<le> ?f a" if "b \<in> set ?legal" for b using that by simp
    have nonneg: "0 \<le> ?f b" for b using sums Some by (simp add: sums_ok_def)
    have le: "tot \<le> (2 ^ (length ?legal + 1) - 2) * ?f a"
      using rounded_sum_bound [OF rnd, of ?legal ?f "?f a" 0] max nonneg by (simp add: tot_def)
    show ?thesis
    proof (cases "tot \<le> 0")
      case True
      then show ?thesis
        using uniform_positive [OF rnd la] Some
        by (simp add: blueprint_strategy_def average_strategy_def Let_def tot_def [symmetric])
    next
      case False
      have "(2 ^ (length ?legal + 1) - 2 :: real) \<le> 2 ^ 5"
        using legal_abstract_length [of la] power_increasing [of "length ?legal + 1" 5 "2 :: real"] by simp
      then have "tot \<le> 2 ^ 5 * ?f a"
        using le nonneg [of a] by (meson mult_right_mono order_trans)
      then have "1 / 2 ^ 7 \<le> ?f a / tot" using False by (simp add: field_simps)
      then have "0 < rnd (?f a / tot)" by (rule rounded(3) [OF rnd])
      then show ?thesis
        using Some False a(1)
        by (intro exI [of _ a]) (simp add: blueprint_strategy_def average_strategy_def Let_def tot_def [symmetric] fill_nth)
    qed
  qed
qed

section \<open>Properties\<close>

text \<open>
  Trained policies can be seated.  At a table where every seat plays a blueprint read from a table with
  non-negative strategy sums, or uniformly at random, every hand ends without a panic with a fair result, whatever the
  random draws; rounding may be any that behaves like \<open>f32\<close>.
\<close>

theorem blueprints_play_fair_hands:
  assumes "f32_rounding rnd" and "hand_evaluator rank_7" and "draws_in_range gen_range" and "playable rules stacks dealer seat_kinds"
    and "\<And>seat. strategies seat = uniform_random_strategy rnd \<or>
          (\<exists>table. sums_ok table \<and> strategies seat = blueprint_strategy rnd table)"
  shows "ok (run_hand gen_range seed_from_u64 rank_7 rules (adapter_env rnd gen strategies) hand_id deck_seed stacks dealer
     seat_kinds w) (\<lambda>(res, _). fair_result hand_id stacks res)"
proof -
  have "plays_something (strategies seat)" for seat
    using assms(5) [of seat] uniform_plays [OF assms(1)] blueprint_plays [OF assms(1)] by metis
  then have "hand_players (adapter_env rnd gen strategies) rank_7"
    using adapters_responsive assms(2) unfolding hand_players_def by blast
  then show ?thesis using assms(3,4) by (rule hand_players.run_hand_ok)
qed

theorem blueprints_play_fair_hands_witness:
  "ok (run_hand first_card (\<lambda>_. ()) best_of_7 (no_limit_holdem 1 2 6)
         (adapter_env id (\<lambda>r. (1 / 3, r)) ((\<lambda>_. uniform_random_strategy id)(1 := blueprint_strategy id regret_table_new)))
         7 42 [100, 40, 60] 0 (Some [Live, Live, DeadHand]) (\<lambda>_. strategy_adapter_new (\<lambda>_. ()) ()))
     (\<lambda>(res, _). fair_result 7 [100, 40, 60] res)"
  by (rule blueprints_play_fair_hands [OF f32_rounding_id naive.hand_evaluator_axioms first_card_draws three_seats_playable])
     (auto simp: sums_ok_def regret_table_new_def)

text \<open>
  Play does not look up what training stored.  When the pot-sized raise is cut to all chips of the seat,
  the abstract action \<open>Raise\<close> becomes a raise that the engine turns into \<open>AllIn\<close>.  The event that the
  adapters hear then adds \<open>AllIn\<close> to their history, while \<open>traverse\<close> adds the abstract action it chose,
  \<open>Raise\<close>: from there on the two use different information sets for the same history.
\<close>

theorem shove_sized_raise_history:
  assumes "idx (g_players st) seat = Some p" and "la_can_raise (o_legal_actions obs)"
    and "la_max_raise (o_legal_actions obs) = p_stack p + p_bet_this_street p"
    and "la_min_raise (o_legal_actions obs) \<le> la_max_raise (o_legal_actions obs)"
    and "sum_u32 (map pp_bet_this_street (o_players obs)) = Some bets" and "pot_total (o_pot obs) = Some pt"
    and "add_u32 pt bets = Some pot"
    and "la_max_raise (o_legal_actions obs) \<le> saturating_add_u32 (la_min_raise (o_legal_actions obs)) pot"
  shows "\<exists>a. concretize ARaise obs = Some a \<and> normalize_action st seat a = Some AllIn
     \<and> sa_history (adapter_on_event (ActionTaken seat AllIn total_pot) ad) = sa_history ad @ [AAllIn] \<and> AAllIn \<noteq> ARaise"
  using assms by (auto simp: concretize_def normalize_action_def adapter_on_event_def saturating_sub_def)

definition shove_obs :: observation where
  "shove_obs = \<lparr>o_hole_cards = (Card 0, Card 1), o_board = [], o_pot = \<lparr>pot_main = 0, pot_side = []\<rparr>,
     o_legal_actions = \<lparr>la_can_check = False, la_can_call = True, la_call_amount = 1, la_can_raise = True, la_min_raise = 4,
       la_max_raise = 6, la_all_in_amount = 5\<rparr>,
     o_players = [\<lparr>pp_seat = 0, pp_stack = 5, pp_bet_this_street = 1, pp_is_folded = False, pp_is_all_in = False\<rparr>,
                  \<lparr>pp_seat = 1, pp_stack = 98, pp_bet_this_street = 2, pp_is_folded = False, pp_is_all_in = False\<rparr>],
     o_street = Preflop, o_position = 0, o_dealer = 1\<rparr>"

definition shove_state :: game_state where
  "shove_state = (init_state (no_limit_holdem 1 2 2) 7 [6, 100] 1)\<lparr>g_current_bet := 2, g_players :=
     [\<lparr>p_stack = 5, p_hole_cards = Some (Card 0, Card 1), p_bet_this_street = 1, p_total_committed = 1, p_status = Active\<rparr>,
      \<lparr>p_stack = 98, p_hole_cards = Some (Card 2, Card 3), p_bet_this_street = 2, p_total_committed = 2, p_status = Active\<rparr>]\<rparr>"

theorem shove_sized_raise_history_witness:
  "\<exists>a. concretize ARaise shove_obs = Some a \<and> normalize_action shove_state 0 a = Some AllIn"
  using shove_sized_raise_history [of shove_state 0 _ shove_obs 3 0 3 6 "\<lparr>sa_rng = (), sa_history = []\<rparr>"]
  by (simp add: shove_state_def shove_obs_def idx_def sum_u32_def sum_u32_from_eq add_u32_def pot_total_def saturating_add_u32_def)
    blast

lemma zero_draw_samples_first:
  "sample id (0 # ps) 0 = Some AFold"
  by (simp add: sample_def all_actions_def)

text \<open>
  A saved blueprint is loaded back.  With a codec that decodes what it encoded, loading from the path just saved to
  gives the same table, and other files are untouched; a file of another schema or abstraction is refused with the versions.
\<close>

theorem blueprint_roundtrip:
  assumes "\<And>f bytes. to_vec f = Inr bytes \<Longrightarrow> from_slice bytes = Inr f"
    and "save_blueprint to_vec None table path files = (Inr (), files')"
  shows "load_blueprint from_slice path files' = Inr table \<and> (\<forall>p. p \<noteq> path \<longrightarrow> files' p = files p)
     \<and> (\<forall>p f bytes. files p = Some bytes \<longrightarrow> to_vec f = Inr bytes \<longrightarrow> load_blueprint from_slice p files =
          (if bf_schema_version f \<noteq> BLUEPRINT_SCHEMA_VERSION then Inl (SchemaMismatch BLUEPRINT_SCHEMA_VERSION (bf_schema_version f))
           else if bf_abstraction_tag f \<noteq> ABSTRACTION_TAG then Inl (AbstractionMismatch ABSTRACTION_TAG (bf_abstraction_tag f))
           else Inr (bf_table f)))"
proof -
  obtain bytes where b: "to_vec \<lparr>bf_schema_version = BLUEPRINT_SCHEMA_VERSION, bf_abstraction_tag = ABSTRACTION_TAG, bf_table = table\<rparr>
      = Inr bytes" "files' = files(path \<mapsto> bytes)"
    using assms(2) by (auto simp: save_blueprint_def split: sum.splits)
  then have "load_blueprint from_slice path files' = Inr table"
    using assms(1) [OF b(1)] by (simp add: load_blueprint_def)
  moreover have "load_blueprint from_slice p files =
        (if bf_schema_version f \<noteq> BLUEPRINT_SCHEMA_VERSION then Inl (SchemaMismatch BLUEPRINT_SCHEMA_VERSION (bf_schema_version f))
         else if bf_abstraction_tag f \<noteq> ABSTRACTION_TAG then Inl (AbstractionMismatch ABSTRACTION_TAG (bf_abstraction_tag f))
         else Inr (bf_table f))" if "files p = Some bytes" "to_vec f = Inr bytes" for p f bytes
    using assms(1) [OF that(2)] that(1) by (simp add: load_blueprint_def)
  ultimately show ?thesis using b(2) by simp
qed

theorem blueprint_roundtrip_witness:
  "let f = \<lparr>bf_schema_version = 1, bf_abstraction_tag = ABSTRACTION_TAG, bf_table = regret_table_new\<rparr>;
       to_vec = (\<lambda>g. if g = f then Inr [7] else Inl ''too big''); from_slice = (\<lambda>bs. if bs = [7] then Inr f else Inl ''eof'')
   in load_blueprint from_slice ''a'' (snd (save_blueprint to_vec None regret_table_new ''a'' Map.empty)) = Inr regret_table_new"
proof -
  let ?f = "\<lparr>bf_schema_version = 1, bf_abstraction_tag = ABSTRACTION_TAG, bf_table = regret_table_new\<rparr>"
  let ?to = "\<lambda>g. if g = ?f then Inr [7 :: 8 word] else Inl ''too big''"
  have saved: "save_blueprint ?to None regret_table_new ''a'' Map.empty = (Inr (), [''a'' \<mapsto> [7]])"
    by (simp add: save_blueprint_def BLUEPRINT_SCHEMA_VERSION_def)
  have "(if bytes = [7] then Inr ?f else Inl ''eof'') = Inr g" if "?to g = Inr bytes" for g bytes
    using that by (auto split: if_splits)
  from blueprint_roundtrip [where from_slice = "\<lambda>bs. if bs = [7] then Inr ?f else Inl ''eof''", OF this saved]
  have "load_blueprint (\<lambda>bs. if bs = [7] then Inr ?f else Inl ''eof'') ''a'' [''a'' \<mapsto> [7]] = Inr regret_table_new"
    by blast
  then show ?thesis by (simp only: Let_def saved snd_conv)
qed

end
