(* ===== verification/Tree.thy ===== *)
theory Tree
  imports AgentWorld
begin

text \<open>
  The pausable stepper \<open>GameTree\<close> of \<open>game/tree.rs\<close>, and that it plays the same hand as the engine.

  Cloning a tree is copying a value, so two branches from one node share the deck.  A panic is \<open>None\<close>
  as in the engine; an inner \<open>option\<close> is the \<open>Option\<close> the method returns.  Only the sink of the
  environment is used by the tree itself.
\<close>

section \<open>The tree\<close>

datatype node_kind = DecisionNode nat | TerminalNode

datatype tree_phase = Decision nat "bool list" | Terminal "int list"

record game_tree =
  t_state :: game_state
  t_deck :: deck
  t_phase :: tree_phase

definition tree_new ::
  "('r \<Rightarrow> nat \<Rightarrow> nat \<times> 'r) \<Rightarrow> (64 word \<Rightarrow> 'r) \<Rightarrow> betting_rules \<Rightarrow> 'w env \<Rightarrow> nat \<Rightarrow> 64 word \<Rightarrow>
     nat list \<Rightarrow> nat \<Rightarrow> seat_kind list option \<Rightarrow> 'w \<Rightarrow> (game_tree \<times> 'w) option" where
  "tree_new gen_range seed_from_u64 rules env hand_id deck_seed stacks dealer seat_kinds w =
     do { d \<leftarrow> deck_new gen_range seed_from_u64 deck_seed;
          let st = init_state rules hand_id stacks dealer;
          let w1 = e_sink env (HandStarted hand_id dealer deck_seed) w;
          sw2 \<leftarrow> (if 0 < r_ante rules then post_antes rules env (st, w1) else Some (st, w1));
          (st3, w3) \<leftarrow> post_blinds rules env sw2;
          let canonical_bb = bb_seat st3;
          (st4, d4, w4) \<leftarrow> deal_hole_cards env (st3, d, w3);
          st5 \<leftarrow> fold_dead_hands seat_kinds st4;
          (case next_active_after canonical_bb (g_players st5) of
             None \<Rightarrow>
               do { winner \<leftarrow> position still_in (g_players st5);
                    (deltas, st6) \<leftarrow> award_uncontested winner st5;
                    Some (\<lparr>t_state = st6\<lparr>g_action_on := None\<rparr>, t_deck = d4, t_phase = Terminal deltas\<rparr>, w4) }
           | Some first \<Rightarrow>
               Some (\<lparr>t_state = st5\<lparr>g_action_on := Some first\<rparr>, t_deck = d4,
                      t_phase = Decision first (replicate (length (g_players st5)) False)\<rparr>, w4)) }"

definition tree_current :: "game_tree \<Rightarrow> node_kind" where
  "tree_current t = (case t_phase t of Decision c _ \<Rightarrow> DecisionNode c | Terminal _ \<Rightarrow> TerminalNode)"

definition tree_legal_actions :: "betting_rules \<Rightarrow> game_tree \<Rightarrow> legal_actions option option" where
  "tree_legal_actions rules t =
     (case t_phase t of
        Decision c resp \<Rightarrow>
          do { r \<leftarrow> idx resp c;
               la \<leftarrow> compute_legal_actions rules (t_state t) c (\<not> r);
               Some (Some la) }
      | Terminal _ \<Rightarrow> Some None)"

definition observation_owned :: "betting_rules \<Rightarrow> game_tree \<Rightarrow> observation option option" where
  "observation_owned rules t =
     (case t_phase t of
        Decision c resp \<Rightarrow>
          do { r \<leftarrow> idx resp c;
               la \<leftarrow> compute_legal_actions rules (t_state t) c (\<not> r);
               obs \<leftarrow> observe (t_state t) c la;
               Some (Some obs) }
      | Terminal _ \<Rightarrow> Some None)"

definition utilities :: "game_tree \<Rightarrow> int list option" where
  "utilities t = (case t_phase t of Terminal ds \<Rightarrow> Some ds | Decision _ _ \<Rightarrow> None)"

definition into_result :: "nat \<Rightarrow> game_tree \<Rightarrow> hand_result option" where
  "into_result hand_id t =
     (case t_phase t of Terminal ds \<Rightarrow> build_result hand_id (t_state t) ds | Decision _ _ \<Rightarrow> None)"

section \<open>Advancing\<close>

fun next_street :: "street \<Rightarrow> (street \<times> nat) option" where
  "next_street Preflop = Some (Flop, 3)"
| "next_street Flop = Some (Turn, 1)"
| "next_street Turn = Some (River, 1)"
| "next_street River = None"
| "next_street Showdown = None"

fun street_index :: "street \<Rightarrow> nat" where
  "street_index Preflop = 0" | "street_index Flop = 1" | "street_index Turn = 2"
| "street_index River = 3" | "street_index Showdown = 4"

lemma deal_board_cards_street:
  "deal_board_cards env n s (st, d, w) = Some (st', d', w') \<Longrightarrow>
     g_street st' = g_street st \<and> g_players st' = g_players st \<and> g_dealer st' = g_dealer st"
  by (auto simp: deal_board_cards_def split: bind_splits)

lemma collect_bets_street: "collect_bets st = Some st' \<Longrightarrow> g_street st' = g_street st"
  by (auto simp: collect_bets_def split: bind_splits)

text \<open>The loop at the end of \<open>advance\<close>: deal until somebody can bet, or show down.\<close>

function street_loop ::
  "(card list \<Rightarrow> hand_rank option) \<Rightarrow> betting_rules \<Rightarrow> 'w env \<Rightarrow> game_state \<times> deck \<times> 'w \<Rightarrow>
     (tree_phase \<times> game_state \<times> deck \<times> 'w) option" where
  "street_loop rank_7 rules env (st, d, w) =
     (case next_street (g_street st) of
        None \<Rightarrow>
          do { (st1, d1, w1) \<leftarrow> deal_remaining_board env (st, d, w);
               (deltas, st2) \<leftarrow> resolve_showdown rank_7 (st1\<lparr>g_street := Showdown\<rparr>);
               Some (Terminal deltas, st2, d1, w1) }
      | Some (s, n_cards) \<Rightarrow>
          do { (st1, d1, w1) \<leftarrow> deal_board_cards env n_cards s (begin_street rules s st, d, w);
               (case (if 2 \<le> active_count (g_players st1)
                      then next_active_after (g_dealer st1) (g_players st1) else None) of
                  Some first \<Rightarrow>
                    Some (Decision first (replicate (length (g_players st1)) False),
                          st1\<lparr>g_action_on := Some first\<rparr>, d1, w1)
                | None \<Rightarrow>
                    do { st2 \<leftarrow> collect_bets st1;
                         street_loop rank_7 rules env (st2, d1, w1) }) })"
  by pat_completeness auto

lemma street_index_next: "next_street s = Some (s', n) \<Longrightarrow> street_index s' = Suc (street_index s) \<and> street_index s' \<le> 3"
  by (cases s) auto

termination street_loop
proof (relation "measure (\<lambda>(_, _, _, st, _, _). 4 - street_index (g_street st))", goal_cases)
  case (2 rank_7 rules env st d w x s n_cards y st1 z d1 w1 st2)
  then show ?case
    by (auto dest!: deal_board_cards_street collect_bets_street street_index_next simp: begin_street_def)
qed simp

declare street_loop.simps [simp del]

text \<open>The first seat after \<open>start\<close>, itself last, that still has to act.\<close>

definition next_unsettled :: "game_state \<Rightarrow> bool list \<Rightarrow> nat \<Rightarrow> nat option" where
  "next_unsettled st resp start =
     find (\<lambda>seat. \<not> settled st resp seat) (seats_after start (length (g_players st)) (length (g_players st)))"

definition advance ::
  "(card list \<Rightarrow> hand_rank option) \<Rightarrow> betting_rules \<Rightarrow> 'w env \<Rightarrow> game_tree \<times> 'w \<Rightarrow> (game_tree \<times> 'w) option" where
  "advance rank_7 rules env = (\<lambda>(t, w).
     let st = t_state t in
     if players_still_in st = 1 then
       do { winner \<leftarrow> position still_in (g_players st);
            (deltas, st') \<leftarrow> award_uncontested winner st;
            Some (t\<lparr>t_state := st'\<lparr>g_action_on := None\<rparr>, t_phase := Terminal deltas\<rparr>, w) }
     else
       case (case t_phase t of Decision c resp \<Rightarrow> next_unsettled st resp c | Terminal _ \<Rightarrow> None) of
         Some next \<Rightarrow>
           Some (t\<lparr>t_state := st\<lparr>g_action_on := Some next\<rparr>,
                   t_phase := (case t_phase t of Decision _ resp \<Rightarrow> Decision next resp | p \<Rightarrow> p)\<rparr>, w)
       | None \<Rightarrow>
           do { st1 \<leftarrow> collect_bets st;
                (phase, st2, d, w') \<leftarrow> street_loop rank_7 rules env (st1\<lparr>g_action_on := None\<rparr>, t_deck t, w);
                Some (\<lparr>t_state = st2, t_deck = d, t_phase = phase\<rparr>, w') })"

definition tree_apply_action ::
  "(card list \<Rightarrow> hand_rank option) \<Rightarrow> betting_rules \<Rightarrow> 'w env \<Rightarrow> action \<Rightarrow> game_tree \<times> 'w \<Rightarrow>
     (game_tree \<times> 'w) option" where
  "tree_apply_action rank_7 rules env action = (\<lambda>(t, w).
     case t_phase t of
       Terminal _ \<Rightarrow> None
     | Decision seat resp \<Rightarrow>
         do { normalized \<leftarrow> normalize_action (t_state t) seat action;
              (was_aggression, st', w') \<leftarrow> apply_action env seat normalized (t_state t) w;
              _ \<leftarrow> idx resp seat;
              advance rank_7 rules env
                (t\<lparr>t_state := st', t_phase := Decision seat (respond seat was_aggression resp)\<rparr>, w') })"

section \<open>Playing a tree\<close>

text \<open>The loop of a consumer: while a decision is open, ask the agent of the seat and apply its action.\<close>

partial_function (option) tree_drive ::
  "(card list \<Rightarrow> hand_rank option) \<Rightarrow> betting_rules \<Rightarrow> 'w env \<Rightarrow> game_tree \<times> 'w \<Rightarrow> (game_tree \<times> 'w) option" where
  "tree_drive rank_7 rules env tw =
     (case t_phase (fst tw) of
        Terminal _ \<Rightarrow> Some tw
      | Decision c _ \<Rightarrow>
          do { o' \<leftarrow> observation_owned rules (fst tw);
               obs \<leftarrow> o';
               (a, w1) \<leftarrow> e_act env c obs (snd tw);
               tw' \<leftarrow> tree_apply_action rank_7 rules env a (fst tw, w1);
               tree_drive rank_7 rules env tw' })"

definition tree_hand ::
  "('r \<Rightarrow> nat \<Rightarrow> nat \<times> 'r) \<Rightarrow> (64 word \<Rightarrow> 'r) \<Rightarrow> (card list \<Rightarrow> hand_rank option) \<Rightarrow>
     betting_rules \<Rightarrow> 'w env \<Rightarrow> nat \<Rightarrow> 64 word \<Rightarrow> nat list \<Rightarrow> nat \<Rightarrow> seat_kind list option \<Rightarrow>
     'w \<Rightarrow> (hand_result \<times> 'w) option" where
  "tree_hand gen_range seed_from_u64 rank_7 rules env hand_id deck_seed stacks dealer seat_kinds w =
     do { tw \<leftarrow> tree_new gen_range seed_from_u64 rules env hand_id deck_seed stacks dealer seat_kinds w;
          (t, w') \<leftarrow> tree_drive rank_7 rules env tw;
          res \<leftarrow> into_result hand_id t;
          Some (res, w') }"

section \<open>Scanning for the next seat\<close>

definition scan :: "game_state \<Rightarrow> bool list \<Rightarrow> nat \<Rightarrow> nat option" where
  "scan st resp c = find (\<lambda>seat. \<not> settled st resp seat)
     (map (\<lambda>i. (c + i) mod length (g_players st)) [0..<length (g_players st)])"

lemma next_unsettled_scan: "next_unsettled st resp c = scan st resp ((c + 1) mod length (g_players st))"
proof -
  let ?n = "length (g_players st)"
  have "map (\<lambda>i. (c + i) mod ?n) [1..<Suc ?n] = map (\<lambda>i. ((c + 1) mod ?n + i) mod ?n) [0..<?n]"
    by (simp add: map_Suc_upt [symmetric] o_def mod_simps del: upt_Suc)
  then show ?thesis by (simp add: next_unsettled_def scan_def seats_after_def del: upt_Suc)
qed

lemma scan_unsettled: "c < length (g_players st) \<Longrightarrow> \<not> settled st resp c \<Longrightarrow> scan st resp c = Some c"
  by (cases "g_players st") (auto simp: scan_def upt_conv_Cons simp del: upt_Suc)

lemma find_snoc: "\<not> P x \<Longrightarrow> find P (xs @ [x]) = find P xs"
  by (induction xs) auto

lemma scan_settled:
  assumes c: "c < length (g_players st)" and "settled st resp c"
  shows "scan st resp c = scan st resp ((c + 1) mod length (g_players st))"
proof -
  let ?n = "length (g_players st)" and ?P = "\<lambda>seat. \<not> settled st resp seat"
  let ?rest = "map (\<lambda>i. (c + i) mod ?n) [1..<?n]"
  have n: "0 < ?n" using c by auto
  then have "[0..<?n] = 0 # [1..<?n]" by (simp add: upt_conv_Cons)
  then have "find ?P (map (\<lambda>i. (c + i) mod ?n) [0..<?n]) = find ?P ?rest"
    using assms by simp
  moreover have "map (\<lambda>i. ((c + 1) mod ?n + i) mod ?n) [0..<?n] = ?rest @ [c]"
  proof (rule nth_equalityI)
    show "length (map (\<lambda>i. ((c + 1) mod ?n + i) mod ?n) [0..<?n]) = length (?rest @ [c])"
      using c by simp
    fix i assume "i < length (map (\<lambda>i. ((c + 1) mod ?n + i) mod ?n) [0..<?n])"
    then have i: "i < ?n" by simp
    show "map (\<lambda>i. ((c + 1) mod ?n + i) mod ?n) [0..<?n] ! i = (?rest @ [c]) ! i"
    proof (cases "i = ?n - 1")
      case True
      then have "(c + 1) mod ?n + i = (c + 1) mod ?n + (?n - 1)" by simp
      moreover have "((c + 1) mod ?n + (?n - 1)) mod ?n = (c + 1 + (?n - 1)) mod ?n" by (simp add: mod_simps)
      moreover have "c + 1 + (?n - 1) = c + ?n" using c by simp
      ultimately show ?thesis using True i c by (simp add: nth_append)
    next
      case False
      then have "i < ?n - 1" "[0..<?n] ! i = i" using i by simp_all
      then show ?thesis using i by (simp add: nth_append mod_simps)
    qed
  qed
  ultimately show ?thesis
    using assms(2) find_snoc [of ?P c ?rest] by (simp add: scan_def)
qed

lemma scan_None:
  assumes "c < length (g_players st)"
  shows "scan st resp c = None \<longleftrightarrow> list_all (settled st resp) [0..<length (g_players st)]"
proof -
  let ?n = "length (g_players st)"
  have n: "0 < ?n" using assms by auto
  have "(\<lambda>i. (c + i) mod ?n) ` {0..<?n} = {0..<?n}"
  proof (intro equalityI subsetI)
    fix x assume "x \<in> {0..<?n}"
    then have "(c + (x + (?n - c)) mod ?n) mod ?n = x" "(x + (?n - c)) mod ?n < ?n"
      using assms n by (auto simp: mod_simps)
    then show "x \<in> (\<lambda>i. (c + i) mod ?n) ` {0..<?n}"
      by (metis atLeastLessThan_iff imageI zero_le)
  qed (use n in auto)
  then show ?thesis
    by (auto simp: scan_def find_None_iff list_all_iff)
qed

section \<open>Turns touch one seat\<close>

lemma apply_action_seat:
  assumes "apply_action env i a st w = Some (agg, st', w')"
  shows "\<exists>p. g_players st' = (g_players st)[i := p]" and "g_street st' = g_street st"
  using assms list_update_id [of "g_players st" i]
  by (auto simp: apply_action_def apply_fold_def apply_call_def apply_raise_def apply_all_in_def
      raise_all_in_def set_player_def Let_def split: bind_splits action.splits if_splits prod.splits;
      metis)+

lemma still_in_drop:
  assumes "\<exists>p. g_players st' = (g_players st)[i := p]" and "2 \<le> players_still_in st"
  shows "players_still_in st' = 1 \<or> 2 \<le> players_still_in st'" and "length (g_players st') = length (g_players st)"
proof -
  obtain p where p: "g_players st' = (g_players st)[i := p]" using assms(1) by blast
  then show "length (g_players st') = length (g_players st)" by simp
  show "players_still_in st' = 1 \<or> 2 \<le> players_still_in st'"
  proof (cases "i < length (g_players st)")
    case True
    then show ?thesis
      using length_filter_update [of i "g_players st" still_in p] assms(2) p
      by (auto simp: players_still_in_def split: if_splits)
  qed (use assms(2) p in \<open>simp add: players_still_in_def list_update_beyond\<close>)
qed

section \<open>One betting round\<close>

text \<open>Agents that do not listen to events or to the start of a hand, as a tree never tells them.\<close>

definition quiet :: "'w env \<Rightarrow> bool" where
  "quiet env \<longleftrightarrow> (\<forall>seat ev w. e_on_event env seat ev w = w) \<and> (\<forall>seat h w. e_on_hand_start env seat h w = w)"

lemma quiet_fold:
  assumes "quiet env"
  shows "broadcast env n ev w = w" and "fold (\<lambda>seat. e_on_hand_start env seat h) xs w = w"
proof -
  have id: "(\<And>x w. f x w = w) \<Longrightarrow> fold f xs w = w" for f :: "nat \<Rightarrow> 'a \<Rightarrow> 'a" and xs w
    by (induction xs) auto
  show "broadcast env n ev w = w" "fold (\<lambda>seat. e_on_hand_start env seat h) xs w = w"
    using assms by (auto simp: broadcast_def quiet_def id)
qed

text \<open>What the tree does once a round is over, and where it stands while one is in progress.\<close>

fun round_end ::
  "(card list \<Rightarrow> hand_rank option) \<Rightarrow> betting_rules \<Rightarrow> 'w env \<Rightarrow> deck \<Rightarrow> nat option \<times> game_state \<times> 'w \<Rightarrow>
     (game_tree \<times> 'w) option" where
  "round_end rank_7 rules env d (Some winner, st, w) =
     do { (deltas, st') \<leftarrow> award_uncontested winner st;
          Some (\<lparr>t_state = st'\<lparr>g_action_on := None\<rparr>, t_deck = d, t_phase = Terminal deltas\<rparr>, w) }"
| "round_end rank_7 rules env d (None, st, w) =
     do { st1 \<leftarrow> collect_bets st;
          (phase, st2, d', w') \<leftarrow> street_loop rank_7 rules env (st1\<lparr>g_action_on := None\<rparr>, d, w);
          tree_drive rank_7 rules env (\<lparr>t_state = st2, t_deck = d', t_phase = phase\<rparr>, w') }"

definition drive_at ::
  "(card list \<Rightarrow> hand_rank option) \<Rightarrow> betting_rules \<Rightarrow> 'w env \<Rightarrow> deck \<Rightarrow> game_state \<Rightarrow> bool list \<Rightarrow> nat \<Rightarrow> 'w \<Rightarrow>
     (game_tree \<times> 'w) option" where
  "drive_at rank_7 rules env d st resp c w =
     (case scan st resp c of
        Some s \<Rightarrow> tree_drive rank_7 rules env
          (\<lparr>t_state = st\<lparr>g_action_on := Some s\<rparr>, t_deck = d, t_phase = Decision s resp\<rparr>, w)
      | None \<Rightarrow> round_end rank_7 rules env d (None, st, w))"

lemma collect_bets_action_on:
  "collect_bets (st\<lparr>g_action_on := x\<rparr>) = map_option (\<lambda>s. s\<lparr>g_action_on := x\<rparr>) (collect_bets st)"
  by (auto simp: collect_bets_def split: option.split bind_splits)

lemma round_end_action_on:
  "round_end rank_7 rules env d (None, st\<lparr>g_action_on := x\<rparr>, w) = round_end rank_7 rules env d (None, st, w)"
  by (cases "collect_bets st") (simp_all add: collect_bets_action_on)

lemma tree_drive_terminal:
  "t_phase t = Terminal ds \<Longrightarrow> tree_drive rank_7 rules env (t, w) = Some (t, w)"
  by (simp add: tree_drive.simps)

text \<open>After an action the tree stands where the engine's loop goes on.\<close>

lemma advance_drive:
  assumes "length (g_players st) = n" "0 < n"
  shows "do { tw' \<leftarrow> advance rank_7 rules env
            (\<lparr>t_state = st, t_deck = d, t_phase = Decision c resp\<rparr>, w);
          tree_drive rank_7 rules env tw' } =
     (if players_still_in st = 1
      then do { winner \<leftarrow> position still_in (g_players st); round_end rank_7 rules env d (Some winner, st, w) }
      else drive_at rank_7 rules env d st resp ((c + 1) mod n) w)"
proof (cases "players_still_in st = 1")
  case True
  then show ?thesis
    by (simp add: advance_def Let_def tree_drive_terminal split_beta cong: Option.bind_cong)
next
  case False
  then show ?thesis
    using assms
    by (cases "scan st resp ((c + 1) mod n)")
      (simp_all add: advance_def Let_def drive_at_def next_unsettled_scan case_prod_unfold)
qed

lemma turn_drive:
  assumes turn: "take_turn rules env st resp c w = Some (agg, st', w')" and "quiet env"
    and c: "c < length (g_players st)" and resp: "length resp = length (g_players st)"
  shows "tree_drive rank_7 rules env
      (\<lparr>t_state = st\<lparr>g_action_on := Some c\<rparr>, t_deck = d, t_phase = Decision c resp\<rparr>, w)
    = do { tw' \<leftarrow> advance rank_7 rules env
             (\<lparr>t_state = st', t_deck = d, t_phase = Decision c (respond c agg resp)\<rparr>, w');
           tree_drive rank_7 rules env tw' }"
proof -
  let ?st = "st\<lparr>g_action_on := Some c\<rparr>"
  obtain la obs raw w1 a where t: "compute_legal_actions rules ?st c (\<not> resp ! c) = Some la"
      "observe ?st c la = Some obs" "e_act env c obs w = Some (raw, w1)"
      "normalize_action ?st c raw = Some a" "apply_action env c a ?st w1 = Some (agg, st', w')"
    using turn by (auto simp: take_turn_def Let_def quiet_fold [OF assms(2)] split: bind_splits)
  show ?thesis
    by (subst tree_drive.simps)
      (use t c resp in \<open>simp add: observation_owned_def tree_apply_action_def\<close>)
qed

lemma take_turn_seat:
  assumes "take_turn rules env st resp c w = Some (agg, st', w')"
  shows "\<exists>p. g_players st' = (g_players st)[c := p]" and "g_street st' = g_street st"
proof -
  obtain a w1 w2 where "apply_action env c a (st\<lparr>g_action_on := Some c\<rparr>) w1 = Some (agg, st', w2)"
    using assms by (auto simp: take_turn_def Let_def split: bind_splits)
  from apply_action_seat [OF this] show "\<exists>p. g_players st' = (g_players st)[c := p]" "g_street st' = g_street st"
    by simp_all
qed

lemma betting_loop_drive:
  assumes "betting_loop rules env st resp c w = Some y"
  shows "quiet env \<longrightarrow> c < length (g_players st) \<longrightarrow> length resp = length (g_players st) \<longrightarrow>
     2 \<le> players_still_in st \<longrightarrow>
     drive_at rank_7 rules env d st resp c w = round_end rank_7 rules env d y
     \<and> g_street (fst (snd y)) = g_street st \<and> (fst y = None \<longrightarrow> 2 \<le> players_still_in (fst (snd y))
         \<and> g_action_on (fst (snd y)) = None)"
proof (rule betting_loop.raw_induct [where P = "\<lambda>rules env st resp c w y.
     quiet env \<longrightarrow> c < length (g_players st) \<longrightarrow> length resp = length (g_players st) \<longrightarrow>
     2 \<le> players_still_in st \<longrightarrow>
     drive_at rank_7 rules env d st resp c w = round_end rank_7 rules env d y
     \<and> g_street (fst (snd y)) = g_street st \<and> (fst y = None \<longrightarrow> 2 \<le> players_still_in (fst (snd y))
         \<and> g_action_on (fst (snd y)) = None)", OF _ assms], intro impI)
  fix loop rules resp c y and env :: "'a env" and w and st :: game_state
  let ?n = "length (g_players st)"
  assume IH: "\<And>rules env st resp c w y. loop rules env st resp c w = Some y \<Longrightarrow>
     quiet env \<longrightarrow> c < length (g_players st) \<longrightarrow> length resp = length (g_players st) \<longrightarrow>
     2 \<le> players_still_in st \<longrightarrow>
     drive_at rank_7 rules env d st resp c w = round_end rank_7 rules env d y
     \<and> g_street (fst (snd y)) = g_street st \<and> (fst y = None \<longrightarrow> 2 \<le> players_still_in (fst (snd y))
         \<and> g_action_on (fst (snd y)) = None)"
    and body: "(if list_all (settled st resp) [0..<?n]
      then Some (None, st\<lparr>g_action_on := None\<rparr>, w)
      else idx (g_players st) c \<bind> (\<lambda>_.
        if settled st resp c then loop rules env st resp ((c + 1) mod ?n) w
        else take_turn rules env st resp c w \<bind> (\<lambda>(was_aggression, st', w').
          if players_still_in st' = 1
          then position still_in (g_players st') \<bind> (\<lambda>winner. Some (Some winner, st', w'))
          else loop rules env st' (respond c was_aggression resp)
                 ((c + 1) mod length (g_players st')) w'))) = Some y"
    and a: "quiet env" "c < ?n" "length resp = ?n" "2 \<le> players_still_in st"
  have n: "(c + 1) mod ?n < ?n" using a(2) by (intro mod_less_divisor) auto
  consider (all) "list_all (settled st resp) [0..<?n]"
    | (skip) "\<not> list_all (settled st resp) [0..<?n]" "settled st resp c"
    | (turn) "\<not> settled st resp c" by blast
  then show "drive_at rank_7 rules env d st resp c w = round_end rank_7 rules env d y
     \<and> g_street (fst (snd y)) = g_street st \<and> (fst y = None \<longrightarrow> 2 \<le> players_still_in (fst (snd y))
         \<and> g_action_on (fst (snd y)) = None)"
  proof cases
    case all
    then have "y = (None, st\<lparr>g_action_on := None\<rparr>, w)" "scan st resp c = None"
      using body scan_None [OF a(2)] by auto
    then show ?thesis
      using a(4) by (simp add: drive_at_def round_end_action_on players_still_in_def del: round_end.simps)
  next
    case skip
    then have "loop rules env st resp ((c + 1) mod ?n) w = Some y"
      using body a(2) by simp
    from IH [OF this] have "drive_at rank_7 rules env d st resp ((c + 1) mod ?n) w = round_end rank_7 rules env d y
     \<and> g_street (fst (snd y)) = g_street st \<and> (fst y = None \<longrightarrow> 2 \<le> players_still_in (fst (snd y))
         \<and> g_action_on (fst (snd y)) = None)"
      using a n by blast
    then show ?thesis
      using scan_settled [OF a(2) skip(2)] by (simp add: drive_at_def)
  next
    case turn
    then have un: "\<not> list_all (settled st resp) [0..<?n]"
      using a(2) by (auto simp: list_all_iff)
    obtain agg st' w' where t: "take_turn rules env st resp c w = Some (agg, st', w')"
      using body un turn a(2) by (auto split: bind_splits)
    note seat = take_turn_seat [OF t]
    note still = still_in_drop [OF seat(1) a(4)]
    have "drive_at rank_7 rules env d st resp c w = tree_drive rank_7 rules env
        (\<lparr>t_state = st\<lparr>g_action_on := Some c\<rparr>, t_deck = d, t_phase = Decision c resp\<rparr>, w)"
      by (simp add: drive_at_def scan_unsettled [OF a(2) turn])
    also have "\<dots> = do { tw' \<leftarrow> advance rank_7 rules env
             (\<lparr>t_state = st', t_deck = d, t_phase = Decision c (respond c agg resp)\<rparr>, w');
           tree_drive rank_7 rules env tw' }"
      by (rule turn_drive [OF t a(1-3)])
    also have "\<dots> = (if players_still_in st' = 1
       then do { winner \<leftarrow> position still_in (g_players st'); round_end rank_7 rules env d (Some winner, st', w') }
       else drive_at rank_7 rules env d st' (respond c agg resp) ((c + 1) mod ?n) w')"
      by (rule advance_drive [OF still(2)]) (use a(2) in auto)
    finally have here: "drive_at rank_7 rules env d st resp c w = \<dots>" .
    show ?thesis
    proof (cases "players_still_in st' = 1")
      case True
      then obtain winner where "position still_in (g_players st') = Some winner" "y = (Some winner, st', w')"
        using body un turn a(2) t by (auto split: bind_splits)
      then show ?thesis using here True seat(2) by simp
    next
      case False
      then have "loop rules env st' (respond c agg resp) ((c + 1) mod length (g_players st')) w' = Some y"
        using body un turn a(2) t by simp
      from IH [OF this] show ?thesis
        using here False a still seat(2) n by simp
    qed
  qed
qed

section \<open>The rest of the hand\<close>

text \<open>\<open>run_streets\<close> cut at the ends of the betting rounds.\<close>

definition finish ::
  "(card list \<Rightarrow> hand_rank option) \<Rightarrow> betting_rules \<Rightarrow> 'w env \<Rightarrow> (street \<times> nat) list \<Rightarrow>
     game_state \<times> deck \<times> 'w \<Rightarrow> (int list \<times> game_state \<times> 'w) option" where
  "finish rank_7 rules env rest sdw =
     do { (early, st3, d3, w3) \<leftarrow> postflop_loop rules env rest sdw;
          case early of
            Some deltas \<Rightarrow> Some (deltas, st3, w3)
          | None \<Rightarrow>
              do { (st4, d4, w4) \<leftarrow> deal_remaining_board env (st3, d3, w3);
                   (deltas, st5) \<leftarrow> resolve_showdown rank_7 st4;
                   Some (deltas, st5, w4) } }"

definition after_round ::
  "(card list \<Rightarrow> hand_rank option) \<Rightarrow> betting_rules \<Rightarrow> 'w env \<Rightarrow> (street \<times> nat) list \<Rightarrow> deck \<Rightarrow>
     nat option \<times> game_state \<times> 'w \<Rightarrow> (int list \<times> game_state \<times> 'w) option" where
  "after_round rank_7 rules env rest d = (\<lambda>(winner, st1, w1).
     case winner of
       Some seat \<Rightarrow> do { (deltas, st2) \<leftarrow> award_uncontested seat st1; Some (deltas, st2, w1) }
     | None \<Rightarrow> do { st2 \<leftarrow> collect_bets st1; finish rank_7 rules env rest (st2, d, w1) })"

lemma run_streets_rounds:
  "run_streets rank_7 rules env first (st, d, w) =
     do { r \<leftarrow> run_betting_round rules env st first w;
          after_round rank_7 rules env [(Flop, 3), (Turn, 1), (River, 1)] d r }"
  by (simp add: run_streets_def after_round_def finish_def case_prod_unfold del: postflop_loop.simps
      cong: Option.bind_cong option.case_cong)

lemma finish_Cons:
  assumes "2 \<le> players_still_in st" and "quiet env"
  shows "finish rank_7 rules env ((s, n) # rest) (st, d, w) =
     do { (st1, d1, w1) \<leftarrow> deal_board_cards env n s (begin_street rules s st, d, w);
          r \<leftarrow> street_betting rules env st1 w1;
          after_round rank_7 rules env rest d1 r }"
proof -
  have "finish rank_7 rules env ((s, n) # rest) (st, d, w) =
     do { x \<leftarrow> deal_board_cards env n s (begin_street rules s st, d, w);
          r \<leftarrow> street_betting rules env (fst x) (snd (snd x));
          after_round rank_7 rules env rest (fst (snd x)) r }"
    using assms(1)
    by (auto simp: finish_def after_round_def case_prod_unfold quiet_fold [OF assms(2)] Let_def
        split: option.splits intro!: Option.bind_cong)
  then show ?thesis by (simp add: case_prod_unfold)
qed

lemma collect_bets_frame:
  assumes "collect_bets st = Some st'"
  shows "g_street st' = g_street st" and "players_still_in st' = players_still_in st"
    and "g_action_on st' = g_action_on st"
  using assms by (auto simp: collect_bets_def collect_street_bets_def players_still_in_def filter_map o_def
      split: bind_splits)

definition same_end :: "game_state \<Rightarrow> game_state \<Rightarrow> bool" where
  "same_end st st' \<longleftrightarrow> g_players st = g_players st' \<and> g_board st = g_board st' \<and> g_sat_out st = g_sat_out st'"

lemma same_end_result: "same_end st st' \<Longrightarrow> build_result h st ds = build_result h st' ds"
  by (simp add: same_end_def build_result_def seat_outcomes_def)

lemma resolve_showdown_street:
  "resolve_showdown rank_7 (st\<lparr>g_street := s\<rparr>)
     = map_option (\<lambda>(ds, st'). (ds, st'\<lparr>g_street := s\<rparr>)) (resolve_showdown rank_7 st)"
proof -
  have "award_pot rank_7 (st\<lparr>g_street := s\<rparr>) = award_pot rank_7 st"
    by (intro ext) (simp add: award_pot_def split: prod.split)
  then show ?thesis
    by (auto simp: resolve_showdown_def split: bind_splits option.splits)
qed

fun rest_streets :: "street \<Rightarrow> (street \<times> nat) list" where
  "rest_streets Preflop = [(Flop, 3), (Turn, 1), (River, 1)]"
| "rest_streets Flop = [(Turn, 1), (River, 1)]"
| "rest_streets Turn = [(River, 1)]"
| "rest_streets _ = []"

lemma rest_streets_Cons: "rest_streets s = (s', n) # rest \<Longrightarrow> next_street s = Some (s', n) \<and> rest = rest_streets s'"
  by (cases s) auto

lemma rest_streets_Nil: "rest_streets s = [] \<Longrightarrow> next_street s = None"
  by (cases s) auto

definition tree_ends ::
  "(game_tree \<times> 'w) option \<Rightarrow> int list \<times> game_state \<times> 'w \<Rightarrow> bool" where
  "tree_ends m = (\<lambda>(deltas, st', w').
     ok m (\<lambda>(t, w). t_phase t = Terminal deltas \<and> same_end (t_state t) st' \<and> w = w'))"

lemma round_end_ends:
  assumes "after_round rank_7 rules env rest d (winner, st1, w1) = Some r"
    and "\<And>st2. winner = None \<Longrightarrow> collect_bets st1 = Some st2 \<Longrightarrow> finish rank_7 rules env rest (st2, d, w1) = Some r \<Longrightarrow>
      tree_ends (do { (phase, st3, d', w') \<leftarrow> street_loop rank_7 rules env (st2\<lparr>g_action_on := None\<rparr>, d, w1);
          tree_drive rank_7 rules env (\<lparr>t_state = st3, t_deck = d', t_phase = phase\<rparr>, w') }) r"
  shows "tree_ends (round_end rank_7 rules env d (winner, st1, w1)) r"
proof (cases winner)
  case None
  then obtain st2 where "collect_bets st1 = Some st2" "finish rank_7 rules env rest (st2, d, w1) = Some r"
    using assms(1) by (auto simp: after_round_def split: bind_splits)
  then show ?thesis using None assms(2) by simp
next
  case (Some seat)
  then obtain ds st2 where "award_uncontested seat st1 = Some (ds, st2)" "r = (ds, st2, w1)"
    using assms(1) by (auto simp: after_round_def split: bind_splits)
  then show ?thesis using Some by (simp add: tree_ends_def same_end_def)
qed

lemma next_active_facts:
  assumes "next_active_after from players = Some first"
  shows "first < length players" and "is_active (players ! first)"
proof -
  let ?xs = "seats_after from (length players) (length players)"
  have "\<exists>i < length ?xs. is_active (players ! (?xs ! i)) \<and> first = ?xs ! i"
    using assms unfolding next_active_after_def find_Some_iff by blast
  then have "first \<in> set ?xs" and act: "is_active (players ! first)" by auto
  then obtain i where "first = (from + i) mod length players" "1 \<le> i" "i \<le> length players"
    by (auto simp: seats_after_def simp del: upt_Suc)
  then show "first < length players"
    by (metis dual_order.trans less_one linorder_not_le mod_less_divisor)
  show "is_active (players ! first)" by (rule act)
qed

lemma drive_first:
  assumes "first < length (g_players st)" and "is_active (g_players st ! first)"
  shows "tree_drive rank_7 rules env (\<lparr>t_state = st\<lparr>g_action_on := Some first\<rparr>, t_deck = d,
       t_phase = Decision first (replicate (length (g_players st)) False)\<rparr>, w)
     = drive_at rank_7 rules env d st (replicate (length (g_players st)) False) first w"
proof -
  have "\<not> settled st (replicate (length (g_players st)) False) first"
    using assms by (simp add: settled_def Let_def)
  then show ?thesis using scan_unsettled [OF assms(1)] by (simp add: drive_at_def)
qed

lemma round_ends:
  assumes "quiet env" and first: "first < length (g_players st)" "is_active (g_players st ! first)"
    and still: "2 \<le> players_still_in st"
    and r: "do { y \<leftarrow> run_betting_round rules env st first w; after_round rank_7 rules env rest d y } = Some r"
    and rest: "rest = rest_streets (g_street st)"
    and finish: "\<And>st2 w1. finish rank_7 rules env rest (st2, d, w1) = Some r \<Longrightarrow> rest = rest_streets (g_street st2) \<Longrightarrow>
      2 \<le> players_still_in st2 \<Longrightarrow> g_action_on st2 = None \<Longrightarrow>
      tree_ends (do { (phase, st3, d', w') \<leftarrow> street_loop rank_7 rules env (st2, d, w1);
          tree_drive rank_7 rules env (\<lparr>t_state = st3, t_deck = d', t_phase = phase\<rparr>, w') }) r"
  shows "tree_ends (tree_drive rank_7 rules env (\<lparr>t_state = st\<lparr>g_action_on := Some first\<rparr>, t_deck = d,
       t_phase = Decision first (replicate (length (g_players st)) False)\<rparr>, w)) r"
proof -
  obtain winner st1 w1 where y: "betting_loop rules env st (replicate (length (g_players st)) False) first w
        = Some (winner, st1, w1)" and after: "after_round rank_7 rules env rest d (winner, st1, w1) = Some r"
    using r by (auto simp: run_betting_round_def split: bind_splits)
  have loop: "drive_at rank_7 rules env d st (replicate (length (g_players st)) False) first w
        = round_end rank_7 rules env d (winner, st1, w1)"
      "g_street st1 = g_street st" "winner = None \<longrightarrow> 2 \<le> players_still_in st1 \<and> g_action_on st1 = None"
    using betting_loop_drive [OF y, of rank_7 d] assms(1) first(1) still by auto
  have "tree_ends (round_end rank_7 rules env d (winner, st1, w1)) r"
  proof (rule round_end_ends [OF after])
    fix st2 assume c: "winner = None" "collect_bets st1 = Some st2" "finish rank_7 rules env rest (st2, d, w1) = Some r"
    note f = collect_bets_frame [OF c(2)]
    have none: "g_action_on st2 = None" using f(3) loop(3) c(1) by simp
    then have id: "st2\<lparr>g_action_on := None\<rparr> = st2" by (metis game_state.surjective game_state.update_convs(6))
    show "tree_ends (do { (phase, st3, d', w') \<leftarrow> street_loop rank_7 rules env (st2\<lparr>g_action_on := None\<rparr>, d, w1);
          tree_drive rank_7 rules env (\<lparr>t_state = st3, t_deck = d', t_phase = phase\<rparr>, w') }) r"
      unfolding id by (rule finish [OF c(3)]) (use f none loop(2,3) c(1) rest in simp_all)
  qed
  then show ?thesis using loop(1) drive_first [OF first] by metis
qed

lemma finish_ends:
  assumes "quiet env"
  shows "finish rank_7 rules env rest (st, d, w) = Some r \<Longrightarrow> rest = rest_streets (g_street st) \<Longrightarrow>
    2 \<le> players_still_in st \<Longrightarrow> g_action_on st = None \<Longrightarrow>
    tree_ends (do { (phase, st3, d', w') \<leftarrow> street_loop rank_7 rules env (st, d, w);
        tree_drive rank_7 rules env (\<lparr>t_state = st3, t_deck = d', t_phase = phase\<rparr>, w') }) r"
proof (induction rest arbitrary: st d w)
  case Nil
  then have none: "next_street (g_street st) = None" using rest_streets_Nil by simp
  obtain st4 d4 w4 ds st5 where "deal_remaining_board env (st, d, w) = Some (st4, d4, w4)"
      "resolve_showdown rank_7 st4 = Some (ds, st5)" "r = (ds, st5, w4)"
    using Nil.prems(1) by (auto simp: finish_def split: bind_splits)
  then show ?case
    by (simp add: street_loop.simps none resolve_showdown_street tree_drive_terminal tree_ends_def same_end_def)
next
  case (Cons sn rest)
  obtain s n where sn: "sn = (s, n)" by (cases sn)
  then have nxt: "next_street (g_street st) = Some (s, n)" and rest: "rest = rest_streets s"
    using rest_streets_Cons [of "g_street st" s n rest] Cons.prems(2) by simp_all
  obtain st1 d1 w1 y where deal: "deal_board_cards env n s (begin_street rules s st, d, w) = Some (st1, d1, w1)"
      and bet: "street_betting rules env st1 w1 = Some y" and after: "after_round rank_7 rules env rest d1 y = Some r"
    using Cons.prems(1) unfolding sn finish_Cons [OF Cons.prems(3) assms] by (auto split: bind_splits)
  have st1: "g_street st1 = s" "g_players st1 = map (\<lambda>p. p\<lparr>p_bet_this_street := 0\<rparr>) (g_players st)"
      "g_action_on st1 = None"
    using deal Cons.prems(4) by (auto simp: deal_board_cards_def begin_street_def split: bind_splits)
  then have still: "2 \<le> players_still_in st1"
    using Cons.prems(3) by (simp add: players_still_in_def filter_map o_def)
  show ?case
  proof (cases "if 2 \<le> active_count (g_players st1) then next_active_after (g_dealer st1) (g_players st1) else None")
    case None
    then have y: "y = (None, st1, w1)"
      using bet by (auto simp: street_betting_def split: if_splits)
    then obtain st2 where st2: "collect_bets st1 = Some st2" "finish rank_7 rules env rest (st2, d1, w1) = Some r"
      using after by (auto simp: after_round_def split: bind_splits)
    note f = collect_bets_frame [OF st2(1)]
    have "tree_ends (do { (phase, st3, d', w') \<leftarrow> street_loop rank_7 rules env (st2, d1, w1);
        tree_drive rank_7 rules env (\<lparr>t_state = st3, t_deck = d', t_phase = phase\<rparr>, w') }) r"
      using Cons.IH [OF st2(2)] f st1 still rest by simp
    then show ?thesis
      by (simp add: street_loop.simps [of rank_7 rules env st] nxt deal None st2(1))
  next
    case (Some first)
    then have f: "next_active_after (g_dealer st1) (g_players st1) = Some first" "2 \<le> active_count (g_players st1)"
      by (auto split: if_splits)
    then have run: "do { y \<leftarrow> run_betting_round rules env st1 first w1; after_round rank_7 rules env rest d1 y } = Some r"
      using bet after by (simp add: street_betting_def)
    have "tree_ends (tree_drive rank_7 rules env (\<lparr>t_state = st1\<lparr>g_action_on := Some first\<rparr>, t_deck = d1,
       t_phase = Decision first (replicate (length (g_players st1)) False)\<rparr>, w1)) r"
      by (rule round_ends [OF assms next_active_facts [OF f(1)] still run]) (use rest st1 Cons.IH in auto)
    then show ?thesis
      by (simp add: street_loop.simps [of rank_7 rules env st] nxt deal f)
  qed
qed

section \<open>The whole hand\<close>

lemma tree_new_setup:
  "tree_new gen_range seed_from_u64 rules env hand_id deck_seed stacks dealer seat_kinds w =
     do { d \<leftarrow> deck_new gen_range seed_from_u64 deck_seed;
          (bb, st, d1, w1) \<leftarrow> setup_hand rules env seat_kinds (init_state rules hand_id stacks dealer, d,
             e_sink env (HandStarted hand_id dealer deck_seed) w);
          (case next_active_after bb (g_players st) of
             None \<Rightarrow>
               do { (deltas, st6) \<leftarrow> award_uncontested_and_finish st;
                    Some (\<lparr>t_state = st6\<lparr>g_action_on := None\<rparr>, t_deck = d1, t_phase = Terminal deltas\<rparr>, w1) }
           | Some first \<Rightarrow>
               Some (\<lparr>t_state = st\<lparr>g_action_on := Some first\<rparr>, t_deck = d1,
                      t_phase = Decision first (replicate (length (g_players st)) False)\<rparr>, w1)) }"
  by (simp add: tree_new_def setup_hand_def award_uncontested_and_finish_def Let_def case_prod_unfold
      cong: Option.bind_cong option.case_cong)

lemma for_each_keeps:
  assumes "\<And>x s s'. f x s = Some s' \<Longrightarrow> g s' = g s" and "for_each xs f s = Some s'"
  shows "g s' = g s"
  using assms(2) by (induction xs arbitrary: s) (auto dest: assms(1) split: bind_splits)

lemma post_street: "post env seat n (st, w) = Some (st', w') \<Longrightarrow> g_street st' = g_street st"
  by (auto simp: post_def set_player_def Let_def split: bind_splits prod.splits)

lemma setup_hand_street:
  assumes "setup_hand rules env kinds (st, d, w) = Some (bb, st', d', w')"
  shows "g_street st' = g_street st"
proof -
  obtain st1 w1 st2 w2 st3 w3 where antes: "(if 0 < r_ante rules then post_antes rules env (st, w) else Some (st, w)) = Some (st1, w1)"
      and blinds: "post_blinds rules env (st1, w1) = Some (st2, w2)" and deal: "deal_hole_cards env (st2, d, w2) = Some (st3, d', w3)"
      and dead: "fold_dead_hands kinds st3 = Some st'"
    using assms by (auto simp: setup_hand_def Let_def split: bind_splits)
  have "g_street (fst (st1, w1)) = g_street (fst (st, w))"
    using antes unfolding post_antes_def
    by (auto split: if_splits dest!: for_each_keeps [where g = "\<lambda>sw. g_street (fst sw)", rotated]
        split: bind_splits dest: post_street)
  moreover have "g_street st2 = g_street st1"
    using blinds by (auto simp: post_blinds_def split: bind_splits dest!: post_street)
  moreover have "g_street (fst (st3, d', w3)) = g_street (fst (st2, d, w2))"
    using deal unfolding deal_hole_cards_def
    by (rule for_each_keeps [where g = "\<lambda>s. g_street (fst s)", rotated])
      (auto simp: set_player_def split: bind_splits if_splits)
  moreover have "g_street st' = g_street st3"
    using dead unfolding fold_dead_hands_def
    by (auto split: option.splits dest!: for_each_keeps [where g = g_street, rotated])
      (auto simp: set_player_def split: bind_splits if_splits)
  ultimately show ?thesis by simp
qed

lemma tree_plays_as_engine:
  assumes "quiet env" and "hand_players env rank_7" and draws: "draws_in_range gen_range"
    and play: "playable rules stacks dealer seat_kinds"
    and run: "run_hand gen_range seed_from_u64 rank_7 rules env hand_id deck_seed stacks dealer seat_kinds w
      = Some (res, w')"
  shows "\<exists>wt. tree_hand gen_range seed_from_u64 rank_7 rules env hand_id deck_seed stacks dealer seat_kinds w
        = Some (res, wt)
      \<and> w' = fold (\<lambda>seat. e_on_hand_end env seat res) [0..<length stacks] (e_sink env (HandEnded hand_id res) wt)"
proof -
  let ?w1 = "e_sink env (HandStarted hand_id dealer deck_seed) w"
  let ?tree = "tree_new gen_range seed_from_u64 rules env hand_id deck_seed stacks dealer seat_kinds w"
  let ?hand = "\<lambda>bb st1 d1 w3. case next_active_after bb (g_players st1) of
         None \<Rightarrow> do { (deltas, st2) \<leftarrow> award_uncontested_and_finish st1; Some (deltas, st2, w3) }
       | Some first \<Rightarrow> run_streets rank_7 rules env first (st1, d1, w3)"
  obtain d bb st1 d1 w3 where deck: "deck_new gen_range seed_from_u64 deck_seed = Some d"
    and prep: "setup_hand rules env seat_kinds (init_state rules hand_id stacks dealer, d, ?w1)
      = Some (bb, st1, d1, w3)"
    using run by (auto simp: run_hand_def Let_def quiet_fold [OF assms(1)] split: bind_splits)
  have rest: "do { (deltas, st2, w4) \<leftarrow> ?hand bb st1 d1 w3; result \<leftarrow> build_result hand_id st2 deltas;
      Some (result, fold (\<lambda>seat. e_on_hand_end env seat result) [0..<length stacks]
        (e_sink env (HandEnded hand_id result) w4)) } = Some (res, w')"
    using run deck prep by (simp add: run_hand_def Let_def quiet_fold [OF assms(1)])
  then obtain deltas st2 w4 where hand: "?hand bb st1 d1 w3 = Some (deltas, st2, w4)"
    by (cases "?hand bb st1 d1 w3") auto
  then have res: "build_result hand_id st2 deltas = Some res"
    and w': "w' = fold (\<lambda>seat. e_on_hand_end env seat res) [0..<length stacks] (e_sink env (HandEnded hand_id res) w4)"
    using rest by (auto split: bind_splits)
  have "ok (setup_hand rules env seat_kinds (init_state rules hand_id stacks dealer, d, ?w1))
      (\<lambda>(bb, st, d', _). bb < length stacks \<and> hand_ready rules stacks dealer hand_id st d')"
    using setup_hand_ok [OF play] deck_new_wf [OF draws, of seed_from_u64 deck_seed] deck
    by (auto simp: ok_def deck_wf_def)
  then have ready: "hand_ready rules stacks dealer hand_id st1 d1" using prep by simp
  have "tree_ends (do { tw \<leftarrow> ?tree; tree_drive rank_7 rules env tw }) (deltas, st2, w4)"
  proof (cases "next_active_after bb (g_players st1)")
    case None
    then show ?thesis
      using hand deck prep by (auto simp: tree_new_setup tree_drive_terminal tree_ends_def same_end_def split: bind_splits)
  next
    case (Some first)
    have street: "g_street st1 = Preflop"
      using setup_hand_street [OF prep] by (simp add: init_state_def)
    have "tree_ends (tree_drive rank_7 rules env (\<lparr>t_state = st1\<lparr>g_action_on := Some first\<rparr>, t_deck = d1,
       t_phase = Decision first (replicate (length (g_players st1)) False)\<rparr>, w3)) (deltas, st2, w4)"
      by (rule round_ends [OF assms(1) next_active_facts [OF Some], where rest = "[(Flop, 3), (Turn, 1), (River, 1)]"])
        (use ready hand Some street finish_ends [OF assms(1)] in \<open>auto simp: hand_ready_def run_streets_rounds\<close>)
    then show ?thesis using Some deck prep by (simp add: tree_new_setup)
  qed
  then obtain t where t: "do { tw \<leftarrow> ?tree; tree_drive rank_7 rules env tw } = Some (t, w4)"
      "t_phase t = Terminal deltas" "same_end (t_state t) st2"
    by (auto simp: tree_ends_def ok_def)
  then have "into_result hand_id t = Some res"
    using res same_end_result [OF t(3), of hand_id deltas] by (simp add: into_result_def)
  with t(1) have "tree_hand gen_range seed_from_u64 rank_7 rules env hand_id deck_seed stacks dealer seat_kinds w
      = Some (res, w4)"
    by (auto simp: tree_hand_def split: bind_splits)
  then show ?thesis using w' by blast
qed



end
