(* ===== verification/TreeInv.thy ===== *)
theory TreeInv
  imports Tree
begin

text \<open>
  Trees under any play.  A consumer of \<open>GameTree\<close> may apply to an open decision whatever action it likes, as
  long as it does not check while chips are owed, and may do so on copies.  Every tree so reached is
  consistent, and every action brings it nearer to the end of the hand.
\<close>

section \<open>Consistent trees\<close>

fun cards_on :: "street \<Rightarrow> nat" where
  "cards_on Preflop = 0" | "cards_on Flop = 3" | "cards_on Turn = 4" | "cards_on River = 5" | "cards_on Showdown = 5"

definition paid_in :: "game_state \<Rightarrow> bool" where
  "paid_in st \<longleftrightarrow> (\<forall>p \<in> set (g_players st). still_in p \<longrightarrow> 0 < p_total_committed p)"

definition on_street :: "game_state \<Rightarrow> bool" where
  "on_street st \<longleftrightarrow> g_street st \<noteq> Showdown \<and> length (g_board st) = cards_on (g_street st)"

definition tree_ok :: "betting_rules \<Rightarrow> nat list \<Rightarrow> game_tree \<Rightarrow> bool" where
  "tree_ok rules stacks t \<longleftrightarrow>
     (case t_phase t of
        Terminal deltas \<Rightarrow> hand_over stacks (t_state t) deltas
      | Decision c resp \<Rightarrow>
          hand_inv rules stacks (t_state t) (t_deck t) \<and> on_street (t_state t)
          \<and> (0 < g_current_bet (t_state t) \<or> paid_in (t_state t))
          \<and> c < length stacks \<and> length resp = length stacks \<and> \<not> settled (t_state t) resp c)"

text \<open>How far a tree is from the end: the streets to come, then what is left of the round.\<close>

definition tree_dist :: "game_tree \<Rightarrow> nat \<times> nat" where
  "tree_dist t =
     (case t_phase t of
        Terminal _ \<Rightarrow> (0, 0)
      | Decision c resp \<Rightarrow> (5 - street_index (g_street (t_state t)), round_measure (t_state t) resp))"

definition nearer :: "(game_tree \<times> game_tree) set" where
  "nearer = inv_image (less_than <*lex*> less_than) tree_dist"

lemma wf_nearer: "wf nearer"
  unfolding nearer_def by (intro wf_inv_image wf_lex_prod wf_less_than)

lemma action_on_simps [simp]:
  "hand_inv rules stacks (st\<lparr>g_action_on := x\<rparr>) d = hand_inv rules stacks st d"
  "on_street (st\<lparr>g_action_on := x\<rparr>) = on_street st" "paid_in (st\<lparr>g_action_on := x\<rparr>) = paid_in st"
  "settled (st\<lparr>g_action_on := x\<rparr>) resp c = settled st resp c"
  "round_measure (st\<lparr>g_action_on := x\<rparr>) resp = round_measure st resp"
  "hand_over stacks (st\<lparr>g_action_on := x\<rparr>) ds = hand_over stacks st ds"
  "street_done (st\<lparr>g_action_on := x\<rparr>) = street_done st"
  by (simp_all add: hand_inv_def on_street_def paid_in_def settled_def round_measure_def unsettled_def hand_over_def
      hand_settled_def street_done_def dealt_from_def seated_def players_still_in_def in_play_def Let_def)

section \<open>Advancing\<close>

lemma hand_inv_length: "hand_inv rules stacks st d \<Longrightarrow> length (g_players st) = length stacks"
  using seated_length by (auto simp: hand_inv_def)

lemma cards_on_next: "next_street s = Some (s', n) \<Longrightarrow> cards_on s' = cards_on s + n \<and> s' \<noteq> Showdown"
  by (cases s) auto

lemma street_loop_ok:
  fixes env :: "'w env"
  assumes "hand_inv rules stacks st d" and "street_done st" and "on_street st" and "hand_evaluator rank_7"
    and bb: "0 < r_big_blind rules" and n: "length stacks \<le> 23"
  shows "ok (street_loop rank_7 rules env (st, d, w)) (\<lambda>(phase, st', d', _).
     tree_ok rules stacks \<lparr>t_state = st', t_deck = d', t_phase = phase\<rparr>
     \<and> (\<forall>c resp. phase = Decision c resp \<longrightarrow> street_index (g_street st) < street_index (g_street st') \<and> street_index (g_street st') < 5))"
  using assms(1-3)
proof (induction "4 - street_index (g_street st)" arbitrary: st d w rule: less_induct)
  case less
  have players: "hand_players station_env rank_7"
    using stations.responsive_axioms assms(4) by (simp add: hand_players_def)
  show ?case
  proof (cases "next_street (g_street st)")
    case None
    then have board: "length (g_board st) = 5"
      using less.prems(3) by (cases "g_street st") (auto simp: on_street_def)
    have "ok (resolve_showdown rank_7 (st\<lparr>g_street := Showdown\<rparr>)) (\<lambda>(deltas, st'). hand_over stacks st' deltas)"
      unfolding resolve_showdown_street
      using hand_players.showdown_over [OF players less.prems(1,2) board]
      by (auto simp: ok_def hand_over_def hand_settled_def in_play_def)
    then show ?thesis
      using None board
      by (subst street_loop.simps) (auto simp: deal_remaining_board_def ok_def tree_ok_def)
  next
    case (Some sn)
    obtain s k where sn: "sn = (s, k)" by fastforce
    note beg = begin_street_inv [OF less.prems(1,2) bb, of s]
    let ?st = "begin_street rules s st"
    have idx: "street_index s = Suc (street_index (g_street st))" "street_index s \<le> 3"
      using street_index_next [of "g_street st" s k] Some sn by simp_all
    have kk: "cards_on s = length (g_board st) + k" "s \<noteq> Showdown" "cards_on s \<le> 5"
      using cards_on_next [of "g_street st" s k] Some sn less.prems(3) by (cases s; auto simp: on_street_def)+
    have room: "d_cursor d + k \<le> 52"
      using less.prems(1) n kk by (simp add: hand_inv_def)
    obtain cs st1 d1 w1 where deal: "deal_board_cards env k s (?st, d, w) = Some (st1, d1, w1)"
        "length cs = k" "st1 = ?st\<lparr>g_board := g_board ?st @ cs\<rparr>" "dealt_from st1 d1"
        "d_cursor d1 = d_cursor d + k"
      using deal_board_cards_ok [of ?st d k env s w] beg(1) room by (auto simp: ok_def hand_inv_def)
    have inv1: "hand_inv rules stacks st1 d1"
      using board_dealt_inv [OF beg(1)] deal(2-5) by simp
    have street1: "g_street st1 = s" using deal(3) by (simp add: begin_street_def)
    have on1: "on_street st1" "street_done st1"
      using less.prems(2) beg(2,3) deal(2,3) street1 kk by (simp_all add: on_street_def street_done_def)
    have paid1: "paid_in st1" using on1(2) by (simp add: paid_in_def street_done_def)
    show ?thesis
    proof (cases "if 2 \<le> active_count (g_players st1) then next_active_after (g_dealer st1) (g_players st1) else None")
      case first: (Some first)
      then have "next_active_after (g_dealer st1) (g_players st1) = Some first" by (auto split: if_splits)
      from next_active_facts [OF this] have f: "first < length stacks" "is_active (g_players st1 ! first)"
        using hand_inv_length [OF inv1] by simp_all
      then have "\<not> settled st1 (replicate (length stacks) False) first" by (simp add: settled_def Let_def)
      then show ?thesis
        using Some sn deal(1) first inv1 on1(1) paid1 f(1) idx street1 hand_inv_length [OF inv1]
        by (subst street_loop.simps) (simp add: tree_ok_def)
    next
      case none: None
      obtain st2 where st2: "collect_bets st1 = Some st2" "hand_inv rules stacks st2 d1" "street_done st2"
          "g_board st2 = g_board st1"
        using collect_bets_inv [OF inv1] paid1 by (auto simp: ok_def paid_in_def)
      have street2: "g_street st2 = s" using collect_bets_street [OF st2(1)] street1 by simp
      then have "on_street st2" using on1(1) street1 st2(4) by (simp add: on_street_def)
      moreover have "4 - street_index (g_street st2) < 4 - street_index (g_street st)" using street2 idx by simp
      ultimately have "ok (street_loop rank_7 rules env (st2, d1, w1)) (\<lambda>(phase, st', d', _).
         tree_ok rules stacks \<lparr>t_state = st', t_deck = d', t_phase = phase\<rparr>
         \<and> (\<forall>c resp. phase = Decision c resp \<longrightarrow> street_index (g_street st2) < street_index (g_street st') \<and> street_index (g_street st') < 5))"
        using less.hyps st2(2,3) by blast
      then show ?thesis
        using Some sn deal(1) none st2(1) idx street2
        by (subst street_loop.simps) (auto simp: ok_def)
    qed
  qed
qed

text \<open>A round that is over, with everybody matched.\<close>

lemma round_paid:
  assumes inv: "hand_inv rules stacks st d" and paid: "0 < g_current_bet st \<or> paid_in st"
    and bets: "\<forall>p \<in> set (g_players st). is_active p \<longrightarrow> p_bet_this_street p = g_current_bet st"
  shows "paid_in st"
proof (cases "paid_in st")
  case False
  then have cb: "0 < g_current_bet st" using paid by simp
  show ?thesis
    unfolding paid_in_def
  proof (intro ballI impI)
    fix p assume p: "p \<in> set (g_players st)" "still_in p"
    then have ok: "player_ok (g_current_bet st) p" using inv by (simp add: hand_inv_def table_inv_def)
    show "0 < p_total_committed p"
    proof (cases "p_status p = Active")
      case True
      then have "p_bet_this_street p = g_current_bet st" using bets p(1) by (simp add: is_active_def)
      then show ?thesis using ok cb by (simp add: player_ok_def)
    next
      case False
      then show ?thesis using ok p(2) by (cases "p_status p") (simp_all add: player_ok_def still_in_def)
    qed
  qed
qed

lemma paid_in_frame:
  assumes "paid_in st" and "hand_frame st st'"
  shows "paid_in st'"
proof -
  have "\<forall>p' \<in> set (g_players st'). \<exists>p \<in> set (g_players st). evolves p p'"
    using assms(2) by (fastforce simp: hand_frame_def list_all2_conv_all_nth in_set_conv_nth)
  then show ?thesis
    using assms(1) unfolding paid_in_def evolves_def by (meson less_le_trans)
qed

lemma next_unsettled_facts:
  assumes "next_unsettled st resp c = Some k" and "length (g_players st) = n"
  shows "k < n" and "\<not> settled st resp k"
proof -
  have k: "k \<in> set (seats_after c n n)" "\<not> settled st resp k"
    using find_member [of _ _ k] assms by (auto simp: next_unsettled_def)
  then show "\<not> settled st resp k" by simp
  obtain i where "k = (c + i) mod n" "1 \<le> i" "i \<le> n"
    using k(1) by (auto simp: seats_after_def simp del: upt_Suc)
  then show "k < n" by (metis less_le_trans mod_less_divisor zero_less_one)
qed

lemma next_unsettled_None:
  assumes "next_unsettled st resp c = None" and "c < length (g_players st)"
  shows "\<forall>p \<in> set (g_players st). is_active p \<longrightarrow> p_bet_this_street p = g_current_bet st"
proof -
  have "(c + 1) mod length (g_players st) < length (g_players st)"
    using assms(2) by (intro mod_less_divisor) linarith
  then have "list_all (settled st resp) [0..<length (g_players st)]"
    using assms(1) scan_None by (simp add: next_unsettled_scan)
  then show ?thesis by (auto simp: list_all_iff settled_def Let_def all_set_conv_all_nth)
qed

text \<open>The step: any answer the engine would accept keeps the tree consistent and brings it nearer to the end.\<close>

lemma tree_apply_ok:
  fixes env :: "'w env"
  assumes ok: "tree_ok rules stacks t" and phase: "t_phase t = Decision c resp" and rank: "hand_evaluator rank_7"
    and bb: "0 < r_big_blind rules" and n: "length stacks \<le> 23"
    and a: "a = Check \<Longrightarrow> g_current_bet (t_state t) \<le> p_bet_this_street (g_players (t_state t) ! c)"
  shows "ok (tree_apply_action rank_7 rules env a (t, w)) (\<lambda>(t', _). tree_ok rules stacks t' \<and> (t', t) \<in> nearer)"
proof -
  let ?st = "t_state t" and ?T = "sum_list stacks" and ?lim = "sum_list stacks + r_big_blind rules"
  have inv: "hand_inv rules stacks ?st (t_deck t)" and on: "on_street ?st" and paid: "0 < g_current_bet ?st \<or> paid_in ?st"
    and c: "c < length (g_players ?st)" "length resp = length (g_players ?st)" and un: "\<not> settled ?st resp c"
    using ok phase hand_inv_length by (auto simp: tree_ok_def)
  have len: "length (g_players ?st) = length stacks" by (rule hand_inv_length [OF inv])
  have t: "table_inv ?T ?lim ?st" and two: "2 \<le> players_still_in ?st" using inv by (simp_all add: hand_inv_def)
  have act: "is_active (g_players ?st ! c)" using un by (auto simp: settled_def Let_def)
  obtain act' where norm: "normalize_action ?st c a = Some act'" "normal_action ?st c act'"
    using normalize_action_normal [OF t c(1) a] by (auto simp: ok_def)
  obtain agg st' w' where app: "apply_action env c act' ?st w = Some (agg, st', w')" "turn_rel ?T ?lim c agg ?st st'"
    using apply_action_turn [OF t c(1) act norm(2), of env w] by (auto simp: ok_def)
  note seat = apply_action_seat [OF app(1)]
  have fr: "hand_frame ?st st'" "table_inv ?T ?lim st'" using app(2) by (simp_all add: turn_rel_def)
  have len': "length (g_players st') = length stacks" using still_in_drop(2) [OF seat(1) two] len by simp
  have street: "g_street st' = g_street ?st" "g_board st' = g_board ?st" using seat(2) fr(1) by (simp_all add: hand_frame_def)
  have far: "(t', t) \<in> nearer" if "t_phase t' = Terminal ds" for t' ds
    using that phase on by (cases "g_street ?st") (auto simp: nearer_def tree_dist_def on_street_def)
  let ?resp = "respond c agg resp"
  have step: "tree_apply_action rank_7 rules env a (t, w) =
      advance rank_7 rules env (t\<lparr>t_state := st', t_phase := Decision c ?resp\<rparr>, w')"
    using phase norm(1) app(1) c by (simp add: tree_apply_action_def)
  show ?thesis
  proof (cases "players_still_in st' = 1")
    case True
    obtain winner where win: "position still_in (g_players st') = Some winner" "winner < length (g_players st')"
        "still_in (g_players st' ! winner)"
      using sole_winner [OF True] by (auto simp: ok_def)
    then have "round_post ?T ?lim ?st (Some winner) st'" using fr True by (simp add: round_post_def)
    from award_over [OF inv this] show ?thesis
      using True win(1) far by (auto simp: step advance_def Let_def ok_def tree_ok_def)
  next
    case False
    then have inv': "hand_inv rules stacks st' (t_deck t)"
      using still_in_drop(1) [OF seat(1) two] hand_inv_frame [OF inv fr(1) _ fr(2)] by simp
    have paid': "0 < g_current_bet st' \<or> paid_in st'"
      using paid paid_in_frame [OF _ fr(1)] fr(1) by (auto simp: hand_frame_def)
    show ?thesis
    proof (cases "next_unsettled st' ?resp c")
      case (Some k)
      have "round_measure st' ?resp < round_measure ?st resp"
        by (rule turn_decreases [OF app(2) c(1,2) un])
      then show ?thesis
        using False Some next_unsettled_facts [OF Some len'] inv' paid' on street c(2) len phase
        by (simp add: step advance_def Let_def tree_ok_def nearer_def tree_dist_def) (simp add: on_street_def)
    next
      case None
      have "paid_in st'"
        by (rule round_paid [OF inv' paid' next_unsettled_None [OF None]]) (use c(1) len len' in simp)
      then obtain st2 where st2: "collect_bets st' = Some st2" "hand_inv rules stacks st2 (t_deck t)" "street_done st2"
          "g_board st2 = g_board st'"
        using collect_bets_inv [OF inv'] by (auto simp: ok_def paid_in_def)
      have on2: "on_street st2" "g_street st2 = g_street ?st"
        using collect_bets_street [OF st2(1)] street on st2(4) by (simp_all add: on_street_def)
      obtain ph st3 d3 w3 where loop: "street_loop rank_7 rules env (st2\<lparr>g_action_on := None\<rparr>, t_deck t, w') = Some (ph, st3, d3, w3)"
          "tree_ok rules stacks \<lparr>t_state = st3, t_deck = d3, t_phase = ph\<rparr>"
          "\<forall>c resp. ph = Decision c resp \<longrightarrow> street_index (g_street ?st) < street_index (g_street st3) \<and> street_index (g_street st3) < 5"
        using street_loop_ok [of rules stacks "st2\<lparr>g_action_on := None\<rparr>" "t_deck t" rank_7 env w'] st2(2,3) on2 rank bb n
        by (auto simp: ok_def)
      have "(\<lparr>t_state = st3, t_deck = d3, t_phase = ph\<rparr>, t) \<in> nearer"
      proof (cases ph)
        case (Decision c' resp')
        then show ?thesis using loop(3) phase by (simp add: nearer_def tree_dist_def) linarith
      qed (simp add: far)
      then show ?thesis
        using False None st2(1) loop(1,2) by (simp add: step advance_def Let_def)
    qed
  qed
qed

section \<open>New trees and observations\<close>

lemma tree_new_ok:
  assumes draws: "draws_in_range gen_range" and play: "playable rules stacks dealer seat_kinds"
  shows "ok (tree_new gen_range seed_from_u64 rules env hand_id deck_seed stacks dealer seat_kinds w)
     (\<lambda>(t, _). tree_ok rules stacks t)"
proof -
  let ?w1 = "e_sink env (HandStarted hand_id dealer deck_seed) w"
  obtain d where d: "deck_new gen_range seed_from_u64 deck_seed = Some d"
      "mset (d_cards d) = mset fresh_cards" "d_cursor d = 0"
    using deck_new_wf [OF draws, of seed_from_u64 deck_seed] by (auto simp: ok_def deck_wf_def)
  obtain bb st d1 w1 where prep: "setup_hand rules env seat_kinds (init_state rules hand_id stacks dealer, d, ?w1)
      = Some (bb, st, d1, w1)" "hand_ready rules stacks dealer hand_id st d1"
    using setup_hand_ok [OF play d(2,3), of env hand_id ?w1] by (auto simp: ok_def)
  have "dealer < length stacks" "0 < r_big_blind rules" using play by (auto simp: playable_def)
  note ready = hand_ready_inv [OF prep(2) this(1)] and blind = this(2)
  note len = hand_inv_length [OF ready(1)]
  have on: "on_street st" using setup_hand_street [OF prep(1)] ready(2) by (simp add: on_street_def init_state_def)
  show ?thesis
  proof (cases "next_active_after bb (g_players st)")
    case (Some first)
    have "\<not> settled st (replicate (length stacks) False) first" "first < length stacks"
      using next_active_facts [OF Some] len by (simp_all add: settled_def Let_def)
    then show ?thesis
      using d(1) prep(1) Some ready on len blind by (simp add: tree_new_setup tree_ok_def)
  next
    case None
    have "2 \<le> players_still_in st" using ready(1) by (simp add: hand_inv_def)
    then obtain p where "p \<in> set (g_players st)" "still_in p"
      using other_live_seat [of st 0] nth_mem by metis
    then obtain i where i: "position still_in (g_players st) = Some i" using position_ex by metis
    then have "i < length (g_players st)" "still_in (g_players st ! i)" using position_SomeD [OF i] by auto
    with ready(1) obtain deltas st' where "award_uncontested i st = Some (deltas, st')" "hand_over stacks st' deltas"
      using hand_overI [OF award_uncontested_ok [where st = st and stacks = stacks and winner = i
            and T = "sum_list stacks" and lim = "sum_list stacks + r_big_blind rules"]]
      by (auto simp: ok_def hand_inv_def cards_ok_def)
    then show ?thesis
      using d(1) prep(1) None i by (simp add: tree_new_setup award_uncontested_and_finish_def tree_ok_def)
  qed
qed

lemma tree_observation_ok:
  assumes ok: "tree_ok rules stacks t" and phase: "t_phase t = Decision c resp"
  shows "\<exists>obs. observation_owned rules t = Some (Some obs) \<and> obs_ok obs
     \<and> (\<forall>a. answer_ok (o_legal_actions obs) a \<longrightarrow> a = Check \<longrightarrow>
          g_current_bet (t_state t) \<le> p_bet_this_street (g_players (t_state t) ! c))"
proof -
  let ?st = "t_state t"
  have inv: "hand_inv rules stacks ?st (t_deck t)" and c: "c < length (g_players ?st)" "c < length resp" and un: "\<not> settled ?st resp c"
    using ok phase hand_inv_length by (auto simp: tree_ok_def)
  have t: "table_inv (sum_list stacks) (sum_list stacks + r_big_blind rules) ?st" and cards: "cards_ok ?st"
    using inv by (simp_all add: hand_inv_def)
  have act: "is_active (g_players ?st ! c)" using un by (auto simp: settled_def Let_def)
  obtain la where la: "compute_legal_actions rules ?st c (\<not> resp ! c) = Some la" "legal_for ?st c la"
    using compute_legal_actions_ok [OF t c(1)] by (rule okE)
  obtain obs where "observe ?st c la = Some obs" "obs_ok obs" "o_legal_actions obs = la"
    using observe_ok [OF t c(1) act cards la(2)] by (auto simp: ok_def)
  then show ?thesis
    using phase la c(2) by (auto simp: observation_owned_def answer_ok_def legal_for_def)
qed

text \<open>At the end: what the seats won, less what they put in, adds up to nothing.\<close>

lemma tree_utilities_zero_sum:
  assumes "tree_ok rules stacks t" and "utilities t = Some us"
  shows "length us = length stacks" and "length (g_players (t_state t)) = length stacks"
    and "(\<Sum>i\<leftarrow>[0..<length stacks]. us ! i - int (p_total_committed (g_players (t_state t) ! i))) = 0"
proof -
  have h: "hand_settled stacks (t_state t) us"
    using assms by (auto simp: tree_ok_def utilities_def hand_over_def split: tree_phase.splits)
  then show len: "length us = length stacks" "length (g_players (t_state t)) = length stacks"
    by (simp_all add: hand_settled_def)
  have "(\<Sum>i\<leftarrow>[0..<length stacks]. us ! i) = sum_list us"
    using len(1) by (metis map_nth)
  moreover have "(\<Sum>i\<leftarrow>[0..<length stacks]. int (p_total_committed (g_players (t_state t) ! i)))
      = int (total_committed (g_players (t_state t)))"
    using len(2) by (simp add: total_committed_def sum_list_sum_nth atLeast0LessThan)
  ultimately show "(\<Sum>i\<leftarrow>[0..<length stacks]. us ! i - int (p_total_committed (g_players (t_state t) ! i))) = 0"
    using h by (simp add: sum_list_subtractf hand_settled_def)
qed

end
