(* ===== verification/Mccfr.thy ===== *)
theory Mccfr
  imports Solver TreeInv
begin

text \<open>
  The trainer, \<open>poker-trainer/src/solver/mccfr.rs\<close> with the loop of \<open>bin/poker_train.rs\<close>: external-sampling
  counterfactual regret minimization on game trees.  It ends, without panic, and what it has learnt can be played.

  A traversal that does not return is \<open>None\<close>, as is a panic.  The state it threads is the regret table and
  the generator.
\<close>

section \<open>The trainer\<close>

definition null_sink :: "unit env" where
  "null_sink = \<lparr>e_act = (\<lambda>_ _ _. None), e_sink = (\<lambda>_ w. w), e_on_event = (\<lambda>_ _ w. w), e_on_hand_start = (\<lambda>_ _ w. w),
     e_on_hand_end = (\<lambda>_ _ w. w)\<rparr>"

record 'r mccfr_trainer =
  mt_table :: regret_table
  mt_rng :: 'r

definition mccfr_trainer_new :: "('s \<Rightarrow> 'r) \<Rightarrow> 's \<Rightarrow> 'r mccfr_trainer" where
  "mccfr_trainer_new seed_from seed = \<lparr>mt_table = regret_table_new, mt_rng = seed_from seed\<rparr>"

definition upd_entry :: "info_set \<Rightarrow> (regret_entry \<Rightarrow> regret_entry) \<Rightarrow> 'r mccfr_trainer \<Rightarrow> 'r mccfr_trainer" where
  "upd_entry info f tr = tr\<lparr>mt_table := entry_mut info f (mt_table tr)\<rparr>"

definition count_visit :: "regret_entry \<Rightarrow> regret_entry" where
  "count_visit e = e\<lparr>re_visits := saturating_add_u32 (re_visits e) 1\<rparr>"

definition learn ::
  "(real \<Rightarrow> real) \<Rightarrow> abstract_action list \<Rightarrow> action_probs \<Rightarrow> real list \<Rightarrow> real \<Rightarrow> regret_entry \<Rightarrow> regret_entry" where
  "learn rnd legal strategy branch_values node_value e =
     fold (\<lambda>a e. e\<lparr>re_regret := (re_regret e)[action_index a :=
               rnd (re_regret e ! action_index a + rnd (branch_values ! action_index a - node_value))],
             re_strategy_sum := (re_strategy_sum e)[action_index a :=
               rnd (re_strategy_sum e ! action_index a + strategy ! action_index a)]\<rparr>) legal e"

lemma for_each_mono [partial_function_mono]:
  assumes "\<And>x s. mono_option (\<lambda>g. F g x s)"
  shows "mono_option (\<lambda>g. for_each xs (F g) s)"
proof (induction xs arbitrary: s)
  case (Cons x xs)
  show ?case unfolding for_each.simps by (intro partial_function_mono assms Cons.IH)
qed (simp add: option.const_mono)

partial_function (option) traverse ::
  "(real \<Rightarrow> real) \<Rightarrow> ('r \<Rightarrow> real \<times> 'r) \<Rightarrow> (card list \<Rightarrow> hand_rank option) \<Rightarrow> betting_rules \<Rightarrow> nat \<Rightarrow>
     game_tree \<Rightarrow> abstract_action list \<Rightarrow> 'r mccfr_trainer \<Rightarrow> (real \<times> 'r mccfr_trainer) option" where
  "traverse rnd gen rank_7 rules traverser tree history tr =
     (case tree_current tree of
        TerminalNode \<Rightarrow>
          do { utils \<leftarrow> utilities tree;
               p \<leftarrow> idx (g_players (t_state tree)) traverser;
               u \<leftarrow> idx utils traverser;
               Some (rnd (of_int (u - int (p_total_committed p))), tr) }
      | DecisionNode seat \<Rightarrow>
          do { owned \<leftarrow> observation_owned rules tree;
               obs \<leftarrow> owned;
               info \<leftarrow> from_observation obs history;
               let legal = legal_abstract_actions (o_legal_actions obs);
               let tr = upd_entry info count_visit tr;
               entry \<leftarrow> mt_table tr info;
               let strategy = regret_matching rnd (re_regret entry) legal;
               if seat = traverser
               then do {
                 (branch_values, node_value, tr) \<leftarrow>
                   for_each legal (\<lambda>a (branch_values, node_value, tr).
                     do { concrete \<leftarrow> concretize a obs;
                          (branch, _) \<leftarrow> tree_apply_action rank_7 rules null_sink concrete (tree, ());
                          (v, tr) \<leftarrow> traverse rnd gen rank_7 rules traverser branch (history @ [a]) tr;
                          Some (branch_values[action_index a := v],
                                rnd (node_value + rnd (strategy ! action_index a * v)), tr) })
                     (replicate COUNT 0, 0, tr);
                 Some (node_value, upd_entry info (learn rnd legal strategy branch_values node_value) tr) }
               else do {
                 let (r, rng) = gen (mt_rng tr);
                 sampled \<leftarrow> sample rnd strategy r;
                 concrete \<leftarrow> concretize sampled obs;
                 (tree', _) \<leftarrow> tree_apply_action rank_7 rules null_sink concrete (tree, ());
                 traverse rnd gen rank_7 rules traverser tree' (history @ [sampled]) (tr\<lparr>mt_rng := rng\<rparr>) } })"

definition iterate ::
  "('q \<Rightarrow> nat \<Rightarrow> nat \<times> 'q) \<Rightarrow> (64 word \<Rightarrow> 'q) \<Rightarrow> (real \<Rightarrow> real) \<Rightarrow> ('r \<Rightarrow> real \<times> 'r) \<Rightarrow> (card list \<Rightarrow> hand_rank option) \<Rightarrow>
     betting_rules \<Rightarrow> nat list \<Rightarrow> nat \<Rightarrow> 64 word \<Rightarrow> 'r mccfr_trainer \<Rightarrow> 'r mccfr_trainer option" where
  "iterate gen_range seed_from_u64 rnd gen rank_7 rules stacks dealer deck_seed tr =
     for_each [0..<2] (\<lambda>traverser tr.
       do { (tree, _) \<leftarrow> tree_new gen_range seed_from_u64 rules null_sink 0 deck_seed stacks dealer None ();
            (_, tr) \<leftarrow> traverse rnd gen rank_7 rules traverser tree [] tr;
            Some tr }) tr"

text \<open>The loop of \<open>poker_train\<close>: the button alternates, and the deck seeds follow the base seed.\<close>

definition train ::
  "('q \<Rightarrow> nat \<Rightarrow> nat \<times> 'q) \<Rightarrow> (64 word \<Rightarrow> 'q) \<Rightarrow> (real \<Rightarrow> real) \<Rightarrow> ('r \<Rightarrow> real \<times> 'r) \<Rightarrow> (card list \<Rightarrow> hand_rank option) \<Rightarrow>
     betting_rules \<Rightarrow> nat list \<Rightarrow> 64 word \<Rightarrow> nat \<Rightarrow> 'r mccfr_trainer \<Rightarrow> 'r mccfr_trainer option" where
  "train gen_range seed_from_u64 rnd gen rank_7 rules stacks seed iters tr =
     for_each [0..<iters] (\<lambda>i. iterate gen_range seed_from_u64 rnd gen rank_7 rules stacks (i mod 2) (seed + of_nat i + 1)) tr"

section \<open>Regret matching under rounding\<close>

lemma positive_sum_rounded:
  assumes "length pos = 4"
  shows "positive_sum rnd regrets legal (pos, tot) =
    (fold (\<lambda>a ps. ps[action_index a := max (regrets ! action_index a) 0]) legal pos,
     foldl (\<lambda>acc a. rnd (acc + max (regrets ! action_index a) 0)) tot legal)"
  using assms by (induction legal arbitrary: pos tot) (simp_all add: Let_def)

lemma regret_matching_rounded:
  assumes rnd: "f32_rounding rnd" and legal: "legal \<noteq> []" "length legal \<le> 4"
  shows "0 \<le> regret_matching rnd regrets legal ! action_index b"
    and "\<exists>a. 0 < regret_matching rnd regrets legal ! action_index a"
proof -
  define f where "f a = max (regrets ! action_index a) 0" for a
  define tot where "tot = foldl (\<lambda>acc a. rnd (acc + f a)) 0 legal"
  have nonneg: "0 \<le> f a" for a by (simp add: f_def)
  have p: "regret_matching rnd regrets legal ! action_index a =
      (if 0 < tot then if a \<in> set legal then rnd (f a / tot) else 0 else uniform_over rnd legal ! action_index a)" for a
    by (simp add: regret_matching_def positive_sum_rounded Let_def fill_nth f_def [symmetric] tot_def [symmetric])
  have u: "0 < rnd (1 / rnd (real (length legal)))"
  proof -
    have "1 / 2 ^ 7 \<le> 1 / rnd (real (length legal))"
      using rounded(5) [OF rnd legal(2)] legal by (cases legal) (simp_all add: field_simps)
    then show ?thesis by (rule rounded(3) [OF rnd])
  qed
  show "0 \<le> regret_matching rnd regrets legal ! action_index b"
    using nonneg u rounded(2) [OF rnd, of "f b / tot"] by (simp add: p uniform_over_nth)
  show "\<exists>a. 0 < regret_matching rnd regrets legal ! action_index a"
  proof (cases "0 < tot")
    case False
    then show ?thesis using u legal(1) by (intro exI [of _ "hd legal"]) (simp add: p uniform_over_nth)
  next
    case True
    have "Max (f ` set legal) \<in> f ` set legal" using legal(1) by (intro Max_in) simp_all
    then obtain a where a: "a \<in> set legal" "f a = Max (f ` set legal)" by force
    then have max: "f b \<le> f a" if "b \<in> set legal" for b using that by simp
    have "tot \<le> (2 ^ (length legal + 1) - 2) * f a"
      using rounded_sum_bound [OF rnd, of legal f "f a" 0] max nonneg by (simp add: tot_def)
    moreover have "(2 ^ (length legal + 1) - 2 :: real) \<le> 2 ^ 5"
      using legal(2) power_increasing [of "length legal + 1" 5 "2 :: real"] by simp
    ultimately have "tot \<le> 2 ^ 5 * f a" using nonneg [of a] by (meson mult_right_mono order_trans)
    then have "1 / 2 ^ 7 \<le> f a / tot" using True by (simp add: field_simps)
    then have "0 < rnd (f a / tot)" by (rule rounded(3) [OF rnd])
    then show ?thesis using True a(1) by (intro exI [of _ a]) (simp add: p)
  qed
qed

section \<open>The table stays well formed\<close>

definition entry_ok :: "regret_entry \<Rightarrow> bool" where
  "entry_ok e \<longleftrightarrow> length (re_regret e) = 4 \<and> length (re_strategy_sum e) = 4 \<and> (\<forall>a. 0 \<le> re_strategy_sum e ! action_index a)"

definition trainer_ok :: "'r mccfr_trainer \<Rightarrow> bool" where
  "trainer_ok tr \<longleftrightarrow> (\<forall>info e. mt_table tr info = Some e \<longrightarrow> entry_ok e)"

lemma entry_ok_default: "entry_ok regret_entry_default"
proof -
  have "0 \<le> replicate 4 (0 :: real) ! action_index a" for a by (cases a) simp_all
  then show ?thesis by (simp add: entry_ok_def regret_entry_default_def COUNT_def)
qed

lemma trainer_ok_new: "trainer_ok (mccfr_trainer_new seed_from seed)"
  by (simp add: trainer_ok_def mccfr_trainer_new_def regret_table_new_def)

lemma trainer_ok_upd:
  assumes "trainer_ok tr" and "\<And>e. entry_ok e \<Longrightarrow> entry_ok (f e)"
  shows "trainer_ok (upd_entry info f tr)"
  using assms entry_ok_default by (auto simp: trainer_ok_def upd_entry_def entry_mut_def split: option.split)

lemma entry_ok_count: "entry_ok e \<Longrightarrow> entry_ok (count_visit e)"
  by (simp add: entry_ok_def count_visit_def)

lemma entry_ok_learn:
  assumes rnd: "f32_rounding rnd" and strategy: "\<And>a. 0 \<le> strategy ! action_index a" and "entry_ok e"
  shows "entry_ok (learn rnd legal strategy vs v e)"
proof -
  have "0 \<le> rnd (x + strategy ! action_index a)" if "0 \<le> x" for x a
    using rounded(2) [OF rnd, of "x + strategy ! action_index a"] strategy [of a] that by simp
  then show ?thesis
    using assms(3) unfolding learn_def
    by (induction legal arbitrary: e) (auto simp: entry_ok_def nth_list_update)
qed

lemma trainer_sums: "trainer_ok tr \<Longrightarrow> sums_ok (mt_table tr)"
  by (auto simp: trainer_ok_def entry_ok_def sums_ok_def)

lemma upd_entry_entry: "\<exists>e. mt_table (upd_entry info f tr) info = Some e"
  by (simp add: upd_entry_def entry_mut_def)

section \<open>A traversal ends\<close>

lemma traverse_total:
  fixes tr :: "'r mccfr_trainer"
  assumes rnd: "f32_rounding rnd" and rank: "hand_evaluator rank_7" and bb: "0 < r_big_blind rules" and n: "length stacks \<le> 23"
    and traverser: "traverser < length stacks"
  shows "tree_ok rules stacks tree \<Longrightarrow> trainer_ok tr \<Longrightarrow>
    ok (traverse rnd gen rank_7 rules traverser tree history tr) (\<lambda>(_, tr'). trainer_ok tr')"
proof (induction tree arbitrary: history tr rule: wf_induct_rule [OF wf_nearer])
  case (1 tree)
  show ?case
  proof (cases "t_phase tree")
    case (Terminal us)
    then have "utilities tree = Some us" by (simp add: utilities_def)
    with tree_utilities_zero_sum(1,2) [OF 1(2) this] traverser Terminal 1(3) show ?thesis
      by (subst traverse.simps) (simp add: tree_current_def)
  next
    case (Decision c resp)
    obtain obs where obs: "observation_owned rules tree = Some (Some obs)" "obs_ok obs"
        "\<And>a. answer_ok (o_legal_actions obs) a \<Longrightarrow> a = Check \<Longrightarrow>
           g_current_bet (t_state tree) \<le> p_bet_this_street (g_players (t_state tree) ! c)"
      using tree_observation_ok [OF 1(2) Decision] by blast
    obtain info where info: "from_observation obs history = Some info" using from_observation_ok [OF obs(2)] by blast
    let ?legal = "legal_abstract_actions (o_legal_actions obs)"
    let ?tr = "upd_entry info count_visit tr"
    obtain e where e: "mt_table ?tr info = Some e" using upd_entry_entry by blast
    let ?strategy = "regret_matching rnd (re_regret e) ?legal"
    have tr: "trainer_ok ?tr" by (rule trainer_ok_upd [OF 1(3) entry_ok_count])
    have legal: "?legal \<noteq> []" "length ?legal \<le> 4"
      using obs(2) legal_abstract_some legal_abstract_length by (auto simp: obs_ok_def)
    note strategy = regret_matching_rounded [OF rnd legal, of "re_regret e"]
    have child: "ok (tree_apply_action rank_7 rules null_sink x (tree, ())) (\<lambda>(t', _). tree_ok rules stacks t' \<and> (t', tree) \<in> nearer)"
      if "concretize a obs = Some x" for a x
    proof (rule tree_apply_ok [OF 1(2) Decision rank bb n])
      have "answer_ok (o_legal_actions obs) x" using concretize_ok [OF obs(2), of a] that by (simp add: ok_def)
      then show "x = Check \<Longrightarrow> g_current_bet (t_state tree) \<le> p_bet_this_street (g_players (t_state tree) ! c)"
        by (rule obs(3))
    qed
    have go: "ok (do { concrete \<leftarrow> concretize a obs; (t', _) \<leftarrow> tree_apply_action rank_7 rules null_sink concrete (tree, ());
        traverse rnd gen rank_7 rules traverser t' h tr' }) (\<lambda>(_, tr''). trainer_ok tr'')" if "trainer_ok tr'" for a h tr'
    proof -
      obtain x where x: "concretize a obs = Some x" using concretize_ok [OF obs(2), of a] by (auto simp: ok_def)
      obtain t' u where "tree_apply_action rank_7 rules null_sink x (tree, ()) = Some (t', u)" "tree_ok rules stacks t'" "(t', tree) \<in> nearer"
        using child [OF x] by (auto simp: ok_def)
      then show ?thesis using x 1(1) that by simp
    qed
    show ?thesis
    proof (cases "c = traverser")
      case True
      let ?body = "\<lambda>a (branch_values, node_value, tr).
                     do { concrete \<leftarrow> concretize a obs;
                          (branch, _) \<leftarrow> tree_apply_action rank_7 rules null_sink concrete (tree, ());
                          (v, tr) \<leftarrow> traverse rnd gen rank_7 rules traverser branch (history @ [a]) tr;
                          Some (branch_values[action_index a := v],
                                rnd (node_value + rnd (?strategy ! action_index a * v)), tr) }"
      have "ok (for_each ?legal ?body (replicate COUNT 0, 0, ?tr)) (\<lambda>(_, _, tr'). trainer_ok tr')"
      proof (rule ok_for_each_inv)
        fix a and s :: "real list \<times> real \<times> 'r mccfr_trainer" assume "case s of (_, _, tr') \<Rightarrow> trainer_ok tr'"
        then show "ok (?body a s) (\<lambda>(_, _, tr'). trainer_ok tr')"
          using go [of "snd (snd s)" a "history @ [a]"] by (auto simp: ok_def split: bind_splits)
      qed (use tr in simp)
      then obtain bv nv tr' where loop: "for_each ?legal ?body (replicate COUNT 0, 0, ?tr) = Some (bv, nv, tr')" "trainer_ok tr'"
        by (auto simp: ok_def)
      have "trainer_ok (upd_entry info (learn rnd ?legal ?strategy bv nv) tr')"
        by (rule trainer_ok_upd [OF loop(2) entry_ok_learn [OF rnd strategy(1)]])
      then show ?thesis
        using Decision obs(1) info e True loop(1)
        by (subst traverse.simps) (simp add: tree_current_def Let_def)
    next
      case False
      obtain b where b: "sample rnd ?strategy (fst (gen (mt_rng ?tr))) = Some b"
        using strategy(2) sample_total by blast
      have "trainer_ok (?tr\<lparr>mt_rng := snd (gen (mt_rng ?tr))\<rparr>)" using tr by (simp add: trainer_ok_def)
      from go [OF this, of b "history @ [b]"] show ?thesis
        using Decision obs(1) info e False b
        by (subst traverse.simps) (simp add: tree_current_def Let_def case_prod_unfold)
    qed
  qed
qed

lemma iterate_total:
  fixes tr :: "'r mccfr_trainer"
  assumes "f32_rounding rnd" and "hand_evaluator rank_7" and "draws_in_range gen_range" and play: "playable rules [s, s'] dealer None"
    and "trainer_ok tr"
  shows "ok (iterate gen_range seed_from_u64 rnd gen rank_7 rules [s, s'] dealer deck_seed tr) trainer_ok"
  unfolding iterate_def
proof (rule ok_for_each_inv [where I = trainer_ok, OF assms(5)])
  fix traverser :: nat and tr :: "'r mccfr_trainer"
  assume t: "traverser \<in> set [0..<2]" "trainer_ok tr"
  obtain tree u where tree: "tree_new gen_range seed_from_u64 rules null_sink 0 deck_seed [s, s'] dealer None () = Some (tree, u)"
      "tree_ok rules [s, s'] tree"
    using tree_new_ok [OF assms(3) play, of seed_from_u64 null_sink 0 deck_seed "()"] by (auto simp: ok_def)
  have "0 < r_big_blind rules" using play by (simp add: playable_def)
  from traverse_total [OF assms(1,2) this _ _ tree(2) t(2), of traverser gen "[]"] t(1)
  show "ok (do { (tree, _) \<leftarrow> tree_new gen_range seed_from_u64 rules null_sink 0 deck_seed [s, s'] dealer None ();
      (_, tr) \<leftarrow> traverse rnd gen rank_7 rules traverser tree [] tr; Some tr }) trainer_ok"
    using tree(1) by (auto simp: ok_def)
qed

section \<open>Properties\<close>

lemma train_total:
  assumes "f32_rounding rnd" and "hand_evaluator rank_7" and "draws_in_range gen_range" and "playable rules [s, s'] 0 None"
  shows "ok (train gen_range seed_from_u64 rnd gen rank_7 rules [s, s'] seed iters (mccfr_trainer_new seed_from q)) trainer_ok"
proof -
  have button: "playable rules [s, s'] (i mod 2) None" for i
    using assms(4) by (simp add: playable_def)
  show ?thesis
    unfolding train_def
    by (rule ok_for_each_inv [where I = trainer_ok, OF trainer_ok_new]) (rule iterate_total [OF assms(1-3) button])
qed

text \<open>
  Training ends and its outcome can be played.  For any two stacks and blinds that can be played, any number of
  iterations of \<open>poker_train\<close> returns: the recursion over the game tree ends on every branch, and no
  sampling, arithmetic or look-up panics.  The blueprint of the table, seated at any table (of any number of
  seats and other rules), then plays every hand to a fair result.  Rounding may be any that behaves like \<open>f32\<close>.
\<close>

theorem trained_blueprint_plays:
  assumes "f32_rounding rnd" and "hand_evaluator rank_7" and "draws_in_range gen_range" and "playable rules [s, s'] 0 None"
    and "playable rules' stacks dealer seat_kinds"
  shows "\<exists>tr. train gen_range seed_from_u64 rnd gen rank_7 rules [s, s'] seed iters (mccfr_trainer_new seed_from q) = Some tr
     \<and> ok (run_hand gen_range seed_from_u64 rank_7 rules' (adapter_env rnd gen (\<lambda>_. blueprint_strategy rnd (mt_table tr)))
          hand_id deck_seed stacks dealer seat_kinds w) (\<lambda>(res, _). fair_result hand_id stacks res)"
proof -
  have "ok (train gen_range seed_from_u64 rnd gen rank_7 rules [s, s'] seed iters (mccfr_trainer_new seed_from q)) trainer_ok"
    by (rule train_total [OF assms(1-4)])
  then obtain tr where tr: "train gen_range seed_from_u64 rnd gen rank_7 rules [s, s'] seed iters (mccfr_trainer_new seed_from q) = Some tr"
      "trainer_ok tr"
    by (auto simp: ok_def)
  have "plays_something (blueprint_strategy rnd (mt_table tr))" by (rule blueprint_plays [OF assms(1) trainer_sums [OF tr(2)]])
  then have "hand_players (adapter_env rnd gen (\<lambda>_. blueprint_strategy rnd (mt_table tr))) rank_7"
    using adapters_responsive [of "\<lambda>_. blueprint_strategy rnd (mt_table tr)" rnd gen] assms(2) by (simp add: hand_players_def)
  from hand_players.run_hand_ok [OF this assms(3,5)] tr(1) show ?thesis by blast
qed

theorem trained_blueprint_plays_witness:
  "\<exists>tr. train first_card (\<lambda>_. ()) id (\<lambda>r. (1 / 3, r)) best_of_7 (no_limit_holdem 1 2 0) [200, 200] 5 10000
       (mccfr_trainer_new (\<lambda>_. ()) ()) = Some tr
     \<and> ok (run_hand first_card (\<lambda>_. ()) best_of_7 (no_limit_holdem 1 2 6) (adapter_env id (\<lambda>r. (1 / 3, r)) (\<lambda>_. blueprint_strategy id (mt_table tr)))
          7 42 [100, 40, 60] 0 (Some [Live, Live, DeadHand]) (\<lambda>_. strategy_adapter_new (\<lambda>_. ()) ())) (\<lambda>(res, _). fair_result 7 [100, 40, 60] res)"
  by (rule trained_blueprint_plays [OF f32_rounding_id naive.hand_evaluator_axioms first_card_draws _ three_seats_playable])
     (simp add: playable_def no_limit_holdem_def plays_def upt_rec nth_Cons')

end
