(* ===== verification/PlayTrain.thy ===== *)
theory PlayTrain
  imports ReportProps Matchups Mccfr
begin

text \<open>
  The programs that train a blueprint and play it: \<open>poker_train.rs\<close> and \<open>poker_play.rs\<close> of \<open>poker-trainer/src/bin\<close>;
  and that what the first one saves, the second one can load and play to the end.

  The options arrive as records; \<open>debug_str\<close> is the \<open>Debug\<close> text of a string.  Progress lines, timings and the
  messages around an error are left out.
\<close>

section \<open>Training\<close>

definition train_parse_stacks :: "(string \<Rightarrow> string) \<Rightarrow> string \<Rightarrow> string + nat \<times> nat" where
  "train_parse_stacks debug_str s =
     (let parts = map trim (split_on (CHR '','') s) in
      case parts of
        [x, y] \<Rightarrow>
          (case parse_unsigned u32_lim x of
             None \<Rightarrow> Inl (''bad stack: '' @ debug_str x)
           | Some a \<Rightarrow>
               case parse_unsigned u32_lim y of
                 None \<Rightarrow> Inl (''bad stack: '' @ debug_str y)
               | Some b \<Rightarrow> Inr (a, b))
      | _ \<Rightarrow> Inl (''expected two stack values for heads-up training, got '' @ to_string (length parts) @ '': '' @ debug_str s))"

definition train_parse_blinds :: "(string \<Rightarrow> string) \<Rightarrow> string \<Rightarrow> string + nat \<times> nat" where
  "train_parse_blinds debug_str = parse_blind_pair debug_str '': ''"

record train_cli =
  tc_iters :: nat
  tc_out :: string
  tc_train_seed :: "64 word"
  tc_stacks :: string
  tc_blinds :: string

datatype train_error = TrainUsage string | TrainSave blueprint_save_error

definition poker_train ::
  "('q \<Rightarrow> nat \<Rightarrow> nat \<times> 'q) \<Rightarrow> (64 word \<Rightarrow> 'q) \<Rightarrow> (real \<Rightarrow> real) \<Rightarrow> ('r \<Rightarrow> real \<times> 'r) \<Rightarrow> (64 word \<Rightarrow> 'r) \<Rightarrow>
     (card list \<Rightarrow> hand_rank option) \<Rightarrow> (string \<Rightarrow> string) \<Rightarrow> (blueprint_file \<Rightarrow> string + 8 word list) \<Rightarrow>
     (string \<times> disk) option \<Rightarrow> train_cli \<Rightarrow> disk \<Rightarrow> ((train_error + 'r mccfr_trainer) \<times> disk) option" where
  "poker_train gen_range seed_deck rnd gen seed_rng rank debug_str to_vec io cli files =
     (case train_parse_stacks debug_str (tc_stacks cli) of
        Inl e \<Rightarrow> Some (Inl (TrainUsage e), files)
      | Inr (a, b) \<Rightarrow>
          case train_parse_blinds debug_str (tc_blinds cli) of
            Inl e \<Rightarrow> Some (Inl (TrainUsage e), files)
          | Inr (sb, bb) \<Rightarrow>
              do { tr \<leftarrow> train gen_range seed_deck rnd gen rank (no_limit_holdem sb bb 0) [a, b] (tc_train_seed cli) (tc_iters cli)
                     (mccfr_trainer_new seed_rng (tc_train_seed cli));
                   let (saved, files') = save_blueprint to_vec io (mt_table tr) (tc_out cli) files;
                   Some (case saved of Inl e \<Rightarrow> Inl (TrainSave e) | Inr () \<Rightarrow> Inr tr, files') })"

section \<open>Playing\<close>

datatype play_spec = PlayBlueprint | PlayCalling | PlayRandom "64 word"

definition play_parse :: "(string \<Rightarrow> string) \<Rightarrow> string \<Rightarrow> string + play_spec" where
  "play_parse debug_str s =
     (let s = trim s in
      if s = ''blueprint'' then Inr PlayBlueprint
      else if s = ''calling'' then Inr PlayCalling
      else case strip_prefix ''random:'' s of
        Some seed \<Rightarrow>
          (case parse_unsigned (2 ^ 64) seed of
             None \<Rightarrow> Inl (''invalid random seed in '' @ debug_str s)
           | Some n \<Rightarrow> Inr (PlayRandom (of_nat n)))
      | None \<Rightarrow> Inl (''unknown agent '' @ debug_str s @ '' '' @ em_dash @ '' valid: blueprint, calling, random:<seed>''))"

fun play_label :: "play_spec \<Rightarrow> string" where
  "play_label PlayBlueprint = ''blueprint''"
| "play_label PlayCalling = ''calling''"
| "play_label (PlayRandom s) = ''random:'' @ to_string (unat s)"

definition play_parse_stacks :: "(string \<Rightarrow> string) \<Rightarrow> string \<Rightarrow> string + nat list" where
  "play_parse_stacks debug_str s =
     collect_results (map (\<lambda>p. case parse_unsigned u32_lim (trim p) of
         None \<Rightarrow> Inl (''bad stack '' @ debug_str p) | Some n \<Rightarrow> Inr n) (split_on (CHR '','') s))"

definition play_parse_blinds :: "(string \<Rightarrow> string) \<Rightarrow> string \<Rightarrow> string + nat \<times> nat" where
  "play_parse_blinds debug_str = parse_blind_pair debug_str '' ''"

datatype 'r player = Adapter "'r strategy_adapter" | Station | Dice 'r

fun play_build :: "(64 word \<Rightarrow> 'r) \<Rightarrow> 64 word \<Rightarrow> nat \<Rightarrow> play_spec \<Rightarrow> 'r player" where
  "play_build seed_rng base i PlayBlueprint = Adapter (strategy_adapter_new seed_rng (base * 31 + of_nat i))"
| "play_build seed_rng base i PlayCalling = Station"
| "play_build seed_rng base i (PlayRandom s) = Dice (seed_rng s)"

definition player_act ::
  "(real \<Rightarrow> real) \<Rightarrow> ('r \<Rightarrow> real \<times> 'r) \<Rightarrow> ('r \<Rightarrow> nat \<Rightarrow> nat \<times> 'r) \<Rightarrow> strategy \<Rightarrow> observation \<Rightarrow> 'r player \<Rightarrow>
     (action \<times> 'r player) option" where
  "player_act rnd gen gen_index strategy obs p =
     (case p of
        Adapter ad \<Rightarrow> map_option (\<lambda>(a, ad). (a, Adapter ad)) (adapter_act rnd gen strategy obs ad)
      | Station \<Rightarrow> Some (calling_station_act obs, Station)
      | Dice r \<Rightarrow> map_option (\<lambda>(a, r). (a, Dice r)) (random_act gen_index obs r))"

fun player_on_event :: "engine_event \<Rightarrow> 'r player \<Rightarrow> 'r player" where
  "player_on_event ev (Adapter ad) = Adapter (adapter_on_event ev ad)"
| "player_on_event ev p = p"

fun player_on_hand_start :: "nat \<Rightarrow> 'r player \<Rightarrow> 'r player" where
  "player_on_hand_start h (Adapter ad) = Adapter (adapter_on_hand_start h ad)"
| "player_on_hand_start h p = p"

text \<open>The agents of the run; the sinks are added by \<open>tee_env\<close>.\<close>

definition play_env ::
  "(real \<Rightarrow> real) \<Rightarrow> ('r \<Rightarrow> real \<times> 'r) \<Rightarrow> ('r \<Rightarrow> nat \<Rightarrow> nat \<times> 'r) \<Rightarrow> strategy \<Rightarrow> (nat \<Rightarrow> 'r player) env" where
  "play_env rnd gen gen_index strategy =
     \<lparr>e_act = (\<lambda>i obs w. map_option (\<lambda>(a, p). (a, w(i := p))) (player_act rnd gen gen_index strategy obs (w i))),
      e_sink = (\<lambda>_ w. w),
      e_on_event = (\<lambda>i ev w. w(i := player_on_event ev (w i))),
      e_on_hand_start = (\<lambda>i h w. w(i := player_on_hand_start h (w i))),
      e_on_hand_end = (\<lambda>_ _ w. w)\<rparr>"

record play_cli =
  pc_blueprint :: string
  pc_hands :: nat
  pc_agents :: string
  pc_stacks :: string
  pc_blinds :: string
  pc_seed :: "64 word"
  pc_log :: "string option"

datatype play_error = PlayUsage string | PlayLoad blueprint_load_error | PlayLog string

definition play_setup :: "(string \<Rightarrow> string) \<Rightarrow> play_cli \<Rightarrow> string + play_spec list \<times> nat list \<times> nat \<times> nat" where
  "play_setup debug_str cli =
     (case collect_results (map (play_parse debug_str) (split_on (CHR '','') (pc_agents cli))) of
        Inl e \<Rightarrow> Inl e
      | Inr specs \<Rightarrow>
          case play_parse_stacks debug_str (pc_stacks cli) of
            Inl e \<Rightarrow> Inl e
          | Inr stacks \<Rightarrow>
              if length stacks \<noteq> length specs
              then Inl (''stacks count ('' @ to_string (length stacks) @ '') != agents count ('' @ to_string (length specs) @ '')'')
              else
                case play_parse_blinds debug_str (pc_blinds cli) of
                  Inl e \<Rightarrow> Inl e
                | Inr (sb, bb) \<Rightarrow> Inr (specs, stacks, sb, bb))"

definition play_stack_label :: "nat list \<Rightarrow> string" where
  "play_stack_label stacks =
     (if list_all (\<lambda>s. s = stacks ! 0) stacks then to_string (stacks ! 0) else join ''/'' (map to_string stacks))"

text \<open>
  The run after the setup: the statistics, and the log that \<open>--log\<close> asks for, behind a \<open>TeeSink\<close>.
  \<open>create\<close> is what \<open>FileSink::create\<close> does for a path.
\<close>

definition play_run ::
  "(string \<Rightarrow> string + nat) \<Rightarrow> (engine_event \<Rightarrow> string + 8 word list) \<Rightarrow> nat \<Rightarrow> ('g \<Rightarrow> 64 word \<times> 'g) \<Rightarrow> 'g \<Rightarrow>
     ('q \<Rightarrow> nat \<Rightarrow> nat \<times> 'q) \<Rightarrow> (64 word \<Rightarrow> 'q) \<Rightarrow> (card list \<Rightarrow> hand_rank option) \<Rightarrow> (nat \<Rightarrow> 'r player) env \<Rightarrow>
     play_cli \<Rightarrow> nat list \<Rightarrow> betting_rules \<Rightarrow> (nat \<Rightarrow> 'r player) \<Rightarrow> disk \<Rightarrow> (play_error + stats_sink \<times> disk) option" where
  "play_run create event_to_vec cap next_u64 rng gen_range seed_deck rank env cli stacks rules players files =
     (let cfg = \<lparr>sc_seed = Sequential (pc_seed cli), sc_stack_policy = Reset\<rparr>;
          stats = tee_env stats_on_event env;
          start = (players, stats_new (length stacks)) in
      case pc_log cli of
        Some path \<Rightarrow>
          (case create path of
             Inl e \<Rightarrow> Some (Inl (PlayLog e))
           | Inr room \<Rightarrow>
               do { (_, _, (_, sink), log) \<leftarrow> sim_run next_u64 (\<lambda>_ _ w. w) (\<lambda>_ w. w) rules
                      (run_hand gen_range seed_deck rank rules (tee_env (file_sink_step event_to_vec cap) stats)) (pc_hands cli)
                      cfg (with_rng stacks rng) (start, Some (file_sink_create room));
                    s \<leftarrow> log;
                    Some (Inr (sink, files(path \<mapsto> file_sink_drop (snd (file_sink_flush s))))) })
      | None \<Rightarrow>
          do { (_, _, _, sink) \<leftarrow> sim_run next_u64 (\<lambda>_ _ w. w) (\<lambda>_ w. w) rules
                 (run_hand gen_range seed_deck rank rules stats) (pc_hands cli) cfg (with_rng stacks rng) start;
               Some (Inr (sink, files)) })"

definition poker_play ::
  "(string \<Rightarrow> string) \<Rightarrow> (8 word list \<Rightarrow> string + blueprint_file) \<Rightarrow> (string \<Rightarrow> string + nat) \<Rightarrow> (engine_event \<Rightarrow> string + 8 word list) \<Rightarrow>
     nat \<Rightarrow> ('g \<Rightarrow> 64 word \<times> 'g) \<Rightarrow> 'g \<Rightarrow> ('q \<Rightarrow> nat \<Rightarrow> nat \<times> 'q) \<Rightarrow> (64 word \<Rightarrow> 'q) \<Rightarrow> (card list \<Rightarrow> hand_rank option) \<Rightarrow>
     (real \<Rightarrow> real) \<Rightarrow> ('r \<Rightarrow> real \<times> 'r) \<Rightarrow> ('r \<Rightarrow> nat \<Rightarrow> nat \<times> 'r) \<Rightarrow> (64 word \<Rightarrow> 'r) \<Rightarrow> (real \<Rightarrow> real) \<Rightarrow>
     (bool \<Rightarrow> nat \<Rightarrow> real \<Rightarrow> string) \<Rightarrow> play_cli \<Rightarrow> disk \<Rightarrow> (play_error + stats_sink \<times> terminal \<times> disk) option" where
  "poker_play debug_str from_slice create event_to_vec cap next_u64 rng gen_range seed_deck rank rnd gen gen_index seed_rng rnd64 fmt
       cli files =
     (case play_setup debug_str cli of
        Inl e \<Rightarrow> Some (Inl (PlayUsage (''error: '' @ e)))
      | Inr (specs, stacks, sb, bb) \<Rightarrow>
          case load_blueprint from_slice (pc_blueprint cli) files of
            Inl e \<Rightarrow> Some (Inl (PlayLoad e))
          | Inr table \<Rightarrow>
              let rules = no_limit_holdem sb bb (length specs);
                  players = (\<lambda>i. if i < length specs then play_build seed_rng (pc_seed cli) i (specs ! i) else Station) in
              do { r \<leftarrow> play_run create event_to_vec cap next_u64 rng gen_range seed_deck rank
                     (play_env rnd gen gen_index (blueprint_strategy rnd table)) cli stacks rules players files;
                   Some (case r of
                       Inl e \<Rightarrow> Inl e
                     | Inr (sink, files) \<Rightarrow>
                         Inr (sink, print_report rnd64 fmt sink (map play_label specs) rules 1 (play_stack_label stacks)
                                \<lparr>tm_in = [], tm_out = []\<rparr>, files)) })"

section \<open>Options\<close>

lemma play_spec_roundtrip: "play_parse debug_str (play_label spec) = Inr spec"
proof -
  have word: "wordy (play_label spec)" by (cases spec; use letters in \<open>simp\<close>)
  have "parse_unsigned (2 ^ 64) (to_string (unat s)) = Some (unat s)" for s :: "64 word"
    by (rule parse_to_string) simp
  then show ?thesis
    using trim_wordy [OF word] by (cases spec) (simp_all add: play_parse_def)
qed

section \<open>Statistics behind any table\<close>

interpretation tee_totals: follower "tee_env stats_on_event env" "tee_env stats_on_event env"
  "\<lambda>w v. v = w \<and> map seat_totals (st_seats (snd w)) = T"
  for env T
  by unfold_locales (auto simp: tee_env_def leads_def totals_quiet)

lemma tee_hooks_sink: "snd (fold (\<lambda>i. e_on_hand_end (tee_env b env) i res) is w) = snd w"
proof (induction "is" arbitrary: w)
  case (Cons i "is")
  then show ?case by (cases w) (simp add: tee_env_def)
qed simp

lemma tee_hand_counts:
  assumes run: "run_hand gen_range seed_deck rank rules (tee_env stats_on_event env) h s stacks d None w = Some (res, w')"
    and fair: "fair_result h stacks res" and len: "length (st_seats (snd w)) = length stacks"
  shows "length (st_seats (snd w')) = length stacks \<and> (\<forall>i < length stacks.
      ss_chip_delta_total (st_seats (snd w') ! i) = ss_chip_delta_total (st_seats (snd w) ! i) + delta_at (hr_seats res) i
      \<and> ss_hands_dealt (st_seats (snd w') ! i) = ss_hands_dealt (st_seats (snd w) ! i) + (if 0 < stacks ! i then 1 else 0))"
proof -
  let ?env = "tee_env stats_on_event env"
  obtain w0 where dealt_in: "\<forall>out \<in> set (hr_seats res). \<not> so_sat_out out"
      and w0: "map seat_totals (st_seats (snd w0)) = map seat_totals (st_seats (snd w))"
      and w': "w' = fold (\<lambda>i. e_on_hand_end ?env i res) [0..<length stacks] (e_sink ?env (HandEnded h res) w0)"
    using tee_totals.run_hand_along [where w = w and v = w and T = "map seat_totals (st_seats (snd w))" and env = env,
        of gen_range seed_deck rank rules h s stacks d None] run
    by (auto simp: leads_def)
  have sink: "snd w' = fold (count_outcome (pot_size res)) (hr_seats res) (snd w0)"
    unfolding w' tee_hooks_sink by (simp add: tee_env_def split_beta)
  show ?thesis unfolding sink by (rule outcomes_count [OF w0 dealt_in fair len])
qed

lemma tee_fair_table:
  assumes "fair_table rules (run_hand gen_range seed_deck rank rules env)"
  shows "fair_table rules (run_hand gen_range seed_deck rank rules (tee_env b env))"
proof
  fix stacks dealer h s and w :: "'a \<times> 'c" assume "playable rules stacks dealer None"
  then have "ok (run_hand gen_range seed_deck rank rules env h s stacks dealer None (fst w)) (\<lambda>(res, _). fair_result h stacks res)"
    by (rule fair_table.play_fair [OF assms])
  then show "ok (run_hand gen_range seed_deck rank rules (tee_env b env) h s stacks dealer None w) (\<lambda>(res, _). fair_result h stacks res)"
    using tee_result [of gen_range seed_deck rank rules b env h s stacks dealer None "fst w" "snd w"]
    by (auto simp: ok_def map_option_eq_Some)
qed

lemma tee_counted_table:
  assumes "fair_table rules (run_hand gen_range seed_deck rank rules env)"
  shows "counted_table rules (run_hand gen_range seed_deck rank rules (tee_env stats_on_event env))
     (\<lambda>w. length (st_seats (snd w))) (\<lambda>w i. ss_chip_delta_total (st_seats (snd w) ! i)) (\<lambda>w i. ss_hands_dealt (st_seats (snd w) ! i))"
proof (intro counted_table.intro counted_table_axioms.intro)
  show fair: "fair_table rules (run_hand gen_range seed_deck rank rules (tee_env stats_on_event env))"
    by (rule tee_fair_table [OF assms])
  show "length (st_seats (snd w')) = length stacks \<and> (\<forall>i < length stacks.
      ss_chip_delta_total (st_seats (snd w') ! i) = ss_chip_delta_total (st_seats (snd w) ! i) + delta_at (hr_seats res) i
      \<and> ss_hands_dealt (st_seats (snd w') ! i) = ss_hands_dealt (st_seats (snd w) ! i) + (if 0 < stacks ! i then 1 else 0))"
    if play: "playable rules stacks d None"
      and run: "run_hand gen_range seed_deck rank rules (tee_env stats_on_event env) h s stacks d None w = Some (res, w')"
      and len: "length (st_seats (snd w)) = length stacks" for stacks d h s w w' res
  proof -
    have "fair_result h stacks res" using fair_table.play_fair [OF fair play, of h s w] run by (simp add: ok_def)
    from tee_hand_counts [OF run this len] show ?thesis .
  qed
qed

section \<open>A trained blueprint at the table\<close>

lemma players_responsive:
  assumes strategy: "plays_something strategy" and draws: "draws_below gen_index"
  shows "responsive (play_env rnd gen gen_index strategy)"
proof
  fix obs and i :: nat and w :: "nat \<Rightarrow> 'a player"
  assume obs: "obs_ok obs"
  show "ok (e_act (play_env rnd gen gen_index strategy) i obs w) (\<lambda>(a, _). answer_ok (o_legal_actions obs) a)"
  proof (cases "w i")
    case (Adapter ad)
    have "ok (e_act (adapter_env rnd gen (\<lambda>_. strategy)) i obs (\<lambda>_. ad)) (\<lambda>(a, _). answer_ok (o_legal_actions obs) a)"
      by (rule responsive.act_ok [OF adapters_responsive [OF strategy] obs])
    then show ?thesis
      using Adapter by (auto simp: ok_def play_env_def player_act_def adapter_env_def)
  next
    case Station
    then show ?thesis by (simp add: play_env_def player_act_def)
  next
    case (Dice r)
    let ?cs = "random_choices (o_legal_actions obs)"
    have "fst (gen_index r (length ?cs)) < length ?cs"
      using draws random_choices_ok(1) by (simp add: draws_below_def)
    then have "ok (random_act gen_index obs r) (\<lambda>(a, _). answer_ok (o_legal_actions obs) a)"
      using random_choices_ok(2) by (simp add: random_act_def Let_def case_prod_unfold)
    then show ?thesis using Dice by (auto simp: ok_def play_env_def player_act_def)
  qed
qed

lemma play_counts:
  assumes draws: "draws_below gen_index" "draws_in_range gen_range" and rank: "hand_evaluator rank"
    and strategy: "plays_something strategy" and play: "playable rules stacks 0 None" and pos: "list_all (\<lambda>s. 0 < s) stacks"
    and fit: "unat (pc_seed cli) + pc_hands cli \<le> 2 ^ 64" and no_log: "pc_log cli = None"
  shows "ok (play_run create event_to_vec cap next_u64 rng gen_range seed_deck rank (play_env rnd gen gen_index strategy) cli stacks rules players files)
     (\<lambda>r. \<exists>sink. r = Inr (sink, files) \<and> length (st_seats sink) = length stacks
        \<and> sum_list (map ss_chip_delta_total (st_seats sink)) = 0 \<and> (\<forall>x \<in> set (st_seats sink). ss_hands_dealt x = pc_hands cli))"
proof -
  let ?env = "play_env rnd gen gen_index strategy" and ?cfg = "\<lparr>sc_seed = Sequential (pc_seed cli), sc_stack_policy = Reset\<rparr>"
  have table: "counted_table rules (run_hand gen_range seed_deck rank rules (tee_env stats_on_event ?env))
     (\<lambda>w. length (st_seats (snd w))) (\<lambda>w i. ss_chip_delta_total (st_seats (snd w) ! i)) (\<lambda>w i. ss_hands_dealt (st_seats (snd w) ! i))"
    by (rule tee_counted_table [OF engine_fair_table [OF players_responsive [OF strategy draws(1)] rank draws(2)]])
  have seeds: "seeds_fit (sc_seed ?cfg) (pc_hands cli)" "sc_stack_policy ?cfg = Reset" using fit by (simp_all add: seeds_fit_def)
  have "ok (sim_run next_u64 (\<lambda>_ _ w. w) (\<lambda>_ w. w) rules (run_hand gen_range seed_deck rank rules (tee_env stats_on_event ?env))
       (pc_hands cli) ?cfg (with_rng stacks rng) (players, stats_new (length stacks)))
     (\<lambda>(_, _, w). length (st_seats (snd w)) = length stacks
        \<and> sum_list (map (\<lambda>i. ss_chip_delta_total (st_seats (snd w) ! i)) [0..<length stacks]) = 0
        \<and> (\<forall>i < length stacks. ss_hands_dealt (st_seats (snd w) ! i) = pc_hands cli))"
    by (rule counted_table.fresh_run_totals [OF table seeds play pos]) (simp_all add: stats_new_def seat_stats_default_def)
  then have "ok (sim_run next_u64 (\<lambda>_ _ w. w) (\<lambda>_ w. w) rules (run_hand gen_range seed_deck rank rules (tee_env stats_on_event ?env))
       (pc_hands cli) ?cfg (with_rng stacks rng) (players, stats_new (length stacks)))
     (\<lambda>(_, _, w). fresh_totals stacks (pc_hands cli) (snd w))"
    by (simp add: fresh_totals_def)
  then show ?thesis
    using fresh_totals_seats by (fastforce simp: play_run_def no_log ok_def)
qed

text \<open>The file that training writes.\<close>

definition trained_file :: "'r mccfr_trainer \<Rightarrow> blueprint_file" where
  "trained_file tr = \<lparr>bf_schema_version = BLUEPRINT_SCHEMA_VERSION, bf_abstraction_tag = ABSTRACTION_TAG, bf_table = mt_table tr\<rparr>"


definition demo_train_cli :: train_cli where
  "demo_train_cli = \<lparr>tc_iters = 1000, tc_out = ''bp'', tc_train_seed = 5, tc_stacks = to_string 200 @ '','' @ to_string 200,
     tc_blinds = to_string 1 @ ''/'' @ to_string 2\<rparr>"

definition demo_play_cli :: play_cli where
  "demo_play_cli = \<lparr>pc_blueprint = ''bp'', pc_hands = 5000, pc_agents = join '','' (map play_label [PlayBlueprint, PlayCalling]),
     pc_stacks = join '','' (map to_string [200, 200]), pc_blinds = to_string 1 @ ''/'' @ to_string 2, pc_seed = 0, pc_log = None\<rparr>"

definition demo_trained :: blueprint_file where
  "demo_trained = trained_file (the (train first_card (\<lambda>_. ()) id (\<lambda>r. (1 / 3, r)) best_of_7 (no_limit_holdem 1 2 0) [200, 200] 5 1000
     (mccfr_trainer_new (\<lambda>_. ()) (5 :: 64 word))))"

lemma blind_pair_printed:
  assumes "sb < u32_lim" and "bb < u32_lim"
  shows "parse_blind_pair debug_str sep (to_string sb @ ''/'' @ to_string bb) = Inr (sb, bb)"
  using assms split_on_append [of "CHR ''/''" "to_string sb" "to_string bb"] split_on_word [of "CHR ''/''" "to_string bb"]
  by (simp add: parse_blind_pair_def parse_to_string)

lemma demo_train_parses:
  "train_parse_stacks id (tc_stacks demo_train_cli) = Inr (200, 200)" "train_parse_blinds id (tc_blinds demo_train_cli) = Inr (1, 2)"
  using split_on_append [of "CHR '',''" "to_string 200" "to_string 200"] split_on_word [of "CHR '',''" "to_string 200"]
    blind_pair_printed [of 1 2 id "'': ''"]
  by (simp_all add: train_parse_stacks_def train_parse_blinds_def demo_train_cli_def parse_to_string Let_def)

lemma play_label_no_comma: "CHR '','' \<notin> set (play_label spec)"
  by (cases spec) simp_all

lemma demo_play_parses: "play_setup id demo_play_cli = Inr ([PlayBlueprint, PlayCalling], [200, 200], 1, 2)"
proof -
  have "collect_results (map (play_parse id) (split_on (CHR '','') (pc_agents demo_play_cli))) = Inr [PlayBlueprint, PlayCalling]"
    unfolding demo_play_cli_def play_cli.simps
    by (rule split_list) (use play_label_no_comma play_spec_roundtrip in auto)
  moreover have "play_parse_stacks id (pc_stacks demo_play_cli) = Inr [200, 200]"
    unfolding demo_play_cli_def play_cli.simps play_parse_stacks_def
    by (rule split_list) (auto simp: parse_to_string)
  moreover have "play_parse_blinds id (pc_blinds demo_play_cli) = Inr (1, 2)"
    using blind_pair_printed [of 1 2 id "'' ''"] by (simp add: play_parse_blinds_def demo_play_cli_def)
  ultimately show ?thesis by (simp add: play_setup_def)
qed

interpretation demo_play: counted_table "no_limit_holdem 1 2 2"
  "run_hand first_card (\<lambda>_. ()) best_of_7 (no_limit_holdem 1 2 2)
     (tee_env stats_on_event (play_env id (\<lambda>r. (1 / 3, r)) last_choice (uniform_random_strategy id)))"
  "\<lambda>w. length (st_seats (snd w))" "\<lambda>w i. ss_chip_delta_total (st_seats (snd w) ! i)" "\<lambda>w i. ss_hands_dealt (st_seats (snd w) ! i)"
  by (rule tee_counted_table [OF engine_fair_table [OF players_responsive [OF uniform_plays [OF f32_rounding_id]] naive.hand_evaluator_axioms
        first_card_draws]]) (simp add: draws_below_def last_choice_def)


end
