(* ===== verification/MatchupProps.thy ===== *)
theory MatchupProps
  imports ReportProps Matchups
begin

text \<open>
  The dataset is complete and its logs replay: every matchup adds one row per hand and seat, the round robin pairs every
  persona with every other once, a log on disk yields the rows again, and the windowed view counts some rows twice.
\<close>

section \<open>Events and rows\<close>

text \<open>The rows of an event log know their seat, class and opponent.\<close>

definition row_of :: "string list \<Rightarrow> hand_stats \<Rightarrow> bool" where
  "row_of cls r \<longleftrightarrow> hx_seat r < length cls \<and> hx_own_class r = cls ! hx_seat r
     \<and> hx_opponents_sig r = opponents_signature cls (hx_seat r)"

lemma outcomes_rows:
  assumes "list_all (row_of cls) (ex_out x)"
  shows "list_all (row_of cls) (ex_out (fold (extract_outcome cls) outs x))"
  using assms
proof (induction outs arbitrary: x)
  case (Cons out outs)
  have "list_all (row_of cls) (ex_out (extract_outcome cls out x))"
    using Cons.prems by (simp add: extract_outcome_def Let_def) (simp add: row_of_def)
  then show ?case using Cons.IH by simp
qed simp

lemma events_rows:
  "list_all (row_of cls) (ex_out x) \<Longrightarrow> list_all (row_of cls) (ex_out (fold (extract_event cls) evs x))"
proof (induction evs arbitrary: x)
  case (Cons ev evs)
  have "list_all (row_of cls) (ex_out (extract_event cls ev x))"
    using Cons.prems outcomes_rows by (cases ev) simp_all
  then show ?case using Cons.IH by simp
qed simp

lemma extract_rows: "list_all (row_of cls) (extract_hand_stats evs cls)"
  by (simp add: extract_hand_stats_def events_rows extractor_new_def)

abbreviation seat_rows :: "nat \<Rightarrow> hand_stats list \<Rightarrow> hand_stats list" where
  "seat_rows i rows \<equiv> filter (\<lambda>r. hx_seat r = i) rows"

lemma outcomes_counted:
  assumes "i < length cls"
  shows "length (seat_rows i (ex_out (fold (extract_outcome cls) outs x)))
      = length (seat_rows i (ex_out x)) + length (filter (\<lambda>out. so_seat out = i \<and> \<not> so_sat_out out) outs)"
    and "sum_list (map hx_chip_delta (seat_rows i (ex_out (fold (extract_outcome cls) outs x))))
      = sum_list (map hx_chip_delta (seat_rows i (ex_out x)))
        + sum_list (map so_chip_delta (filter (\<lambda>out. so_seat out = i \<and> \<not> so_sat_out out) outs))"
  using assms by (induction outs arbitrary: x) (auto simp: extract_outcome_def Let_def)

lemma quiet_rows: "\<not> final_event ev \<Longrightarrow> ex_out (extract_event cls ev x) = ex_out x"
  by (cases ev) simp_all

definition rows_seen :: "string list \<Rightarrow> 'r bot_world \<Rightarrow> hand_stats list" where
  "rows_seen cls w = extract_hand_stats (bw_events w) cls"

interpretation matchup_rows: follower "bot_env gen_index gen_f below rk" "bot_env gen_index gen_f below rk"
  "\<lambda>w v. v = w \<and> rows_seen cls w = rs"
  for gen_index gen_f below rk cls rs
  by unfold_locales
    (auto simp: bot_env_def leads_def rows_seen_def extract_hand_stats_def vec_sink_on_event_def quiet_rows split: bind_splits)

interpretation matchup_tee: full_follower "bot_env gen_index gen_f below rk" "tee_env b (bot_env gen_index gen_f below rk)"
  "\<lambda>w p. fst p = w \<and> snd p = fold b (bw_events w) s"
  for gen_index gen_f below rk b s
  by unfold_locales
    (auto simp: bot_env_def tee_env_def leads_def vec_sink_on_event_def split: bind_splits)

lemma bot_hooks_events: "bw_events (fold (\<lambda>i. e_on_hand_end (bot_env gen_index gen_f32 below rank) i res) is w) = bw_events w"
  by (induction "is" arbitrary: w) (simp_all add: bot_env_def)

lemma matchup_hand_counts:
  assumes run: "run_hand gen_range seed_deck rank rules (bot_env gen_index gen_f32 below rank) h s stacks d None w = Some (res, w')"
    and fair: "fair_result h stacks res" and len: "length cls = length stacks"
  shows "\<forall>i < length stacks.
      sum_list (map hx_chip_delta (seat_rows i (rows_seen cls w')))
        = sum_list (map hx_chip_delta (seat_rows i (rows_seen cls w))) + delta_at (hr_seats res) i
      \<and> length (seat_rows i (rows_seen cls w')) = length (seat_rows i (rows_seen cls w)) + (if 0 < stacks ! i then 1 else 0)"
proof (intro allI impI)
  fix i assume i: "i < length stacks"
  let ?env = "bot_env gen_index gen_f32 below rank"
  obtain w0 where dealt_in: "\<forall>out \<in> set (hr_seats res). \<not> so_sat_out out" and w0: "rows_seen cls w0 = rows_seen cls w"
      and w': "w' = fold (\<lambda>i. e_on_hand_end ?env i res) [0..<length stacks] (e_sink ?env (HandEnded h res) w0)"
    using matchup_rows.run_hand_along [where w = w and v = w and rs = "rows_seen cls w" and cls = cls and gen_index = gen_index
        and gen_f = gen_f32 and below = below and rk = rank,
        of gen_range seed_deck rank rules h s stacks d None] run
    by (auto simp: leads_def)
  have "bw_events w' = bw_events w0 @ [HandEnded h res]"
    unfolding w' bot_hooks_events by (simp add: bot_env_def vec_sink_on_event_def)
  then have rows: "rows_seen cls w' = ex_out (fold (extract_outcome cls) (hr_seats res) (fold (extract_event cls) (bw_events w0) extractor_new))"
    by (simp add: rows_seen_def extract_hand_stats_def)
  have all: "filter (\<lambda>out. so_seat out = i \<and> \<not> so_sat_out out) (hr_seats res) = filter (\<lambda>out. so_seat out = i) (hr_seats res)"
    by (rule filter_cong) (use dealt_in in auto)
  have w0': "ex_out (fold (extract_event cls) (bw_events w0) extractor_new) = rows_seen cls w"
    using w0 by (simp add: rows_seen_def extract_hand_stats_def)
  show "sum_list (map hx_chip_delta (seat_rows i (rows_seen cls w')))
        = sum_list (map hx_chip_delta (seat_rows i (rows_seen cls w))) + delta_at (hr_seats res) i
      \<and> length (seat_rows i (rows_seen cls w')) = length (seat_rows i (rows_seen cls w)) + (if 0 < stacks ! i then 1 else 0)"
    unfolding rows using outcomes_counted [of i cls "hr_seats res"] i len all w0' seats_once [of "hr_seats res" stacks i] fair
    by (simp add: delta_at_def fair_result_def)
qed

lemma bots_counted_table:
  assumes "draws_below gen_index" and "draws_in_range gen_range" and "ranks_real_cards rank"
  shows "counted_table rules (run_hand gen_range seed_deck rank rules (bot_env gen_index gen_f32 below rank)) (\<lambda>_. length cls)
     (\<lambda>w i. sum_list (map hx_chip_delta (seat_rows i (rows_seen cls w)))) (\<lambda>w i. length (seat_rows i (rows_seen cls w)))"
proof (intro counted_table.intro counted_table_axioms.intro)
  show fair: "fair_table rules (run_hand gen_range seed_deck rank rules (bot_env gen_index gen_f32 below rank))"
    by (rule engine_fair_table [OF bots_responsive [OF assms(1,3)] ranks_real_cards_evaluator [OF assms(3)] assms(2)])
  fix stacks d h s and w w' :: "'a bot_world" and res
  assume play: "playable rules stacks d None"
    and run: "run_hand gen_range seed_deck rank rules (bot_env gen_index gen_f32 below rank) h s stacks d None w = Some (res, w')"
    and len: "length cls = length stacks"
  have "fair_result h stacks res"
    using fair_table.play_fair [OF fair play, of h s w] run by (simp add: ok_def)
  from matchup_hand_counts [OF run this len] len
  show "length cls = length stacks \<and> (\<forall>i < length stacks.
      sum_list (map hx_chip_delta (seat_rows i (rows_seen cls w')))
        = sum_list (map hx_chip_delta (seat_rows i (rows_seen cls w))) + delta_at (hr_seats res) i
      \<and> length (seat_rows i (rows_seen cls w')) = length (seat_rows i (rows_seen cls w)) + (if 0 < stacks ! i then 1 else 0))"
    by blast
qed

section \<open>A matchup\<close>

definition machine_ok :: "('q, 'r, 'f, 'g) machine \<Rightarrow> bool" where
  "machine_ok m \<longleftrightarrow> draws_below (mc_gen_index m) \<and> draws_in_range (mc_gen_range m) \<and> ranks_real_cards (mc_rank m)
     \<and> (\<forall>ev. serializes (mc_to_vec m) ev) \<and> (\<forall>path. \<exists>room. mc_create m path = Inr room)"

definition known_personas :: "string list" where
  "known_personas = [''nit'', ''tag'', ''lag'', ''maniac'', ''tilt'']"

lemma build_known: "p \<in> set known_personas \<Longrightarrow> \<exists>b. build_agent debug_str seed p s = Inr b"
  by (auto simp: known_personas_def build_agent_def)

text \<open>The rows of one matchup: one per hand and seat, chips that add up to nothing.\<close>

definition matchup_rows_ok :: "nat \<Rightarrow> string \<Rightarrow> string \<Rightarrow> hand_stats list \<Rightarrow> bool" where
  "matchup_rows_ok hands a b new \<longleftrightarrow> list_all (row_of [a, b]) new
     \<and> length (seat_rows 0 new) = hands \<and> length (seat_rows 1 new) = hands
     \<and> sum_list (map hx_chip_delta new) = 0"

lemma two_seats:
  assumes "list_all (row_of [a, b]) rows"
  shows "length (filter P rows) = length (filter P (seat_rows 0 rows)) + length (filter P (seat_rows 1 rows))"
    and "sum_list (map f rows) = sum_list (map f (seat_rows 0 rows)) + (sum_list (map f (seat_rows 1 rows)) :: int)"
  using assms by (induction rows) (auto simp: row_of_def less_Suc_eq)

lemma matchup_playable:
  assumes "0 < stack" and "0 < sb" and "sb \<le> bb" and "8 * (2 * stack + bb) < u32_lim"
  shows "playable (no_limit_holdem sb bb 2) [stack, stack] 0 None"
  using assms by (simp add: playable_def no_limit_holdem_def plays_def upt_rec nth_Cons')

lemma matchup_runs:
  assumes m: "machine_ok m" and play: "playable rules [stack, stack] 0 None" and fit: "unat seed + hands \<le> 2 ^ 64"
  shows "\<exists>w. matchup_run m rules hands seed stack (machine_env m) (matchup_world x y) = Some w
     \<and> matchup_rows_ok hands a b (extract_hand_stats (bw_events w) [a, b])"
proof -
  let ?play = "run_hand (mc_gen_range m) (mc_seed_deck m) (mc_rank m) rules (machine_env m)"
  let ?config = "\<lparr>sc_seed = Sequential seed, sc_stack_policy = Reset\<rparr>"
  have table: "counted_table rules ?play (\<lambda>_. length [a, b])
     (\<lambda>w i. sum_list (map hx_chip_delta (seat_rows i (rows_seen [a, b] w)))) (\<lambda>w i. length (seat_rows i (rows_seen [a, b] w)))"
    unfolding machine_env_def by (rule bots_counted_table) (use m in \<open>simp_all add: machine_ok_def\<close>)
  have seeds: "seeds_fit (sc_seed ?config) hands" "sc_stack_policy ?config = Reset" using fit by (simp_all add: seeds_fit_def)
  have pos: "list_all (\<lambda>s. 0 < s) [stack, stack]" using play by (auto simp: playable_def split: if_splits)
  have none: "rows_seen [a, b] (matchup_world x y) = []"
    by (simp add: rows_seen_def matchup_world_def extract_hand_stats_def extractor_new_def)
  have "ok (sim_run (mc_next_u64 m) (\<lambda>_ _ w. w) (\<lambda>_ w. w) rules ?play hands ?config (with_rng [stack, stack] (mc_rng m)) (matchup_world x y))
     (\<lambda>(_, _, w). length [a, b] = length [stack, stack]
        \<and> sum_list (map (\<lambda>i. sum_list (map hx_chip_delta (seat_rows i (rows_seen [a, b] w)))) [0..<length [stack, stack]]) = 0
        \<and> (\<forall>i < length [stack, stack]. length (seat_rows i (rows_seen [a, b] w)) = hands))"
    by (rule counted_table.fresh_run_totals [OF table seeds play pos]) (simp_all add: none)
  then obtain w where "matchup_run m rules hands seed stack (machine_env m) (matchup_world x y) = Some w"
      "length (seat_rows 0 (rows_seen [a, b] w)) = hands" "length (seat_rows 1 (rows_seen [a, b] w)) = hands"
      "sum_list (map hx_chip_delta (seat_rows 0 (rows_seen [a, b] w))) + sum_list (map hx_chip_delta (seat_rows 1 (rows_seen [a, b] w))) = 0"
    by (auto simp: ok_def matchup_run_def upt_rec numeral_2_eq_2 less_Suc_eq)
  then show ?thesis
    using two_seats(2) [OF extract_rows [of "[a, b]" "bw_events w"], of hx_chip_delta] extract_rows [of "[a, b]" "bw_events w"]
    by (auto simp: matchup_rows_ok_def rows_seen_def)
qed

text \<open>Teeing the events into a file does not change a matchup.\<close>

lemma matchup_teed:
  assumes "matchup_run m rules hands seed stack (machine_env m) (matchup_world x y) = Some w"
  shows "matchup_run m rules hands seed stack (tee_env b (machine_env m)) (matchup_world x y, s) = Some (w, fold b (bw_events w) s)"
proof -
  have "plays_alike (\<lambda>w p. fst p = w \<and> snd p = fold b (bw_events w) s)
      (run_hand (mc_gen_range m) (mc_seed_deck m) (mc_rank m) rules (machine_env m))
      (run_hand (mc_gen_range m) (mc_seed_deck m) (mc_rank m) rules (tee_env b (machine_env m)))"
    unfolding plays_alike_def machine_env_def by (intro allI impI, rule matchup_tee.run_hand_related)
  from sim_run_alike [OF this, where w = "matchup_world x y" and v = "(matchup_world x y, s)"] assms
  show ?thesis
    by (fastforce simp: matchup_run_def leads_def runs_alike_def matchup_world_def)
qed

lemma fold_file_sink_None: "fold (file_sink_step to_vec cap) evs None = None"
  by (induction evs) (simp_all add: file_sink_step_def)

lemma fold_file_sink:
  "fold (file_sink_step to_vec cap) evs (Some s) = for_each evs (file_sink_on_event to_vec cap) s"
proof (induction evs arbitrary: s)
  case (Cons ev evs)
  have step: "file_sink_step to_vec cap ev (Some s) = file_sink_on_event to_vec cap ev s" by (simp add: file_sink_step_def)
  show ?case
    using Cons by (cases "file_sink_on_event to_vec cap ev s") (simp_all add: step fold_file_sink_None)
qed simp

text \<open>A matchup of known personas, with or without a log.\<close>

lemma run_matchup_ok:
  assumes m: "machine_ok m" and play: "playable rules [stack, stack] 0 None" and fit: "unat seed + hands \<le> 2 ^ 64"
    and known: "a \<in> set known_personas" "b \<in> set known_personas"
  shows "\<exists>events. matchup_rows_ok hands a b (extract_hand_stats events [a, b])
     \<and> run_matchup m hands stack rules None a b seed (rows, files) = Some (Inr (rows @ extract_hand_stats events [a, b], files))
     \<and> (\<forall>dir room. mc_create m (log_path dir a b) = Inr room \<longrightarrow>
          run_matchup m hands stack rules (Some dir) a b seed (rows, files) = Some (Inr (rows @ extract_hand_stats events [a, b],
            files(log_path dir a b \<mapsto> take room (log_bytes (mc_to_vec m) events)))))"
proof -
  obtain x where x: "build_agent (mc_debug_str m) (mc_seed_agent m) a (seed * 31 + 0) = Inr x"
    using build_known [OF known(1)] by blast
  obtain y where y: "build_agent (mc_debug_str m) (mc_seed_agent m) b (seed * 31 + 1) = Inr y"
    using build_known [OF known(2)] by blast
  obtain w where w: "matchup_run m rules hands seed stack (machine_env m) (matchup_world x y) = Some w"
      "matchup_rows_ok hands a b (extract_hand_stats (bw_events w) [a, b])"
    using matchup_runs [OF m play fit] by blast
  have enc: "list_all (serializes (mc_to_vec m)) (bw_events w)"
    using m by (simp add: machine_ok_def list_all_iff)
  have "run_matchup m hands stack rules (Some dir) a b seed (rows, files) = Some (Inr (rows @ extract_hand_stats (bw_events w) [a, b],
            files(log_path dir a b \<mapsto> take room (log_bytes (mc_to_vec m) (bw_events w)))))"
    if room: "mc_create m (log_path dir a b) = Inr room" for dir room
  proof -
    obtain s where s: "for_each (bw_events w) (file_sink_on_event (mc_to_vec m) (mc_cap m)) (file_sink_create room) = Some s"
        "holds room (log_bytes (mc_to_vec m) (bw_events w)) s"
      using holds_events [OF holds_create enc, where cap = "mc_cap m" and k = room] by auto
    have "matchup_run m rules hands seed stack (tee_env (file_sink_step (mc_to_vec m) (mc_cap m)) (machine_env m))
        (matchup_world x y, Some (file_sink_create room)) = Some (w, Some s)"
      unfolding matchup_teed [OF w(1)] fold_file_sink s(1) ..
    then show ?thesis
      unfolding run_matchup_def split x y Let_def sum.case option.case room by (simp add: dropped_file [OF s(2)])
  qed
  moreover have "run_matchup m hands stack rules None a b seed (rows, files) = Some (Inr (rows @ extract_hand_stats (bw_events w) [a, b], files))"
    unfolding run_matchup_def split x y Let_def sum.case option.case w(1) by simp
  ultimately show ?thesis using w(2) by blast
qed

text \<open>
  The log of a matchup replays: when \<open>--out\<close> is given, the disk has room and no event takes \<open>2 ^ 32\<close> bytes, the
  rows are those of the run without a log, the only file written is \<open><a>_vs_<b>.mp\<close>, and \<open>read_event_log\<close> returns the
  events the rows were extracted from, so the rows can be extracted from the file again.
\<close>

lemma matchup_log_replays:
  assumes "machine_ok m" and "codec_ok (mc_to_vec m) from_slice" and "playable rules [stack, stack] 0 None"
    and "unat seed + hands \<le> 2 ^ 64" and "a \<in> set known_personas" and "b \<in> set known_personas"
  shows "\<exists>events. run_matchup m hands stack rules None a b seed (rows, files) = Some (Inr (rows @ extract_hand_stats events [a, b], files))
     \<and> (\<forall>dir room. mc_create m (log_path dir a b) = Inr room \<longrightarrow> length (log_bytes (mc_to_vec m) events) \<le> room \<longrightarrow>
          list_all (encodable (mc_to_vec m)) events \<longrightarrow>
          (\<exists>bytes. run_matchup m hands stack rules (Some dir) a b seed (rows, files)
              = Some (Inr (rows @ extract_hand_stats events [a, b], files(log_path dir a b \<mapsto> bytes)))
            \<and> read_event_log from_slice \<lparr>rd_bytes = bytes, rd_end = None\<rparr> = Inr events))"
proof -
  obtain events where ev: "run_matchup m hands stack rules None a b seed (rows, files) = Some (Inr (rows @ extract_hand_stats events [a, b], files))"
      "\<And>dir room. mc_create m (log_path dir a b) = Inr room \<Longrightarrow>
          run_matchup m hands stack rules (Some dir) a b seed (rows, files) = Some (Inr (rows @ extract_hand_stats events [a, b],
            files(log_path dir a b \<mapsto> take room (log_bytes (mc_to_vec m) events))))"
    using run_matchup_ok [OF assms(1,3-6)] by blast
  show ?thesis
  proof (intro exI conjI allI impI)
    show "run_matchup m hands stack rules None a b seed (rows, files) = Some (Inr (rows @ extract_hand_stats events [a, b], files))"
      by (rule ev(1))
    fix dir room assume room: "mc_create m (log_path dir a b) = Inr room" "length (log_bytes (mc_to_vec m) events) \<le> room"
      and enc: "list_all (encodable (mc_to_vec m)) events"
    show "run_matchup m hands stack rules (Some dir) a b seed (rows, files) = Some (Inr (rows @ extract_hand_stats events [a, b],
            files(log_path dir a b \<mapsto> take room (log_bytes (mc_to_vec m) events))))"
      by (rule ev(2) [OF room(1)])
    show "read_event_log from_slice \<lparr>rd_bytes = take room (log_bytes (mc_to_vec m) events), rd_end = None\<rparr> = Inr events"
      unfolding read_cut_log [OF assms(2) enc] by (rule whole_log [OF room(2)])
  qed
qed

section \<open>The round robin\<close>

lemma matchup_pairs_set: "set (matchup_pairs n) = {(i, j). i < j \<and> j < n}"
  by (force simp: matchup_pairs_def)

lemma matchup_pairs_distinct: "distinct (matchup_pairs n)"
  unfolding matchup_pairs_def
  by (rule distinct_concat) (auto simp: distinct_map inj_on_def dest!: arg_cong [where f = length])

lemma pairs_with:
  assumes "i < n"
  shows "length (filter (\<lambda>p. fst p = i \<or> snd p = i) (matchup_pairs n)) = n - 1"
proof -
  let ?f = "\<lambda>j. if j < i then (j, i) else (i, j)"
  have "length (filter (\<lambda>p. fst p = i \<or> snd p = i) (matchup_pairs n)) = card {p \<in> set (matchup_pairs n). fst p = i \<or> snd p = i}"
    using distinct_length_filter [OF matchup_pairs_distinct] by (simp add: Int_def conj_commute)
  also have "{p \<in> set (matchup_pairs n). fst p = i \<or> snd p = i} = ?f ` ({..<n} - {i})"
    using assms by (auto simp: matchup_pairs_set image_iff split: if_splits)
  also have "card \<dots> = n - 1"
    using assms by (subst card_image) (auto simp: inj_on_def split: if_splits)
  finally show ?thesis .
qed

lemma class_rows:
  assumes ok: "matchup_rows_ok hands a b new" and "a \<noteq> b"
  shows "length (filter (\<lambda>r. hx_own_class r = p) new) = (if p = a \<or> p = b then hands else 0)"
proof -
  have rows: "list_all (row_of [a, b]) new" using ok by (simp add: matchup_rows_ok_def)
  have "filter (\<lambda>r. hx_own_class r = p) (seat_rows 0 new) = (if p = a then seat_rows 0 new else [])"
    "filter (\<lambda>r. hx_own_class r = p) (seat_rows 1 new) = (if p = b then seat_rows 1 new else [])"
    using rows by (auto simp: filter_empty_conv list_all_iff row_of_def intro!: filter_cong)
  then show ?thesis
    using two_seats(1) [OF rows, of "\<lambda>r. hx_own_class r = p"] ok assms(2) by (auto simp: matchup_rows_ok_def)
qed

lemma matchup_length: "matchup_rows_ok hands a b new \<Longrightarrow> length new = 2 * hands"
  using two_seats(1) [of a b new "\<lambda>_. True"] by (simp add: matchup_rows_ok_def)

lemma round_robin_ok:
  assumes m: "machine_ok m" and play: "playable rules [stack, stack] 0 None" and known: "set personas \<subseteq> set known_personas"
    and distinct: "distinct personas"
    and ps: "\<And>p. p \<in> set ps \<Longrightarrow> fst p < snd p \<and> snd p < length personas \<and> unat (matchup_seed base (length personas) p) + hands \<le> 2 ^ 64"
  shows "\<exists>new files'. round_robin m hands stack rules out_dir personas base ps (rows, files) = Some (Inr (rows @ new, files'))
     \<and> length new = 2 * hands * length ps \<and> sum_list (map hx_chip_delta new) = 0
     \<and> (\<forall>i < length personas. length (filter (\<lambda>r. hx_own_class r = personas ! i) new)
          = hands * length (filter (\<lambda>p. fst p = i \<or> snd p = i) ps))"
  using ps
proof (induction ps arbitrary: rows files)
  case Nil
  then show ?case by simp
next
  case (Cons p ps)
  let ?a = "personas ! fst p" and ?b = "personas ! snd p" and ?seed = "matchup_seed base (length personas) p"
  have p: "fst p < snd p" "snd p < length personas" "unat ?seed + hands \<le> 2 ^ 64" using Cons.prems [of p] by auto
  have ab: "?a \<in> set known_personas" "?b \<in> set known_personas" using known p(1,2) by (auto simp: subset_iff)
  obtain events where ev: "matchup_rows_ok hands ?a ?b (extract_hand_stats events [?a, ?b])"
     "run_matchup m hands stack rules None ?a ?b ?seed (rows, files) = Some (Inr (rows @ extract_hand_stats events [?a, ?b], files))"
     "\<And>dir room. mc_create m (log_path dir ?a ?b) = Inr room \<Longrightarrow>
        run_matchup m hands stack rules (Some dir) ?a ?b ?seed (rows, files) = Some (Inr (rows @ extract_hand_stats events [?a, ?b],
            files(log_path dir ?a ?b \<mapsto> take room (log_bytes (mc_to_vec m) events))))"
    using run_matchup_ok [OF m play p(3) ab] by blast
  define new where "new = extract_hand_stats events [?a, ?b]"
  obtain files1 where run: "run_matchup m hands stack rules out_dir ?a ?b ?seed (rows, files) = Some (Inr (rows @ new, files1))"
  proof (cases out_dir)
    case None
    then show ?thesis using that ev(2) by (simp add: new_def)
  next
    case (Some dir)
    obtain room where "mc_create m (log_path dir ?a ?b) = Inr room" using m by (auto simp: machine_ok_def)
    from ev(3) [OF this] show ?thesis using that Some by (simp add: new_def)
  qed
  obtain rest files' where rest: "round_robin m hands stack rules out_dir personas base ps (rows @ new, files1) = Some (Inr ((rows @ new) @ rest, files'))"
      "length rest = 2 * hands * length ps" "sum_list (map hx_chip_delta rest) = 0"
      "\<And>i. i < length personas \<Longrightarrow> length (filter (\<lambda>r. hx_own_class r = personas ! i) rest) = hands * length (filter (\<lambda>p. fst p = i \<or> snd p = i) ps)"
    using Cons.IH [of "rows @ new" files1] Cons.prems by auto
  have ne: "?a \<noteq> ?b" using distinct p(1,2) by (simp add: nth_eq_iff_index_eq)
  have "length (filter (\<lambda>r. hx_own_class r = personas ! i) new) = (if fst p = i \<or> snd p = i then hands else 0)"
    if "i < length personas" for i
    using class_rows [OF ev(1) ne, of "personas ! i"] distinct p(1,2) that by (auto simp: new_def nth_eq_iff_index_eq)
  then show ?case
    using run rest matchup_length [OF ev(1)] ev(1)
    by (intro exI [of _ "new @ rest"] exI [of _ files'])
      (auto simp: new_def matchup_rows_ok_def algebra_simps)
qed


definition demo_machine :: "(unit, unit, nat, unit) machine" where
  "demo_machine = \<lparr>mc_gen_range = first_card, mc_seed_deck = (\<lambda>_. ()), mc_seed_agent = (\<lambda>_. ()), mc_gen_index = last_choice,
     mc_gen_f32 = (\<lambda>r. (50, r)), mc_below = (\<lambda>x p. x < p), mc_rank = rs_rank_cards Some (\<lambda>_. RsHighCard 0),
     mc_next_u64 = (\<lambda>g. (0, g)), mc_rng = (), mc_debug_str = id, mc_to_vec = (\<lambda>_. Inr [7]), mc_cap = 8192,
     mc_mkdir = (\<lambda>_. None), mc_create = (\<lambda>_. Inr 1000)\<rparr>"

lemma demo_machine_ok: "machine_ok demo_machine"
  by (simp add: machine_ok_def demo_machine_def draws_below_def last_choice_def first_card_draws rs_ranks_real serializes_def)

interpretation demo_matchups: counted_table "no_limit_holdem 1 2 2"
  "run_hand first_card (\<lambda>_. ()) (rs_rank_cards Some (\<lambda>_. RsHighCard 0)) (no_limit_holdem 1 2 2)
     (bot_env last_choice (\<lambda>r. (50 :: nat, r)) (\<lambda>x p. x < p) (rs_rank_cards Some (\<lambda>_. RsHighCard 0)))" "\<lambda>_. length [''nit'', ''tag'']"
  "\<lambda>w i. sum_list (map hx_chip_delta (seat_rows i (rows_seen [''nit'', ''tag''] w)))"
  "\<lambda>w i. length (seat_rows i (rows_seen [''nit'', ''tag''] w))"
  by (rule bots_counted_table) (simp_all add: draws_below_def last_choice_def first_card_draws rs_ranks_real)


section \<open>Pooled windows\<close>

text \<open>
  \<open>print_windowed\<close> shows the rows of a persona in a span of hands once for each of its windows that start there, and it
  has one for every seat it played from: a persona that sat on both sides is shown with twice its rows.
\<close>

lemma pooled_rows_multiply:
  "length (pooled_rows rows window p series start)
   = length (filter (\<lambda>win. wr_window_start win = start) series)
     * length (filter (\<lambda>r. hx_own_class r = p \<and> start \<le> hx_hand_id r \<and> hx_hand_id r < start + window) rows)"
  by (induction series) (simp_all add: pooled_rows_def)

end
