(* ===== verification/Spec2Isabelle.thy ===== *)
theory Spec2Isabelle
  imports EngineProps TableHand TableView SessionProps NativeProps Headless PlayTrain MatchupProps
begin

text \<open>
  A verification development of a poker system written in Rust: the engine that plays hands of no-limit hold'em, its
  agents, the server that lets people play over the network, the client, the simulator, and the trainer of a blueprint
  strategy.  Paths below are under \<open>src/crates\<close>.

  How the parts interact.  \<open>Engine::run_hand\<close> plays one hand: it asks agents for actions and tells sinks and agents
  what happens.  A simulation, a report, a dataset, a training run and a server table all run hands of this one engine,
  with different agents and sinks.  At the server each seat is a \<open>RemoteAgent\<close> that prompts a connection; sessions read
  the messages of clients, which answer prompts, join and leave tables; the registry keeps accounts and finished hands.
  On the other side the client core turns messages and intents into a view and effects, and a transport carries them.

  Which theory models what:

  \<^item> \<open>Prelude\<close>: checked arithmetic of Rust, indexing, the postconditions \<open>ok\<close> with the rules \<open>wp\<close>, sums over
    seats (\<open>chips\<close>); \<open>StdText\<close>: the text functions of the standard library.
  \<^item> Engine (\<open>poker-engine/src\<close>).  \<open>Cards\<close>: \<open>core/card.rs\<close>, \<open>deck.rs\<close>, \<open>hand_rank.rs\<close>.  \<open>Game\<close>: the data of a hand
    in \<open>game/\<close>.  \<open>PotCalc\<close>: \<open>game/pot_calc.rs\<close>.  \<open>Engine\<close>: \<open>game/engine.rs\<close>.  \<open>EngineInv\<close>, \<open>Betting\<close>, \<open>Dealing\<close>,
    \<open>Showdown\<close>, \<open>Hand\<close>: the invariant of a hand, that betting ends, and that a hand accounts for every chip.
    \<open>Evaluator\<close>: \<open>core/evaluator.rs\<close> with its specification.  \<open>Preflop\<close>, \<open>Agents\<close>, \<open>AgentWorld\<close>: hand classes,
    the shipped agents and tables of them.  \<open>EngineProps\<close>: properties of single decisions and rounds.
    \<open>Tree\<close>, \<open>TreeInv\<close>: the stepper \<open>game/tree.rs\<close>.  \<open>EnvSim\<close>: what a hand takes from its surroundings, and teed sinks.
    \<open>EventLog\<close>: logs on disk (\<open>game/event.rs\<close>).  \<open>Stats\<close>, \<open>Sim\<close>: the counters and the runner.  \<open>Human\<close>: the agent on a
    terminal.  \<open>Report\<close>, \<open>ReportProps\<close>: rates, the printed report and the program \<open>main.rs\<close>.
  \<^item> Protocol.  \<open>Protocol\<close>: \<open>net/\<close> and \<open>poker-server/src/wire.rs\<close>.
  \<^item> Server (\<open>poker-server/src\<close>).  \<open>Connection\<close>: \<open>connection.rs\<close>, \<open>remote_agent.rs\<close>.  \<open>ServerTable\<close>, \<open>TableInv\<close>,
    \<open>TableView\<close>, \<open>TableHand\<close>: \<open>table.rs\<close>, its invariant, what players see, and the engine run on it.
    \<open>Registry\<close>, \<open>RegistryInv\<close>: \<open>registry.rs\<close>.  \<open>Session\<close>, \<open>ServerInv\<close>, \<open>SessionProps\<close>: \<open>session.rs\<close>, \<open>limits.rs\<close>,
    the invariant of the whole server and what messages can do to it.
  \<^item> Clients.  \<open>ClientCore\<close>: \<open>poker-client-core\<close>.  \<open>Transport\<close>, \<open>TransportProps\<close>: channels, the TCP pump and the
    transport in memory.  \<open>NativeClient\<close>, \<open>NativeProps\<close>: \<open>poker-client-transport-native\<close>.  \<open>Headless\<close>:
    \<open>poker-client-headless\<close>.
  \<^item> Trainer (\<open>poker-trainer/src\<close>).  \<open>Dataset\<close>: \<open>dataset/mod.rs\<close>.  \<open>Solver\<close>, \<open>Mccfr\<close>: \<open>solver/\<close>.  \<open>Matchups\<close>,
    \<open>MatchupProps\<close>: \<open>bin/poker_dataset.rs\<close>.  \<open>PlayTrain\<close>: \<open>bin/poker_train.rs\<close> and \<open>bin/poker_play.rs\<close>.

  Conventions.  A struct is a record with a short prefix on its fields, an enum a datatype.  \<open>None\<close> in the option monad
  is a panic or a loop that does not end; errors of the program are values of sums.  A debug assertion is a step that may
  panic.  Chips are naturals with checked \<open>u32\<close> operations; \<open>u64\<close> and \<open>i64\<close> totals that cannot be reached one by one are
  unbounded, as each theory says; code on bits is code on words.  \<open>f32\<close> and \<open>f64\<close> are reals with a rounding parameter.
  A string is its UTF-8 bytes.  Trait objects are a record of functions over a world \<open>'w\<close> (\<open>env\<close>).  Crates that are not
  part of the repository are parameters: random generators, \<open>rs_poker\<close>, MessagePack and JSON, argon2, the database,
  channels' scheduling, the texts of decimals and of \<open>Debug\<close>; a property that relies on one names what it relies on.
  At the server, shared objects live in a store under addresses, each critical section is one step, and tasks interleave
  in any order.

  Interfaces.  \<open>responsive\<close> (agents answer and do not check while they owe), \<open>hand_evaluator\<close> (seven cards have a rank)
  and their sum \<open>hand_players\<close> are what a hand needs; calling stations, every line-up of shipped agents, remote players,
  players of a blueprint, the naive and the \<open>rs_poker\<close> evaluator provide them.  \<open>fair_table\<close> (every hand settles)
  and \<open>counted_table\<close> (and is counted) are what runs of hands need.  \<open>follower\<close> and \<open>full_follower\<close> relate two environments of
  the same hand.  \<open>transport\<close> and \<open>reporting_transport\<close> are what the native client needs from a connection; the TCP pump and
  the transport in memory provide them.

  What is shown, in groups: hands end, keep every chip and pay the right seats, for any agents that answer, and for any
  schedule of the sessions at a server table; the evaluator refines its specification; pots are cut right; the stepper, the
  simulator, the statistics, the dataset and the logs agree with the engine; the server, its tables and its registry keep
  their invariants in every interleaving; private cards stay private; clients follow the core in every interleaving; frames,
  logs, keys, accounts and archived hands are read back as written; training ends and what it saved can be played.
  Theorems of kind \<open>error\<close> show what the code does where it does not do what it means to.

  Bounds.  A hand is playable when its chips with the blinds stay below \<open>2 ^ 32 / 8\<close>, which the arithmetic of the engine
  needs, and at most 23 seats are dealt from one deck.  Loops that need not end are partial functions with a separate proof
  that they return: the betting loop by the chips behind and the seats still to act, the traversal of the trainer by the
  rank of its tree.  No fuel is used.

  Not modelled: start-up of the processes (\<open>poker-server/src/main.rs\<close>, \<open>db.rs\<close>: environment, sockets, migrations, tasks to
  spawn), the parsing of options by \<open>clap\<close> (options arrive as records), logging and progress output, wall-clock time other
  than deadlines, memory exhaustion, and the atomics below the granularity of a critical section.  Tests and benchmarks
  are not modelled either.
\<close>

end
